(* ===== verification/Prelude.thy ===== *)
theory Prelude
  imports Main "HOL-Library.Word" "HOL-Library.Monad_Syntax"
begin

text \<open>
  Shared vocabulary of the development: the machine types of the i386 target, the status codes
  of \<^verbatim>\<open>include/types/status.h\<close>, dereferencing of typed stores, and the interface of the kernel
  heap (\<^verbatim>\<open>kmalloc\<close>/\<^verbatim>\<open>kfree\<close>) that the pointer structures are written against.

  A result of type \<^typ>\<open>'a option\<close> is the outcome of running C code: \<^term>\<open>None\<close> is a run that
  does not return normally (a fault, such as a NULL or dangling dereference, or an endless loop).
\<close>

section \<open>Machine types\<close>

type_synonym u8 = "8 word"
type_synonym u16 = "16 word"
type_synonym u32 = "32 word"
type_synonym ptr = u32
type_synonym physaddr_t = u32

abbreviation NULL :: ptr where "NULL \<equiv> 0"

named_theorems store_simps "evaluation of typed stores"
named_theorems frame_simps "what an operation leaves unchanged"

section \<open>Status codes\<close>

text \<open>\<^verbatim>\<open>error_t\<close>: the C enumeration numbers its constants from 0, in this order.\<close>

datatype error_t =
    ENONE | ENULLPTR | EOUTOFBOUNDS | EINVALIDARG | ENOMEM | ENOTPRESENT
  | EDOESNTEXIST | EEXISTS | ENOSYSCALL | EPERM | EBUSY | EEXITED

fun error_code :: "error_t \<Rightarrow> u32" where
  "error_code ENONE = 0"
| "error_code ENULLPTR = 1"
| "error_code EOUTOFBOUNDS = 2"
| "error_code EINVALIDARG = 3"
| "error_code ENOMEM = 4"
| "error_code ENOTPRESENT = 5"
| "error_code EDOESNTEXIST = 6"
| "error_code EEXISTS = 7"
| "error_code ENOSYSCALL = 8"
| "error_code EPERM = 9"
| "error_code EBUSY = 10"
| "error_code EEXITED = 11"

lemma error_code_inject [simp]: "error_code e = error_code e' \<longleftrightarrow> e = e'"
  by (cases e; cases e') simp_all

lemma error_code_zero [simp]: "error_code e = 0 \<longleftrightarrow> e = ENONE"
  by (cases e) simp_all

section \<open>Typed stores\<close>

text \<open>
  A store maps the address of each live object of one C type to its contents. Reading through
  NULL or through an address that holds no such object faults.
\<close>

type_synonym 'n store = "ptr \<Rightarrow> 'n option"

definition deref :: "'n store \<Rightarrow> ptr \<Rightarrow> 'n option" where
  "deref h p = (if p = NULL then None else h p)"

lemma deref_null [simp]: "deref h NULL = None"
  by (simp add: deref_def)

lemma deref_Some [simp]: "deref h p = Some n \<longleftrightarrow> p \<noteq> NULL \<and> h p = Some n"
  by (simp add: deref_def)

lemma deref_nonnull [simp]: "p \<noteq> NULL \<Longrightarrow> deref h p = h p"
  by (simp add: deref_def)

text \<open>Two stores that differ at most on a set of addresses: the frame of an operation.\<close>

definition same_off :: "ptr set \<Rightarrow> 'n store \<Rightarrow> 'n store \<Rightarrow> bool" where
  "same_off X h h' \<longleftrightarrow> (\<forall>q. q \<notin> X \<longrightarrow> h' q = h q)"

lemma same_off_refl [simp]: "same_off X h h"
  by (simp add: same_off_def)

lemma same_offD: "same_off X h h' \<Longrightarrow> q \<notin> X \<Longrightarrow> h' q = h q"
  by (simp add: same_off_def)

lemma same_off_upd: "same_off X h h' \<Longrightarrow> p \<in> X \<Longrightarrow> same_off X h (h'(p := x))"
  by (auto simp: same_off_def)

lemma same_off_trans: "same_off X h h' \<Longrightarrow> same_off Y h' h'' \<Longrightarrow> X \<union> Y \<subseteq> Z \<Longrightarrow> same_off Z h h''"
  unfolding same_off_def by (metis Un_iff subset_iff)

lemma same_off_mono: "same_off X h h' \<Longrightarrow> X \<subseteq> Z \<Longrightarrow> same_off Z h h'"
  by (auto simp: same_off_def)

section \<open>Arrays\<close>

text \<open>Reading and writing a C array of known length; outside of it the access faults.\<close>

definition arr_get :: "'a list \<Rightarrow> nat \<Rightarrow> 'a option" where
  "arr_get xs i = (if i < length xs then Some (xs ! i) else None)"

definition arr_set :: "'a list \<Rightarrow> nat \<Rightarrow> 'a \<Rightarrow> 'a list option" where
  "arr_set xs i x = (if i < length xs then Some (xs[i := x]) else None)"

lemma arr_get_in [simp]: "i < length xs \<Longrightarrow> arr_get xs i = Some (xs ! i)"
  by (simp add: arr_get_def)

lemma arr_set_in [simp]: "i < length xs \<Longrightarrow> arr_set xs i x = Some (xs[i := x])"
  by (simp add: arr_set_def)

section \<open>The kernel heap as its clients see it\<close>

text \<open>
  \<^term>\<open>km A a n\<close> is \<^verbatim>\<open>kmalloc(n)\<close> run in allocator state \<open>a\<close>: the new state and the address,
  NULL when no block could be had. \<^term>\<open>kf A a p\<close> is \<^verbatim>\<open>kfree(p)\<close>. The theory of
  \<^verbatim>\<open>heap.c\<close> supplies the kernel's own instance.
\<close>

record 'a allocator =
  km :: "'a \<Rightarrow> u32 \<Rightarrow> ('a \<times> ptr) option"
  kf :: "'a \<Rightarrow> ptr \<Rightarrow> 'a"

text \<open>
  The contract of \<^verbatim>\<open>include/heap.h\<close>: a block that is handed out is not one that is still in use,
  and only freeing a block ends its use. \<open>live a\<close> holds the addresses in use; a failing
  \<^verbatim>\<open>kmalloc\<close> may leave further blocks reserved.
\<close>

locale kernel_heap =
  fixes A :: "'a allocator"
    and live :: "'a \<Rightarrow> ptr set"
  assumes km_fresh: "km A a n = Some (a', p) \<Longrightarrow> p \<noteq> NULL \<Longrightarrow> p \<notin> live a \<and> insert p (live a) \<subseteq> live a'"
    and km_null: "km A a n = Some (a', NULL) \<Longrightarrow> live a \<subseteq> live a'"
    and kf_live: "live a - {p} \<subseteq> live (kf A a p)"
begin

lemma km_live: "km A a n = Some (a', p) \<Longrightarrow> live a \<subseteq> live a'"
  using km_fresh km_null by (cases "p = NULL") blast+

lemma km_fresh_disjoint:
  assumes "km A a n = Some (a', p)" "p \<noteq> NULL" "X \<subseteq> live a"
  shows "p \<notin> X" "insert p X \<subseteq> live a'"
  using km_fresh [OF assms(1,2)] assms(3) by auto

end

text \<open>
  A concrete heap that meets the contract, for evaluating examples: blocks of 64 bytes handed out in
  ascending order, none ever reused, NULL once the address space is used up.
\<close>

definition bump_alloc :: "u32 allocator" where
  "bump_alloc = \<lparr>km = (\<lambda>a n. if unat a + 64 < 2 ^ 32 then Some (a + 64, a) else Some (a, NULL)), kf = (\<lambda>a p. a)\<rparr>"

lemma bump_step: "unat (a :: u32) + 64 < 2 ^ 32 \<Longrightarrow> a < a + 64"
  by (simp add: word_less_nat_alt unat_word_ariths)

interpretation bump: kernel_heap bump_alloc "\<lambda>a. {p. p < a}"
proof (unfold_locales, goal_cases)
  case (1 a n a' p)
  then show ?case using bump_step [of a] by (auto simp: bump_alloc_def split: if_splits)
next
  case (2 a n a')
  then show ?case using bump_step [of a] by (auto simp: bump_alloc_def split: if_splits)
next
  case (3 a p)
  then show ?case by (auto simp: bump_alloc_def)
qed

end
