(* ===== verification/Word_Lemmas.thy ===== *)
theory Word_Lemmas
  imports Prelude
begin

text \<open>Arithmetic of 32-bit addresses and sizes for loops that count through memory.\<close>

lemma unat_u32 [simp]: "unat (x :: u32) < 4294967296"
  using unsigned_less [of x, where 'a = nat] by simp

lemma unat_next: "(i :: u32) < n \<Longrightarrow> unat (i + 1) = unat i + 1"
  using unat_u32 [of n] by (simp add: word_less_nat_alt unat_word_ariths del: unat_u32)

lemma step_up: "(i :: u32) < n \<Longrightarrow> unat n - unat (i + 1) < unat n - unat i"
  by (simp add: unat_next word_less_nat_alt)

lemma less_next: "(i :: u32) < n \<Longrightarrow> j < i + 1 \<longleftrightarrow> j < i \<or> j = i"
  using unat_next [of i n] by (auto simp: word_less_nat_alt word_unat_eq_iff)

lemma next_le: "(i :: u32) < n \<Longrightarrow> i + 1 \<le> n"
  using unat_next [of i n] by (simp add: word_less_nat_alt word_le_nat_alt)

lemma unat_prev: "(i :: u32) \<noteq> 0 \<Longrightarrow> unat (i - 1) = unat i - 1"
  by (rule unat_minus_one)

lemma step_down: "i - 1 \<noteq> 0 \<Longrightarrow> (if i - 1 = 0 then 2 ^ 32 else unat (i - 1)) < (if i = 0 then 2 ^ 32 else unat (i :: u32))"
  using unat_gt_0 [of i] by (auto simp: unat_prev)

lemma offset_eq: "(p :: u32) - d = i \<longleftrightarrow> p = d + i"
  by auto

lemma unat_add_le: "unat (a :: u32) + unat b < 2 ^ 32 \<Longrightarrow> unat (a + b) = unat a + unat b"
  by (simp add: unat_word_ariths)

lemma less_two: "(i :: u32) < 2 \<longleftrightarrow> i = 0 \<or> i = 1"
  by (auto simp: word_less_nat_alt word_unat_eq_iff)

lemma less_one_word: "(i :: u32) < 1 \<longleftrightarrow> i = 0"
  by (auto simp: word_less_nat_alt word_unat_eq_iff)

end
