(* ===== verification/Paging.thy ===== *)
theory Paging
  imports Word_Lemmas "HOL-Library.Type_Length"
begin

text \<open>
  The two-level page tables of i386 as \<^verbatim>\<open>src/x86/paging.c\<close> edits them. Physical memory is an array of
  frames of 1024 words; the processor's memory unit walks the tables in it. The kernel reaches
  the tables only through that same unit, by way of the last directory entry, which maps the directory as a
  page table (the recursive mapping). A fault is \<^term>\<open>None\<close>.

  The unit works without translation cache and does not record accesses in the tables (accessed and dirty
  bits): the code reads neither. \<^verbatim>\<open>start_paging\<close> sets the write-protect bit, so writes of the kernel need
  writable entries as well.
\<close>

unbundle bit_operations_syntax

section \<open>The processor\<close>

type_synonym frame = "20 word"
type_synonym index = "10 word"
type_synonym phys = "frame \<Rightarrow> index \<Rightarrow> u32"

record mmu =
  mem :: phys
  cr3 :: physaddr_t

text \<open>Addresses: a linear address has a directory index, a table index and the index of a word in its page.\<close>

definition dir_of :: "ptr \<Rightarrow> index" where "dir_of va = ucast (drop_bit 22 va)"
definition tab_of :: "ptr \<Rightarrow> index" where "tab_of va = ucast (drop_bit 12 va)"
definition word_at :: "ptr \<Rightarrow> index" where "word_at va = ucast (drop_bit 2 va)"
definition frame_of :: "physaddr_t \<Rightarrow> frame" where "frame_of a = ucast (drop_bit 12 a)"
definition addr_of :: "frame \<Rightarrow> physaddr_t" where "addr_of f = push_bit 12 (ucast f)"

text \<open>\<^verbatim>\<open>struct page_table_entry_t\<close>: one word, of which the code uses the fields \<^verbatim>\<open>present\<close> (bit 0), \<^verbatim>\<open>rw\<close> (bit 1),
  \<^verbatim>\<open>usermode\<close> (bit 2) and \<^verbatim>\<open>physical_address\<close> (bits 12 to 31).\<close>

type_synonym page_table_entry_t = u32

definition present :: "page_table_entry_t \<Rightarrow> bool" where "present e = bit e 0"
definition rw :: "page_table_entry_t \<Rightarrow> bool" where "rw e = bit e 1"
definition usermode :: "page_table_entry_t \<Rightarrow> bool" where "usermode e = bit e 2"
definition physical_address :: "page_table_entry_t \<Rightarrow> frame" where "physical_address e = frame_of e"

definition put_bit :: "nat \<Rightarrow> bool \<Rightarrow> page_table_entry_t \<Rightarrow> page_table_entry_t" where
  "put_bit n b e = (if b then set_bit n e else unset_bit n e)"

definition put_address :: "frame \<Rightarrow> page_table_entry_t \<Rightarrow> page_table_entry_t" where
  "put_address f e = take_bit 12 e OR addr_of f"

definition translate :: "mmu \<Rightarrow> ptr \<Rightarrow> bool \<Rightarrow> frame option" where
  "translate m va write =
     (let pde = mem m (frame_of (cr3 m)) (dir_of va) in
      if \<not> present pde \<or> write \<and> \<not> rw pde then None
      else let pte = mem m (physical_address pde) (tab_of va) in
           if \<not> present pte \<or> write \<and> \<not> rw pte then None else Some (physical_address pte))"

definition load32 :: "mmu \<Rightarrow> ptr \<Rightarrow> u32 option" where
  "load32 m va = do { f \<leftarrow> translate m va False; Some (mem m f (word_at va)) }"

definition put_word :: "phys \<Rightarrow> frame \<Rightarrow> index \<Rightarrow> u32 \<Rightarrow> phys" where
  "put_word M f i w = M(f := (M f)(i := w))"

definition store32 :: "mmu \<Rightarrow> ptr \<Rightarrow> u32 \<Rightarrow> mmu option" where
  "store32 m va w = do { f \<leftarrow> translate m va True; Some (m\<lparr>mem := put_word (mem m) f (word_at va) w\<rparr>) }"

section \<open>The code\<close>

definition page_size :: u32 where "page_size = 4096"
definition page_bits :: nat where "page_bits = 12"
definition page_table_levels :: nat where "page_table_levels = 2"
definition page_tables :: ptr where "page_tables = 0xFFC00000"
definition page_directory :: ptr where "page_directory = 0xFFFFF000"

abbreviation PAGE_RW :: u32 where "PAGE_RW \<equiv> 1"
abbreviation PAGE_EXECUTABLE :: u32 where "PAGE_EXECUTABLE \<equiv> 2"
abbreviation PAGE_USERMODE :: u32 where "PAGE_USERMODE \<equiv> 4"
abbreviation PAGE_PRESENT :: u32 where "PAGE_PRESENT \<equiv> 0x10000"
abbreviation PAGE_ANON :: u32 where "PAGE_ANON \<equiv> 0x20000"

definition get_pte_pointer :: "mmu \<Rightarrow> ptr \<Rightarrow> nat \<Rightarrow> ptr option" where
  "get_pte_pointer m page level =
     (let directory_index = drop_bit 22 page in
      if level = 0 then Some (page_directory + 4 * directory_index)
      else if level = 1 then do {
        e \<leftarrow> load32 m (page_directory + 4 * directory_index);
        if present e then Some (page_tables + 4 * drop_bit page_bits page) else Some NULL }
      else Some NULL)"

definition get_pte_type :: "mmu \<Rightarrow> ptr \<Rightarrow> nat \<Rightarrow> u32 option" where
  "get_pte_type m page level = do {
     p \<leftarrow> get_pte_pointer m page level;
     if p \<noteq> NULL then do {
       e \<leftarrow> load32 m p;
       Some ((if present e then PAGE_PRESENT OR PAGE_EXECUTABLE else 0) OR (if rw e then PAGE_RW else 0) OR
         (if usermode e then PAGE_USERMODE else 0)) }
     else Some 0 }"

text \<open>Assigning to a bit-field reads the word and writes it back. The results 0 and -1 of the setters are
  \<^term>\<open>True\<close> and \<^term>\<open>False\<close>.\<close>

definition update32 :: "mmu \<Rightarrow> ptr \<Rightarrow> (u32 \<Rightarrow> u32) \<Rightarrow> mmu option" where
  "update32 m p f = do { e \<leftarrow> load32 m p; store32 m p (f e) }"

definition set_pte_type :: "mmu \<Rightarrow> ptr \<Rightarrow> nat \<Rightarrow> u32 \<Rightarrow> (mmu \<times> bool) option" where
  "set_pte_type m page level flags = do {
     p \<leftarrow> get_pte_pointer m page level;
     if p \<noteq> NULL then do {
       m \<leftarrow> update32 m p (put_bit 0 (flags AND PAGE_PRESENT \<noteq> 0));
       m \<leftarrow> update32 m p (put_bit 1 (flags AND PAGE_RW \<noteq> 0));
       m \<leftarrow> update32 m p (put_bit 2 (flags AND PAGE_USERMODE \<noteq> 0));
       Some (m, True) }
     else Some (m, False) }"

definition get_pte_address :: "mmu \<Rightarrow> ptr \<Rightarrow> nat \<Rightarrow> physaddr_t option" where
  "get_pte_address m page level = do {
     p \<leftarrow> get_pte_pointer m page level;
     if p \<noteq> NULL then do { e \<leftarrow> load32 m p; Some (addr_of (physical_address e) OR (page AND 0xFFF)) }
     else Some (- 1) }"

definition set_pte_address :: "mmu \<Rightarrow> ptr \<Rightarrow> nat \<Rightarrow> physaddr_t \<Rightarrow> (mmu \<times> bool) option" where
  "set_pte_address m page level addr = do {
     p \<leftarrow> get_pte_pointer m page level;
     if p \<noteq> NULL then do { m \<leftarrow> update32 m p (put_address (frame_of addr)); Some (m, True) }
     else Some (m, False) }"

definition set_pte :: "mmu \<Rightarrow> ptr \<Rightarrow> nat \<Rightarrow> u32 \<Rightarrow> physaddr_t \<Rightarrow> (mmu \<times> bool) option" where
  "set_pte m page level flags addr = do {
     (m, ok) \<leftarrow> set_pte_address m page level addr;
     if ok then set_pte_type m page level flags else Some (m, False) }"

fun wipe_loop :: "mmu \<Rightarrow> u32 \<Rightarrow> nat list \<Rightarrow> mmu option" where
  "wipe_loop m table_index [] = Some m"
| "wipe_loop m table_index (i # is) = do {
     m \<leftarrow> update32 m (page_tables + 4 * (table_index + of_nat i)) (put_bit 0 False);
     m \<leftarrow> update32 m (page_tables + 4 * (table_index + of_nat i)) (put_address 0);
     wipe_loop m table_index is }"

definition wipe_page_table :: "mmu \<Rightarrow> ptr \<Rightarrow> nat \<Rightarrow> mmu option" where
  "wipe_page_table m page level =
     (if level = 1 then do {
        t \<leftarrow> get_pte_type m page 0;
        if t AND PAGE_PRESENT \<noteq> 0
        then wipe_loop m (drop_bit page_bits page AND NOT 0x3FF) [0..<1024]
        else Some m }
      else Some m)"

definition paging_current_address_space :: "mmu \<Rightarrow> physaddr_t option" where
  "paging_current_address_space m = do { e \<leftarrow> load32 m (page_directory + 4 * 1023); Some (addr_of (physical_address e)) }"

definition paging_load_address_space :: "mmu \<Rightarrow> physaddr_t \<Rightarrow> mmu" where
  "paging_load_address_space m table = m\<lparr>cr3 := table\<rparr>"

fun zero_loop :: "mmu \<Rightarrow> nat list \<Rightarrow> mmu option" where
  "zero_loop m [] = Some m"
| "zero_loop m (i # is) = do { m \<leftarrow> store32 m (page_tables + 4 * of_nat i) 0; zero_loop m is }"

fun copy_loop :: "mmu \<Rightarrow> nat list \<Rightarrow> mmu option" where
  "copy_loop m [] = Some m"
| "copy_loop m (i # is) = do {
     e \<leftarrow> load32 m (page_directory + 4 * of_nat i);
     m \<leftarrow> store32 m (page_tables + 4 * of_nat i) e;
     copy_loop m is }"

text \<open>\<open>kernel_start\<close> is the linker's symbol \<^verbatim>\<open>_kernel_start\<close>. The new table is mapped at \<^verbatim>\<open>page_tables\<close> by changing the
  address in the first directory entry (not its other bits). \<^verbatim>\<open>memset\<close> clears the page word by word here.\<close>

definition paging_init_top_table :: "ptr \<Rightarrow> mmu \<Rightarrow> physaddr_t \<Rightarrow> mmu option" where
  "paging_init_top_table kernel_start m table = do {
     buffer \<leftarrow> load32 m page_directory;
     m \<leftarrow> update32 m page_directory (put_address (frame_of table));
     m \<leftarrow> zero_loop m [0..<1024];
     let last_index = 1023;
     let kernel_index = unat (drop_bit 22 kernel_start);
     m \<leftarrow> copy_loop m [kernel_index..<last_index];
     m \<leftarrow> update32 m (page_tables + 4 * of_nat last_index) (put_address (frame_of table));
     m \<leftarrow> update32 m (page_tables + 4 * of_nat last_index) (put_bit 0 True);
     m \<leftarrow> update32 m (page_tables + 4 * of_nat last_index) (put_bit 1 True);
     store32 m page_directory buffer }"

section \<open>Entries and addresses\<close>

lemma put_bit_fields [simp]:
  "present (put_bit 0 b e) = b" "present (put_bit (Suc 0) b e) = present e" "present (put_bit 2 b e) = present e"
  "rw (put_bit 0 b e) = rw e" "rw (put_bit (Suc 0) b e) = b" "rw (put_bit 2 b e) = rw e"
  "usermode (put_bit 0 b e) = usermode e" "usermode (put_bit (Suc 0) b e) = usermode e" "usermode (put_bit 2 b e) = b"
  by (auto simp: put_bit_def present_def rw_def usermode_def bit_simps)

lemma put_bit_address [simp]: "n < 12 \<Longrightarrow> physical_address (put_bit n b e) = physical_address e"
  by (rule bit_word_eqI) (auto simp: put_bit_def physical_address_def frame_of_def bit_simps)

lemma put_address_fields [simp]:
  "physical_address (put_address f e) = f" "present (put_address f e) = present e" "rw (put_address f e) = rw e"
  "usermode (put_address f e) = usermode e"
proof -
  show "physical_address (put_address f e) = f"
    by (rule bit_word_eqI) (auto simp: put_address_def physical_address_def frame_of_def addr_of_def bit_simps)
qed (auto simp: put_address_def present_def rw_def usermode_def addr_of_def bit_simps)

lemma frame_addr [simp]: "frame_of (addr_of f) = f"
  by (rule bit_word_eqI) (auto simp: frame_of_def addr_of_def bit_simps)

lemma addr_frame: "a mod page_size = 0 \<Longrightarrow> addr_of (frame_of a) = a"
proof -
  assume "a mod page_size = 0"
  then have "take_bit 12 a = 0" by (simp add: page_size_def take_bit_eq_mod)
  then have "\<not> bit a n" if "n < 12" for n using that bit_take_bit_iff [of 12 a n] by auto
  then show ?thesis
  proof (intro bit_word_eqI)
    fix n
    assume "\<And>n. n < 12 \<Longrightarrow> \<not> bit a n" "n < LENGTH(32)"
    then show "bit (addr_of (frame_of a)) n = bit a n" by (cases "n < 12") (auto simp: frame_of_def addr_of_def bit_simps)
  qed
qed

text \<open>The windows: the address of an entry in the recursive mapping, taken apart by the memory unit.\<close>

lemma window_bits: "page_directory = NOT (mask 12)" "page_tables = NOT (mask 22)" "(- 1 :: index) = mask 10" "4 * x = push_bit 2 (x :: u32)"
  by (simp_all add: page_directory_def page_tables_def mask_eq_exp_minus_1 push_bit_eq_mult)

lemma directory_window:
  "dir_of (page_directory + 4 * drop_bit 22 page) = - 1" "tab_of (page_directory + 4 * drop_bit 22 page) = - 1"
  "word_at (page_directory + 4 * drop_bit 22 page) = dir_of page"
proof -
  have e: "page_directory + 4 * drop_bit 22 page = page_directory OR push_bit 2 (drop_bit 22 page)"
    unfolding window_bits by (rule disjunctive_add) (auto simp: bit_simps dest: bit_imp_le_length)
  show "dir_of (page_directory + 4 * drop_bit 22 page) = - 1" "tab_of (page_directory + 4 * drop_bit 22 page) = - 1"
    "word_at (page_directory + 4 * drop_bit 22 page) = dir_of page"
    unfolding e unfolding window_bits by (rule bit_word_eqI; auto simp: dir_of_def tab_of_def word_at_def bit_simps)+
qed

lemma table_window:
  "dir_of (page_tables + 4 * drop_bit 12 page) = - 1" "tab_of (page_tables + 4 * drop_bit 12 page) = dir_of page"
  "word_at (page_tables + 4 * drop_bit 12 page) = tab_of page"
proof -
  have e: "page_tables + 4 * drop_bit 12 page = page_tables OR push_bit 2 (drop_bit 12 page)"
    unfolding window_bits by (rule disjunctive_add) (auto simp: bit_simps dest: bit_imp_le_length)
  show "dir_of (page_tables + 4 * drop_bit 12 page) = - 1" "tab_of (page_tables + 4 * drop_bit 12 page) = dir_of page"
    "word_at (page_tables + 4 * drop_bit 12 page) = tab_of page"
    unfolding e unfolding window_bits by (rule bit_word_eqI; auto simp: dir_of_def tab_of_def word_at_def bit_simps)+
qed

section \<open>The recursive mapping\<close>

abbreviation top :: "mmu \<Rightarrow> frame" where "top m \<equiv> frame_of (cr3 m)"
abbreviation pde :: "mmu \<Rightarrow> ptr \<Rightarrow> page_table_entry_t" where "pde m page \<equiv> mem m (top m) (dir_of page)"
abbreviation table_of :: "mmu \<Rightarrow> ptr \<Rightarrow> frame" where "table_of m page \<equiv> physical_address (pde m page)"
abbreviation pte :: "mmu \<Rightarrow> ptr \<Rightarrow> page_table_entry_t" where "pte m page \<equiv> mem m (table_of m page) (tab_of page)"

definition self_mapped :: "mmu \<Rightarrow> bool" where
  "self_mapped m \<longleftrightarrow> (let e = mem m (top m) (- 1) in present e \<and> rw e \<and> physical_address e = top m)"

lemma translate_directory: "self_mapped m \<Longrightarrow> translate m (page_directory + 4 * drop_bit 22 page) w = Some (top m)"
  by (simp add: translate_def self_mapped_def directory_window Let_def)

lemma translate_tables:
  "self_mapped m \<Longrightarrow> translate m (page_tables + 4 * drop_bit 12 page) w =
     (if present (pde m page) \<and> (w \<longrightarrow> rw (pde m page)) then Some (table_of m page) else None)"
  by (simp add: translate_def self_mapped_def table_window Let_def)

definition set_pde :: "mmu \<Rightarrow> ptr \<Rightarrow> page_table_entry_t \<Rightarrow> mmu" where
  "set_pde m page e = m\<lparr>mem := put_word (mem m) (top m) (dir_of page) e\<rparr>"

definition set_pte_entry :: "mmu \<Rightarrow> ptr \<Rightarrow> page_table_entry_t \<Rightarrow> mmu" where
  "set_pte_entry m page e = m\<lparr>mem := put_word (mem m) (table_of m page) (tab_of page) e\<rparr>"

lemma window_load:
  assumes "self_mapped m"
  shows "load32 m (page_directory + 4 * drop_bit 22 page) = Some (pde m page)"
    "load32 m (page_tables + 4 * drop_bit 12 page) = (if present (pde m page) then Some (pte m page) else None)"
  by (simp_all add: load32_def translate_directory [OF assms] translate_tables [OF assms] directory_window table_window)

lemma window_store:
  assumes "self_mapped m"
  shows "store32 m (page_directory + 4 * drop_bit 22 page) e = Some (set_pde m page e)"
    "store32 m (page_tables + 4 * drop_bit 12 page) e =
       (if present (pde m page) \<and> rw (pde m page) then Some (set_pte_entry m page e) else None)"
  by (simp_all add: store32_def translate_directory [OF assms] translate_tables [OF assms] directory_window table_window set_pde_def set_pte_entry_def)

lemma window_not_null: "page_directory + 4 * drop_bit 22 page \<noteq> NULL" "page_tables + 4 * drop_bit 12 page \<noteq> NULL"
proof -
  have "dir_of NULL \<noteq> - 1" by (simp add: dir_of_def)
  then show "page_directory + 4 * drop_bit 22 page \<noteq> NULL" "page_tables + 4 * drop_bit 12 page \<noteq> NULL"
    using directory_window(1) [of page] table_window(1) [of page] by metis+
qed

lemma get_pte_pointer_window:
  assumes "self_mapped m"
  shows "get_pte_pointer m page 0 = Some (page_directory + 4 * drop_bit 22 page)"
    "get_pte_pointer m page (Suc 0) = Some (if present (pde m page) then page_tables + 4 * drop_bit 12 page else NULL)"
  by (simp_all add: get_pte_pointer_def window_load [OF assms] page_bits_def)

definition flags_of :: "page_table_entry_t \<Rightarrow> u32" where
  "flags_of e = (if present e then PAGE_PRESENT OR PAGE_EXECUTABLE else 0) OR (if rw e then PAGE_RW else 0) OR (if usermode e then PAGE_USERMODE else 0)"

lemma flags_of_bits: "flags_of e AND PAGE_PRESENT = 0 \<longleftrightarrow> \<not> present e" "flags_of e AND PAGE_RW = 0 \<longleftrightarrow> \<not> rw e"
  "flags_of e AND PAGE_USERMODE = 0 \<longleftrightarrow> \<not> usermode e" "flags_of e AND PAGE_ANON = 0"
  by (simp_all add: flags_of_def)

text \<open>The reading functions give the entries that the processor uses.\<close>

lemma get_pte_type_window:
  assumes "self_mapped m"
  shows "get_pte_type m page 0 = Some (flags_of (pde m page))"
    "get_pte_type m page (Suc 0) = Some (if present (pde m page) then flags_of (pte m page) else 0)"
  by (simp_all add: get_pte_type_def get_pte_pointer_window [OF assms] window_not_null window_load [OF assms] flags_of_def)

lemma get_pte_address_window:
  assumes "self_mapped m"
  shows "get_pte_address m page (Suc 0) = Some (if present (pde m page) then addr_of (physical_address (pte m page)) OR (page AND 0xFFF) else - 1)"
  by (simp add: get_pte_address_def get_pte_pointer_window [OF assms] window_not_null window_load [OF assms])

section \<open>Writing entries\<close>

lemma put_word_simps [simp]:
  "put_word M f i w f i = w" "f' \<noteq> f \<Longrightarrow> put_word M f i w f' = M f'" "i' \<noteq> i \<Longrightarrow> put_word M f i w f' i' = M f' i'"
  "put_word (put_word M f i w) f i w' = put_word M f i w'"
  by (simp_all add: put_word_def)

lemma set_pde_simps [simp]:
  "cr3 (set_pde m page e) = cr3 m" "mem (set_pde m page e) (top m) (dir_of page) = e" "set_pde (set_pde m page e) page e' = set_pde m page e'"
  "dir_of page \<noteq> - 1 \<Longrightarrow> self_mapped (set_pde m page e) = self_mapped m"
  by (simp_all add: set_pde_def self_mapped_def)

lemma set_pte_entry_simps [simp]:
  assumes "table_of m page \<noteq> top m"
  shows "cr3 (set_pte_entry m page e) = cr3 m" "mem (set_pte_entry m page e) (top m) = mem m (top m)"
    "mem (set_pte_entry m page e) (table_of m page) (tab_of page) = e"
    "set_pte_entry (set_pte_entry m page e) page e' = set_pte_entry m page e'"
    "self_mapped (set_pte_entry m page e) = self_mapped m"
  using assms by (simp_all add: set_pte_entry_def self_mapped_def)

lemma window_update:
  assumes "self_mapped m"
  shows "update32 m (page_directory + 4 * drop_bit 22 page) f = Some (set_pde m page (f (pde m page)))"
    "present (pde m page) \<Longrightarrow> rw (pde m page) \<Longrightarrow>
      update32 m (page_tables + 4 * drop_bit 12 page) f = Some (set_pte_entry m page (f (pte m page)))"
  by (simp_all add: update32_def window_load [OF assms] window_store [OF assms])

text \<open>The entry that \<^verbatim>\<open>set_pte\<close> leaves: the other bits are those of the old one.\<close>

definition new_entry :: "u32 \<Rightarrow> physaddr_t \<Rightarrow> page_table_entry_t \<Rightarrow> page_table_entry_t" where
  "new_entry flags addr e = put_bit 2 (flags AND PAGE_USERMODE \<noteq> 0) (put_bit 1 (flags AND PAGE_RW \<noteq> 0)
     (put_bit 0 (flags AND PAGE_PRESENT \<noteq> 0) (put_address (frame_of addr) e)))"

lemma new_entry_fields [simp]:
  "present (new_entry flags addr e) \<longleftrightarrow> flags AND PAGE_PRESENT \<noteq> 0" "rw (new_entry flags addr e) \<longleftrightarrow> flags AND PAGE_RW \<noteq> 0"
  "usermode (new_entry flags addr e) \<longleftrightarrow> flags AND PAGE_USERMODE \<noteq> 0" "physical_address (new_entry flags addr e) = frame_of addr"
  by (simp_all add: new_entry_def)

lemma set_pte_directory:
  assumes "self_mapped m" "dir_of page \<noteq> - 1"
  shows "set_pte m page 0 flags addr = Some (set_pde m page (new_entry flags addr (pde m page)), True)"
  using assms
  by (simp add: set_pte_def set_pte_address_def set_pte_type_def get_pte_pointer_window window_not_null window_update new_entry_def)

lemma set_pte_table:
  assumes "self_mapped m" "table_of m page \<noteq> top m" "present (pde m page)" "rw (pde m page)"
  shows "set_pte m page (Suc 0) flags addr = Some (set_pte_entry m page (new_entry flags addr (pte m page)), True)"
  using assms
  by (simp add: set_pte_def set_pte_address_def set_pte_type_def get_pte_pointer_window window_not_null window_update new_entry_def)

text \<open>All entries of a table are cleared but for the bits that the code does not touch.\<close>

definition wiped :: "page_table_entry_t \<Rightarrow> page_table_entry_t" where
  "wiped e = put_address 0 (put_bit 0 False e)"

lemma wiped_absent [simp]: "\<not> present (wiped e)"
  by (simp add: wiped_def)

definition same_directory :: "ptr \<Rightarrow> nat \<Rightarrow> ptr" where
  "same_directory page i = push_bit 12 ((drop_bit 12 page AND NOT 0x3FF) + of_nat i)"

lemma same_directory_window:
  assumes "i < 1024"
  shows "drop_bit 12 (same_directory page i) = (drop_bit 12 page AND NOT 0x3FF) + of_nat i"
    "dir_of (same_directory page i) = dir_of page" "tab_of (same_directory page i) = of_nat i"
proof -
  have lt: "of_nat i = (take_bit 10 (of_nat i) :: u32)"
    using assms by (simp add: word_unat_eq_iff unat_of_nat unsigned_take_bit_eq take_bit_nat_eq_self)
  have m: "NOT (0x3FF :: u32) = NOT (mask 10)" by (simp add: mask_eq_exp_minus_1)
  have hi: "\<not> bit (of_nat i :: u32) n" if "10 \<le> n" for n
    using that by (subst lt) (simp add: bit_take_bit_iff)
  have e: "(drop_bit 12 page AND NOT 0x3FF) + of_nat i = (drop_bit 12 page AND NOT 0x3FF) OR of_nat i"
    unfolding m by (rule disjunctive_add) (use hi in \<open>auto simp: bit_simps not_le [symmetric]\<close>)
  show "drop_bit 12 (same_directory page i) = (drop_bit 12 page AND NOT 0x3FF) + of_nat i"
    unfolding same_directory_def e unfolding m
    by (rule bit_word_eqI) (use hi in \<open>auto simp: bit_simps dest: bit_imp_le_length\<close>)
  show "dir_of (same_directory page i) = dir_of page"
    unfolding same_directory_def e unfolding m
    by (rule bit_word_eqI) (use hi in \<open>auto simp: dir_of_def bit_simps dest: bit_imp_le_length\<close>)
  have "(of_nat i :: index) = ucast (of_nat i :: u32)" using assms by (simp add: unsigned_of_nat take_bit_nat_eq_self)
  then show "tab_of (same_directory page i) = of_nat i"
    unfolding same_directory_def e unfolding m
    by (intro bit_word_eqI) (use hi in \<open>auto simp: tab_of_def bit_simps dest: bit_imp_le_length\<close>)
qed

definition wipe_frame :: "mmu \<Rightarrow> frame \<Rightarrow> nat set \<Rightarrow> mmu" where
  "wipe_frame m T I = m\<lparr>mem := (mem m)(T := (\<lambda>j. if unat j \<in> I then wiped (mem m T j) else mem m T j))\<rparr>"

lemma wipe_frame_step:
  assumes "i < 1024" "i \<notin> I"
  shows "wipe_frame (m\<lparr>mem := put_word (mem m) T (of_nat i) (wiped (mem m T (of_nat i)))\<rparr>) T I = wipe_frame m T (insert i I)"
proof -
  have "unat (of_nat i :: index) = i" using assms(1) by (simp add: unat_of_nat)
  then have "(\<lambda>j. if unat j \<in> I then wiped (((mem m T)(of_nat i := wiped (mem m T (of_nat i)))) j) else ((mem m T)(of_nat i := wiped (mem m T (of_nat i)))) j) =
    (\<lambda>j. if unat j \<in> insert i I then wiped (mem m T j) else mem m T j)"
    using assms(2) by (auto simp: fun_eq_iff word_unat_eq_iff)
  then show ?thesis by (simp add: wipe_frame_def put_word_def cong: if_cong)
qed

lemma wipe_loop_effect:
  assumes "self_mapped m" "table_of m page \<noteq> top m" "present (pde m page)" "rw (pde m page)" "distinct is" "\<forall>i\<in>set is. i < 1024"
  shows "wipe_loop m (drop_bit 12 page AND NOT 0x3FF) is = Some (wipe_frame m (table_of m page) (set is))"
  using assms
proof (induction "is" arbitrary: m)
  case Nil
  then show ?case by (simp add: wipe_frame_def)
next
  case (Cons i js)
  let ?q = "same_directory page i" and ?T = "table_of m page"
  let ?m = "m\<lparr>mem := put_word (mem m) ?T (of_nat i) (wiped (mem m ?T (of_nat i)))\<rparr>"
  have i: "i < 1024" using Cons.prems(6) by simp
  note q = same_directory_window [OF i, of page]
  have sp: "set_pte_entry m ?q e = m\<lparr>mem := put_word (mem m) ?T (of_nat i) e\<rparr>" for e by (simp add: set_pte_entry_def q)
  note u1 = window_update(2) [of m ?q "put_bit 0 False", unfolded q(1)]
  have d: "table_of m ?q \<noteq> top m" "present (pde m ?q)" "rw (pde m ?q)" using Cons.prems by (simp_all add: q)
  let ?m1 = "set_pte_entry m ?q (put_bit 0 False (pte m ?q))"
  have m1: "self_mapped ?m1" "pde ?m1 ?q = pde m ?q" "pte ?m1 ?q = put_bit 0 False (pte m ?q)"
    using Cons.prems(1) d(1) by simp_all
  have "update32 ?m1 (page_tables + 4 * ((drop_bit 12 page AND NOT 0x3FF) + of_nat i)) (put_address 0) = Some (set_pte_entry ?m1 ?q (put_address 0 (pte ?m1 ?q)))"
    using window_update(2) [of ?m1 ?q "put_address 0", unfolded q(1), OF m1(1)] d m1(2) by simp
  also have "set_pte_entry ?m1 ?q (put_address 0 (pte ?m1 ?q)) = ?m" unfolding m1(3) set_pte_entry_simps(4) [OF d(1)] by (simp add: sp wiped_def q)
  finally have "wipe_loop m (drop_bit 12 page AND NOT 0x3FF) (i # js) = wipe_loop ?m (drop_bit 12 page AND NOT 0x3FF) js"
    using u1 [OF Cons.prems(1) d(2,3)] by simp
  moreover have "self_mapped ?m" "pde ?m page = pde m page" "cr3 ?m = cr3 m" using Cons.prems(1,2) by (auto simp: self_mapped_def)
  ultimately show ?case using Cons.IH [of ?m] Cons.prems wipe_frame_step [OF i, of "set js" m ?T] by simp
qed

lemma wipe_page_table_effect:
  assumes "self_mapped m" "table_of m page \<noteq> top m" "present (pde m page)" "rw (pde m page)"
  shows "wipe_page_table m page (Suc 0) = Some (m\<lparr>mem := (mem m)(table_of m page := (\<lambda>j. wiped (mem m (table_of m page) j)))\<rparr>)"
proof -
  have "unat (j :: index) < 1024" for j using unsigned_less [of j, where 'a = nat] by simp
  then have "wipe_frame m T (set [0..<1024]) = m\<lparr>mem := (mem m)(T := (\<lambda>j. wiped (mem m T j)))\<rparr>" for T
    by (simp only: wipe_frame_def set_upt atLeastLessThan_iff) simp
  then show ?thesis
    using wipe_loop_effect [OF assms, of "[0..<1024]"] assms(3)
    by (simp add: wipe_page_table_def get_pte_type_window [OF assms(1)] flags_of_bits page_bits_def del: upt.simps)
qed

section \<open>New address spaces\<close>

lemma low_page: "i < 1024 \<Longrightarrow> page_tables + 4 * of_nat i = page_tables + 4 * drop_bit 12 (same_directory 0 i)"
  "i < 1024 \<Longrightarrow> dir_of (same_directory 0 i) = 0" "i < 1024 \<Longrightarrow> tab_of (same_directory 0 i) = of_nat i"
  using same_directory_window [of i 0] by (simp_all add: dir_of_def)

lemma directory_entry:
  assumes "i < 1024"
  shows "page_directory + 4 * of_nat i = page_directory + 4 * drop_bit 22 (push_bit 22 (of_nat i))" "dir_of (push_bit 22 (of_nat i)) = of_nat i"
proof -
  have "take_bit 10 (of_nat i :: u32) = of_nat i"
    using assms by (simp add: word_unat_eq_iff unat_of_nat unsigned_take_bit_eq take_bit_nat_eq_self)
  moreover have "drop_bit 22 (push_bit 22 x) = take_bit 10 (x :: u32)" for x
    by (rule bit_word_eqI) (auto simp: bit_simps dest: bit_imp_le_length)
  ultimately show "page_directory + 4 * of_nat i = page_directory + 4 * drop_bit 22 (push_bit 22 (of_nat i))"
    "dir_of (push_bit 22 (of_nat i)) = of_nat i"
    using assms by (simp_all add: dir_of_def unsigned_of_nat take_bit_nat_eq_self)
qed

text \<open>The first directory entry leads to the frame \<open>T\<close>, which then appears at \<^verbatim>\<open>page_tables\<close>.\<close>

definition opens :: "mmu \<Rightarrow> frame \<Rightarrow> bool" where
  "opens m T \<longleftrightarrow> self_mapped m \<and> top m \<noteq> T \<and> present (mem m (top m) 0) \<and> rw (mem m (top m) 0) \<and> physical_address (mem m (top m) 0) = T"

lemma opens_store: "opens m T \<Longrightarrow> i < 1024 \<Longrightarrow> store32 m (page_tables + 4 * of_nat i) w = Some (m\<lparr>mem := put_word (mem m) T (of_nat i) w\<rparr>)"
  unfolding low_page(1) by (subst window_store(2)) (simp_all add: opens_def low_page set_pte_entry_def)

lemma opens_load: "opens m T \<Longrightarrow> i < 1024 \<Longrightarrow> load32 m (page_tables + 4 * of_nat i) = Some (mem m T (of_nat i))"
  unfolding low_page(1) by (subst window_load(2)) (simp_all add: opens_def low_page)

lemma directory_load: "self_mapped m \<Longrightarrow> i < 1024 \<Longrightarrow> load32 m (page_directory + 4 * of_nat i) = Some (mem m (top m) (of_nat i))"
  unfolding directory_entry(1) by (subst window_load(1)) (simp_all add: directory_entry(2))

lemma opens_put [simp]: "opens m T \<Longrightarrow> opens (m\<lparr>mem := put_word (mem m) T i w\<rparr>) T"
  by (simp add: opens_def self_mapped_def)

definition patch :: "mmu \<Rightarrow> frame \<Rightarrow> (index \<Rightarrow> u32) \<Rightarrow> nat set \<Rightarrow> mmu" where
  "patch m T g I = m\<lparr>mem := (mem m)(T := (\<lambda>j. if unat j \<in> I then g j else mem m T j))\<rparr>"

lemma patch_empty [simp]: "patch m T g {} = m"
  by (simp add: patch_def)

lemma patch_step: "i < 1024 \<Longrightarrow> patch (m\<lparr>mem := put_word (mem m) T (of_nat i) (g (of_nat i))\<rparr>) T g I = patch m T g (insert i I)"
proof -
  assume "i < 1024"
  then have "unat (of_nat i :: index) = i" by (simp add: unat_of_nat)
  then have "(\<lambda>j. if unat j \<in> I then g j else ((mem m T)(of_nat i := g (of_nat i))) j) = (\<lambda>j. if unat j \<in> insert i I then g j else mem m T j)"
    by (auto simp: fun_eq_iff word_unat_eq_iff)
  then show ?thesis by (simp add: patch_def put_word_def cong: if_cong)
qed

lemma opens_patch [simp]: "opens m T \<Longrightarrow> opens (patch m T g I) T"
  by (simp add: opens_def self_mapped_def patch_def)

lemma zero_loop_effect: "opens m T \<Longrightarrow> \<forall>i\<in>set js. i < 1024 \<Longrightarrow> zero_loop m js = Some (patch m T (\<lambda>_. 0) (set js))"
proof (induction js arbitrary: m)
  case (Cons i js)
  then show ?case using opens_store [OF Cons.prems(1), of i 0] patch_step [of i m T "\<lambda>_. 0" "set js"] by simp
qed simp

lemma copy_loop_effect: "opens m T \<Longrightarrow> \<forall>i\<in>set js. i < 1024 \<Longrightarrow> copy_loop m js = Some (patch m T (mem m (top m)) (set js))"
proof (induction js arbitrary: m)
  case (Cons i js)
  let ?g = "mem m (top m)"
  let ?m = "m\<lparr>mem := put_word (mem m) T (of_nat i) (?g (of_nat i))\<rparr>"
  have "self_mapped m" "top m \<noteq> T" "i < 1024" using Cons.prems by (auto simp: opens_def)
  then have "copy_loop m (i # js) = copy_loop ?m js"
    using directory_load [of m i] opens_store [OF Cons.prems(1), of i "?g (of_nat i)"] by simp
  also have "\<dots> = Some (patch ?m T ?g (set js))" using Cons.IH [of ?m] Cons.prems \<open>top m \<noteq> T\<close> by simp
  finally show ?case using patch_step [OF \<open>i < 1024\<close>] by simp
qed simp

definition self_entry :: "frame \<Rightarrow> page_table_entry_t" where
  "self_entry T = put_bit 1 True (put_bit 0 True (put_address T 0))"

lemma self_entry_fields [simp]: "present (self_entry T)" "rw (self_entry T)" "physical_address (self_entry T) = T"
  by (simp_all add: self_entry_def)

text \<open>The top-level table that \<^verbatim>\<open>paging_init_top_table\<close> builds: the kernel's part of the current one, the recursive
  entry, and nothing else.\<close>

definition new_top :: "ptr \<Rightarrow> mmu \<Rightarrow> frame \<Rightarrow> index \<Rightarrow> page_table_entry_t" where
  "new_top kernel_start m T j = (if j = - 1 then self_entry T else if dir_of kernel_start \<le> j then mem m (top m) j else 0)"

lemma opens_update: "opens m T \<Longrightarrow> i < 1024 \<Longrightarrow>
  update32 m (page_tables + 4 * of_nat i) f = Some (m\<lparr>mem := put_word (mem m) T (of_nat i) (f (mem m T (of_nat i)))\<rparr>)"
  by (simp add: update32_def opens_load opens_store)

lemma unat_index: "unat (j :: index) < 1024"
  using unsigned_less [of j, where 'a = nat] by simp

lemma unat_dir: "unat (drop_bit 22 va) = unat (dir_of va)"
proof -
  have "drop_bit 22 va = ucast (dir_of va)" by (rule bit_word_eqI) (auto simp: dir_of_def bit_simps dest: bit_imp_le_length)
  then show ?thesis using unat_index [of "dir_of va"] by (simp add: unsigned_ucast_eq take_bit_nat_eq_self)
qed

lemma last_index: "unat (j :: index) < 1023 \<longleftrightarrow> j \<noteq> - 1"
proof -
  have "unat (- 1 :: index) = 1023" by (simp add: unsigned_minus_1_eq_mask mask_eq_exp_minus_1)
  then show ?thesis using unat_index [of j] by (auto simp: word_unat_eq_iff)
qed

lemma init_top_table_effect:
  assumes ks: "dir_of kernel_start \<noteq> 0" and sm: "self_mapped m" and ne: "top m \<noteq> frame_of table" and e0: "present (mem m (top m) 0)" "rw (mem m (top m) 0)"
  shows "paging_init_top_table kernel_start m table = Some (m\<lparr>mem := (mem m)(frame_of table := new_top kernel_start m (frame_of table))\<rparr>)"
proof -
  let ?T = "frame_of table" and ?D = "top m" and ?E = "mem m (top m) 0"
  let ?k = "unat (drop_bit 22 kernel_start)"
  have pd: "page_directory = page_directory + 4 * drop_bit 22 (push_bit 22 (of_nat 0))" "dir_of (push_bit 22 (of_nat 0)) = 0" by (simp_all add: dir_of_def)
  define m1 where "m1 = m\<lparr>mem := put_word (mem m) ?D 0 (put_address ?T ?E)\<rparr>"
  have o1: "opens m1 ?T" using assms by (simp add: opens_def m1_def self_mapped_def)
  have u1: "load32 m page_directory = Some ?E" "update32 m page_directory (put_address ?T) = Some m1"
    using window_load(1) [OF sm, of "push_bit 22 (of_nat 0)"] window_update(1) [OF sm, of "push_bit 22 (of_nat 0)"] pd
    by (simp_all add: m1_def set_pde_def)
  define m2 where "m2 = patch m1 ?T (\<lambda>_. 0) (set [0..<1024])"
  have o2: "opens m2 ?T" using o1 by (simp add: m2_def)
  have u2: "zero_loop m1 [0..<1024] = Some m2" unfolding m2_def by (rule zero_loop_effect [OF o1]) simp
  define m3 where "m3 = patch m2 ?T (mem m2 (top m2)) (set [?k..<1023])"
  have o3: "opens m3 ?T" using o2 by (simp add: m3_def)
  have u3: "copy_loop m2 [?k..<1023] = Some m3" unfolding m3_def by (rule copy_loop_effect [OF o2]) simp
  have c: "top m1 = ?D" "top m2 = ?D" "top m3 = ?D" by (simp_all add: m1_def m2_def m3_def patch_def)
  have mem2: "mem m2 = (mem m1)(?T := (\<lambda>_. 0))" using unat_index by (simp add: m2_def patch_def)
  have k: "unat j \<in> set [?k..<1023] \<longleftrightarrow> dir_of kernel_start \<le> j \<and> j \<noteq> - 1" for j
    using last_index [of j] by (auto simp: unat_dir word_le_nat_alt)
  have mem3: "mem m3 = (mem m1)(?T := (\<lambda>j. if dir_of kernel_start \<le> j \<and> j \<noteq> - 1 then mem m1 ?D j else 0))"
    using ne by (simp only: m3_def patch_def k c) (simp add: mem2 cong: if_cong)
  define m4 where "m4 = m3\<lparr>mem := put_word (mem m3) ?T (- 1) (self_entry ?T)\<rparr>"
  have o4: "opens m4 ?T" using o3 by (simp add: m4_def)
  have u4: "do { m \<leftarrow> update32 m3 (page_tables + 4 * of_nat 1023) (put_address ?T);
      m \<leftarrow> update32 m (page_tables + 4 * of_nat 1023) (put_bit 0 True);
      update32 m (page_tables + 4 * of_nat 1023) (put_bit 1 True) } = Some m4"
  proof -
    have l: "(of_nat 1023 :: index) = - 1" "1023 < (1024 :: nat)" by simp_all
    show ?thesis using opens_update [OF o3 l(2)] opens_update [OF opens_put [OF o3] l(2)]
      by (simp only: l(1) bind.bind_lunit) (simp add: mem3 m4_def self_entry_def)
  qed
  have "store32 m4 page_directory ?E = Some (m4\<lparr>mem := put_word (mem m4) ?D 0 ?E\<rparr>)"
    using window_store(1) [of m4 "push_bit 22 (of_nat 0)" ?E] o4 pd c by (simp add: opens_def set_pde_def m4_def)
  moreover have "m4\<lparr>mem := put_word (mem m4) ?D 0 ?E\<rparr> = m\<lparr>mem := (mem m)(?T := new_top kernel_start m ?T)\<rparr>"
  proof -
    have "put_word (mem m4) ?D 0 ?E f j = ((mem m)(?T := new_top kernel_start m ?T)) f j" for f j
      using ne ks by (auto simp: m4_def mem3 m1_def put_word_def new_top_def)
    then have "put_word (mem m4) ?D 0 ?E = (mem m)(?T := new_top kernel_start m ?T)" by blast
    then show ?thesis by (simp add: m4_def m3_def m2_def m1_def patch_def)
  qed
  moreover from u4 obtain a b where "update32 m3 (page_tables + 4 * of_nat 1023) (put_address ?T) = Some a"
    "update32 a (page_tables + 4 * of_nat 1023) (put_bit 0 True) = Some b" "update32 b (page_tables + 4 * of_nat 1023) (put_bit 1 True) = Some m4"
    unfolding bind_eq_Some_conv by blast
  ultimately show ?thesis using u1 u2 u3 by (simp add: paging_init_top_table_def Let_def del: upt.simps)
qed

text \<open>Without a present first entry the new table cannot be reached: the attempt to clear it faults.\<close>

lemma init_top_table_fault:
  assumes sm: "self_mapped m" and e0: "\<not> present (mem m (top m) 0)"
  shows "paging_init_top_table kernel_start m table = None"
proof -
  let ?m1 = "set_pde m 0 (put_address (frame_of table) (mem m (top m) 0))"
  have z: "page_directory = page_directory + 4 * drop_bit 22 0" "page_tables = page_tables + 4 * drop_bit 12 0" "dir_of 0 = 0"
    by (simp_all add: dir_of_def)
  have u: "update32 m page_directory (put_address (frame_of table)) = Some ?m1" using window_update(1) [OF sm, of 0] z by simp
  have sm1: "self_mapped ?m1" using sm z(3) by simp
  moreover have "\<not> present (pde ?m1 0)" using e0 z(3) by (simp add: set_pde_def)
  ultimately have "store32 ?m1 page_tables 0 = None" using window_store(2) [of ?m1 0] z(2) by simp
  moreover have "[0..<1024] = 0 # [Suc 0..<1024]" by (rule upt_conv_Cons) simp
  ultimately have "zero_loop ?m1 [0..<1024] = None" by (simp only: zero_loop.simps semiring_1_class.of_nat_0 mult_zero_right add_0_right bind.bind_lzero)
  then show ?thesis using u by (simp add: paging_init_top_table_def del: upt.simps split: Option.bind_splits)
qed

end
