(* ===== verification/Mmgr.thy ===== *)
theory Mmgr
  imports Paging
begin

text \<open>
  The page allocator and the mapping functions of \<^verbatim>\<open>src/mmgr.c\<close>. The bitmap allocator of libmalloc is not part of
  the repository: its functions are a parameter, its documented behaviour the locale \<open>libmalloc\<close>.
\<close>

section \<open>libmalloc\<close>

text \<open>\<open>'h\<close> is \<^verbatim>\<open>bitmap_heap_descriptor_t\<close> with the bitmap it describes; three of its fields are read by the kernel.\<close>

record 'h libmalloc =
  reserve_region :: "'h \<Rightarrow> u32 \<Rightarrow> 'h \<times> u32"
  free_region :: "'h \<Rightarrow> u32 \<Rightarrow> u32 \<Rightarrow> 'h"
  nomem :: u32
  free_block_count :: "'h \<Rightarrow> u32"
  bitmap :: "'h \<Rightarrow> ptr"
  bitmap_bytes :: "'h \<Rightarrow> u32"

text \<open>A reserved region starts on a block that was not in use; it stays in use until it is freed.\<close>

locale libmalloc =
  fixes L :: "'h libmalloc"
    and used :: "'h \<Rightarrow> u32 set"
    and block_size :: "'h \<Rightarrow> u32"
  assumes reserve_fresh: "reserve_region L h n = (h', a) \<Longrightarrow> a \<noteq> nomem L \<Longrightarrow> a \<notin> used h \<and> insert a (used h) \<subseteq> used h' \<and> a mod block_size h = 0"
    and reserve_none: "reserve_region L h n = (h', nomem L) \<Longrightarrow> used h \<subseteq> used h'"
    and reserve_block_size: "reserve_region L h n = (h', a) \<Longrightarrow> block_size h' = block_size h"
    and free_used: "used h - {a} \<subseteq> used (free_region L h a n)"
    and free_block_size: "block_size (free_region L h a n) = block_size h"
begin

lemma reserve_used: "reserve_region L h n = (h', a) \<Longrightarrow> used h \<subseteq> used h'"
  using reserve_fresh reserve_none by (cases "a = nomem L") blast+

end

section \<open>The code\<close>

record 'h machine =
  mm :: mmu
  page_map :: 'h
  system_heap :: 'h

definition reserve_pages :: "'h libmalloc \<Rightarrow> 'h machine \<Rightarrow> u32 \<Rightarrow> 'h machine \<times> physaddr_t" where
  "reserve_pages L s n = (let (h, location) = reserve_region L (page_map s) n in
     (s\<lparr>page_map := h\<rparr>, if location \<noteq> nomem L then location else error_code ENOMEM))"

definition free_pages :: "'h libmalloc \<Rightarrow> 'h machine \<Rightarrow> physaddr_t \<Rightarrow> u32 \<Rightarrow> 'h machine \<times> u32" where
  "free_pages L s location n = (s\<lparr>page_map := free_region L (page_map s) location n\<rparr>, error_code ENONE)"

definition reserve_page :: "'h libmalloc \<Rightarrow> 'h machine \<Rightarrow> 'h machine \<times> physaddr_t" where
  "reserve_page L s = (let (h, loc) = reserve_region L (page_map s) page_size in
     (s\<lparr>page_map := h\<rparr>, if loc = nomem L then error_code ENOMEM else loc))"

definition free_page :: "'h libmalloc \<Rightarrow> 'h machine \<Rightarrow> physaddr_t \<Rightarrow> 'h machine \<times> u32" where
  "free_page L s location = (s\<lparr>page_map := free_region L (page_map s) location page_size\<rparr>, error_code ENONE)"

definition free_page_count :: "'h libmalloc \<Rightarrow> 'h machine \<Rightarrow> u32" where
  "free_page_count L s = free_block_count L (page_map s)"

definition page_map_base :: "'h libmalloc \<Rightarrow> 'h machine \<Rightarrow> ptr" where
  "page_map_base L s = bitmap L (page_map s)"

definition page_map_end :: "'h libmalloc \<Rightarrow> 'h machine \<Rightarrow> ptr" where
  "page_map_end L s = bitmap L (page_map s) + bitmap_bytes L (page_map s)"

definition create_address_space :: "'h libmalloc \<Rightarrow> ptr \<Rightarrow> 'h machine \<Rightarrow> ('h machine \<times> physaddr_t) option" where
  "create_address_space L kernel_start s =
     (let (s, table) = reserve_page L s in
      if table = error_code ENOMEM then Some (s, error_code ENOMEM)
      else do { m \<leftarrow> paging_init_top_table kernel_start (mm s) table; Some (s\<lparr>mm := m\<rparr>, table) })"

definition current_address_space :: "'h machine \<Rightarrow> physaddr_t option" where
  "current_address_space s = paging_current_address_space (mm s)"

text \<open>The loop of \<^verbatim>\<open>map_page\<close> over the levels above the last.\<close>

fun map_tables :: "'h libmalloc \<Rightarrow> 'h machine \<Rightarrow> ptr \<Rightarrow> nat list \<Rightarrow> ('h machine \<times> u32) option" where
  "map_tables L s page [] = Some (s, error_code ENONE)"
| "map_tables L s page (level # levels) = do {
     t \<leftarrow> get_pte_type (mm s) page level;
     if t AND PAGE_PRESENT = 0 then
       (let (s, new_table) = reserve_page L s in
        if new_table = error_code ENOMEM then Some (s, error_code ENOMEM)
        else do {
          (m, _) \<leftarrow> set_pte (mm s) page level (PAGE_PRESENT OR PAGE_USERMODE OR PAGE_RW) new_table;
          m \<leftarrow> wipe_page_table m page (level + 1);
          map_tables L (s\<lparr>mm := m\<rparr>) page levels })
     else map_tables L s page levels }"

definition map_page :: "'h libmalloc \<Rightarrow> 'h machine \<Rightarrow> ptr \<Rightarrow> physaddr_t \<Rightarrow> u32 \<Rightarrow> ('h machine \<times> u32) option" where
  "map_page L s page frame flags =
     (if frame mod page_size \<noteq> 0 then Some (s, error_code EINVALIDARG)
      else do {
        (s, e) \<leftarrow> map_tables L s page [0..<page_table_levels - 1];
        if e \<noteq> error_code ENONE then Some (s, e)
        else do {
          (m, _) \<leftarrow> set_pte (mm s) page (page_table_levels - 1) (PAGE_PRESENT OR flags) frame;
          Some (s\<lparr>mm := m\<rparr>, error_code ENONE) } })"

fun all_present :: "mmu \<Rightarrow> ptr \<Rightarrow> nat list \<Rightarrow> bool option" where
  "all_present m page [] = Some True"
| "all_present m page (level # levels) = do {
     t \<leftarrow> get_pte_type m page level;
     if t AND PAGE_PRESENT = 0 then Some False else all_present m page levels }"

definition unmap_page :: "'h machine \<Rightarrow> ptr \<Rightarrow> ('h machine \<times> physaddr_t) option" where
  "unmap_page s page = do {
     ok \<leftarrow> all_present (mm s) page [0..<page_table_levels];
     if \<not> ok then Some (s, error_code EOUTOFBOUNDS)
     else do {
       frame \<leftarrow> get_pte_address (mm s) page (page_table_levels - 1);
       (m, _) \<leftarrow> set_pte (mm s) page (page_table_levels - 1) 0 0;
       Some (s\<lparr>mm := m\<rparr>, frame) } }"

fun page_type_from :: "mmu \<Rightarrow> ptr \<Rightarrow> nat list \<Rightarrow> u32 option" where
  "page_type_from m page [] = get_pte_type m page (page_table_levels - 1)"
| "page_type_from m page (level # levels) = do {
     flags \<leftarrow> get_pte_type m page level;
     if flags AND PAGE_PRESENT = 0 then Some flags else page_type_from m page levels }"

definition page_type :: "'h machine \<Rightarrow> ptr \<Rightarrow> u32 option" where
  "page_type s page = page_type_from (mm s) page [0..<page_table_levels - 1]"

definition physical_address_of :: "'h machine \<Rightarrow> ptr \<Rightarrow> physaddr_t option" where
  "physical_address_of s linear_address = get_pte_address (mm s) linear_address (page_table_levels - 1)"

section \<open>Address spaces\<close>

text \<open>
  An address space as the kernel keeps it: mapped into itself, all tables writable, different from each other
  and from the directory.
\<close>

definition space_ok :: "mmu \<Rightarrow> bool" where
  "space_ok m \<longleftrightarrow> self_mapped m \<and>
     (\<forall>i. i \<noteq> - 1 \<longrightarrow> present (mem m (top m) i) \<longrightarrow> rw (mem m (top m) i) \<and> physical_address (mem m (top m) i) \<noteq> top m) \<and>
     (\<forall>i j. i \<noteq> - 1 \<longrightarrow> j \<noteq> - 1 \<longrightarrow> present (mem m (top m) i) \<longrightarrow> present (mem m (top m) j) \<longrightarrow>
        physical_address (mem m (top m) i) = physical_address (mem m (top m) j) \<longrightarrow> i = j)"

definition table_frames :: "mmu \<Rightarrow> frame set" where
  "table_frames m = {physical_address (mem m (top m) i) | i. present (mem m (top m) i)}"

lemma space_okD:
  assumes "space_ok m"
  shows "self_mapped m" "i \<noteq> - 1 \<Longrightarrow> present (mem m (top m) i) \<Longrightarrow> rw (mem m (top m) i) \<and> physical_address (mem m (top m) i) \<noteq> top m"
    "i \<noteq> - 1 \<Longrightarrow> j \<noteq> - 1 \<Longrightarrow> present (mem m (top m) i) \<Longrightarrow> present (mem m (top m) j) \<Longrightarrow>
     physical_address (mem m (top m) i) = physical_address (mem m (top m) j) \<Longrightarrow> i = j"
  using assms unfolding space_ok_def by blast+

lemma top_table: "self_mapped m \<Longrightarrow> top m \<in> table_frames m"
  unfolding table_frames_def self_mapped_def Let_def by force

lemma levels [simp]: "page_table_levels - 1 = Suc 0" "[0..<page_table_levels - Suc 0] = [0]" "page_table_levels - Suc 0 = Suc 0"
  "[0..<page_table_levels] = [0, Suc 0]"
  by (simp_all add: page_table_levels_def numeral_2_eq_2)

text \<open>What the processor does with an address outside of the recursive mapping.\<close>

lemma translate_space:
  "translate m va w = (if present (pde m va) \<and> (w \<longrightarrow> rw (pde m va)) \<and> present (pte m va) \<and> (w \<longrightarrow> rw (pte m va))
     then Some (physical_address (pte m va)) else None)"
  by (simp add: translate_def Let_def)

text \<open>The entry that maps an address.\<close>

definition leaf :: "mmu \<Rightarrow> ptr \<Rightarrow> page_table_entry_t option" where
  "leaf m q = (if present (pde m q) \<and> present (pte m q) then Some (pte m q) else None)"

text \<open>The directory entries that the processor does not let a program in user mode through, whatever the table behind them says.\<close>

definition kernel_tables :: "mmu \<Rightarrow> index set" where
  "kernel_tables m = {i. present (mem m (top m) i) \<and> \<not> usermode (mem m (top m) i)}"

lemma translate_leaf:
  "translate m q False = map_option physical_address (leaf m q)"
  "space_ok m \<Longrightarrow> dir_of q \<noteq> - 1 \<Longrightarrow> translate m q True = (case leaf m q of Some e \<Rightarrow> if rw e then Some (physical_address e) else None | None \<Rightarrow> None)"
  using space_okD(2) [of m "dir_of q"] by (auto simp: translate_space leaf_def)

text \<open>Reading: \<^verbatim>\<open>page_type\<close> tells what the entries in use say.\<close>

lemma page_type_entry:
  assumes "space_ok (mm s)"
  shows "page_type s page = Some (if present (pde (mm s) page) then flags_of (pte (mm s) page) else flags_of (pde (mm s) page))"
  using space_okD(1) [OF assms] by (simp add: page_type_def get_pte_type_window flags_of_bits) 

lemma set_entry_space:
  assumes ok: "space_ok m" and d: "dir_of page \<noteq> - 1" "present (pde m page)"
  shows "space_ok (set_pte_entry m page e)" "table_frames (set_pte_entry m page e) = table_frames m"
    "dir_of q \<noteq> - 1 \<Longrightarrow> translate (set_pte_entry m page e) q w =
      (if dir_of q = dir_of page \<and> tab_of q = tab_of page then if present e \<and> (w \<longrightarrow> rw e) then Some (physical_address e) else None
       else translate m q w)"
    "dir_of q \<noteq> - 1 \<Longrightarrow> leaf (set_pte_entry m page e) q =
      (if dir_of q = dir_of page \<and> tab_of q = tab_of page then if present e then Some e else None else leaf m q)"
    "kernel_tables (set_pte_entry m page e) = kernel_tables m"
proof -
  have nt: "table_of m page \<noteq> top m" using space_okD(2) [OF ok d] by simp
  then have D: "mem (set_pte_entry m page e) (top m) = mem m (top m)" "cr3 (set_pte_entry m page e) = cr3 m" by simp_all
  show "space_ok (set_pte_entry m page e)" using ok nt unfolding space_ok_def by (simp add: D)
  show "table_frames (set_pte_entry m page e) = table_frames m" unfolding table_frames_def by (simp add: D)
  show "kernel_tables (set_pte_entry m page e) = kernel_tables m" unfolding kernel_tables_def by (simp add: D)
  show "translate (set_pte_entry m page e) q w =
      (if dir_of q = dir_of page \<and> tab_of q = tab_of page then if present e \<and> (w \<longrightarrow> rw e) then Some (physical_address e) else None
       else translate m q w)" if q: "dir_of q \<noteq> - 1"
  proof (cases "dir_of q = dir_of page")
    case True
    then show ?thesis using space_okD(2) [OF ok d] d by (cases "tab_of q = tab_of page") (simp_all add: translate_space D, simp_all add: set_pte_entry_def)
  next
    case False
    then have "present (pde m q) \<Longrightarrow> table_of m q \<noteq> table_of m page" using space_okD(3) [OF ok q d(1) _ d(2)] by blast
    then show ?thesis using False by (auto simp: translate_space D) (auto simp: set_pte_entry_def)
  qed
  show "leaf (set_pte_entry m page e) q =
      (if dir_of q = dir_of page \<and> tab_of q = tab_of page then if present e then Some e else None else leaf m q)" if q: "dir_of q \<noteq> - 1"
  proof (cases "dir_of q = dir_of page")
    case True
    then show ?thesis using space_okD(2) [OF ok d] d by (cases "tab_of q = tab_of page") (simp_all add: leaf_def D, simp_all add: set_pte_entry_def)
  next
    case False
    then have "present (pde m q) \<Longrightarrow> table_of m q \<noteq> table_of m page" using space_okD(3) [OF ok q d(1) _ d(2)] by blast
    then show ?thesis using False by (auto simp: leaf_def D) (auto simp: set_pte_entry_def)
  qed
qed

text \<open>A new table at a fresh frame, wiped: nothing is mapped by it yet.\<close>

definition add_table :: "mmu \<Rightarrow> ptr \<Rightarrow> physaddr_t \<Rightarrow> mmu" where
  "add_table m page table =
     (let m = set_pde m page (new_entry (PAGE_PRESENT OR PAGE_USERMODE OR PAGE_RW) table (pde m page))
      in m\<lparr>mem := (mem m)(frame_of table := (\<lambda>j. wiped (mem m (frame_of table) j)))\<rparr>)"

lemma add_table_space:
  assumes ok: "space_ok m" and d: "dir_of page \<noteq> - 1" "\<not> present (pde m page)" and T: "frame_of table \<notin> table_frames m"
  shows "space_ok (add_table m page table)" "table_frames (add_table m page table) = insert (frame_of table) (table_frames m)"
    "dir_of q \<noteq> - 1 \<Longrightarrow> translate (add_table m page table) q w = translate m q w"
    "present (pde (add_table m page table) page)"
    "dir_of q \<noteq> - 1 \<Longrightarrow> leaf (add_table m page table) q = leaf m q"
    "kernel_tables (add_table m page table) = kernel_tables m"
proof -
  let ?e = "new_entry (PAGE_PRESENT OR PAGE_USERMODE OR PAGE_RW) table (pde m page)" and ?T = "frame_of table" and ?m = "add_table m page table"
  have e: "present ?e" "rw ?e" "physical_address ?e = ?T" "usermode ?e" by simp_all
  have ne: "?T \<noteq> top m" using T top_table [OF space_okD(1) [OF ok]] by metis
  have c: "cr3 ?m = cr3 m" by (simp add: add_table_def Let_def)
  have D: "mem ?m (top m) = (mem m (top m))(dir_of page := ?e)" using ne by (auto simp: add_table_def Let_def set_pde_def put_word_def)
  have M: "mem ?m f = mem m f" if "f \<noteq> top m" "f \<noteq> ?T" for f using that by (simp add: add_table_def Let_def set_pde_def)
  have W: "\<not> present (mem ?m ?T j)" for j by (simp add: add_table_def Let_def)
  have used: "physical_address (mem m (top m) i) \<noteq> ?T" if "present (mem m (top m) i)" for i using T that by (auto simp: table_frames_def)
  show "present (pde ?m page)" using e by (simp add: c D)
  show "kernel_tables ?m = kernel_tables m" unfolding kernel_tables_def c D using d(2) e(4) by auto
  show "space_ok ?m"
    using ok d(1) e ne used used [symmetric] unfolding space_ok_def self_mapped_def c D Let_def by auto
  have "table_frames ?m = {?T} \<union> {physical_address (mem m (top m) i) | i. i \<noteq> dir_of page \<and> present (mem m (top m) i)}"
    unfolding table_frames_def c D using e by auto
  also have "\<dots> = insert ?T (table_frames m)" unfolding table_frames_def using d(2) by auto
  finally show "table_frames ?m = insert ?T (table_frames m)" .
  show "translate ?m q w = translate m q w" if q: "dir_of q \<noteq> - 1"
  proof (cases "dir_of q = dir_of page")
    case True
    then show ?thesis using d(2) e W by (auto simp: translate_space c D)
  next
    case False
    have "mem ?m (table_of m q) = mem m (table_of m q)" if "present (pde m q)"
      using M space_okD(2) [OF ok q that] used [OF that] by blast
    then show ?thesis using False by (auto simp: translate_space c D)
  qed
  show "leaf ?m q = leaf m q" if q: "dir_of q \<noteq> - 1"
  proof (cases "dir_of q = dir_of page")
    case True
    then show ?thesis using d(2) e W by (auto simp: leaf_def c D)
  next
    case False
    have "mem ?m (table_of m q) = mem m (table_of m q)" if "present (pde m q)"
      using M space_okD(2) [OF ok q that] used [OF that] by blast
    then show ?thesis using False by (auto simp: leaf_def c D)
  qed
qed

lemma map_tables_effect:
  assumes ok: "space_ok (mm s)" and d: "dir_of page \<noteq> - 1"
  shows "map_tables L s page [0] =
    (if present (pde (mm s) page) then Some (s, error_code ENONE)
     else let (s', table) = reserve_page L s in
       if table = error_code ENOMEM then Some (s', error_code ENOMEM)
       else if frame_of table \<noteq> top (mm s) then Some (s'\<lparr>mm := add_table (mm s) page table\<rparr>, error_code ENONE)
       else map_tables L s page [0])"
proof -
  note sm = space_okD(1) [OF ok]
  obtain s' table where r: "reserve_page L s = (s', table)" by (cases "reserve_page L s")
  have mm: "mm s' = mm s" using r by (auto simp: reserve_page_def split: prod.splits)
  let ?e = "new_entry (PAGE_PRESENT OR PAGE_USERMODE OR PAGE_RW) table (pde (mm s) page)"
  let ?m = "set_pde (mm s) page ?e"
  have "frame_of table \<noteq> top (mm s) \<Longrightarrow> wipe_page_table ?m page (Suc 0) = Some (add_table (mm s) page table)"
    using wipe_page_table_effect [of ?m page] sm d by (simp add: add_table_def Let_def)
  then show ?thesis using sm d r mm
    by (auto simp: get_pte_type_window flags_of_bits set_pte_directory)
qed

text \<open>The frames of the tables are in use, so the allocator does not hand them out again.\<close>

definition frames_ok :: "('h \<Rightarrow> u32 set) \<Rightarrow> ('h \<Rightarrow> u32) \<Rightarrow> 'h machine \<Rightarrow> bool" where
  "frames_ok used block_size s \<longleftrightarrow> space_ok (mm s) \<and> block_size (page_map s) = page_size \<and> addr_of ` table_frames (mm s) \<subseteq> used (page_map s)"

lemma present_flags:
  "(PAGE_PRESENT OR flags) AND PAGE_PRESENT \<noteq> 0" "(PAGE_PRESENT OR flags) AND PAGE_RW = flags AND PAGE_RW"
  "(PAGE_PRESENT OR flags) AND PAGE_USERMODE = flags AND PAGE_USERMODE"
proof -
  have "bit (0x10000 :: u32) 16" by (simp add: bit_numeral_rec(1))
  then have "bit ((PAGE_PRESENT OR flags) AND PAGE_PRESENT) 16" by (simp add: bit_simps)
  then show "(PAGE_PRESENT OR flags) AND PAGE_PRESENT \<noteq> 0" by auto
qed (simp_all add: bit.conj_disj_distrib2)

context libmalloc
begin

lemma reserve_page_effect:
  assumes "reserve_page L s = (s', a)" "frames_ok used block_size s"
  shows "mm s' = mm s" "frames_ok used block_size s'" "used (page_map s) \<subseteq> used (page_map s')"
    "a \<noteq> error_code ENOMEM \<Longrightarrow> a \<notin> used (page_map s) \<and> a \<in> used (page_map s') \<and> addr_of (frame_of a) = a \<and> a mod page_size = 0"
proof -
  obtain h b where r: "reserve_region L (page_map s) page_size = (h, b)" by (cases "reserve_region L (page_map s) page_size")
  then have s': "s' = s\<lparr>page_map := h\<rparr>" "a = (if b = nomem L then error_code ENOMEM else b)" using assms(1) by (auto simp: reserve_page_def)
  then show "mm s' = mm s" "used (page_map s) \<subseteq> used (page_map s')" using reserve_used [OF r] by simp_all
  then show "frames_ok used block_size s'" using assms(2) s' reserve_block_size [OF r] by (auto simp: frames_ok_def)
  assume "a \<noteq> error_code ENOMEM"
  then have "a = b" "b \<noteq> nomem L" using s'(2) by (auto split: if_splits)
  then show "a \<notin> used (page_map s) \<and> a \<in> used (page_map s') \<and> addr_of (frame_of a) = a \<and> a mod page_size = 0"
    using reserve_fresh [OF r] assms(2) s'(1) addr_frame [of a] by (auto simp: frames_ok_def)
qed

lemma map_tables_ok:
  assumes ok: "frames_ok used block_size s" and d: "dir_of page \<noteq> - 1"
  obtains s' e where "map_tables L s page [0] = Some (s', e)" "e = error_code ENONE \<or> e = error_code ENOMEM" "frames_ok used block_size s'"
    "used (page_map s) \<subseteq> used (page_map s')" "system_heap s' = system_heap s" "cr3 (mm s') = cr3 (mm s)"
    "\<And>q w. dir_of q \<noteq> - 1 \<Longrightarrow> translate (mm s') q w = translate (mm s) q w" "e = error_code ENONE \<Longrightarrow> present (pde (mm s') page)"
    "\<And>q. dir_of q \<noteq> - 1 \<Longrightarrow> leaf (mm s') q = leaf (mm s) q" "kernel_tables (mm s') = kernel_tables (mm s)"
proof (cases "present (pde (mm s) page)")
  case True
  then show thesis using that [of s "error_code ENONE"] map_tables_effect [of s page L] ok d by (simp add: frames_ok_def)
next
  case False
  obtain s1 table where r: "reserve_page L s = (s1, table)" by (cases "reserve_page L s")
  note e = reserve_page_effect [OF r ok]
  have sp: "space_ok (mm s)" using ok by (simp add: frames_ok_def)
  have sh: "system_heap s1 = system_heap s" using r by (auto simp: reserve_page_def split: prod.splits)
  show thesis
  proof (cases "table = error_code ENOMEM")
    case True
    then show thesis using that [of s1 "error_code ENOMEM"] map_tables_effect [OF sp d, of L] False r e sh by simp
  next
    case ne: False
    have T: "frame_of table \<notin> table_frames (mm s)"
      using e(4) [OF ne] ok unfolding frames_ok_def by (metis image_eqI subsetD)
    then have "frame_of table \<noteq> top (mm s)" using top_table [OF space_okD(1) [OF sp]] by metis
    then have "map_tables L s page [0] = Some (s1\<lparr>mm := add_table (mm s) page table\<rparr>, error_code ENONE)"
      using map_tables_effect [OF sp d, of L] False r ne by simp
    moreover note add_table_space [OF sp d False T]
    moreover have "frames_ok used block_size (s1\<lparr>mm := add_table (mm s) page table\<rparr>)"
      using add_table_space(1,2) [OF sp d False T] e ne by (auto simp: frames_ok_def)
    ultimately show thesis using that [of "s1\<lparr>mm := add_table (mm s) page table\<rparr>" "error_code ENONE"] e(3) sh by (simp add: add_table_def Let_def)
  qed
qed

lemma map_page_ok:
  assumes ok: "frames_ok used block_size s" and d: "dir_of page \<noteq> - 1" and f: "frame mod page_size = 0"
  obtains s' e where "map_page L s page frame flags = Some (s', e)" "frames_ok used block_size s'" "used (page_map s) \<subseteq> used (page_map s')"
    "system_heap s' = system_heap s" "cr3 (mm s') = cr3 (mm s)" "e = error_code ENONE \<or> e = error_code ENOMEM"
    "e = error_code ENOMEM \<Longrightarrow> (\<And>q w. dir_of q \<noteq> - 1 \<Longrightarrow> translate (mm s') q w = translate (mm s) q w)"
    "e = error_code ENONE \<Longrightarrow> (\<And>q w. dir_of q \<noteq> - 1 \<Longrightarrow> translate (mm s') q w =
      (if dir_of q = dir_of page \<and> tab_of q = tab_of page then if w \<longrightarrow> flags AND PAGE_RW \<noteq> 0 then Some (frame_of frame) else None
       else translate (mm s) q w))"
    "\<And>q. dir_of q \<noteq> - 1 \<Longrightarrow> \<not> (e = error_code ENONE \<and> dir_of q = dir_of page \<and> tab_of q = tab_of page) \<Longrightarrow> leaf (mm s') q = leaf (mm s) q"
    "e = error_code ENONE \<Longrightarrow> (\<exists>x. leaf (mm s') page = Some x \<and> physical_address x = frame_of frame \<and> rw x = (flags AND PAGE_RW \<noteq> 0) \<and>
      usermode x = (flags AND PAGE_USERMODE \<noteq> 0))"
    "kernel_tables (mm s') = kernel_tables (mm s)"
proof -
  obtain s1 e where m: "map_tables L s page [0] = Some (s1, e)" "e = error_code ENONE \<or> e = error_code ENOMEM" "frames_ok used block_size s1"
    "used (page_map s) \<subseteq> used (page_map s1)" "system_heap s1 = system_heap s" "cr3 (mm s1) = cr3 (mm s)"
    "\<And>q w. dir_of q \<noteq> - 1 \<Longrightarrow> translate (mm s1) q w = translate (mm s) q w" "e = error_code ENONE \<Longrightarrow> present (pde (mm s1) page)"
    "\<And>q. dir_of q \<noteq> - 1 \<Longrightarrow> leaf (mm s1) q = leaf (mm s) q" "kernel_tables (mm s1) = kernel_tables (mm s)"
    by (rule map_tables_ok [OF ok d]) metis
  show thesis
  proof (cases "e = error_code ENONE")
    case False
    then have "map_page L s page frame flags = Some (s1, e)" using m(1) f by (simp add: map_page_def)
    then show thesis using that [of s1 e] m(2-7,9,10) False by auto
  next
    case True
    note p = m(8) [OF True]
    have sp: "space_ok (mm s1)" using m(3) by (simp add: frames_ok_def)
    note rt = space_okD(2) [OF sp d p]
    let ?e = "new_entry (PAGE_PRESENT OR flags) frame (pte (mm s1) page)"
    let ?m = "set_pte_entry (mm s1) page ?e"
    have fl: "(PAGE_PRESENT OR flags) AND PAGE_PRESENT \<noteq> 0" "(PAGE_PRESENT OR flags) AND PAGE_RW = flags AND PAGE_RW"
      "(PAGE_PRESENT OR flags) AND PAGE_USERMODE = flags AND PAGE_USERMODE" by (rule present_flags)+
    have e: "present ?e" "rw ?e \<longleftrightarrow> flags AND PAGE_RW \<noteq> 0" "usermode ?e \<longleftrightarrow> flags AND PAGE_USERMODE \<noteq> 0" "physical_address ?e = frame_of frame"
      by (simp_all only: new_entry_fields fl) simp_all
    have run: "map_page L s page frame flags = Some (s1\<lparr>mm := ?m\<rparr>, error_code ENONE)"
      using m(1) True f set_pte_table [OF space_okD(1) [OF sp]] rt p by (simp add: map_page_def)
    note se = set_entry_space [OF sp d p, where e = ?e]
    have D: "cr3 ?m = cr3 (mm s1)" using rt by simp
    show thesis
    proof (rule that [OF run])
      show "frames_ok used block_size (s1\<lparr>mm := ?m\<rparr>)" using m(3) se(1,2) by (simp add: frames_ok_def)
      show "translate (mm (s1\<lparr>mm := ?m\<rparr>)) q w =
        (if dir_of q = dir_of page \<and> tab_of q = tab_of page then if w \<longrightarrow> flags AND PAGE_RW \<noteq> 0 then Some (frame_of frame) else None
         else translate (mm s) q w)" if "dir_of q \<noteq> - 1" for q w
        using se(3) [OF that, of w] m(7) [OF that, of w] e by simp
      show "leaf (mm (s1\<lparr>mm := ?m\<rparr>)) q = leaf (mm s) q"
        if "dir_of q \<noteq> - 1" "\<not> (error_code ENONE = error_code ENONE \<and> dir_of q = dir_of page \<and> tab_of q = tab_of page)" for q
        using se(4) [OF that(1)] m(9) [OF that(1)] that(2) by auto
      show "\<exists>x. leaf (mm (s1\<lparr>mm := ?m\<rparr>)) page = Some x \<and> physical_address x = frame_of frame \<and> rw x = (flags AND PAGE_RW \<noteq> 0) \<and>
          usermode x = (flags AND PAGE_USERMODE \<noteq> 0)"
        using se(4) [OF d] e by simp
    qed (use m(4-6,10) se(5) D in auto)
  qed
qed

end

lemma unmap_page_effect:
  assumes ok: "space_ok (mm s)" and d: "dir_of page \<noteq> - 1"
  shows "unmap_page s page =
    (if present (pde (mm s) page) \<and> present (pte (mm s) page)
     then Some (s\<lparr>mm := set_pte_entry (mm s) page (new_entry 0 0 (pte (mm s) page))\<rparr>, addr_of (physical_address (pte (mm s) page)) OR (page AND 0xFFF))
     else Some (s, error_code EOUTOFBOUNDS))"
proof -
  note sm = space_okD(1) [OF ok]
  have a: "all_present (mm s) page [0, Suc 0] = Some (present (pde (mm s) page) \<and> present (pte (mm s) page))"
    by (simp add: get_pte_type_window [OF sm] flags_of_bits)
  show ?thesis
  proof (cases "present (pde (mm s) page) \<and> present (pte (mm s) page)")
    case True
    then show ?thesis using a set_pte_table [OF sm, of page 0 0] space_okD(2) [OF ok d]
      by (simp add: unmap_page_def get_pte_address_window [OF sm])
  next
    case False
    then show ?thesis using a by (auto simp: unmap_page_def simp del: all_present.simps)
  qed
qed

lemma create_space_effect:
  assumes sm: "self_mapped (mm s)" and ks: "dir_of kernel_start \<noteq> 0" and r: "reserve_page L s = (s', table)" "table \<noteq> error_code ENOMEM"
    and T: "frame_of table \<noteq> top (mm s)"
  shows "create_address_space L kernel_start s =
    (if present (mem (mm s) (top (mm s)) 0)
     then if rw (mem (mm s) (top (mm s)) 0)
       then Some (s'\<lparr>mm := (mm s)\<lparr>mem := (mem (mm s))(frame_of table := new_top kernel_start (mm s) (frame_of table))\<rparr>\<rparr>, table)
       else create_address_space L kernel_start s
     else None)"
proof -
  have mm: "mm s' = mm s" using r(1) by (auto simp: reserve_page_def split: prod.splits)
  then show ?thesis using init_top_table_effect [OF ks sm] init_top_table_fault [OF sm] T r
    by (simp add: create_address_space_def)
qed

section \<open>An allocator for examples\<close>

text \<open>It hands out one frame after the other and takes none back.\<close>

definition count_frames :: "nat libmalloc" where
  "count_frames = \<lparr>reserve_region = (\<lambda>h n. if h < 2 ^ 20 - 1 then (h + 1, of_nat (h * 4096)) else (h, 1)),
     free_region = (\<lambda>h a n. h), nomem = 1, free_block_count = (\<lambda>h. of_nat (2 ^ 20 - 1 - h)), bitmap = (\<lambda>h. 0), bitmap_bytes = (\<lambda>h. 0)\<rparr>"

interpretation count: libmalloc count_frames "\<lambda>h. {a. unat a < h * 4096}" "\<lambda>h. page_size"
proof (unfold_locales, goal_cases)
  case (1 h n h' a)
  then have "h < 2 ^ 20 - 1" "h' = h + 1" "a = of_nat (h * 4096)" by (auto simp: count_frames_def split: if_splits)
  moreover from this have "unat a = h * 4096" by (simp add: unat_of_nat del: of_nat_mult)
  moreover from this have "a mod page_size = 0" by (simp add: page_size_def word_unat_eq_iff unat_mod_distrib)
  ultimately show ?case by auto
next
  case (2 h n h')
  then show ?case by (auto simp: count_frames_def split: if_splits)
qed (auto simp: count_frames_def split: if_splits)

section \<open>Properties\<close>

text \<open>C5. \<^verbatim>\<open>map_page\<close> in a well-formed address space, for an aligned frame and an address outside of the recursive mapping:
  it returns ENONE or ENOMEM and the address space stays well formed. After ENONE the processor
  translates the page to the frame, for writing only with \<^verbatim>\<open>PAGE_RW\<close>, and every other page as before; after
  ENOMEM the translation is the old one.\<close>

theorem map_page_spec:
  assumes "libmalloc L used block_size" "frames_ok used block_size s" "dir_of page \<noteq> - 1" "frame mod page_size = 0"
  shows "\<exists>s' e. map_page L s page frame flags = Some (s', e) \<and> e \<in> {error_code ENONE, error_code ENOMEM} \<and> frames_ok used block_size s' \<and>
    (\<forall>q w. dir_of q \<noteq> - 1 \<longrightarrow> translate (mm s') q w =
      (if e = error_code ENONE \<and> dir_of q = dir_of page \<and> tab_of q = tab_of page
       then if w \<longrightarrow> flags AND PAGE_RW \<noteq> 0 then Some (frame_of frame) else None else translate (mm s) q w))"
proof (rule libmalloc.map_page_ok [OF assms, where flags = flags], goal_cases)
  case (1 s' e)
  then show ?case
    by (intro exI [of _ s'] exI [of _ e] conjI allI impI; cases "e = error_code ENONE") (simp_all del: error_code.simps)
qed

text \<open>A machine whose directory is frame 1, with an empty table for the first 4 MB in frame 2.\<close>

definition small_mmu :: mmu where
  "small_mmu = \<lparr>mem = (\<lambda>f i. if f = 1 \<and> i = - 1 then 0x1003 else if f = 1 \<and> i = 0 then 0x2003 else 0), cr3 = 0x1000\<rparr>"

definition small_machine :: "nat machine" where
  "small_machine = \<lparr>mm = small_mmu, page_map = 3, system_heap = 0\<rparr>"

lemma small_entries:
  "present 0x1003" "rw 0x1003" "physical_address 0x1003 = 1" "present 0x2003" "rw 0x2003" "physical_address 0x2003 = 2" "\<not> present 0" "frame_of 0x1000 = 1"
  by (simp_all add: present_def rw_def physical_address_def frame_of_def bit_numeral_rec)

lemma small_machine_ok: "frames_ok (\<lambda>h. {a. unat a < h * 4096}) (\<lambda>h. page_size) small_machine"
proof -
  have t: "top small_mmu = 1" by (simp add: small_mmu_def small_entries)
  have e: "mem small_mmu 1 i = (if i = - 1 then 0x1003 else if i = 0 then 0x2003 else 0)" for i by (simp add: small_mmu_def)
  have "space_ok small_mmu"
    unfolding space_ok_def self_mapped_def Let_def t by (simp add: e small_entries)
  moreover have "table_frames small_mmu = {1, 2}"
    unfolding table_frames_def t using small_entries e [of "- 1"] e [of 0] by (auto simp: e split: if_splits) (rule exI [of _ "- 1"], simp)
  ultimately show ?thesis by (simp add: frames_ok_def small_machine_def addr_of_def)
qed

theorem map_page_spec_witness:
  "\<exists>s' e. map_page count_frames small_machine 0x400000 0x7000 PAGE_RW = Some (s', e) \<and> e \<in> {error_code ENONE, error_code ENOMEM} \<and>
     (e = error_code ENONE \<longrightarrow> translate (mm s') 0x400ABC True = Some 7)"
proof -
  have a: "dir_of 0x400000 \<noteq> - 1" "(0x7000 :: u32) mod page_size = 0" "dir_of 0x400ABC = dir_of 0x400000" "tab_of 0x400ABC = tab_of 0x400000"
    "frame_of 0x7000 = 7" "(PAGE_RW :: u32) AND PAGE_RW \<noteq> 0"
    by (simp_all add: dir_of_def tab_of_def page_size_def frame_of_def)
  from map_page_spec [OF count.libmalloc_axioms small_machine_ok a(1,2), of PAGE_RW] obtain s' e where
    m: "map_page count_frames small_machine 0x400000 0x7000 PAGE_RW = Some (s', e)" "e \<in> {error_code ENONE, error_code ENOMEM}"
    and t: "\<forall>q w. dir_of q \<noteq> - 1 \<longrightarrow> translate (mm s') q w =
      (if e = error_code ENONE \<and> dir_of q = dir_of 0x400000 \<and> tab_of q = tab_of 0x400000
       then if w \<longrightarrow> PAGE_RW AND PAGE_RW \<noteq> 0 then Some (frame_of 0x7000) else None else translate (mm small_machine) q w)" by blast
  have "e = error_code ENONE \<longrightarrow> translate (mm s') 0x400ABC True = Some 7"
    using t [rule_format, of "0x400ABC" True] a by (simp del: error_code.simps)
  with m show ?thesis by blast
qed

text \<open>\<^verbatim>\<open>unmap_page\<close> in a well-formed address space always returns: for a mapped page the address of its frame (with
  the offset of the given address), and the page is then not mapped while every other page is translated as before;
  otherwise EOUTOFBOUNDS without a change.\<close>

theorem unmap_page_spec:
  assumes "space_ok (mm s)" "dir_of page \<noteq> - 1"
  shows "case translate (mm s) page False of
      None \<Rightarrow> unmap_page s page = Some (s, error_code EOUTOFBOUNDS)
    | Some f \<Rightarrow> \<exists>s'. unmap_page s page = Some (s', addr_of f OR (page AND 0xFFF)) \<and> space_ok (mm s') \<and>
        table_frames (mm s') = table_frames (mm s) \<and> page_map s' = page_map s \<and>
        (\<forall>q w. dir_of q \<noteq> - 1 \<longrightarrow> translate (mm s') q w =
          (if dir_of q = dir_of page \<and> tab_of q = tab_of page then None else translate (mm s) q w))"
proof (cases "present (pde (mm s) page) \<and> present (pte (mm s) page)")
  case True
  note se = set_entry_space [OF assms, where e = "new_entry 0 0 (pte (mm s) page)"]
  from True have "translate (mm s) page False = Some (physical_address (pte (mm s) page))" by (simp add: translate_space)
  moreover have "unmap_page s page = Some (s\<lparr>mm := set_pte_entry (mm s) page (new_entry 0 0 (pte (mm s) page))\<rparr>,
      addr_of (physical_address (pte (mm s) page)) OR (page AND 0xFFF))" using unmap_page_effect [OF assms] True by simp
  ultimately show ?thesis using True se by auto
next
  case False
  then have "translate (mm s) page False = None" by (auto simp: translate_space)
  moreover have "unmap_page s page = Some (s, error_code EOUTOFBOUNDS)" using unmap_page_effect [OF assms] False by (simp only: if_False)
  ultimately show ?thesis by simp
qed

theorem unmap_page_spec_witness: "unmap_page small_machine 0x1000 = Some (small_machine, 2)"
proof -
  have "space_ok (mm small_machine)" using small_machine_ok by (simp add: frames_ok_def)
  moreover have "dir_of 0x1000 \<noteq> - 1" "dir_of 0x1000 = 0" by (simp_all add: dir_of_def)
  moreover have "translate (mm small_machine) 0x1000 False = None"
    using \<open>dir_of 0x1000 = 0\<close> by (simp add: translate_def small_machine_def small_mmu_def small_entries Let_def)
  ultimately show ?thesis using unmap_page_spec [of small_machine "0x1000"] by simp
qed

lemma new_space:
  assumes ok: "space_ok m" and T: "frame_of table \<notin> table_frames m" and m': "m' = m\<lparr>mem := (mem m)(frame_of table := new_top kernel_start m (frame_of table))\<rparr>"
  shows "dir_of q \<noteq> - 1 \<Longrightarrow> translate m' q w = translate m q w"
    "self_mapped (paging_load_address_space m' table)"
    "dir_of q \<noteq> - 1 \<Longrightarrow> translate (paging_load_address_space m' table) q w = (if dir_of kernel_start \<le> dir_of q then translate m q w else None)"
proof -
  have nt: "frame_of table \<noteq> top m" using T top_table [OF space_okD(1) [OF ok]] by metis
  have t: "present (pde m q) \<Longrightarrow> table_of m q \<noteq> frame_of table" for q using T by (auto simp: table_frames_def)
  have "\<not> present 0" by (simp add: present_def)
  then show "dir_of q \<noteq> - 1 \<Longrightarrow> translate m' q w = translate m q w"
    "dir_of q \<noteq> - 1 \<Longrightarrow> translate (paging_load_address_space m' table) q w = (if dir_of kernel_start \<le> dir_of q then translate m q w else None)"
    using nt t [of q] by (auto simp: m' translate_space new_top_def paging_load_address_space_def)
  show "self_mapped (paging_load_address_space m' table)"
    by (simp add: m' self_mapped_def new_top_def paging_load_address_space_def Let_def)
qed

text \<open>C8. \<^verbatim>\<open>create_address_space\<close> in a well-formed address space: when the first 4 MB have a page table it returns ENOMEM or a new
  top-level table. The current space is translated as before; the new one, once loaded, is mapped into itself,
  translates the kernel's addresses as the current one does and maps nothing below them. When the first 4 MB have no
  page table, it faults (if there is a frame): the first directory entry is borrowed without being made present.\<close>

theorem create_address_space_spec:
  assumes "libmalloc L used block_size" "frames_ok used block_size s" "dir_of kernel_start \<noteq> 0"
  shows "if present (mem (mm s) (top (mm s)) 0) then \<exists>s' table. create_address_space L kernel_start s = Some (s', table) \<and>
      (table = error_code ENOMEM \<or> table \<notin> used (page_map s) \<and> table \<in> used (page_map s') \<and>
        (\<forall>q w. dir_of q \<noteq> - 1 \<longrightarrow> translate (mm s') q w = translate (mm s) q w) \<and>
        self_mapped (paging_load_address_space (mm s') table) \<and>
        (\<forall>q w. dir_of q \<noteq> - 1 \<longrightarrow> translate (paging_load_address_space (mm s') table) q w =
           (if dir_of kernel_start \<le> dir_of q then translate (mm s) q w else None)))
    else snd (reserve_page L s) \<noteq> error_code ENOMEM \<longrightarrow> create_address_space L kernel_start s = None"
proof -
  obtain s1 table where r: "reserve_page L s = (s1, table)" by (cases "reserve_page L s")
  note e = libmalloc.reserve_page_effect [OF assms(1) r assms(2)]
  have ok: "space_ok (mm s)" "addr_of ` table_frames (mm s) \<subseteq> used (page_map s)" using assms(2) by (auto simp: frames_ok_def)
  show ?thesis
  proof (cases "table = error_code ENOMEM")
    case True
    then show ?thesis using r by (simp add: create_address_space_def)
  next
    case False
    have T: "frame_of table \<notin> table_frames (mm s)" using e(4) [OF False] ok(2) by (metis image_eqI subsetD)
    then have "frame_of table \<noteq> top (mm s)" using top_table [OF space_okD(1) [OF ok(1)]] by metis
    note c = create_space_effect [OF space_okD(1) [OF ok(1)] assms(3) r False this]
    show ?thesis
    proof (cases "present (mem (mm s) (top (mm s)) 0)")
      case p: True
      then have "rw (mem (mm s) (top (mm s)) 0)" using space_okD(2) [OF ok(1), of 0] by simp
      with c p e(4) [OF False] new_space [OF ok(1) T refl] show ?thesis by simp
    next
      case p: False
      then show ?thesis using c by simp
    qed
  qed
qed

theorem create_address_space_spec_witness:
  "\<exists>s' table. create_address_space count_frames 0xC0000000 small_machine = Some (s', table) \<and>
     (table = error_code ENOMEM \<or> self_mapped (paging_load_address_space (mm s') table))"
proof -
  have "dir_of 0xC0000000 \<noteq> 0" by (simp add: dir_of_def)
  moreover have "present (mem (mm small_machine) (top (mm small_machine)) 0)"
    by (simp add: small_machine_def small_mmu_def small_entries)
  ultimately show ?thesis using create_address_space_spec [OF count.libmalloc_axioms small_machine_ok, of "0xC0000000"] by auto
qed

end
