(* ===== verification/Platform.thy ===== *)
theory Platform
  imports Prelude
begin

text \<open>
  What \<^verbatim>\<open>src/kernel.c\<close> and \<^verbatim>\<open>src/x86/context.c\<close> need from the layers below: the kernel heap, the
  current address space, memory accesses through it, and the page allocator. \<open>'m\<close> is the state of the
  machine and of the memory managers; a value of type \<open>'m platform\<close> packs the operations on it.
  Accesses to memory are runs of bytes in the current address space that fault as a whole.
\<close>

unbundle bit_operations_syntax

section \<open>The interface\<close>

record 'm platform =
  heap_of :: "'m allocator"
  paging_load :: "'m \<Rightarrow> physaddr_t \<Rightarrow> 'm"
  paging_current :: "'m \<Rightarrow> physaddr_t option"
  read_bytes :: "'m \<Rightarrow> ptr \<Rightarrow> nat \<Rightarrow> u8 list option"
  write_bytes :: "'m \<Rightarrow> ptr \<Rightarrow> u8 list \<Rightarrow> 'm option"
  reserve_frame :: "'m \<Rightarrow> ('m \<times> physaddr_t) option"
  map_frame :: "'m \<Rightarrow> ptr \<Rightarrow> physaddr_t \<Rightarrow> u32 \<Rightarrow> ('m \<times> u32) option"

text \<open>
  The laws: the heap is a kernel heap, and no other operation ends the use of a heap block. Reading
  delivers as many bytes as were asked for.
\<close>

locale kernel_platform = kernel_heap "heap_of P" live
  for P :: "'m platform" and live :: "'m \<Rightarrow> ptr set" +
  assumes load_live: "live (paging_load P m t) = live m"
    and write_live: "write_bytes P m p bs = Some m' \<Longrightarrow> live m' = live m"
    and reserve_live: "reserve_frame P m = Some (m', f) \<Longrightarrow> live m' = live m"
    and map_live: "map_frame P m p f fl = Some (m', e) \<Longrightarrow> live m' = live m"
    and read_length: "read_bytes P m p n = Some bs \<Longrightarrow> length bs = n"

section \<open>Words in memory\<close>

text \<open>i386 is little-endian.\<close>

definition bytes_of :: "u32 \<Rightarrow> u8 list" where
  "bytes_of w = [ucast w, ucast (drop_bit 8 w), ucast (drop_bit 16 w), ucast (drop_bit 24 w)]"

fun word_of :: "u8 list \<Rightarrow> u32" where
  "word_of [b0, b1, b2, b3] =
     ucast b0 OR push_bit 8 (ucast b1) OR push_bit 16 (ucast b2) OR push_bit 24 (ucast b3)"
| "word_of _ = 0"

fun words_of :: "u8 list \<Rightarrow> u32 list" where
  "words_of (b0 # b1 # b2 # b3 # bs) = word_of [b0, b1, b2, b3] # words_of bs"
| "words_of _ = []"

lemma length_bytes_of [simp]: "length (bytes_of w) = 4"
  by (simp add: bytes_of_def)

lemma word_of_bytes_of [simp]: "word_of (bytes_of w) = w"
proof (rule bit_word_eqI)
  fix n
  assume "n < LENGTH(32)"
  then consider "n < 8" | "8 \<le> n" "n < 16" | "16 \<le> n" "n < 24" | "24 \<le> n" "n < 32" by fastforce
  then show "bit (word_of (bytes_of w)) n = bit w n"
    by cases (auto simp: bytes_of_def bit_simps)
qed

lemma words_of_concat [simp]: "words_of (concat (map bytes_of ws)) = ws"
  by (induction ws) (simp_all add: bytes_of_def flip: word_of.simps, metis bytes_of_def word_of_bytes_of)

lemma length_words_of: "length (words_of bs) = length bs div 4"
  by (induction bs rule: words_of.induct) auto

lemma length_concat_bytes [simp]: "length (concat (map bytes_of ws)) = 4 * length ws"
  by (induction ws) simp_all

section \<open>A platform for examples\<close>

text \<open>
  Blocks are handed out in ascending order and never reused, every address space is a separate flat
  memory in which no access faults, and frames are numbered upwards.
\<close>

record flat =
  f_brk :: u32
  f_cr3 :: physaddr_t
  f_mem :: "physaddr_t \<Rightarrow> ptr \<Rightarrow> u8"
  f_next :: physaddr_t

fun poke :: "(ptr \<Rightarrow> u8) \<Rightarrow> ptr \<Rightarrow> u8 list \<Rightarrow> ptr \<Rightarrow> u8" where
  "poke f p [] = f"
| "poke f p (b # bs) = poke (f(p := b)) (p + 1) bs"

definition peek :: "(ptr \<Rightarrow> u8) \<Rightarrow> ptr \<Rightarrow> nat \<Rightarrow> u8 list" where
  "peek f p n = map (\<lambda>i. f (p + of_nat i)) [0..<n]"

definition flat_heap :: "flat allocator" where
  "flat_heap = \<lparr>km = (\<lambda>m n. if unat (f_brk m) + 64 < 2 ^ 32 then Some (m\<lparr>f_brk := f_brk m + 64\<rparr>, f_brk m) else Some (m, NULL)),
     kf = (\<lambda>m p. m)\<rparr>"

definition flat_platform :: "flat platform" where
  "flat_platform = \<lparr>heap_of = flat_heap,
     paging_load = (\<lambda>m t. m\<lparr>f_cr3 := t\<rparr>),
     paging_current = (\<lambda>m. Some (f_cr3 m)),
     read_bytes = (\<lambda>m p n. Some (peek (f_mem m (f_cr3 m)) p n)),
     write_bytes = (\<lambda>m p bs. Some (m\<lparr>f_mem := (f_mem m)(f_cr3 m := poke (f_mem m (f_cr3 m)) p bs)\<rparr>)),
     reserve_frame = (\<lambda>m. Some (m\<lparr>f_next := f_next m + 0x1000\<rparr>, f_next m)),
     map_frame = (\<lambda>m p f fl. Some (m, 0))\<rparr>"

definition flat_init :: flat where
  "flat_init = \<lparr>f_brk = 64, f_cr3 = 0, f_mem = (\<lambda>_ _. 0), f_next = 0x1000\<rparr>"

lemmas flat_defs = flat_platform_def flat_heap_def flat_init_def

interpretation flat: kernel_platform flat_platform "\<lambda>m. {p. p < f_brk m}"
proof (unfold_locales, goal_cases)
  case (1 a n a' p)
  then show ?case using bump_step [of "f_brk a"] by (auto simp: flat_defs split: if_splits)
next
  case (2 a n a')
  then show ?case using bump_step [of "f_brk a"] by (auto simp: flat_defs split: if_splits)
qed (auto simp: flat_defs peek_def)

end
