(* ===== verification/Heap.thy ===== *)
theory Heap
  imports Mmgr Platform
begin

text \<open>
  The kernel heap of \<^verbatim>\<open>src/heap.c\<close>, on top of libmalloc and the memory manager, and the machine that results:
  with it the interface that the kernel is written against is the memory of this machine, its heap and its page
  tables.
\<close>

section \<open>The code\<close>

partial_function (option) map_block :: "'h libmalloc \<Rightarrow> 'h machine \<Rightarrow> ptr \<Rightarrow> u32 \<Rightarrow> u32 \<Rightarrow> ('h machine \<times> u32) option" where
  "map_block L s location n sz =
     (if n < sz then do {
        t \<leftarrow> page_type s (location + n);
        if t AND PAGE_PRESENT = 0 then
          (let (s, frame) = reserve_page L s in do {
             (s, status) \<leftarrow> map_page L s (location + n) frame PAGE_RW;
             if status \<noteq> error_code ENONE then Some (s, status)
             else map_block L s location (n + page_size) sz })
        else map_block L s location (n + page_size) sz }
      else Some (s, error_code ENONE))"

text \<open>The callback takes a frame to see whether there is one, and then takes another to map.\<close>

partial_function (option) mmap_callback :: "'h libmalloc \<Rightarrow> 'h machine \<Rightarrow> ptr \<Rightarrow> u32 \<Rightarrow> u32 \<Rightarrow> ('h machine \<times> u32) option" where
  "mmap_callback L s location i sz =
     (if i < sz then
        (let (s, frame) = reserve_page L s in
         if frame = error_code ENOMEM then Some (s, error_code ENOMEM)
         else (let (s, frame) = reserve_page L s in do {
           (s, status) \<leftarrow> map_page L s (location + i) frame PAGE_RW;
           if status \<noteq> error_code ENONE then Some (s, status)
           else mmap_callback L s location (i + page_size) sz }))
      else Some (s, error_code ENONE))"

text \<open>\<^verbatim>\<open>kminit\<close> fills in the descriptor and a memory map and hands both, with the callback, to libmalloc's
  \<^verbatim>\<open>initialize_heap\<close>. That function and \<^verbatim>\<open>memmap_insert_region\<close> are parameters.\<close>

record heap_config =
  cfg_bitmap :: ptr
  cfg_cache_capacity :: nat
  cfg_block_bits :: nat
  cfg_block_size :: u32
  cfg_offset :: u32

datatype region_type = M_AVAILABLE | M_UNAVAILABLE | M_DEFECTIVE

type_synonym 'map map_insert = "'map \<Rightarrow> u32 \<Rightarrow> u32 \<Rightarrow> region_type \<Rightarrow> 'map"

text \<open>The result of \<^verbatim>\<open>initialize_heap\<close>: the machine (the callback maps pages), the descriptor with its bitmap, and the status.\<close>

type_synonym ('h, 'map) heap_init =
  "heap_config \<Rightarrow> 'map \<Rightarrow> ('h machine \<Rightarrow> ptr \<Rightarrow> u32 \<Rightarrow> ('h machine \<times> u32) option) option \<Rightarrow> 'h machine \<Rightarrow> ('h machine \<times> 'h \<times> u32) option"

definition kminit ::
  "'h libmalloc \<Rightarrow> 'map map_insert \<Rightarrow> ('h, 'map) heap_init \<Rightarrow> 'map \<Rightarrow> 'h machine \<Rightarrow> ptr \<Rightarrow> ptr \<Rightarrow> u32 \<Rightarrow> u32 \<Rightarrow> ('h machine \<times> u32) option" where
  "kminit L insert_region initialize_heap empty_map s base start heap_size block_size =
     (let cfg = \<lparr>cfg_bitmap = NULL, cfg_cache_capacity = 16, cfg_block_bits = 4, cfg_block_size = block_size, cfg_offset = base\<rparr>;
          map = insert_region empty_map 0 heap_size M_AVAILABLE;
          map = insert_region map 0 (start - base) M_UNAVAILABLE
      in do {
        (s, h, status) \<leftarrow> initialize_heap cfg map (Some (\<lambda>s location sz. mmap_callback L s location 0 sz)) s;
        Some (s\<lparr>system_heap := h\<rparr>, status) })"

definition kmalloc :: "'h libmalloc \<Rightarrow> 'h machine \<Rightarrow> u32 \<Rightarrow> ('h machine \<times> ptr) option" where
  "kmalloc L s sz =
     (let (h, loc) = reserve_region L (system_heap s) sz; s = s\<lparr>system_heap := h\<rparr> in
      if loc = nomem L then Some (s, NULL)
      else do {
        (s, status) \<leftarrow> map_block L s loc 0 sz;
        if status \<noteq> error_code ENONE then Some (s, NULL) else Some (s, loc) })"

definition kfree :: "'h libmalloc \<Rightarrow> 'h machine \<Rightarrow> ptr \<Rightarrow> 'h machine" where
  "kfree L s p = s\<lparr>system_heap := free_region L (system_heap s) p 0\<rparr>"

section \<open>Memory of the current address space\<close>

definition byte_shift :: "ptr \<Rightarrow> nat" where
  "byte_shift va = 8 * unat (va AND 3)"

definition load8 :: "mmu \<Rightarrow> ptr \<Rightarrow> u8 option" where
  "load8 m va = do { f \<leftarrow> translate m va False; Some (ucast (drop_bit (byte_shift va) (mem m f (word_at va)))) }"

definition put_byte :: "nat \<Rightarrow> u8 \<Rightarrow> u32 \<Rightarrow> u32" where
  "put_byte k b w = (w AND NOT (push_bit k 0xFF)) OR push_bit k (ucast b)"

definition store8 :: "mmu \<Rightarrow> ptr \<Rightarrow> u8 \<Rightarrow> mmu option" where
  "store8 m va b = do { f \<leftarrow> translate m va True;
     Some (m\<lparr>mem := put_word (mem m) f (word_at va) (put_byte (byte_shift va) b (mem m f (word_at va)))\<rparr>) }"

definition read_mem :: "mmu \<Rightarrow> ptr \<Rightarrow> nat \<Rightarrow> u8 list option" where
  "read_mem m va n = those (map (\<lambda>i. load8 m (va + of_nat i)) [0..<n])"

fun write_mem :: "mmu \<Rightarrow> ptr \<Rightarrow> u8 list \<Rightarrow> mmu option" where
  "write_mem m va [] = Some m"
| "write_mem m va (b # bs) = do { m \<leftarrow> store8 m va b; write_mem m (va + 1) bs }"

definition quark_platform :: "'h libmalloc \<Rightarrow> 'h machine platform" where
  "quark_platform L = \<lparr>heap_of = \<lparr>km = kmalloc L, kf = kfree L\<rparr>,
     paging_load = (\<lambda>s t. s\<lparr>mm := paging_load_address_space (mm s) t\<rparr>),
     paging_current = current_address_space,
     read_bytes = (\<lambda>s. read_mem (mm s)),
     write_bytes = (\<lambda>s p bs. map_option (\<lambda>m. s\<lparr>mm := m\<rparr>) (write_mem (mm s) p bs)),
     reserve_frame = (\<lambda>s. Some (reserve_page L s)),
     map_frame = map_page L\<rparr>"

section \<open>The machine is a platform for the kernel\<close>

lemma reserve_page_heap [frame_simps]: "reserve_page L s = (s', a) \<Longrightarrow> system_heap s' = system_heap s"
  by (auto simp: reserve_page_def split: prod.splits)

lemma map_tables_heap: "map_tables L s page ls = Some (s', e) \<Longrightarrow> system_heap s' = system_heap s"
proof (induction L s page ls rule: map_tables.induct)
  case (2 L s page level levels)
  obtain s1 t where r: "reserve_page L s = (s1, t)" by (cases "reserve_page L s")
  show ?case using 2 r reserve_page_heap [OF r] by (fastforce split: Option.bind_splits if_splits)
qed simp

lemma map_page_heap [frame_simps]: "map_page L s page f fl = Some (s', e) \<Longrightarrow> system_heap s' = system_heap s"
  by (auto simp: map_page_def simp del: map_tables.simps split: Option.bind_splits if_splits dest!: map_tables_heap)

lemma map_block_heap:
  assumes "map_block L s location n sz = Some r"
  shows "system_heap (fst r) = system_heap s"
proof (rule map_block.raw_induct [where P = "\<lambda>L s location n sz r. system_heap (fst r) = system_heap s", OF _ assms], goal_cases)
  case (1 map_block L s location n sz r)
  obtain s1 f where p: "reserve_page L s = (s1, f)" by (cases "reserve_page L s")
  show ?case using 1(2) p reserve_page_heap [OF p]
    by (auto split: Option.bind_splits if_splits dest!: 1(1) map_page_heap)
qed

lemma those_length: "those xs = Some ys \<Longrightarrow> length ys = length xs"
  by (induction xs arbitrary: ys) (auto split: option.splits)

context libmalloc
begin

lemma kmalloc_heap:
  assumes "kmalloc L s n = Some (s', p)"
  shows "if p = NULL then used (system_heap s) \<subseteq> used (system_heap s')
    else p \<notin> used (system_heap s) \<and> insert p (used (system_heap s)) \<subseteq> used (system_heap s')"
proof -
  obtain h a where r: "reserve_region L (system_heap s) n = (h, a)" by (cases "reserve_region L (system_heap s) n")
  have sh: "system_heap s' = h"
    using assms r by (auto simp: kmalloc_def Let_def split: if_splits Option.bind_splits dest!: map_block_heap)
  have "p = NULL \<or> p = a \<and> a \<noteq> nomem L"
    using assms r by (auto simp: kmalloc_def Let_def split: if_splits Option.bind_splits)
  then show ?thesis using sh reserve_used [OF r] reserve_fresh [OF r] by auto
qed

end

sublocale libmalloc < quark: kernel_platform "quark_platform L" "\<lambda>s. used (system_heap s)"
proof (unfold_locales, goal_cases)
  case (1 a n a' p)
  then show ?case using kmalloc_heap [of a n a' p] by (simp add: quark_platform_def)
next
  case (2 a n a')
  then show ?case using kmalloc_heap [of a n a' NULL] by (simp add: quark_platform_def)
next
  case (3 a p)
  then show ?case using free_used by (simp add: quark_platform_def kfree_def)
qed (auto simp: quark_platform_def read_mem_def dest: those_length reserve_page_heap map_page_heap)

section \<open>Blocks are mapped\<close>

definition readable :: "mmu \<Rightarrow> ptr \<Rightarrow> bool" where
  "readable m q \<longleftrightarrow> translate m q False \<noteq> None"

lemma page_type_readable:
  "space_ok (mm s) \<Longrightarrow> page_type s q = Some t \<Longrightarrow> t AND PAGE_PRESENT = 0 \<longleftrightarrow> \<not> readable (mm s) q"
  by (auto simp: page_type_entry flags_of_bits readable_def translate_space)

lemma page_type_returns: "space_ok (mm s) \<Longrightarrow> \<exists>t. page_type s q = Some t"
  by (simp add: page_type_entry)

text \<open>The addresses that the loops over pages visit.\<close>

lemma next_page: "(n :: u32) < sz \<Longrightarrow> unat sz \<le> 0xFFFFF000 \<Longrightarrow> unat (n + page_size) = unat n + 4096"
  by (simp add: page_size_def unat_word_ariths word_less_nat_alt)

context libmalloc
begin

lemma quark_axioms: "kernel_platform (quark_platform L) (\<lambda>s. used (system_heap s))"
  by (rule quark.kernel_platform_axioms)

lemma map_frame_mono:
  assumes "frames_ok used block_size s" "dir_of page \<noteq> - 1" "\<not> readable (mm s) page"
  obtains s1 f s2 e where "reserve_page L s = (s1, f)" "map_page L s1 page f flags = Some (s2, e)" "frames_ok used block_size s2"
    "\<And>q. dir_of q \<noteq> - 1 \<Longrightarrow> readable (mm s) q \<Longrightarrow> readable (mm s2) q" "e = error_code ENONE \<Longrightarrow> readable (mm s2) page"
    "used (page_map s) \<subseteq> used (page_map s2)" "cr3 (mm s2) = cr3 (mm s)"
proof -
  obtain s1 f where r: "reserve_page L s = (s1, f)" by (cases "reserve_page L s")
  note e = reserve_page_effect [OF r assms(1)]
  show thesis
  proof (cases "f = error_code ENOMEM")
    case True
    then have "map_page L s1 page f flags = Some (s1, error_code EINVALIDARG)" by (simp add: map_page_def page_size_def)
    then show thesis using that [OF r, of s1 "error_code EINVALIDARG"] e by simp
  next
    case False
    then have f: "f mod page_size = 0" using e(4) by blast
    show thesis
    proof (rule map_page_ok [OF e(2) assms(2) f, where flags = flags], goal_cases)
      case (1 s2 st)
      show thesis
      proof (rule that [OF r 1(1,2)])
        show "readable (mm s2) q" if "dir_of q \<noteq> - 1" "readable (mm s) q" for q
          using 1(6) 1(7,8) [OF _ that(1), of False] that(2) e(1) by (auto simp: readable_def)
        show "readable (mm s2) page" if "st = error_code ENONE" using 1(8) [OF that assms(2), of False] by (simp add: readable_def)
      qed (use 1(3,5) e(1,3) in auto)
    qed
  qed
qed

lemma map_block_maps:
  assumes "frames_ok used block_size s" "unat sz \<le> 0xFFFFF000" "\<And>n. n < sz \<Longrightarrow> dir_of (location + n) \<noteq> - 1"
  shows "\<exists>s' e. map_block L s location n sz = Some (s', e) \<and> frames_ok used block_size s' \<and>
    (\<forall>q. dir_of q \<noteq> - 1 \<longrightarrow> readable (mm s) q \<longrightarrow> readable (mm s') q) \<and>
    (e = error_code ENONE \<longrightarrow> (\<forall>k. unat n + k * 4096 < unat sz \<longrightarrow> readable (mm s') (location + n + of_nat (k * 4096))))"
  using assms(1)
proof (induction "unat sz - unat n" arbitrary: s n rule: less_induct)
  case less
  show ?case
  proof (cases "n < sz")
    case False
    then have "map_block L s location n sz = Some (s, error_code ENONE)" by (simp add: map_block.simps)
    then show ?thesis using less(2) False by (auto simp: word_less_nat_alt)
  next
    case True
    note nx = next_page [OF True assms(2)]
    have dec: "unat sz - unat (n + page_size) < unat sz - unat n" using nx True by (simp add: word_less_nat_alt)
    have d: "dir_of (location + n) \<noteq> - 1" using assms(3) True .
    have sp: "space_ok (mm s)" using less(2) by (simp add: frames_ok_def)
    obtain t where t: "page_type s (location + n) = Some t" using page_type_returns [OF sp] by blast
    have all: "readable m (location + n + of_nat (k * 4096))"
      if "readable m (location + n)" "\<And>j. unat (n + page_size) + j * 4096 < unat sz \<Longrightarrow> readable m (location + (n + page_size) + of_nat (j * 4096))"
        "unat n + k * 4096 < unat sz" for m k
    proof (cases k)
      case (Suc j)
      then have e: "location + n + of_nat (k * 4096) = location + (n + page_size) + of_nat (j * 4096)" by (simp add: page_size_def algebra_simps)
      have "unat (n + page_size) + j * 4096 < unat sz" using that(3) Suc nx by simp
      from that(2) [OF this] show ?thesis by (simp only: e)
    qed (use that(1) in simp)
    show ?thesis
    proof (cases "readable (mm s) (location + n)")
      case r: True
      from less(1) [OF dec less(2)] obtain s' e where i: "map_block L s location (n + page_size) sz = Some (s', e)" "frames_ok used block_size s'"
        "\<forall>q. dir_of q \<noteq> - 1 \<longrightarrow> readable (mm s) q \<longrightarrow> readable (mm s') q"
        "e = error_code ENONE \<Longrightarrow> \<forall>k. unat (n + page_size) + k * 4096 < unat sz \<longrightarrow> readable (mm s') (location + (n + page_size) + of_nat (k * 4096))" by blast
      have "map_block L s location n sz = Some (s', e)"
        using True t page_type_readable [OF sp t] r i(1) by (subst map_block.simps) simp
      then show ?thesis using i(2,3) i(4) all [of "mm s'"] d r by blast
    next
      case r: False
      show ?thesis
      proof (rule map_frame_mono [OF less(2) d r, where flags = PAGE_RW], goal_cases)
        case (1 s1 f s2 st)
        show ?case
        proof (cases "st = error_code ENONE")
          case False
          then have "map_block L s location n sz = Some (s2, st)"
            using True t page_type_readable [OF sp t] r 1(1,2) by (subst map_block.simps) simp
          then show ?thesis using 1(3,4) False by blast
        next
          case ok: True
          from less(1) [OF dec 1(3)] obtain s' e where i: "map_block L s2 location (n + page_size) sz = Some (s', e)" "frames_ok used block_size s'"
            "\<forall>q. dir_of q \<noteq> - 1 \<longrightarrow> readable (mm s2) q \<longrightarrow> readable (mm s') q"
            "e = error_code ENONE \<Longrightarrow> \<forall>k. unat (n + page_size) + k * 4096 < unat sz \<longrightarrow> readable (mm s') (location + (n + page_size) + of_nat (k * 4096))" by blast
          have "map_block L s location n sz = Some (s', e)"
            using True t page_type_readable [OF sp t] r 1(1,2) ok i(1) by (subst map_block.simps) simp
          moreover have "readable (mm s') (location + n)" using i(3) d 1(5) [OF ok] by blast
          moreover have "\<forall>q. dir_of q \<noteq> - 1 \<longrightarrow> readable (mm s) q \<longrightarrow> readable (mm s') q" using i(3) 1(4) by blast
          ultimately show ?thesis using i(2,4) all [of "mm s'"] by blast
        qed
      qed
    qed
  qed
qed

end

section \<open>Properties\<close>

text \<open>C6. The machine built from \<^verbatim>\<open>heap.c\<close>, \<^verbatim>\<open>mmgr.c\<close> and \<^verbatim>\<open>paging.c\<close> keeps the contract that the kernel relies on, for every allocator
  that behaves as libmalloc documents: \<^verbatim>\<open>kmalloc\<close> hands out unused blocks, only \<^verbatim>\<open>kfree\<close> ends their use, and
  loading address spaces, memory accesses and page mapping leave the heap alone.\<close>

theorem quark_platform_ok:
  assumes "libmalloc L used block_size"
  shows "kernel_platform (quark_platform L) (\<lambda>s. used (system_heap s))"
  using libmalloc.quark_axioms [OF assms] .

theorem quark_platform_ok_witness: "kernel_platform (quark_platform count_frames) (\<lambda>s. {a. unat a < system_heap s * 4096})"
  by (rule quark_platform_ok [OF count.libmalloc_axioms])

lemma kmalloc_returns:
  assumes "libmalloc L used block_size" "frames_ok used block_size s" "unat sz \<le> 0xFFFFF000"
    and "\<forall>h a n. reserve_region L (system_heap s) sz = (h, a) \<and> a \<noteq> nomem L \<and> n < sz \<longrightarrow> dir_of (a + n) \<noteq> - 1"
  shows "\<exists>s' p. kmalloc L s sz = Some (s', p) \<and> frames_ok used block_size s' \<and>
    (\<forall>q. dir_of q \<noteq> - 1 \<longrightarrow> readable (mm s) q \<longrightarrow> readable (mm s') q) \<and>
    (p \<noteq> NULL \<longrightarrow> p \<notin> used (system_heap s) \<and> p \<in> used (system_heap s') \<and> (\<forall>k. k * 4096 < unat sz \<longrightarrow> readable (mm s') (p + of_nat (k * 4096))))"
proof -
  obtain h a where r: "reserve_region L (system_heap s) sz = (h, a)" by (cases "reserve_region L (system_heap s) sz")
  let ?s = "s\<lparr>system_heap := h\<rparr>"
  have ok: "frames_ok used block_size ?s" using assms(2) by (simp add: frames_ok_def)
  show ?thesis
  proof (cases "a = nomem L")
    case True
    then show ?thesis using r ok by (simp add: kmalloc_def)
  next
    case False
    from libmalloc.map_block_maps [OF assms(1) ok assms(3), of a 0] assms(4) r False obtain s' e where
      m: "map_block L ?s a 0 sz = Some (s', e)" "frames_ok used block_size s'" "\<forall>q. dir_of q \<noteq> - 1 \<longrightarrow> readable (mm s) q \<longrightarrow> readable (mm s') q"
        "e = error_code ENONE \<longrightarrow> (\<forall>k. k * 4096 < unat sz \<longrightarrow> readable (mm s') (a + of_nat (k * 4096)))" by auto
    have k: "kmalloc L s sz = Some (s', if e = error_code ENONE then a else NULL)" using r False m(1) by (simp add: kmalloc_def)
    show ?thesis using k m(2-4) libmalloc.kmalloc_heap [OF assms(1) k] by (auto simp del: error_code.simps)
  qed
qed

text \<open>C27. \<^verbatim>\<open>kmalloc\<close> returns, for every size up to \<open>2 ^ 32 - 4096\<close>, when libmalloc's blocks lie below the recursive mapping;
  the address space stays well formed, pages stay mapped, and a block that is returned was free, is in use and has
  every page from its start mapped, in steps of the page size.\<close>

theorem kmalloc_spec:
  assumes "libmalloc L used block_size" "frames_ok used block_size s" "unat sz \<le> 0xFFFFF000"
    and "\<forall>h a n. reserve_region L (system_heap s) sz = (h, a) \<and> a \<noteq> nomem L \<and> n < sz \<longrightarrow> dir_of (a + n) \<noteq> - 1"
  shows "\<exists>s' p. kmalloc L s sz = Some (s', p) \<and> frames_ok used block_size s' \<and>
    (\<forall>q. dir_of q \<noteq> - 1 \<longrightarrow> readable (mm s) q \<longrightarrow> readable (mm s') q) \<and>
    (p \<noteq> NULL \<longrightarrow> p \<notin> used (system_heap s) \<and> p \<in> used (system_heap s') \<and> (\<forall>k. k * 4096 < unat sz \<longrightarrow> readable (mm s') (p + of_nat (k * 4096))))"
  by (rule kmalloc_returns [OF assms])

theorem kmalloc_spec_witness:
  "\<exists>s' p. kmalloc count_frames (small_machine\<lparr>system_heap := 0x400\<rparr>) 64 = Some (s', p) \<and>
     (p \<noteq> NULL \<longrightarrow> p \<notin> {a. unat a < 0x400 * 4096} \<and> readable (mm s') p)"
proof -
  let ?s = "small_machine\<lparr>system_heap := 0x400\<rparr>"
  have ok: "frames_ok (\<lambda>h. {a. unat a < h * 4096}) (\<lambda>h. page_size) ?s" using small_machine_ok by (simp add: frames_ok_def)
  have d: "dir_of (a + n) \<noteq> - 1" if "reserve_region count_frames (system_heap ?s) 64 = (h, a)" "a \<noteq> nomem count_frames" "n < 64" for h a n
  proof -
    have a: "a = 0x400000" using that(1) by (simp add: count_frames_def)
    have "unat (a + n) < 0x400040" using that(3) unat_add_le [of a n] a by (simp add: word_less_nat_alt)
    then have "unat (drop_bit 22 (a + n)) < 2" by (simp add: drop_bit_eq_div unat_div_distrib)
    then show ?thesis using last_index [of "dir_of (a + n)"] by (simp add: unat_dir)
  qed
  have "unat (64 :: u32) \<le> 0xFFFFF000"
    "\<forall>h a n. reserve_region count_frames (system_heap ?s) 64 = (h, a) \<and> a \<noteq> nomem count_frames \<and> n < 64 \<longrightarrow> dir_of (a + n) \<noteq> - 1"
    using d by auto
  from kmalloc_spec [OF count.libmalloc_axioms ok this] obtain s' p where "kmalloc count_frames ?s 64 = Some (s', p)"
    "p \<noteq> NULL \<longrightarrow> p \<notin> {a. unat a < system_heap ?s * 4096} \<and> (\<forall>k. k * 4096 < unat (64 :: u32) \<longrightarrow> readable (mm s') (p + of_nat (k * 4096)))" by blast
  then show ?thesis by (intro exI [of _ s'] exI [of _ p]) (auto dest: spec [of _ 0])
qed

end
