(* ===== verification/User_Memory.thy ===== *)
theory User_Memory
  imports Heap
begin

text \<open>
  The system calls of \<^verbatim>\<open>src/syscalls.c\<close> that change a process's memory: \<^verbatim>\<open>mmap\<close> and \<^verbatim>\<open>munmap\<close>. Status codes are the
  words that the kernel returns. An endless loop and a panic are \<^term>\<open>None\<close>.
\<close>

section \<open>The code\<close>

text \<open>The counter of the loop in \<^verbatim>\<open>munmap\<close> is never increased.\<close>

partial_function (option) munmap_loop :: "'h libmalloc \<Rightarrow> 'h machine \<Rightarrow> u32 \<Rightarrow> u32 \<Rightarrow> u32 \<Rightarrow> u32 \<Rightarrow> ('h machine \<times> u32) option" where
  "munmap_loop L s location n len status =
     (if n < len \<and> status = error_code ENONE then do {
        type \<leftarrow> page_type s (location + n);
        if type AND PAGE_PRESENT \<noteq> 0 then do {
          (s, frame) \<leftarrow> unmap_page s (location + n);
          if type AND PAGE_ANON \<noteq> 0
          then (let (s, status) = free_page L s frame in munmap_loop L s location n len status)
          else munmap_loop L s location n len status }
        else munmap_loop L s location n len status }
      else Some (s, status))"

definition munmap :: "'h libmalloc \<Rightarrow> 'h machine \<Rightarrow> u32 \<Rightarrow> u32 \<Rightarrow> ('h machine \<times> u32) option" where
  "munmap L s location len =
     (if location mod page_size \<noteq> 0 \<or> len mod page_size \<noteq> 0 then Some (s, error_code EINVALIDARG)
      else if location = 0 then Some (s, error_code ENULLPTR)
      else munmap_loop L s location 0 len (error_code ENONE))"

partial_function (option) any_present :: "'h machine \<Rightarrow> u32 \<Rightarrow> u32 \<Rightarrow> u32 \<Rightarrow> bool option" where
  "any_present s location i len =
     (if i < len then do {
        t \<leftarrow> page_type s (location + i);
        if t AND PAGE_PRESENT \<noteq> 0 then Some True else any_present s location (i + page_size) len }
      else Some False)"

text \<open>The frame number that \<^verbatim>\<open>reserve_page\<close> fails with is not a multiple of the page size: its remainder is the status.\<close>

partial_function (option) mmap_loop :: "'h libmalloc \<Rightarrow> 'h machine \<Rightarrow> u32 \<Rightarrow> u32 \<Rightarrow> u32 \<Rightarrow> u32 \<Rightarrow> ('h machine \<times> u32) option" where
  "mmap_loop L s location n len status =
     (if n < len \<and> status = error_code ENONE then
        (let (s, frame) = reserve_page L s; status = frame mod page_size in
         if status = error_code ENONE then do {
           (s, status) \<leftarrow> map_page L s (location + n) frame (PAGE_USERMODE OR PAGE_RW);
           if status \<noteq> error_code ENONE
           then (let (s, e) = free_page L s frame in
                 if e \<noteq> error_code ENONE then None else mmap_loop L s location (n + page_size) len status)
           else mmap_loop L s location (n + page_size) len status }
         else Some (s, status))
      else Some (s, status))"

definition mmap :: "'h libmalloc \<Rightarrow> 'h machine \<Rightarrow> u32 \<Rightarrow> u32 \<Rightarrow> u32 \<Rightarrow> ('h machine \<times> u32) option" where
  "mmap L s location len flags =
     (if location mod page_size \<noteq> 0 \<or> len mod page_size \<noteq> 0 then Some (s, error_code EINVALIDARG)
      else if location = 0 then Some (s, error_code ENULLPTR)
      else do {
        b \<leftarrow> any_present s location 0 len;
        if b then Some (s, error_code EEXISTS)
        else do {
          (s, status) \<leftarrow> mmap_loop L s location 0 len (error_code ENONE);
          if status \<noteq> error_code ENONE then do {
            (s, e) \<leftarrow> munmap L s location len;
            if e \<noteq> error_code ENONE then None else Some (s, status) }
          else Some (s, status) } })"

section \<open>The endless loop\<close>

lemma munmap_loop_never: assumes "munmap_loop L s location n len status = Some r" shows "n < len \<longrightarrow> status \<noteq> error_code ENONE"
proof (rule munmap_loop.raw_induct [where P = "\<lambda>L s location n len status r. n < len \<longrightarrow> status \<noteq> error_code ENONE", OF _ assms], goal_cases)
  case (1 f L s location n len status r)
  show ?case
  proof (rule impI, rule notI)
    assume a: "n < len" "status = error_code ENONE"
    with 1(2) obtain s1 where "f L s1 location n len (error_code ENONE) = Some r"
      by (auto simp: free_page_def Let_def split: Option.bind_splits if_splits)
    from 1(1) [OF this] a show False by simp
  qed
qed

lemma munmap_hangs:
  assumes "location mod page_size = 0" "len mod page_size = 0" "location \<noteq> 0" "0 < len"
  shows "munmap L s location len = None"
proof (cases "munmap L s location len")
  case (Some r)
  with assms have "munmap_loop L s location 0 len (error_code ENONE) = Some r" by (simp add: munmap_def)
  from munmap_loop_never [OF this] assms(4) show ?thesis by simp
qed

section \<open>Enough memory\<close>

text \<open>libmalloc with a count of free blocks: while there are some, a block can be had.\<close>

locale libmalloc_count = libmalloc L used block_size
  for L :: "'h libmalloc" and used :: "'h \<Rightarrow> u32 set" and block_size :: "'h \<Rightarrow> u32" +
  fixes avail :: "'h \<Rightarrow> nat"
  assumes reserve_avail: "0 < avail h \<Longrightarrow> reserve_region L h (block_size h) = (h', a) \<Longrightarrow> a \<noteq> nomem L \<and> avail h \<le> avail h' + 1"
begin

lemma reserve_page_avail:
  assumes "frames_ok used block_size s" "0 < avail (page_map s)" "reserve_page L s = (s', a)"
  shows "a \<noteq> error_code ENOMEM" "a mod page_size = 0" "avail (page_map s) \<le> avail (page_map s') + 1"
proof -
  obtain h b where r: "reserve_region L (page_map s) page_size = (h, b)" by (cases "reserve_region L (page_map s) page_size")
  have bs: "block_size (page_map s) = page_size" using assms(1) by (simp add: frames_ok_def)
  have b: "b \<noteq> nomem L" "avail (page_map s) \<le> avail h + 1" using reserve_avail [OF assms(2), unfolded bs, OF r] by auto
  then show "avail (page_map s) \<le> avail (page_map s') + 1" using assms(3) r by (auto simp: reserve_page_def)
  have "a = b" "b mod page_size = 0" using assms(3) r b(1) reserve_fresh [OF r b(1)] bs by (auto simp: reserve_page_def)
  moreover have "error_code ENOMEM mod page_size = 4" by (simp add: page_size_def)
  moreover have "(4 :: u32) \<noteq> 0" by simp
  ultimately show "a mod page_size = 0" "a \<noteq> error_code ENOMEM" by metis+
qed

lemma map_page_avail:
  assumes ok: "frames_ok used block_size s" "0 < avail (page_map s)" and d: "dir_of page \<noteq> - 1" "f mod page_size = 0"
  obtains s' where "map_page L s page f flags = Some (s', error_code ENONE)" "avail (page_map s) \<le> avail (page_map s') + 1"
proof -
  have sp: "space_ok (mm s)" using ok(1) by (simp add: frames_ok_def)
  obtain s1 t where r: "reserve_page L s = (s1, t)" by (cases "reserve_page L s")
  note ra = reserve_page_avail [OF ok r] and e = reserve_page_effect [OF r ok(1)]
  have "frame_of t \<notin> table_frames (mm s)" using e(4) [OF ra(1)] ok(1) unfolding frames_ok_def by (metis image_eqI subsetD)
  then have nt: "frame_of t \<noteq> top (mm s)" using top_table [OF space_okD(1) [OF sp]] by metis
  have "\<exists>s2. map_tables L s page [0] = Some (s2, error_code ENONE) \<and> avail (page_map s) \<le> avail (page_map s2) + 1"
    using map_tables_effect [OF sp d(1), of L] r nt ra by (auto split: if_splits)
  then obtain s2 where s2: "map_tables L s page [0] = Some (s2, error_code ENONE)" "avail (page_map s) \<le> avail (page_map s2) + 1" by blast
  show thesis
  proof (rule map_page_ok [OF ok(1) d, where flags = flags], goal_cases)
    case (1 s' st)
    have "st = error_code ENONE \<and> page_map s' = page_map s2"
      using 1(1) s2(1) d(2) by (auto simp: map_page_def simp del: map_tables.simps split: Option.bind_splits)
    then show thesis using that [of s'] 1(1) s2(2) by simp
  qed
qed

end

interpretation count_avail: libmalloc_count count_frames "\<lambda>h. {a. unat a < h * 4096}" "\<lambda>h. page_size" "\<lambda>h. 2 ^ 20 - 1 - h"
proof (unfold_locales, goal_cases)
  case (1 h h' a)
  then have "h < 2 ^ 20 - 1" "h' = h + 1" "a = of_nat (h * 4096)" by (auto simp: count_frames_def)
  moreover from this have "unat a = h * 4096" by (simp add: unat_of_nat del: of_nat_mult)
  moreover from this have "a \<noteq> 1" by (metis One_nat_def dvd_1_iff_1 dvd_triv_right numeral_eq_one_iff semiring_norm(85) unat_1)
  ultimately show ?case by (simp add: count_frames_def)
qed

section \<open>What the loops do\<close>

lemma any_present_result:
  assumes "space_ok (mm s)" "unat len \<le> 0xFFFFF000"
  shows "any_present s location n len = Some (\<exists>k. unat n + k * 4096 < unat len \<and> readable (mm s) (location + n + of_nat (k * 4096)))"
proof (induction "unat len - unat n" arbitrary: n rule: less_induct)
  case less
  show ?case
  proof (cases "n < len")
    case False
    then show ?thesis by (subst any_present.simps) (auto simp: word_less_nat_alt)
  next
    case True
    note nx = next_page [OF True assms(2)]
    obtain t where t: "page_type s (location + n) = Some t" using page_type_returns [OF assms(1)] by blast
    have shift: "location + n + of_nat (Suc k * 4096) = location + (n + page_size) + of_nat (k * 4096)" for k
      by (simp add: page_size_def algebra_simps)
    have split: "(\<exists>k. unat n + k * 4096 < unat len \<and> readable (mm s) (location + n + of_nat (k * 4096))) \<longleftrightarrow>
      readable (mm s) (location + n) \<or> (\<exists>k. unat (n + page_size) + k * 4096 < unat len \<and> readable (mm s) (location + (n + page_size) + of_nat (k * 4096)))"
      (is "(\<exists>k. ?A k) \<longleftrightarrow> ?B \<or> (\<exists>k. ?C k)")
    proof -
      have "?A 0 \<longleftrightarrow> ?B" using True by (simp add: word_less_nat_alt)
      moreover have "?A (Suc k) \<longleftrightarrow> ?C k" for k unfolding shift by (simp add: nx add.assoc)
      ultimately show ?thesis by (metis not0_implies_Suc)
    qed
    show ?thesis
    proof (cases "readable (mm s) (location + n)")
      case r: True
      then show ?thesis using True t page_type_readable [OF assms(1) t] split by (subst any_present.simps) simp
    next
      case r: False
      have "any_present s location n len = any_present s location (n + page_size) len"
        using True t page_type_readable [OF assms(1) t] r by (subst any_present.simps) simp
      moreover have "unat len - unat (n + page_size) < unat len - unat n" using nx True by (simp add: word_less_nat_alt)
      ultimately show ?thesis using less(1) [of "n + page_size"] split r by (simp only: simp_thms)
    qed
  qed
qed

text \<open>The page of an address: two addresses are on the same page if they share directory and table index.\<close>

definition on_page :: "ptr \<Rightarrow> ptr \<Rightarrow> bool" where
  "on_page page q \<longleftrightarrow> dir_of q = dir_of page \<and> tab_of q = tab_of page"

lemma on_page_aligned:
  assumes "p mod page_size = 0" "q mod page_size = 0"
  shows "on_page p q \<longleftrightarrow> p = q"
proof
  assume "on_page p q"
  then have e: "dir_of q = dir_of p" "tab_of q = tab_of p" by (auto simp: on_page_def)
  have "frame_of q = frame_of p"
  proof (rule bit_word_eqI)
    fix n
    assume n: "n < LENGTH(20)"
    have "bit (tab_of q) n = bit (tab_of p) n" "bit (dir_of q) (n - 10) = bit (dir_of p) (n - 10)" using e by simp_all
    then show "bit (frame_of q) n = bit (frame_of p) n"
      using n by (cases "n < 10") (auto simp: tab_of_def dir_of_def frame_of_def bit_simps)
  qed
  then show "p = q" using addr_frame [OF assms(1)] addr_frame [OF assms(2)] by metis
qed (simp add: on_page_def)

lemma aligned_unat: "(a :: u32) mod page_size = 0 \<longleftrightarrow> 4096 dvd unat a"
  by (simp add: page_size_def word_unat_eq_iff unat_mod_distrib mod_eq_0_iff_dvd)

lemma aligned_add: "(a :: u32) mod page_size = 0 \<Longrightarrow> b mod page_size = 0 \<Longrightarrow> (a + b) mod page_size = 0"
  unfolding aligned_unat by (simp add: unat_word_ariths dvd_mod_iff)

lemma aligned_step: "k * 4096 < 2 ^ 32 \<Longrightarrow> (of_nat (k * 4096) :: u32) mod page_size = 0"
  by (simp add: page_size_def word_unat_eq_iff unat_mod_distrib unat_of_nat del: of_nat_mult)

text \<open>
  What the processor does with an access of a program in user mode: it needs the user bit of both entries. A page of the
  process is one that it can write. \<open>user_entry\<close> is the part of this that the entry of the page itself says.
\<close>

definition translate_user :: "mmu \<Rightarrow> ptr \<Rightarrow> bool \<Rightarrow> frame option" where
  "translate_user m q w = (if usermode (pde m q) \<and> usermode (pte m q) then translate m q w else None)"

definition user_page :: "mmu \<Rightarrow> ptr \<Rightarrow> bool" where
  "user_page m q \<longleftrightarrow> translate_user m q True \<noteq> None"

definition user_entry :: "mmu \<Rightarrow> ptr \<Rightarrow> bool" where
  "user_entry m q \<longleftrightarrow> (\<exists>e. leaf m q = Some e \<and> rw e \<and> usermode e)"

lemma user_page_entry:
  assumes "space_ok m" "dir_of q \<noteq> - 1"
  shows "user_page m q \<longleftrightarrow> user_entry m q \<and> dir_of q \<notin> kernel_tables m"
  using space_okD(2) [OF assms] by (auto simp: user_page_def translate_user_def translate_space user_entry_def leaf_def kernel_tables_def)

context libmalloc_count
begin

text \<open>One round of the loop in \<^verbatim>\<open>mmap\<close>.\<close>

lemma mmap_round:
  assumes ok: "frames_ok used block_size s" "2 \<le> avail (page_map s)" and d: "dir_of page \<noteq> - 1"
  obtains s1 f s2 where "reserve_page L s = (s1, f)" "f mod page_size = 0" "map_page L s1 page f (PAGE_USERMODE OR PAGE_RW) = Some (s2, error_code ENONE)"
    "frames_ok used block_size s2" "avail (page_map s) \<le> avail (page_map s2) + 2" "user_entry (mm s2) page"
    "\<And>q. dir_of q \<noteq> - 1 \<Longrightarrow> \<not> on_page page q \<Longrightarrow> leaf (mm s2) q = leaf (mm s) q"
    "kernel_tables (mm s2) = kernel_tables (mm s)"
proof -
  obtain s1 f where r: "reserve_page L s = (s1, f)" by (cases "reserve_page L s")
  have "0 < avail (page_map s)" using ok(2) by simp
  note ra = reserve_page_avail [OF ok(1) this r] and e = reserve_page_effect [OF r ok(1)]
  have "0 < avail (page_map s1)" using ra(3) ok(2) by simp
  from map_page_avail [OF e(2) this d ra(2)] obtain s2 where
    m: "map_page L s1 page f (PAGE_USERMODE OR PAGE_RW) = Some (s2, error_code ENONE)" "avail (page_map s1) \<le> avail (page_map s2) + 1" by blast
  show thesis
  proof (rule map_page_ok [OF e(2) d ra(2), where flags = "PAGE_USERMODE OR PAGE_RW"], goal_cases)
    case (1 s' st)
    then have eq: "s' = s2" "st = error_code ENONE" using m(1) by auto
    show thesis
    proof (rule that [OF r ra(2) m(1)])
      show "user_entry (mm s2) page" using 1(10) eq by (auto simp: user_entry_def)
      show "leaf (mm s2) q = leaf (mm s) q" if "dir_of q \<noteq> - 1" "\<not> on_page page q" for q
        using 1(9) [OF that(1)] that(2) eq(1) e(1) by (auto simp: on_page_def)
      show "kernel_tables (mm s2) = kernel_tables (mm s)" using 1(11) eq(1) e(1) by simp
    qed (use 1(2) eq ra(3) m(2) in auto)
  qed
qed


lemma mmap_loop_maps:
  assumes "frames_ok used block_size s" "2 * (unat len - unat n) \<le> 4096 * avail (page_map s)" "unat len \<le> 0xFFFFF000"
    and "location mod page_size = 0" "n mod page_size = 0" "len mod page_size = 0" "\<And>i. i < len \<Longrightarrow> dir_of (location + i) \<noteq> - 1"
  shows "\<exists>s'. mmap_loop L s location n len (error_code ENONE) = Some (s', error_code ENONE) \<and> frames_ok used block_size s' \<and>
    kernel_tables (mm s') = kernel_tables (mm s) \<and>
    (\<forall>k. unat n + k * 4096 < unat len \<longrightarrow> user_entry (mm s') (location + n + of_nat (k * 4096))) \<and>
    (\<forall>q. dir_of q \<noteq> - 1 \<longrightarrow> (\<forall>k. unat n + k * 4096 < unat len \<longrightarrow> \<not> on_page (location + n + of_nat (k * 4096)) q) \<longrightarrow> leaf (mm s') q = leaf (mm s) q)"
  using assms(1,2,5)
proof (induction "unat len - unat n" arbitrary: s n rule: less_induct)
  case less
  show ?case
  proof (cases "n < len")
    case False
    then have "mmap_loop L s location n len (error_code ENONE) = Some (s, error_code ENONE)" by (simp add: mmap_loop.simps)
    then show ?thesis using less(2) False by (auto simp: word_less_nat_alt)
  next
    case True
    note nx = next_page [OF True assms(3)]
    have al: "(n + page_size) mod page_size = 0" using aligned_add [OF less(4), of page_size] by simp
    have room: "unat n + 4096 \<le> unat len"
    proof -
      obtain a b where "unat n = 4096 * a" "unat len = 4096 * b" using less(4) assms(6) unfolding aligned_unat by (auto elim!: dvdE)
      then show ?thesis using True by (simp add: word_less_nat_alt)
    qed
    have "2 \<le> avail (page_map s)" using less(3) room by simp
    then show ?thesis
    proof (rule mmap_round [OF less(2) _ assms(7) [OF True]], goal_cases)
      case (1 s1 f s2)
      have "2 * (unat len - unat (n + page_size)) \<le> 4096 * avail (page_map s2)" using 1(5) less(3) nx room by simp
      moreover have "unat len - unat (n + page_size) < unat len - unat n" using nx True by (simp add: word_less_nat_alt)
      ultimately obtain s' where i: "mmap_loop L s2 location (n + page_size) len (error_code ENONE) = Some (s', error_code ENONE)" "frames_ok used block_size s'"
        "kernel_tables (mm s') = kernel_tables (mm s2)" "\<forall>k. unat (n + page_size) + k * 4096 < unat len \<longrightarrow> user_entry (mm s') (location + (n + page_size) + of_nat (k * 4096))"
        "\<forall>q. dir_of q \<noteq> - 1 \<longrightarrow> (\<forall>k. unat (n + page_size) + k * 4096 < unat len \<longrightarrow> \<not> on_page (location + (n + page_size) + of_nat (k * 4096)) q) \<longrightarrow> leaf (mm s') q = leaf (mm s2) q"
        using less(1) [OF _ 1(4) _ al] by blast
      have run: "mmap_loop L s location n len (error_code ENONE) = Some (s', error_code ENONE)"
        using True 1(1-3) i(1) by (subst mmap_loop.simps) (simp add: Let_def)
      have shift: "location + n + of_nat (Suc k * 4096) = location + (n + page_size) + of_nat (k * 4096)" for k
        by (simp add: page_size_def algebra_simps)
      have apart: "\<not> on_page (location + (n + page_size) + of_nat (k * 4096)) (location + n)" if "unat (n + page_size) + k * 4096 < unat len" for k
      proof -
        have k: "Suc k * 4096 < 2 ^ 32" using that nx assms(3) by simp
        then have "unat (of_nat (Suc k * 4096) :: u32) = Suc k * 4096" by (simp add: unat_of_nat del: of_nat_mult of_nat_Suc mult_Suc)
        then have "(of_nat (Suc k * 4096) :: u32) \<noteq> 0" by (metis mult_eq_0_iff nat.simps(3) unat_0 zero_neq_numeral)
        then show ?thesis
          using on_page_aligned aligned_add aligned_step [OF k] assms(4) less(4) unfolding shift [symmetric] by (metis add_cancel_right_right)
      qed
      have "leaf (mm s') (location + n) = leaf (mm s2) (location + n)" using i(5) [rule_format, OF assms(7) [OF True]] apart by blast
      then have here: "user_entry (mm s') (location + n)" using 1(6) by (simp add: user_entry_def)
      have "user_entry (mm s') (location + n + of_nat (k * 4096))" if "unat n + k * 4096 < unat len" for k
      proof (cases k)
        case (Suc j)
        then have "unat (n + page_size) + j * 4096 < unat len" using that nx by simp
        with i(4) show ?thesis unfolding Suc shift by blast
      qed (use here in simp)
      moreover have "leaf (mm s') q = leaf (mm s) q"
        if q: "dir_of q \<noteq> - 1" "\<forall>k. unat n + k * 4096 < unat len \<longrightarrow> \<not> on_page (location + n + of_nat (k * 4096)) q" for q
      proof -
        have "\<not> on_page (location + n) q" using q(2) [rule_format, of 0] True by (simp add: word_less_nat_alt)
        moreover have "\<not> on_page (location + (n + page_size) + of_nat (k * 4096)) q" if "unat (n + page_size) + k * 4096 < unat len" for k
          using q(2) [rule_format, of "Suc k"] that nx unfolding shift by simp
        then have "leaf (mm s') q = leaf (mm s2) q" using i(5) [rule_format, OF q(1)] by blast
        ultimately show ?thesis using 1(7) [OF q(1)] by simp
      qed
      ultimately show ?case using run i(2) trans [OF i(3) 1(8)] by blast
    qed
  qed
qed

end

section \<open>Properties\<close>

text \<open>C7. \<^verbatim>\<open>mmap\<close> for a non-zero aligned range below the recursive mapping, in a well-formed address space and with two free frames
  for every page: it always returns, EEXISTS without a change if a page of the range is mapped; otherwise ENONE, every
  page of the range is mapped by a writable user-mode entry and the mapping of all other pages is what it was. The process
  can write a page of the range (\<open>user_page\<close>: the processor translates its access) unless the page's 4 MB region already
  had a page table that is closed to user mode: a table that \<^verbatim>\<open>mmap\<close> adds is open, one that exists is left as it is.\<close>

theorem mmap_spec:
  assumes "libmalloc_count L used block_size avail" "frames_ok used block_size s" "2 * unat len \<le> 4096 * avail (page_map s)"
    and "location mod page_size = 0" "len mod page_size = 0" "location \<noteq> 0" "\<forall>i<len. dir_of (location + i) \<noteq> - 1"
  shows "if \<exists>k. k * 4096 < unat len \<and> readable (mm s) (location + of_nat (k * 4096)) then mmap L s location len flags = Some (s, error_code EEXISTS)
    else \<exists>s'. mmap L s location len flags = Some (s', error_code ENONE) \<and> frames_ok used block_size s' \<and>
      (\<forall>k. k * 4096 < unat len \<longrightarrow> user_entry (mm s') (location + of_nat (k * 4096)) \<and>
         (user_page (mm s') (location + of_nat (k * 4096)) \<longleftrightarrow> dir_of (location + of_nat (k * 4096)) \<notin> kernel_tables (mm s))) \<and>
      (\<forall>q. dir_of q \<noteq> - 1 \<longrightarrow> (\<forall>k. k * 4096 < unat len \<longrightarrow> \<not> on_page (location + of_nat (k * 4096)) q) \<longrightarrow> leaf (mm s') q = leaf (mm s) q)"
proof -
  have len: "unat len \<le> 0xFFFFF000"
  proof -
    obtain b where b: "unat len = 4096 * b" using assms(5) unfolding aligned_unat by (auto elim!: dvdE)
    then show ?thesis using unat_u32 [of len] by simp
  qed
  have sp: "space_ok (mm s)" using assms(2) by (simp add: frames_ok_def)
  note a = any_present_result [OF sp len, of location 0]
  show ?thesis
  proof (cases "\<exists>k. k * 4096 < unat len \<and> readable (mm s) (location + of_nat (k * 4096))")
    case True
    then have "any_present s location 0 len = Some True" using a by simp
    then show ?thesis using True assms(4-6) by (simp add: mmap_def)
  next
    case False
    then have "any_present s location 0 len = Some False" using a by simp
    moreover obtain s' where s': "mmap_loop L s location 0 len (error_code ENONE) = Some (s', error_code ENONE)" "frames_ok used block_size s'"
      "kernel_tables (mm s') = kernel_tables (mm s)" "\<forall>k. k * 4096 < unat len \<longrightarrow> user_entry (mm s') (location + of_nat (k * 4096))"
      "\<forall>q. dir_of q \<noteq> - 1 \<longrightarrow> (\<forall>k. k * 4096 < unat len \<longrightarrow> \<not> on_page (location + of_nat (k * 4096)) q) \<longrightarrow> leaf (mm s') q = leaf (mm s) q"
      using libmalloc_count.mmap_loop_maps [OF assms(1,2) _ len assms(4) _ assms(5), of 0] assms(3,7) by auto
    moreover have "user_page (mm s') (location + of_nat (k * 4096)) \<longleftrightarrow> dir_of (location + of_nat (k * 4096)) \<notin> kernel_tables (mm s)"
      if k: "k * 4096 < unat len" for k
    proof -
      have "unat (of_nat (k * 4096) :: u32) = k * 4096" using k unat_u32 [of len] by (simp add: unat_of_nat del: of_nat_mult unat_u32)
      then have "(of_nat (k * 4096) :: u32) < len" using k by (simp add: word_less_nat_alt del: of_nat_mult)
      moreover have "space_ok (mm s')" using s'(2) by (simp add: frames_ok_def)
      ultimately show ?thesis using user_page_entry s'(3,4) k assms(7) by blast
    qed
    ultimately show ?thesis using False s' assms(4-6) by (simp add: mmap_def del: of_nat_mult)
  qed
qed

theorem mmap_spec_witness:
  "(\<exists>s'. mmap count_frames small_machine 0x400000 0x1000 0 = Some (s', error_code ENONE) \<and> user_page (mm s') 0x400000) \<and>
   (\<exists>s'. mmap count_frames small_machine 0x1000 0x1000 0 = Some (s', error_code ENONE) \<and> \<not> user_page (mm s') 0x1000)"
proof -
  have d: "\<forall>i<0x1000. dir_of (a + i) \<noteq> - 1" if a: "unat a \<le> 0x400000" for a :: u32
  proof (intro allI impI)
    fix i :: u32
    assume "i < 0x1000"
    then have "unat (a + i) < 0x401000" using a unat_add_le [of a i] by (simp add: word_less_nat_alt)
    then have "unat (drop_bit 22 (a + i)) < 3" by (simp add: drop_bit_eq_div unat_div_distrib)
    then have "unat (dir_of (a + i)) < 3" by (simp add: unat_dir)
    then show "dir_of (a + i) \<noteq> - 1" using last_index [of "dir_of (a + i)"] by linarith
  qed
  have "\<not> readable (mm small_machine) 0x400000" "\<not> readable (mm small_machine) 0x1000"
    by (simp_all add: readable_def translate_def small_machine_def small_mmu_def small_entries Let_def dir_of_def)
  moreover have "dir_of 0x400000 \<notin> kernel_tables (mm small_machine)"
    by (simp add: kernel_tables_def small_machine_def small_mmu_def small_entries dir_of_def)
  moreover have "dir_of 0x1000 \<in> kernel_tables (mm small_machine)"
    by (simp add: kernel_tables_def small_machine_def small_mmu_def small_entries dir_of_def usermode_def bit_numeral_rec)
  ultimately show ?thesis
    using mmap_spec [OF count_avail.libmalloc_count_axioms small_machine_ok, of "0x1000" "0x400000" 0]
      mmap_spec [OF count_avail.libmalloc_count_axioms small_machine_ok, of "0x1000" "0x1000" 0] d [of "0x400000"] d [of "0x1000"]
    by (auto simp: page_size_def small_machine_def)
qed

text \<open>C29. \<^verbatim>\<open>munmap\<close> of a non-empty range with valid arguments never returns: its loop does not advance. So \<^verbatim>\<open>mmap\<close> does not return
  either when the first frame cannot be reserved.\<close>

theorem munmap_never_returns:
  assumes "location mod page_size = 0" "len mod page_size = 0" "location \<noteq> 0" "0 < len"
  shows "munmap L s location len = None \<and>
    (snd (reserve_page L s) = error_code ENOMEM \<longrightarrow> any_present s location 0 len = Some False \<longrightarrow> mmap L s location len flags = None)"
proof -
  have "mmap_loop L s location 0 len (error_code ENONE) = Some (fst (reserve_page L s), error_code ENOMEM)"
    if "snd (reserve_page L s) = error_code ENOMEM"
    using that assms(4) by (subst mmap_loop.simps) (cases "reserve_page L s", simp add: Let_def page_size_def)
  moreover have "munmap L s' location len = None" for s' using munmap_hangs [OF assms] .
  ultimately show ?thesis using assms by (simp add: mmap_def)
qed

theorem munmap_never_returns_witness: "munmap count_frames small_machine 0x400000 0x1000 = None"
proof -
  have "(0x400000 :: u32) mod page_size = 0" "(0x1000 :: u32) mod page_size = 0" by (simp_all add: page_size_def)
  from munmap_never_returns [OF this, of count_frames small_machine 0] show ?thesis by simp
qed

end
