(* ===== verification/Byte_Memory.thy ===== *)
theory Byte_Memory
  imports User_Memory
begin

text \<open>
  Bytes of the machine's memory: which byte of which frame an address stands for, what writing one byte leaves alone, and
  copying (\<^verbatim>\<open>memcpy\<close> of \<^verbatim>\<open>src/string.c\<close>, through the memory unit). Data lives in frames that hold no tables and that the
  allocator counts as used; mapping pages does not disturb it.
\<close>

section \<open>Bytes of frames\<close>

definition byte_in :: "phys \<Rightarrow> frame \<Rightarrow> index \<Rightarrow> nat \<Rightarrow> u8" where
  "byte_in M f i k = ucast (drop_bit k (M f i))"

lemma load8_byte: "load8 m q = map_option (\<lambda>f. byte_in (mem m) f (word_at q) (byte_shift q)) (translate m q False)"
  by (cases "translate m q False") (simp_all add: load8_def byte_in_def)

lemma byte_shift_cases: "byte_shift q \<in> {0, 8, 16, 24}"
proof -
  have "unat (q AND 3) < 4"
    using word_and_le1 [of q 3] by (simp add: word_le_nat_alt)
  then have "unat (q AND 3) \<in> {0, 1, 2, 3}" by auto
  then show ?thesis by (auto simp: byte_shift_def)
qed

lemma bit_put_byte:
  assumes "n < 32"
  shows "bit (put_byte k b w) n = (if k \<le> n \<and> n < k + 8 then bit b (n - k) else bit w n)"
proof -
  have h: "(0xFF :: u32) = mask 8" by (simp add: mask_eq_exp_minus_1)
  show ?thesis
    using assms unfolding put_byte_def h
    by (auto simp: bit_or_iff bit_and_iff bit_not_iff bit_push_bit_iff bit_mask_iff bit_unsigned_iff dest: bit_imp_le_length)
qed

lemma put_byte_get:
  assumes "k \<in> {0, 8, 16, 24}" "k' \<in> {0, 8, 16, 24}"
  shows "(ucast (drop_bit k' (put_byte k b w)) :: u8) = (if k' = k then b else ucast (drop_bit k' w))"
proof (rule bit_word_eqI)
  fix n
  assume n: "n < LENGTH(8)"
  then have "k' + n < 32" using assms(2) by auto
  with n show "bit (ucast (drop_bit k' (put_byte k b w)) :: u8) n = bit (if k' = k then b else ucast (drop_bit k' w)) n"
    using assms by (auto simp: bit_unsigned_iff bit_drop_bit_eq bit_put_byte)
qed

lemma address_parts:
  assumes "dir_of a = dir_of b" "tab_of a = tab_of b" "word_at a = word_at b" "byte_shift a = byte_shift b"
  shows "a = b"
proof (rule bit_word_eqI)
  fix n
  assume n: "n < LENGTH(32)"
  have "a AND mask 2 = b AND mask 2" using assms(4) by (simp add: byte_shift_def mask_eq_exp_minus_1 word_unat_eq_iff)
  then have "bit (a AND mask 2) n = bit (b AND mask 2) n" by simp
  note low = this
  have x: "bit (word_at x) k \<longleftrightarrow> k < 10 \<and> bit x (k + 2)" "bit (tab_of x) k \<longleftrightarrow> k < 10 \<and> bit x (k + 12)" "bit (dir_of x) k \<longleftrightarrow> k < 10 \<and> bit x (k + 22)" for x k
    by (auto simp: word_at_def tab_of_def dir_of_def bit_simps ac_simps dest: bit_imp_le_length)
  have "bit (word_at a) (n - 2) = bit (word_at b) (n - 2)" "bit (tab_of a) (n - 12) = bit (tab_of b) (n - 12)"
    "bit (dir_of a) (n - 22) = bit (dir_of b) (n - 22)" using assms by simp_all
  note y = this [unfolded x]
  consider "n < 2" | "2 \<le> n" "n < 12" | "12 \<le> n" "n < 22" | "22 \<le> n" by fastforce
  then show "bit a n = bit b n"
  proof cases
    case 1
    with low show ?thesis by (simp add: bit_and_iff bit_mask_iff)
  next
    case 2
    then have "n - 2 + 2 = n" "n - 2 < 10" by linarith+
    with y(1) show ?thesis by metis
  next
    case 3
    then have "n - 12 + 12 = n" "n - 12 < 10" by linarith+
    with y(2) show ?thesis by metis
  next
    case 4
    with n have "n - 22 + 22 = n" "n - 22 < 10" by simp_all
    with y(3) show ?thesis by metis
  qed
qed

section \<open>Writing to data\<close>

text \<open>Two memory states with the same tables.\<close>

definition same_space :: "mmu \<Rightarrow> mmu \<Rightarrow> bool" where
  "same_space m m' \<longleftrightarrow> cr3 m' = cr3 m \<and> (\<forall>f\<in>table_frames m. mem m' f = mem m f)"

lemma same_spaceD:
  assumes "same_space m m'" "space_ok m"
  shows "table_frames m' = table_frames m" "translate m' q w = translate m q w" "leaf m' q = leaf m q" "space_ok m'" "cr3 m' = cr3 m"
    "kernel_tables m' = kernel_tables m"
proof -
  have c: "cr3 m' = cr3 m" and t: "mem m' (top m) = mem m (top m)"
    using assms(1) top_table [OF space_okD(1) [OF assms(2)]] by (auto simp: same_space_def)
  have p: "mem m' (table_of m q) = mem m (table_of m q)" if "present (pde m q)"
    using assms(1) that unfolding same_space_def table_frames_def by blast
  show "table_frames m' = table_frames m" by (simp add: table_frames_def c t)
  show "translate m' q w = translate m q w" using p by (auto simp: translate_space c t)
  show "leaf m' q = leaf m q" using p by (auto simp: leaf_def c t)
  show "space_ok m'" using assms(2) by (simp add: space_ok_def self_mapped_def c t)
  show "cr3 m' = cr3 m" by (rule c)
  show "kernel_tables m' = kernel_tables m" by (simp add: kernel_tables_def c t)
qed

lemma same_space_refl [simp]: "same_space m m" by (simp add: same_space_def)

lemma same_space_trans: "same_space m m' \<Longrightarrow> same_space m' m'' \<Longrightarrow> space_ok m \<Longrightarrow> same_space m m''"
  using same_spaceD(1) [of m m'] by (auto simp: same_space_def)

lemma store8_data:
  assumes "space_ok m" "translate m va True = Some f" "f \<notin> table_frames m"
  obtains m' where "store8 m va b = Some m'" "same_space m m'" "\<And>g. g \<noteq> f \<Longrightarrow> mem m' g = mem m g"
    "\<And>q. load8 m' q = (if translate m q False = Some f \<and> word_at q = word_at va \<and> byte_shift q = byte_shift va then Some b else load8 m q)"
proof -
  let ?m = "m\<lparr>mem := put_word (mem m) f (word_at va) (put_byte (byte_shift va) b (mem m f (word_at va)))\<rparr>"
  have st: "store8 m va b = Some ?m" using assms(2) by (simp add: store8_def)
  have fr: "mem ?m g = mem m g" if "g \<noteq> f" for g using that by simp
  moreover have "g \<noteq> f" if "g \<in> table_frames m" for g using that assms(3) by blast
  ultimately have same: "same_space m ?m" by (simp add: same_space_def)
  have "load8 ?m q = (if translate m q False = Some f \<and> word_at q = word_at va \<and> byte_shift q = byte_shift va then Some b else load8 m q)" for q
    unfolding load8_byte same_spaceD(2) [OF same assms(1)]
    using byte_shift_cases [of q] byte_shift_cases [of va] put_byte_get [of "byte_shift va" "byte_shift q" b "mem m f (word_at va)"]
    by (cases "translate m q False"; cases "word_at q = word_at va") (auto simp: byte_in_def put_word_def)
  from that [OF st same fr this] show thesis .
qed

section \<open>Copying\<close>

function memcpy_bytes :: "mmu \<Rightarrow> ptr \<Rightarrow> ptr \<Rightarrow> u32 \<Rightarrow> u32 \<Rightarrow> mmu option" where
  "memcpy_bytes m dest src i num =
     (if i < num then do {
        b \<leftarrow> load8 m (src + i);
        m \<leftarrow> store8 m (dest + i) b;
        memcpy_bytes m dest src (i + 1) num }
      else Some m)"
  by pat_completeness auto
termination by (relation "measure (\<lambda>(_, _, _, i, n). unat n - unat i)") (use step_up in auto)

declare memcpy_bytes.simps [simp del]

definition memcpy_machine :: "mmu \<Rightarrow> ptr \<Rightarrow> ptr \<Rightarrow> u32 \<Rightarrow> mmu option" where
  "memcpy_machine m destination source num = (if num > 0 then memcpy_bytes m destination source 0 num else Some m)"

text \<open>Copying into one frame from others.\<close>

lemma memcpy_bytes_copies:
  assumes "space_ok m" "f \<notin> table_frames m" "\<And>j. j < num \<Longrightarrow> on_page page (d + j)" "\<And>j. j < num \<Longrightarrow> translate m (d + j) True = Some f"
    and "\<And>j. j < num \<Longrightarrow> \<exists>g. translate m (s + j) False = Some g \<and> g \<noteq> f"
  shows "\<exists>m'. memcpy_bytes m d s i num = Some m' \<and> same_space m m' \<and> (\<forall>g. g \<noteq> f \<longrightarrow> mem m' g = mem m g) \<and>
    (\<forall>j<num. load8 m' (d + j) = (if i \<le> j then load8 m (s + j) else load8 m (d + j)))"
  using assms
proof (induction "unat num - unat i" arbitrary: m i rule: less_induct)
  case less
  show ?case
  proof (cases "i < num")
    case False
    then show ?thesis by (auto simp: memcpy_bytes.simps)
  next
    case True
    from less.prems(5) [OF True] obtain g b where g: "translate m (s + i) False = Some g" "g \<noteq> f" and b: "load8 m (s + i) = Some b"
      by (auto simp: load8_byte)
    obtain m1 where m1: "store8 m (d + i) b = Some m1" "same_space m m1" "\<And>g. g \<noteq> f \<Longrightarrow> mem m1 g = mem m g"
      "\<And>q. load8 m1 q = (if translate m q False = Some f \<and> word_at q = word_at (d + i) \<and> byte_shift q = byte_shift (d + i) then Some b else load8 m q)"
      by (rule store8_data [OF less.prems(1) less.prems(4) [OF True] less.prems(2)]) blast
    note sp = same_spaceD [OF m1(2) less.prems(1)]
    have rd: "translate m (d + j) False = Some f" if "j < num" for j
      using less.prems(4) [OF that] by (auto simp: translate_space split: if_splits)
    have at: "load8 m1 (d + j) = (if j = i then Some b else load8 m (d + j))" if "j < num" for j
      using m1(4) [of "d + j"] rd [OF that] address_parts [of "d + j" "d + i"] less.prems(3) [OF that] less.prems(3) [OF True]
      by (auto simp: on_page_def)
    have src: "load8 m1 (s + j) = load8 m (s + j)" if "j < num" for j
      using m1(4) [of "s + j"] less.prems(5) [OF that] by auto
    have "\<exists>m'. memcpy_bytes m1 d s (i + 1) num = Some m' \<and> same_space m1 m' \<and> (\<forall>g. g \<noteq> f \<longrightarrow> mem m' g = mem m1 g) \<and>
        (\<forall>j<num. load8 m' (d + j) = (if i + 1 \<le> j then load8 m1 (s + j) else load8 m1 (d + j)))"
      by (rule less.hyps [OF step_up [OF True]]) (use sp less.prems in auto)
    then obtain m' where m': "memcpy_bytes m1 d s (i + 1) num = Some m'" "same_space m1 m'" "\<forall>g. g \<noteq> f \<longrightarrow> mem m' g = mem m1 g"
      "\<forall>j<num. load8 m' (d + j) = (if i + 1 \<le> j then load8 m1 (s + j) else load8 m1 (d + j))" by blast
    have "memcpy_bytes m d s i num = Some m'" using True b m1(1) m'(1) by (subst memcpy_bytes.simps) simp
    moreover have "load8 m' (d + j) = (if i \<le> j then load8 m (s + j) else load8 m (d + j))" if "j < num" for j
    proof -
      have "i + 1 \<le> j \<longleftrightarrow> i \<le> j \<and> j \<noteq> i" using less_next [OF True, of j] by (auto simp: not_less [symmetric])
      then show ?thesis using m'(4) that at [OF that] src [OF that] b by auto
    qed
    ultimately show ?thesis using m'(2,3) m1(3) same_space_trans [OF m1(2) m'(2) less.prems(1)] by auto
  qed
qed

section \<open>Settled data\<close>

text \<open>An address is settled when it is mapped to a frame of data that the allocator counts as used.\<close>

definition settled :: "('h \<Rightarrow> u32 set) \<Rightarrow> 'h machine \<Rightarrow> ptr \<Rightarrow> bool" where
  "settled used s q \<longleftrightarrow> dir_of q \<noteq> - 1 \<and>
     (\<exists>e. leaf (mm s) q = Some e \<and> physical_address e \<notin> table_frames (mm s) \<and> addr_of (physical_address e) \<in> used (page_map s))"

text \<open>What stays of a set of addresses: they are settled, mapped as before and hold the bytes they held.\<close>

definition keeps :: "('h \<Rightarrow> u32 set) \<Rightarrow> 'h machine \<Rightarrow> 'h machine \<Rightarrow> ptr set \<Rightarrow> bool" where
  "keeps used s s' Q \<longleftrightarrow> (\<forall>q\<in>Q. settled used s' q \<and> leaf (mm s') q = leaf (mm s) q \<and> load8 (mm s') q = load8 (mm s) q)"

lemma keeps_refl: "(\<And>q. q \<in> Q \<Longrightarrow> settled used s q) \<Longrightarrow> keeps used s s Q"
  by (simp add: keeps_def)

lemma keeps_trans: "keeps used s s' Q \<Longrightarrow> keeps used s' s'' Q \<Longrightarrow> keeps used s s'' Q"
  by (simp add: keeps_def)

lemma keeps_mono: "keeps used s s' Q \<Longrightarrow> R \<subseteq> Q \<Longrightarrow> keeps used s s' R"
  by (auto simp: keeps_def)

lemma keepsD:
  assumes "keeps used s s' Q" "q \<in> Q"
  shows "settled used s' q" "leaf (mm s') q = leaf (mm s) q" "load8 (mm s') q = load8 (mm s) q"
  using assms by (auto simp: keeps_def)

lemma keeps_read:
  assumes "keeps used s s' Q" "\<And>i. i < n \<Longrightarrow> p + of_nat i \<in> Q"
  shows "read_mem (mm s') p n = read_mem (mm s) p n"
proof -
  have "map (\<lambda>i. load8 (mm s') (p + of_nat i)) [0..<n] = map (\<lambda>i. load8 (mm s) (p + of_nat i)) [0..<n]"
    by (rule map_cong [OF refl]) (use keepsD(3) [OF assms(1) assms(2)] in simp)
  then show ?thesis by (simp only: read_mem_def)
qed

lemma load8_leaf: "load8 m q = map_option (\<lambda>e. byte_in (mem m) (physical_address e) (word_at q) (byte_shift q)) (leaf m q)"
  by (simp add: load8_byte translate_leaf option.map_comp comp_def)

lemma settled_loads: "settled used s q \<Longrightarrow> \<exists>b. load8 (mm s) q = Some b"
  by (auto simp: settled_def load8_leaf)

text \<open>Settled bytes are kept when mapping and frames are.\<close>

lemma keepsI:
  assumes "\<And>q. q \<in> Q \<Longrightarrow> settled used s q" "\<And>q. q \<in> Q \<Longrightarrow> leaf (mm s') q = leaf (mm s) q" "used (page_map s) \<subseteq> used (page_map s')"
    and "\<And>f. f \<notin> table_frames (mm s) \<Longrightarrow> addr_of f \<in> used (page_map s) \<Longrightarrow> f \<notin> table_frames (mm s') \<and> mem (mm s') f = mem (mm s) f"
  shows "keeps used s s' Q"
  unfolding keeps_def
proof
  fix q
  assume q: "q \<in> Q"
  from assms(1) [OF q] obtain e where e: "dir_of q \<noteq> - 1" "leaf (mm s) q = Some e" "physical_address e \<notin> table_frames (mm s)"
    "addr_of (physical_address e) \<in> used (page_map s)" by (auto simp: settled_def)
  with assms(2) [OF q] assms(3) assms(4) [OF e(3,4)]
  show "settled used s' q \<and> leaf (mm s') q = leaf (mm s) q \<and> load8 (mm s') q = load8 (mm s) q"
    by (auto simp: settled_def load8_leaf byte_in_def)
qed

context libmalloc
begin

text \<open>Mapping a page writes to tables only: to those in use and to one fresh frame.\<close>

lemma map_tables_contents:
  assumes ok: "frames_ok used block_size s" and d: "dir_of page \<noteq> - 1" and m: "map_tables L s page [0] = Some (s', e)"
    and f: "f \<notin> table_frames (mm s)" "addr_of f \<in> used (page_map s)"
  shows "f \<notin> table_frames (mm s') \<and> mem (mm s') f = mem (mm s) f"
proof -
  have sp: "space_ok (mm s)" using ok by (simp add: frames_ok_def)
  note mt = trans [OF m [symmetric] map_tables_effect [OF sp d, of L]]
  obtain s1 table where r: "reserve_page L s = (s1, table)" by (cases "reserve_page L s")
  note re = reserve_page_effect [OF r ok]
  show ?thesis
  proof (cases "present (pde (mm s) page) \<or> table = error_code ENOMEM")
    case True
    then have "mm s' = mm s" using mt r re(1) by (auto split: if_splits simp del: map_tables.simps error_code.simps)
    then show ?thesis using f by simp
  next
    case False
    then have T: "table \<notin> used (page_map s)" "addr_of (frame_of table) = table" using re(4) by blast+
    have nt: "frame_of table \<notin> table_frames (mm s)" using T ok unfolding frames_ok_def by (metis image_eqI subsetD)
    then have top: "frame_of table \<noteq> top (mm s)" using top_table [OF space_okD(1) [OF sp]] by metis
    with mt r False have s': "mm s' = add_table (mm s) page table" by (auto split: if_splits simp del: map_tables.simps error_code.simps)
    have p: "\<not> present (pde (mm s) page)" using False by simp
    have "f \<noteq> frame_of table" using f(2) T by auto
    moreover have "f \<noteq> top (mm s)" using f(1) top_table [OF space_okD(1) [OF sp]] by metis
    ultimately show ?thesis using f(1) add_table_space(2) [OF sp d p nt]
      by (simp add: s') (simp add: add_table_def Let_def set_pde_def)
  qed
qed

lemma map_page_contents:
  assumes ok: "frames_ok used block_size s" and d: "dir_of page \<noteq> - 1" and fr: "frame mod page_size = 0"
    and m: "map_page L s page frame flags = Some (s', e)" and f: "f \<notin> table_frames (mm s)" "addr_of f \<in> used (page_map s)"
  shows "f \<notin> table_frames (mm s') \<and> mem (mm s') f = mem (mm s) f"
proof (rule map_tables_ok [OF ok d], goal_cases)
  case (1 s1 e1)
  note c = map_tables_contents [OF ok d 1(1) f]
  show ?case
  proof (cases "e1 = error_code ENONE")
    case False
    then have "s' = s1" using m 1(1) fr by (simp add: map_page_def del: map_tables.simps)
    then show ?thesis using c by simp
  next
    case True
    note p = 1(8) [OF True]
    have sp: "space_ok (mm s1)" using 1(3) by (simp add: frames_ok_def)
    note rt = space_okD(2) [OF sp d p]
    have mm: "mm s' = set_pte_entry (mm s1) page (new_entry (PAGE_PRESENT OR flags) frame (pte (mm s1) page))"
      using m 1(1) True fr set_pte_table [OF space_okD(1) [OF sp]] rt p by (auto simp: map_page_def simp del: map_tables.simps)
    have "table_of (mm s1) page \<in> table_frames (mm s1)" using p unfolding table_frames_def by blast
    then have "f \<noteq> table_of (mm s1) page" using c by blast
    then show ?thesis using c set_entry_space(2) [OF sp d p] unfolding mm by (simp add: set_pte_entry_def)
  qed
qed

text \<open>A fresh frame mapped at a page: everything settled elsewhere is kept, the page is settled and writable.\<close>

lemma fresh_page:
  assumes ok: "frames_ok used block_size s" and d: "dir_of page \<noteq> - 1" and r: "reserve_page L s = (s1, a)" "a \<noteq> error_code ENOMEM"
    and m: "map_page L s1 page a flags = Some (s2, error_code ENONE)"
    and Qs: "\<forall>q\<in>Q. settled used s q \<and> \<not> on_page page q"
  shows "keeps used s s2 Q" "frame_of a \<notin> table_frames (mm s2)" "addr_of (frame_of a) \<in> used (page_map s2)"
    "\<And>q e. q \<in> Q \<Longrightarrow> leaf (mm s) q = Some e \<Longrightarrow> physical_address e \<noteq> frame_of a"
    "frames_ok used block_size s2" "used (page_map s) \<subseteq> used (page_map s2)"
    "\<exists>x. leaf (mm s2) page = Some x \<and> physical_address x = frame_of a \<and> rw x = (flags AND PAGE_RW \<noteq> 0) \<and> usermode x = (flags AND PAGE_USERMODE \<noteq> 0)"
    "kernel_tables (mm s2) = kernel_tables (mm s)"
proof -
  note e = reserve_page_effect [OF r(1) ok] and Q = bspec [OF Qs]
  note a = e(4) [OF r(2)]
  have al: "a mod page_size = 0" and ua: "addr_of (frame_of a) \<in> used (page_map s1)" using a by simp_all
  have na: "frame_of a \<notin> table_frames (mm s1)" using a ok unfolding frames_ok_def e(1) by (metis image_eqI subsetD)
  show nq: "physical_address x \<noteq> frame_of a" if "q \<in> Q" "leaf (mm s) q = Some x" for q x
    using Q [OF that(1)] that(2) a by (auto simp: settled_def)
  have "f \<notin> table_frames (mm s2) \<and> mem (mm s2) f = mem (mm s) f" if "f \<notin> table_frames (mm s)" "addr_of f \<in> used (page_map s)" for f
    using map_page_contents [OF e(2) d al m] that e(1,3) by auto
  note c = this
  from map_page_contents [OF e(2) d al m na ua] show "frame_of a \<notin> table_frames (mm s2)" by blast
  have "keeps used s s2 Q \<and> addr_of (frame_of a) \<in> used (page_map s2) \<and> frames_ok used block_size s2 \<and> used (page_map s) \<subseteq> used (page_map s2) \<and>
    (\<exists>x. leaf (mm s2) page = Some x \<and> physical_address x = frame_of a \<and> rw x = (flags AND PAGE_RW \<noteq> 0) \<and> usermode x = (flags AND PAGE_USERMODE \<noteq> 0)) \<and>
    kernel_tables (mm s2) = kernel_tables (mm s)"
  proof (rule map_page_ok [OF e(2) d al, where flags = flags], goal_cases)
    case (1 s' st)
    then have s': "s' = s2" "st = error_code ENONE" using m by auto
    have u: "used (page_map s) \<subseteq> used (page_map s2)" using 1(3) e(3) s' by auto
    have "keeps used s s2 Q"
    proof (rule keepsI [OF _ _ u c])
      show "leaf (mm s2) q = leaf (mm s) q" if "q \<in> Q" for q
        using 1(9) [of q] Q [OF that] by (auto simp: s' e(1) on_page_def settled_def)
    qed (use Q in auto)
    then show ?case using u 1(2,3,11) 1(10) [OF s'(2)] ua s'(1) e(1) by auto
  qed
  then show "keeps used s s2 Q" "addr_of (frame_of a) \<in> used (page_map s2)" "frames_ok used block_size s2" "used (page_map s) \<subseteq> used (page_map s2)"
    "\<exists>x. leaf (mm s2) page = Some x \<and> physical_address x = frame_of a \<and> rw x = (flags AND PAGE_RW \<noteq> 0) \<and> usermode x = (flags AND PAGE_USERMODE \<noteq> 0)"
    "kernel_tables (mm s2) = kernel_tables (mm s)"
    by blast+
qed

end

section \<open>Filling a page\<close>

lemma page_offset:
  assumes "p mod page_size = 0" "j < page_size"
  shows "on_page p (p + j)"
proof -
  have "take_bit 12 p = 0" using assms(1) by (simp add: page_size_def take_bit_eq_mod)
  then have p: "\<not> bit p n" if "n < 12" for n using that bit_take_bit_iff [of 12 p n] by auto
  have "take_bit 12 j = j" using assms(2) by (simp add: page_size_def take_bit_eq_mod word_unat_eq_iff unat_mod_distrib word_less_nat_alt)
  then have j: "\<not> bit j n" if "12 \<le> n" for n using that bit_take_bit_iff [of 12 j n] by auto
  have e: "p + j = p OR j" using p j by (intro disjunctive_add) (meson not_le)
  have b: "bit (p + j) n = bit p n" if "12 \<le> n" for n using j [OF that] by (simp add: e bit_or_iff)
  show ?thesis
    unfolding on_page_def
  proof
    show "dir_of (p + j) = dir_of p" by (rule bit_word_eqI) (simp add: dir_of_def bit_unsigned_iff bit_drop_bit_eq b)
    show "tab_of (p + j) = tab_of p" by (rule bit_word_eqI) (simp add: tab_of_def bit_unsigned_iff bit_drop_bit_eq b)
  qed
qed

lemma on_page_same:
  assumes "on_page p q"
  shows "leaf m q = leaf m p" "dir_of q = dir_of p" "translate m q w = translate m p w"
  using assms by (simp_all add: on_page_def leaf_def translate_space)

lemma on_page_sym: "on_page p q \<Longrightarrow> on_page q p" by (simp add: on_page_def)

lemma on_page_trans: "on_page p q \<Longrightarrow> on_page q r \<Longrightarrow> on_page p r" by (simp add: on_page_def)

context libmalloc
begin

lemma fill_page:
  assumes ok: "frames_ok used block_size s" and p: "p mod page_size = 0" "dir_of p \<noteq> - 1"
    and r: "reserve_page L s = (s1, a)" "a \<noteq> error_code ENOMEM"
    and m: "map_page L s1 p a flags = Some (s2, error_code ENONE)" "flags AND PAGE_RW \<noteq> 0"
    and Qs: "\<forall>q\<in>Q. settled used s q \<and> \<not> on_page p q"
    and num: "num \<le> page_size" "\<forall>j<num. src + j \<in> Q"
  obtains m3 x where "memcpy_machine (mm s2) p src num = Some m3" "frames_ok used block_size (s2\<lparr>mm := m3\<rparr>)" "keeps used s (s2\<lparr>mm := m3\<rparr>) Q"
    "used (page_map s) \<subseteq> used (page_map s2)" "\<And>j. j < num \<Longrightarrow> load8 m3 (p + j) = load8 (mm s) (src + j)"
    "\<And>q. on_page p q \<Longrightarrow> settled used (s2\<lparr>mm := m3\<rparr>) q \<and> leaf m3 q = Some x" "rw x" "usermode x = (flags AND PAGE_USERMODE \<noteq> 0)"
    "kernel_tables m3 = kernel_tables (mm s)"
proof -
  have n: "num \<le> page_size" "\<And>j. j < num \<Longrightarrow> src + j \<in> Q" using num by blast+
  note Q = bspec [OF Qs]
  note fp = fresh_page [OF ok p(2) r m(1) Qs]
  let ?f = "frame_of a"
  obtain x where x: "leaf (mm s2) p = Some x" "physical_address x = ?f" "rw x" "usermode x = (flags AND PAGE_USERMODE \<noteq> 0)" using fp(7) m(2) by blast
  have sp: "space_ok (mm s2)" using fp(5) by (simp add: frames_ok_def)
  have on: "on_page p (p + j)" if "j < num" for j using page_offset [OF p(1)] that n(1) by simp
  have t: "translate (mm s2) (p + j) True = Some ?f" if "j < num" for j
    using translate_leaf(2) [OF sp p(2)] x on_page_same [OF on [OF that]] by simp
  have src: "\<exists>g. translate (mm s2) (src + j) False = Some g \<and> g \<noteq> ?f" if "j < num" for j
  proof -
    note q = n(2) [OF that]
    obtain e where e: "leaf (mm s) (src + j) = Some e" using Q [OF q] by (auto simp: settled_def)
    with fp(4) [OF q] keepsD(2) [OF fp(1) q] show ?thesis by (simp add: translate_leaf)
  qed
  have copy: "\<exists>m'. memcpy_machine (mm s2) p src num = Some m' \<and> same_space (mm s2) m' \<and> (\<forall>g. g \<noteq> ?f \<longrightarrow> mem m' g = mem (mm s2) g) \<and>
    (\<forall>j<num. load8 m' (p + j) = load8 (mm s2) (src + j))"
  proof (cases "num > 0")
    case True
    have "\<exists>m'. memcpy_bytes (mm s2) p src 0 num = Some m' \<and> same_space (mm s2) m' \<and> (\<forall>g. g \<noteq> ?f \<longrightarrow> mem m' g = mem (mm s2) g) \<and>
      (\<forall>j<num. load8 m' (p + j) = (if 0 \<le> j then load8 (mm s2) (src + j) else load8 (mm s2) (p + j)))"
      by (rule memcpy_bytes_copies [where page = p]) (use sp fp(2) on t src in auto)
    then show ?thesis using True by (simp add: memcpy_machine_def)
  qed (auto simp: memcpy_machine_def word_less_nat_alt)
  then obtain m' where m': "memcpy_machine (mm s2) p src num = Some m'" "same_space (mm s2) m'" "\<forall>g. g \<noteq> ?f \<longrightarrow> mem m' g = mem (mm s2) g"
    "\<forall>j<num. load8 m' (p + j) = load8 (mm s2) (src + j)" by blast
  note ss = same_spaceD [OF m'(2) sp]
  have keep: "keeps used s2 (s2\<lparr>mm := m'\<rparr>) Q"
    unfolding keeps_def
  proof
    fix q assume q: "q \<in> Q"
    note k = keepsD [OF fp(1) q]
    obtain e where e: "leaf (mm s) q = Some e" using Q [OF q] by (auto simp: settled_def)
    show "settled used (s2\<lparr>mm := m'\<rparr>) q \<and> leaf (mm (s2\<lparr>mm := m'\<rparr>)) q = leaf (mm s2) q \<and> load8 (mm (s2\<lparr>mm := m'\<rparr>)) q = load8 (mm s2) q"
      using k e fp(4) [OF q e] m'(3) by (simp add: settled_def ss load8_leaf byte_in_def)
  qed
  show thesis
  proof (rule that [OF m'(1)])
    show "frames_ok used block_size (s2\<lparr>mm := m'\<rparr>)" using fp(5) ss by (simp add: frames_ok_def)
    show "keeps used s (s2\<lparr>mm := m'\<rparr>) Q" by (rule keeps_trans [OF fp(1) keep])
    show "used (page_map s) \<subseteq> used (page_map s2)" by (rule fp(6))
    show "load8 m' (p + j) = load8 (mm s) (src + j)" if "j < num" for j
      using m'(4) that keepsD(3) [OF fp(1) n(2) [OF that]] by simp
    show "settled used (s2\<lparr>mm := m'\<rparr>) q \<and> leaf m' q = Some x" if "on_page p q" for q
      using x fp(2,3) p(2) on_page_same [OF that] by (simp add: settled_def ss)
    show "kernel_tables m' = kernel_tables (mm s)" using ss(6) fp(8) by simp
  qed (use x in simp_all)
qed

end

end
