(* ===== verification/Elf.thy ===== *)
theory Elf
  imports Byte_Memory
begin

text \<open>
  The program loader of \<^verbatim>\<open>src/elf.c\<close>: it walks the program headers of a file that is mapped in the current address space
  and gives every loadable segment pages of its own, filled from the file. The structures of \<^verbatim>\<open>include/elf.h\<close> (32-bit
  layout) are read from memory field by field, each time the code does.
\<close>

section \<open>Reading the file\<close>

definition read32 :: "mmu \<Rightarrow> ptr \<Rightarrow> u32 option" where
  "read32 m a = map_option word_of (read_mem m a 4)"

definition half_of :: "u8 list \<Rightarrow> u16" where
  "half_of bs = ucast (bs ! 0) OR push_bit 8 (ucast (bs ! 1))"

definition read16 :: "mmu \<Rightarrow> ptr \<Rightarrow> u16 option" where
  "read16 m a = map_option half_of (read_mem m a 2)"

text \<open>\<^verbatim>\<open>struct elf_file_header_t\<close>\<close>

definition elf_entry :: "mmu \<Rightarrow> ptr \<Rightarrow> ptr option" where "elf_entry m elf = read32 m (elf + 24)"
definition elf_phoffset :: "mmu \<Rightarrow> ptr \<Rightarrow> u32 option" where "elf_phoffset m elf = read32 m (elf + 28)"
definition elf_phsize :: "mmu \<Rightarrow> ptr \<Rightarrow> u16 option" where "elf_phsize m elf = read16 m (elf + 42)"
definition elf_phcount :: "mmu \<Rightarrow> ptr \<Rightarrow> u16 option" where "elf_phcount m elf = read16 m (elf + 44)"

text \<open>\<^verbatim>\<open>struct elf_program_header_t\<close>\<close>

definition ph_type :: "mmu \<Rightarrow> ptr \<Rightarrow> u32 option" where "ph_type m ph = read32 m ph"
definition ph_offset :: "mmu \<Rightarrow> ptr \<Rightarrow> u32 option" where "ph_offset m ph = read32 m (ph + 4)"
definition ph_vaddr :: "mmu \<Rightarrow> ptr \<Rightarrow> ptr option" where "ph_vaddr m ph = read32 m (ph + 8)"
definition ph_memsize :: "mmu \<Rightarrow> ptr \<Rightarrow> u32 option" where "ph_memsize m ph = read32 m (ph + 20)"

datatype elf_segment_type_t = ELF_UNUSED | ELF_LOAD | ELF_DYNAMIC

fun segment_code :: "elf_segment_type_t \<Rightarrow> u32" where
  "segment_code ELF_UNUSED = 0"
| "segment_code ELF_LOAD = 1"
| "segment_code ELF_DYNAMIC = 2"

section \<open>The code\<close>

text \<open>The loop over the pages of a segment ends normally (\<^term>\<open>None\<close> as second result) or with a status to return.\<close>

partial_function (option) load_segment ::
  "'h libmalloc \<Rightarrow> 'h machine \<Rightarrow> ptr \<Rightarrow> ptr \<Rightarrow> ptr \<Rightarrow> u32 \<Rightarrow> ('h machine \<times> u32 option) option" where
  "load_segment L s ph d src n = do {
     memsize \<leftarrow> ph_memsize (mm s) ph;
     if n < memsize then
       (let (s, page) = reserve_page L s in
        if page = error_code ENOMEM then Some (s, Some (error_code ENOMEM))
        else do {
          (s, status) \<leftarrow> map_page L s (d + n) page (PAGE_RW OR PAGE_USERMODE OR PAGE_EXECUTABLE);
          if status = error_code ENOMEM \<or> status = error_code EOUTOFBOUNDS then Some (s, Some status)
          else if status = error_code ENONE then do {
            memsize \<leftarrow> ph_memsize (mm s) ph;
            m \<leftarrow> memcpy_machine (mm s) (d + n) (src + n) (if n + page_size < memsize then page_size else memsize - n);
            load_segment L (s\<lparr>mm := m\<rparr>) ph d src (n + page_size) }
          else load_segment L s ph d src (n + page_size) })
     else Some (s, None) }"

fun load_headers :: "'h libmalloc \<Rightarrow> 'h machine \<Rightarrow> ptr \<Rightarrow> ptr \<Rightarrow> nat \<Rightarrow> ('h machine \<times> u32) option" where
  "load_headers L s elf program_header 0 = Some (s, error_code ENONE)"
| "load_headers L s elf program_header (Suc count) = do {
     type \<leftarrow> ph_type (mm s) program_header;
     (s, returned) \<leftarrow>
       (if type = segment_code ELF_LOAD then do {
          d \<leftarrow> ph_vaddr (mm s) program_header;
          offset \<leftarrow> ph_offset (mm s) program_header;
          load_segment L s program_header d (elf + offset) 0 }
        else Some (s, None));
     case returned of
       Some status \<Rightarrow> Some (s, status)
     | None \<Rightarrow> do { sz \<leftarrow> elf_phsize (mm s) elf; load_headers L s elf (program_header + ucast sz) count } }"

definition load_program :: "'h libmalloc \<Rightarrow> 'h machine \<Rightarrow> ptr \<Rightarrow> ('h machine \<times> u32) option" where
  "load_program L s elf = do {
     offset \<leftarrow> elf_phoffset (mm s) elf;
     count \<leftarrow> elf_phcount (mm s) elf;
     load_headers L s elf (elf + offset) (unat count) }"

section \<open>Segments\<close>

lemma keeps_read32: "keeps used s s' Q \<Longrightarrow> (\<And>i. i < 4 \<Longrightarrow> p + of_nat i \<in> Q) \<Longrightarrow> read32 (mm s') p = read32 (mm s) p"
  by (simp add: read32_def keeps_read)

lemma keeps_read16: "keeps used s s' Q \<Longrightarrow> (\<And>i. i < 2 \<Longrightarrow> p + of_nat i \<in> Q) \<Longrightarrow> read16 (mm s') p = read16 (mm s) p"
  by (simp add: read16_def keeps_read)

lemma offset_in: "(\<And>i. i < n \<Longrightarrow> p + of_nat i \<in> Q) \<Longrightarrow> k + j \<le> n \<Longrightarrow> i < j \<Longrightarrow> p + of_nat k + of_nat i \<in> Q"
  by (metis (no_types, opaque_lifting) add.assoc add_less_cancel_left of_nat_add order_less_le_trans)

lemma far_pages:
  assumes "p mod page_size = 0" "4096 \<le> unat k"
  shows "\<not> on_page p (p + k)"
proof
  assume on: "on_page p (p + k)"
  define a where "a = unat k div 4096"
  have a: "0 < a" "a * 4096 \<le> unat k" "a * 4096 < 2 ^ 32"
    using assms(2) div_times_less_eq_dividend [of "unat k" 4096] unat_u32 [of k] by (auto simp: a_def simp del: unat_u32)
  have al: "(p + of_nat (a * 4096)) mod page_size = 0" by (rule aligned_add [OF assms(1) aligned_step [OF a(3)]])
  have u: "unat (of_nat (a * 4096) :: u32) = a * 4096" using a(3) by (simp add: unat_of_nat del: of_nat_mult)
  have r: "k - of_nat (a * 4096) < page_size"
    using a(2) u by (simp add: word_less_nat_alt word_le_nat_alt unat_sub page_size_def del: of_nat_mult) (simp add: a_def minus_mult_div_eq_mod mult.commute)
  from page_offset [OF al r] have "on_page (p + of_nat (a * 4096)) (p + k)" by (simp add: algebra_simps del: of_nat_mult)
  then have "on_page p (p + of_nat (a * 4096))" using on on_page_trans on_page_sym by blast
  then have "p = p + of_nat (a * 4096)" using on_page_aligned [OF assms(1) al] by blast
  then have "(of_nat (a * 4096) :: u32) = 0" by (metis add_cancel_right_right)
  with u a(1) show False by (metis mult_eq_0_iff not_gr0 unat_0 zero_neq_numeral)
qed

text \<open>The pages of the segment of \<open>sz\<close> bytes at \<open>d\<close>, from byte \<open>n\<close> on.\<close>

definition pages_from :: "ptr \<Rightarrow> u32 \<Rightarrow> u32 \<Rightarrow> ptr set" where
  "pages_from d sz n = {q. \<exists>k. n \<le> k \<and> k < sz \<and> on_page (d + k) q}"

definition loaded :: "('h \<Rightarrow> u32 set) \<Rightarrow> 'h machine \<Rightarrow> 'h machine \<Rightarrow> ptr \<Rightarrow> ptr \<Rightarrow> u32 \<Rightarrow> u32 \<Rightarrow> bool" where
  "loaded used s s' d src sz n \<longleftrightarrow>
     (\<forall>q\<in>pages_from d sz n. settled used s' q \<and> user_entry (mm s') q) \<and>
     (\<forall>k. n \<le> k \<longrightarrow> k < sz \<longrightarrow> load8 (mm s') (d + k) = load8 (mm s) (src + k))"

lemma split_range:
  assumes "(n :: u32) < sz" "unat sz \<le> 0xFFFFF000" "n \<le> k" "k < sz" and num: "num = (if n + page_size < sz then page_size else sz - n)"
  obtains (here) j where "j < num" "k = n + j" | (later) "n + page_size \<le> k"
proof (cases "n + page_size \<le> k")
  case True
  then show ?thesis by (rule later)
next
  case False
  note nx = next_page [OF assms(1,2)]
  have "unat (k - n) = unat k - unat n" using assms(3) by (simp add: unat_sub)
  moreover have "unat (sz - n) = unat sz - unat n" using assms(1) by (simp add: unat_sub)
  ultimately have "k - n < num"
    using False nx assms by (auto simp: word_less_nat_alt word_le_nat_alt page_size_def)
  with here show ?thesis by simp
qed

context libmalloc
begin

lemma load_segment_loads:
  assumes "frames_ok used block_size s" "\<And>q. q \<in> Q \<Longrightarrow> settled used s q"
    and "ph_memsize (mm s) ph = Some sz" "\<And>i. i < 24 \<Longrightarrow> ph + of_nat i \<in> Q" "unat sz \<le> 0xFFFFF000"
    and "d mod page_size = 0" "n mod page_size = 0" "\<And>k. n \<le> k \<Longrightarrow> k < sz \<Longrightarrow> src + k \<in> Q \<and> dir_of (d + k) \<noteq> - 1"
    and "pages_from d sz n \<inter> Q = {}"
  shows "\<exists>s' r. load_segment L s ph d src n = Some (s', r) \<and> frames_ok used block_size s' \<and> used (page_map s) \<subseteq> used (page_map s') \<and>
    kernel_tables (mm s') = kernel_tables (mm s) \<and>
    (r = None \<and> keeps used s s' Q \<and> loaded used s s' d src sz n \<or> r = Some (error_code ENOMEM))"
  using assms(1-4,7-)
proof (induction "unat sz - unat n" arbitrary: s n Q rule: less_induct)
  case less
  note ok = less.prems(1) and Q = less.prems(2) and rd = less.prems(3) and inQ = less.prems(4) and src = less.prems(6) and apart = less.prems(7)
  show ?case
  proof (cases "n < sz")
    case False
    then have "load_segment L s ph d src n = Some (s, None)" using rd by (simp add: load_segment.simps)
    moreover have "loaded used s s d src sz n" using False by (auto simp: loaded_def pages_from_def)
    ultimately show ?thesis using ok keeps_refl [of Q used s] Q by auto
  next
    case True
    note nx = next_page [OF True assms(5)]
    have dec: "unat sz - unat (n + page_size) < unat sz - unat n" using nx True by (simp add: word_less_nat_alt)
    let ?p = "d + n" and ?fl = "PAGE_RW OR PAGE_USERMODE OR PAGE_EXECUTABLE" and ?num = "if n + page_size < sz then page_size else sz - n"
    have al: "?p mod page_size = 0" by (rule aligned_add [OF assms(6) less.prems(5)])
    have dir: "dir_of ?p \<noteq> - 1" using src [of n] True by simp
    obtain s1 a where r: "reserve_page L s = (s1, a)" by (cases "reserve_page L s")
    note re = reserve_page_effect [OF r ok]
    show ?thesis
    proof (cases "a = error_code ENOMEM")
      case t: True
      then have "load_segment L s ph d src n = Some (s1, Some (error_code ENOMEM))"
        using True rd r by (subst load_segment.simps) simp
      then show ?thesis using re(1-3) by auto
    next
      case ne: False
      then have a: "a mod page_size = 0" using re(4) by blast
      obtain s2 e where m: "map_page L s1 ?p a ?fl = Some (s2, e)" "e = error_code ENONE \<or> e = error_code ENOMEM" "frames_ok used block_size s2"
        "used (page_map s1) \<subseteq> used (page_map s2)" "kernel_tables (mm s2) = kernel_tables (mm s)"
        by (rule map_page_ok [OF re(2) dir a, where flags = ?fl]) (use re(1) in fastforce)
      show ?thesis
      proof (cases "e = error_code ENONE")
        case False
        then have "e = error_code ENOMEM" using m(2) by blast
        then have "load_segment L s ph d src n = Some (s2, Some (error_code ENOMEM))"
          using True rd r ne m(1) by (subst load_segment.simps) simp
        then show ?thesis using m(3-5) re(3) by blast
      next
        case e: True
        have num: "?num \<le> page_size"
          using True nx by (auto simp: word_less_nat_alt word_le_nat_alt unat_sub page_size_def)
        have off: "n \<le> n + j \<and> n + j < sz" if "j < ?num" for j
        proof -
          have "unat j < 4096" "unat j < unat sz - unat n"
            using that True nx by (auto simp: word_less_nat_alt word_le_nat_alt unat_sub page_size_def split: if_splits)
          moreover from this have "unat (n + j) = unat n + unat j" using unat_u32 [of sz] by (intro unat_add_le) (simp del: unat_u32)
          ultimately show ?thesis by (simp add: word_less_nat_alt word_le_nat_alt)
        qed
        have Q1: "\<forall>q\<in>Q. settled used s q \<and> \<not> on_page ?p q"
          using Q apart True by (auto simp: pages_from_def)
        have Q2: "\<forall>j<?num. src + n + j \<in> Q" 
        proof (intro allI impI)
          fix j assume "j < ?num"
          then show "src + n + j \<in> Q" using src [of "n + j"] off [of j] by (simp add: add.assoc)
        qed
        obtain m3 x where f: "memcpy_machine (mm s2) ?p (src + n) ?num = Some m3" "frames_ok used block_size (s2\<lparr>mm := m3\<rparr>)"
          "keeps used s (s2\<lparr>mm := m3\<rparr>) Q" "used (page_map s) \<subseteq> used (page_map s2)"
          "\<And>j. j < ?num \<Longrightarrow> load8 m3 (?p + j) = load8 (mm s) (src + n + j)"
          "\<And>q. on_page ?p q \<Longrightarrow> settled used (s2\<lparr>mm := m3\<rparr>) q \<and> leaf m3 q = Some x" "rw x" "usermode x = (?fl AND PAGE_USERMODE \<noteq> 0)"
          "kernel_tables m3 = kernel_tables (mm s)"
        proof (rule fill_page [OF ok al dir r ne m(1) [unfolded e] _ Q1 num Q2], goal_cases)
          case (2 m3 x)
          show ?case by (rule 2(1) [OF 2(2-)])
        qed simp
        let ?s = "s2\<lparr>mm := m3\<rparr>" and ?Q = "Q \<union> {q. on_page ?p q}"
        have user: "user_entry m3 q" if "on_page ?p q" for q using f(6) [OF that] f(7,8) by (simp add: user_entry_def)
        have k2: "keeps used s2 s2 {}" by (simp add: keeps_def)
        have "keeps used s s2 Q"
          using fresh_page(1) [OF ok dir r ne m(1) [unfolded e]] Q1 by blast
        then have rd2: "ph_memsize (mm s2) ph = Some sz" "ph_memsize m3 ph = Some sz"
          using keeps_read32 [of used s s2 Q "ph + 20"] keeps_read32 [OF f(3), of "ph + 20"] offset_in [of 24 ph Q 20 4] inQ rd
          by (auto simp: ph_memsize_def)
        have far: "\<not> on_page (d + k) ?p" if "n + page_size \<le> k" "k < sz" for k
        proof -
          have "4096 \<le> unat (k - n)" using that nx True by (auto simp: word_le_nat_alt word_less_nat_alt unat_sub)
          from far_pages [OF al this] show ?thesis using on_page_sym by fastforce
        qed
        have "\<exists>s' r. load_segment L ?s ph d src (n + page_size) = Some (s', r) \<and> frames_ok used block_size s' \<and> used (page_map ?s) \<subseteq> used (page_map s') \<and>
          kernel_tables (mm s') = kernel_tables (mm ?s) \<and>
          (r = None \<and> keeps used ?s s' ?Q \<and> loaded used ?s s' d src sz (n + page_size) \<or> r = Some (error_code ENOMEM))"
        proof (rule less.hyps [OF dec f(2)])
          show "settled used ?s q" if "q \<in> ?Q" for q using that f(6) keepsD(1) [OF f(3)] by blast
          show "(n + page_size) mod page_size = 0" by (rule aligned_add [OF less.prems(5)]) simp
          show "src + k \<in> ?Q \<and> dir_of (d + k) \<noteq> - 1" if "n + page_size \<le> k" "k < sz" for k
            using src [of k] that nx by (auto simp: word_le_nat_alt)
          have "n \<le> n + page_size" using nx by (simp add: word_le_nat_alt)
          then have "pages_from d sz (n + page_size) \<subseteq> pages_from d sz n" unfolding pages_from_def using order_trans by blast
          then have "q \<notin> Q" if "q \<in> pages_from d sz (n + page_size)" for q using that apart by blast
          moreover have "\<not> on_page ?p q" if "q \<in> pages_from d sz (n + page_size)" for q
            using that far on_page_trans on_page_sym unfolding pages_from_def by blast
          ultimately show "pages_from d sz (n + page_size) \<inter> ?Q = {}" by blast
        qed (use rd2 inQ in auto)
        then obtain s' r where i: "load_segment L ?s ph d src (n + page_size) = Some (s', r)" "frames_ok used block_size s'"
          "used (page_map ?s) \<subseteq> used (page_map s')" "kernel_tables (mm s') = kernel_tables (mm ?s)"
          "r = None \<and> keeps used ?s s' ?Q \<and> loaded used ?s s' d src sz (n + page_size) \<or> r = Some (error_code ENOMEM)" by blast
        have run: "load_segment L s ph d src n = Some (s', r)"
          using True rd r ne m(1) e rd2(1) f(1) i(1) by (subst load_segment.simps) (simp add: add.assoc)
        have "loaded used s s' d src sz n \<and> keeps used s s' Q" if k: "keeps used ?s s' ?Q" and l: "loaded used ?s s' d src sz (n + page_size)"
        proof
          show "keeps used s s' Q" by (rule keeps_trans [OF f(3) keeps_mono [OF k]]) blast
          show "loaded used s s' d src sz n"
            unfolding loaded_def
          proof (intro conjI ballI allI impI)
            fix q assume "q \<in> pages_from d sz n"
            then obtain c where c: "n \<le> c" "c < sz" "on_page (d + c) q" by (auto simp: pages_from_def)
            have "on_page ?p q \<or> q \<in> pages_from d sz (n + page_size)"
            proof (rule split_range [OF True assms(5) c(1,2) refl])
              fix j assume j: "j < ?num" "c = n + j"
              then have "on_page ?p (d + c)" using page_offset [OF al, of j] num by (simp add: add.assoc)
              then show ?thesis using on_page_trans c(3) by blast
            next
              assume "n + page_size \<le> c"
              then show ?thesis using c by (auto simp: pages_from_def)
            qed
            then show "settled used s' q" "user_entry (mm s') q"
              using l keepsD(1,2) [OF k, of q] user by (auto simp: loaded_def user_entry_def)
          next
            fix c assume c: "n \<le> c" "c < sz"
            show "load8 (mm s') (d + c) = load8 (mm s) (src + c)"
            proof (rule split_range [OF True assms(5) c refl])
              fix j assume j: "j < ?num" "c = n + j"
              then have "on_page ?p (?p + j)" using page_offset [OF al] num by simp
              then show ?thesis using keepsD(3) [OF k, of "?p + j"] f(5) [OF j(1)] j(2) by (simp add: add.assoc)
            next
              assume "n + page_size \<le> c"
              then show ?thesis using l c(2) keepsD(3) [OF f(3)] src [OF c] by (simp add: loaded_def)
            qed
          qed
        qed
        then show ?thesis using run i(2-5) f(4,9) by auto
      qed
    qed
  qed
qed

end

section \<open>Files\<close>

text \<open>What a file asks for: its program headers and, for the loadable ones, address in memory, address in the file and size.\<close>

fun header_list :: "ptr \<Rightarrow> u32 \<Rightarrow> nat \<Rightarrow> ptr list" where
  "header_list ph sz 0 = []"
| "header_list ph sz (Suc count) = ph # header_list (ph + sz) sz count"

definition program_headers :: "mmu \<Rightarrow> ptr \<Rightarrow> ptr list" where
  "program_headers m elf = (case (elf_phoffset m elf, elf_phsize m elf, elf_phcount m elf) of
     (Some off, Some sz, Some n) \<Rightarrow> header_list (elf + off) (ucast sz) (unat n) | _ \<Rightarrow> [])"

definition segment_at :: "mmu \<Rightarrow> ptr \<Rightarrow> ptr \<Rightarrow> (ptr \<times> ptr \<times> u32) option" where
  "segment_at m elf ph = do {
     t \<leftarrow> ph_type m ph;
     if t = segment_code ELF_LOAD then do {
       d \<leftarrow> ph_vaddr m ph; off \<leftarrow> ph_offset m ph; sz \<leftarrow> ph_memsize m ph; Some (d, elf + off, sz) }
     else None }"

definition segments :: "mmu \<Rightarrow> ptr \<Rightarrow> (ptr \<times> ptr \<times> u32) list" where
  "segments m elf = List.map_filter (segment_at m elf) (program_headers m elf)"

text \<open>Segments that can be loaded: aligned, outside of the recursive mapping, their contents in the file \<open>W\<close>, which
  they do not overlay, and on pages of their own.\<close>

fun segment_ok :: "ptr set \<Rightarrow> ptr \<times> ptr \<times> u32 \<Rightarrow> bool" where
  "segment_ok W (d, src, sz) \<longleftrightarrow> d mod page_size = 0 \<and> unat sz \<le> 0xFFFFF000 \<and> (\<forall>k < sz. src + k \<in> W \<and> dir_of (d + k) \<noteq> - 1) \<and> pages_from d sz 0 \<inter> W = {}"

fun segment_pages :: "ptr \<times> ptr \<times> u32 \<Rightarrow> ptr set" where
  "segment_pages (d, src, sz) = pages_from d sz 0"

fun segment_loaded :: "('h \<Rightarrow> u32 set) \<Rightarrow> 'h machine \<Rightarrow> 'h machine \<Rightarrow> ptr \<times> ptr \<times> u32 \<Rightarrow> bool" where
  "segment_loaded used s s' (d, src, sz) = loaded used s s' d src sz 0"

fun pages_apart :: "(ptr \<times> ptr \<times> u32) list \<Rightarrow> bool" where
  "pages_apart [] = True"
| "pages_apart (g # gs) = ((\<forall>h\<in>set gs. segment_pages g \<inter> segment_pages h = {}) \<and> pages_apart gs)"

lemma loaded_keeps:
  assumes "segment_loaded used s s1 g" "keeps used s1 s' (segment_pages g)"
  shows "segment_loaded used s s' g"
proof (cases g)
  case (fields d src sz)
  have k: "k < sz \<Longrightarrow> d + k \<in> pages_from d sz 0" for k by (auto simp: pages_from_def on_page_def)
  show ?thesis
    using assms keepsD [OF assms(2)] k unfolding fields by (auto simp: loaded_def user_entry_def)
qed

lemma segment_user:
  assumes "space_ok (mm s')" "segment_loaded used s s' g" "q \<in> segment_pages g"
  shows "user_page (mm s') q \<longleftrightarrow> dir_of q \<notin> kernel_tables (mm s')"
proof -
  obtain d src sz where "g = (d, src, sz)" by (cases g)
  then have "settled used s' q" "user_entry (mm s') q" using assms(2,3) by (auto simp: loaded_def)
  then show ?thesis using user_page_entry [OF assms(1)] by (simp add: settled_def)
qed

text \<open>In settled memory every field can be read.\<close>

lemma settled_read:
  assumes "\<And>i. i < n \<Longrightarrow> settled used s (p + of_nat i)"
  shows "\<exists>bs. read_mem (mm s) p n = Some bs \<and> length bs = n"
proof -
  have "\<exists>ys. those xs = Some ys" if "\<And>x. x \<in> set xs \<Longrightarrow> x \<noteq> None" for xs :: "u8 option list"
    using that by (induction xs) (auto split: option.splits)
  moreover have "x \<noteq> None" if "x \<in> set (map (\<lambda>i. load8 (mm s) (p + of_nat i)) [0..<n])" for x
    using that settled_loads [OF assms] by force
  ultimately obtain bs where "read_mem (mm s) p n = Some bs" unfolding read_mem_def by blast
  then show ?thesis using those_length by (fastforce simp: read_mem_def)
qed

context libmalloc
begin

lemma load_headers_loads:
  assumes "frames_ok used block_size s" "\<forall>q\<in>Q. settled used s q" "W \<subseteq> Q" "keeps used s0 s W"
    and "elf_phsize (mm s0) elf = Some psz" "\<forall>i<2. elf + 42 + of_nat i \<in> W"
    and "hs = header_list ph (ucast psz) count" "\<forall>h\<in>set hs. \<forall>i<24. h + of_nat i \<in> W"
    and "gs = List.map_filter (segment_at (mm s0) elf) hs" "\<forall>g\<in>set gs. segment_ok W g" "pages_apart gs" "\<forall>g\<in>set gs. segment_pages g \<inter> Q = {}"
  shows "\<exists>s' e. load_headers L s elf ph count = Some (s', e) \<and> frames_ok used block_size s' \<and>
    kernel_tables (mm s') = kernel_tables (mm s) \<and>
    (e = error_code ENOMEM \<or> e = error_code ENONE \<and> keeps used s s' Q \<and> (\<forall>g\<in>set gs. segment_loaded used s0 s' g))"
  using assms(1-4) assms(7-)
proof (induction count arbitrary: s ph Q hs gs)
  case 0
  then show ?case using keeps_refl [of Q used s] by (simp add: map_filter_simps)
next
  case (Suc count)
  let ?hs = "header_list (ph + ucast psz) (ucast psz) count"
  have hs: "hs = ph # ?hs" using Suc.prems(5) by simp
  have inW: "\<And>i. i < 24 \<Longrightarrow> ph + of_nat i \<in> W" using Suc.prems(6) hs by simp
  have rd: "read32 (mm s) (ph + of_nat k) = read32 (mm s0) (ph + of_nat k)" if "k + 4 \<le> 24" for k
    by (rule keeps_read32 [OF Suc.prems(4)]) (rule offset_in [OF inW that])
  have fields: "ph_type (mm s) ph = ph_type (mm s0) ph" "ph_vaddr (mm s) ph = ph_vaddr (mm s0) ph" "ph_offset (mm s) ph = ph_offset (mm s0) ph"
    "ph_memsize (mm s) ph = ph_memsize (mm s0) ph"
    using rd [of 0] rd [of 8] rd [of 4] rd [of 20] by (simp_all add: ph_type_def ph_vaddr_def ph_offset_def ph_memsize_def)
  have ex: "\<exists>v. read32 (mm s) (ph + of_nat k) = Some v" if "k + 4 \<le> 24" for k
    using settled_read [of 4 used s "ph + of_nat k"] Suc.prems(2,3) offset_in [OF inW that] by (auto simp: read32_def)
  obtain t where t: "ph_type (mm s) ph = Some t" using ex [of 0] by (auto simp: ph_type_def)
  have next_header: "elf_phsize (mm s') elf = Some psz" if "keeps used s s' Q" for s'
    using keeps_read16 [OF keeps_trans [OF Suc.prems(4) keeps_mono [OF that Suc.prems(3)]], of "elf + 42"] assms(5,6) by (simp add: elf_phsize_def)
  show ?case
  proof (cases "t = segment_code ELF_LOAD")
    case False
    then have "segment_at (mm s0) elf ph = None" using t fields by (simp add: segment_at_def)
    then have gs: "gs = List.map_filter (segment_at (mm s0) elf) ?hs" using Suc.prems(7) by (simp add: hs map_filter_simps)
    have run: "load_headers L s elf ph (Suc count) = load_headers L s elf (ph + ucast psz) count"
      using t False next_header [OF keeps_refl] Suc.prems(2) by simp
    show ?thesis unfolding run
      by (rule Suc.IH [OF Suc.prems(1-4) refl _ gs]) (use Suc.prems hs in auto)
  next
    case True
    obtain d off sz where f: "ph_vaddr (mm s) ph = Some d" "ph_offset (mm s) ph = Some off" "ph_memsize (mm s) ph = Some sz"
      using ex [of 8] ex [of 4] ex [of 20] by (auto simp: ph_vaddr_def ph_offset_def ph_memsize_def)
    let ?g = "(d, elf + off, sz)" and ?gs = "List.map_filter (segment_at (mm s0) elf) ?hs"
    have "segment_at (mm s0) elf ph = Some ?g" using t True f fields by (simp add: segment_at_def)
    then have gs: "gs = ?g # ?gs" using Suc.prems(7) by (simp add: hs map_filter_simps)
    have g: "d mod page_size = 0" "unat sz \<le> 0xFFFFF000" "\<forall>k < sz. elf + off + k \<in> W \<and> dir_of (d + k) \<noteq> - 1"
      using Suc.prems(8) gs by auto
    have dis: "pages_from d sz 0 \<inter> Q = {}" using Suc.prems(10) gs by auto
    have "\<exists>s' r. load_segment L s ph d (elf + off) 0 = Some (s', r) \<and> frames_ok used block_size s' \<and> used (page_map s) \<subseteq> used (page_map s') \<and>
      kernel_tables (mm s') = kernel_tables (mm s) \<and>
      (r = None \<and> keeps used s s' Q \<and> loaded used s s' d (elf + off) sz 0 \<or> r = Some (error_code ENOMEM))"
      by (rule load_segment_loads [OF Suc.prems(1) _ f(3) _ g(2,1) _ _ dis]) (use Suc.prems(2,3) inW g(3) in auto)
    then obtain s1 r where l: "load_segment L s ph d (elf + off) 0 = Some (s1, r)" "frames_ok used block_size s1" "kernel_tables (mm s1) = kernel_tables (mm s)"
      "r = None \<and> keeps used s s1 Q \<and> loaded used s s1 d (elf + off) sz 0 \<or> r = Some (error_code ENOMEM)" by blast
    show ?thesis
    proof (cases r)
      case (Some e)
      then have "load_headers L s elf ph (Suc count) = Some (s1, error_code ENOMEM)" using t True f l by simp
      then show ?thesis using l(2,3) by blast
    next
      case None
      then have k: "keeps used s s1 Q" and ld: "loaded used s s1 d (elf + off) sz 0" using l(4) by auto
      have run: "load_headers L s elf ph (Suc count) = load_headers L s1 elf (ph + ucast psz) count"
        using t True f l(1) None next_header [OF k] by simp
      have ld0: "segment_loaded used s0 s1 ?g"
        using ld g(3) keepsD(3) [OF Suc.prems(4)] by (auto simp: loaded_def)
      have "\<exists>s' e. load_headers L s1 elf (ph + ucast psz) count = Some (s', e) \<and> frames_ok used block_size s' \<and>
        kernel_tables (mm s') = kernel_tables (mm s1) \<and>
        (e = error_code ENOMEM \<or> e = error_code ENONE \<and> keeps used s1 s' (Q \<union> segment_pages ?g) \<and> (\<forall>g\<in>set ?gs. segment_loaded used s0 s' g))"
      proof (rule Suc.IH [OF l(2) _ _ _ refl _ refl])
        show "\<forall>q\<in>Q \<union> segment_pages ?g. settled used s1 q" using keepsD(1) [OF k] ld by (auto simp: loaded_def)
        show "keeps used s0 s1 W" by (rule keeps_trans [OF Suc.prems(4) keeps_mono [OF k Suc.prems(3)]])
        show "\<forall>h\<in>set ?gs. segment_pages h \<inter> (Q \<union> segment_pages ?g) = {}" using Suc.prems(9,10) unfolding gs by auto
        show "\<forall>g\<in>set ?gs. segment_ok W g" "pages_apart ?gs" using Suc.prems(8,9) unfolding gs by simp_all
        show "\<forall>h\<in>set ?hs. \<forall>i<24. h + of_nat i \<in> W" using Suc.prems(6) unfolding hs by simp
        show "W \<subseteq> Q \<union> segment_pages ?g" using Suc.prems(3) by blast
      qed
      with l(3) obtain s' e where i: "load_headers L s1 elf (ph + ucast psz) count = Some (s', e)" "frames_ok used block_size s'" "kernel_tables (mm s') = kernel_tables (mm s)"
        "e = error_code ENOMEM \<or> e = error_code ENONE \<and> keeps used s1 s' (Q \<union> segment_pages ?g) \<and> (\<forall>g\<in>set ?gs. segment_loaded used s0 s' g)" by auto
      have "keeps used s s' Q \<and> (\<forall>g\<in>set gs. segment_loaded used s0 s' g)"
        if a: "keeps used s1 s' (Q \<union> segment_pages ?g)" and b: "\<forall>g\<in>set ?gs. segment_loaded used s0 s' g"
      proof -
        have "segment_loaded used s0 s' ?g" by (rule loaded_keeps [OF ld0 keeps_mono [OF a]]) blast
        moreover have "keeps used s s' Q" by (rule keeps_trans [OF k keeps_mono [OF a]]) blast
        ultimately show ?thesis using b unfolding gs by simp
      qed
      then show ?thesis using i unfolding run by blast
    qed
  qed
qed

end

lemma load_program_loads:
  assumes "libmalloc L used block_size" "frames_ok used block_size s" "\<forall>q\<in>W. settled used s q"
    and "\<forall>i\<in>{28..<46}. elf + of_nat i \<in> W" "\<forall>h\<in>set (program_headers (mm s) elf). \<forall>i<24. h + of_nat i \<in> W"
    and "\<forall>g\<in>set (segments (mm s) elf). segment_ok W g" "pages_apart (segments (mm s) elf)"
  shows "\<exists>s' e. load_program L s elf = Some (s', e) \<and> frames_ok used block_size s' \<and>
    kernel_tables (mm s') = kernel_tables (mm s) \<and>
    (e = error_code ENOMEM \<or>
     e = error_code ENONE \<and> keeps used s s' W \<and> (\<forall>g\<in>set (segments (mm s) elf). segment_loaded used s s' g))"
proof -
  have W: "elf + of_nat k + of_nat i \<in> W" if "28 \<le> k" "k + j \<le> 46" "i < j" for k i j
    using assms(4) [rule_format, of "k + i"] that by (simp add: add.assoc)
  have rd: "\<exists>bs. read_mem (mm s) (elf + of_nat k) j = Some bs" if "28 \<le> k" "k + j \<le> 46" for k j
    using settled_read [of j used s "elf + of_nat k"] W [OF that] assms(3) by blast
  obtain off where off: "elf_phoffset (mm s) elf = Some off" using rd [of 28 4] by (auto simp: elf_phoffset_def read32_def)
  obtain psz where psz: "elf_phsize (mm s) elf = Some psz" using rd [of 42 2] by (auto simp: elf_phsize_def read16_def)
  obtain n where n: "elf_phcount (mm s) elf = Some n" using rd [of 44 2] by (auto simp: elf_phcount_def read16_def)
  have hs: "program_headers (mm s) elf = header_list (elf + off) (ucast psz) (unat n)" by (simp add: program_headers_def off psz n)
  have run: "load_program L s elf = load_headers L s elf (elf + off) (unat n)" by (simp add: load_program_def off n)
  have k: "keeps used s s W" using assms(3) by (simp add: keeps_refl)
  have f: "\<forall>i<2. elf + 42 + of_nat i \<in> W" using W [of 42 2] by simp
  have apart: "\<forall>g\<in>set (segments (mm s) elf). segment_pages g \<inter> W = {}"
  proof
    fix g assume "g \<in> set (segments (mm s) elf)"
    then have "segment_ok W g" using assms(6) by blast
    then show "segment_pages g \<inter> W = {}" by (cases g) simp
  qed
  show ?thesis unfolding run
    by (rule libmalloc.load_headers_loads [OF assms(1-3) subset_refl k psz f hs assms(5) segments_def assms(6,7) apart])
qed

section \<open>Properties\<close>

text \<open>C20. \<^verbatim>\<open>load_program\<close> in a well-formed address space, for a file whose headers and segment contents lie in settled memory \<open>W\<close> and whose
  loadable segments are aligned, on pages of their own and away from the file: it returns ENONE or ENOMEM and the address space stays well formed.
  After ENONE the file is as before, and every loadable segment is mapped by writable user-mode entries: each
  of its \<^verbatim>\<open>memsize\<close> bytes is the byte of the file at the segment's offset. The process can write a page of the segment
  (\<open>user_page\<close>) unless the page's 4 MB region already had a page table that is closed to user mode. The size of the segment in the file is not
  looked at, so the bytes beyond it are those that happen to follow in the file, not zero.\<close>

theorem load_program_spec:
  assumes "libmalloc L used block_size" "frames_ok used block_size s" "\<forall>q\<in>W. settled used s q"
    and "\<forall>i\<in>{28..<46}. elf + of_nat i \<in> W" "\<forall>h\<in>set (program_headers (mm s) elf). \<forall>i<24. h + of_nat i \<in> W"
    and "\<forall>g\<in>set (segments (mm s) elf). segment_ok W g" "pages_apart (segments (mm s) elf)"
  shows "\<exists>s' e. load_program L s elf = Some (s', e) \<and> frames_ok used block_size s' \<and>
    (e = error_code ENOMEM \<or>
     e = error_code ENONE \<and> keeps used s s' W \<and> (\<forall>g\<in>set (segments (mm s) elf). segment_loaded used s s' g \<and>
       (\<forall>q\<in>segment_pages g. user_page (mm s') q \<longleftrightarrow> dir_of q \<notin> kernel_tables (mm s))))"
proof -
  from load_program_loads [OF assms] obtain s' e where l: "load_program L s elf = Some (s', e)" "frames_ok used block_size s'"
    "kernel_tables (mm s') = kernel_tables (mm s)" "e = error_code ENOMEM \<or>
     e = error_code ENONE \<and> keeps used s s' W \<and> (\<forall>g\<in>set (segments (mm s) elf). segment_loaded used s s' g)" by blast
  have "space_ok (mm s')" using l(2) by (simp add: frames_ok_def)
  then have "\<forall>q\<in>segment_pages g. user_page (mm s') q \<longleftrightarrow> dir_of q \<notin> kernel_tables (mm s)" if "segment_loaded used s s' g" for g
    using segment_user [OF _ that] l(3) by simp
  with l show ?thesis by blast
qed

text \<open>A file with one segment of four bytes, at offset 256, to be loaded at 4 MB. It is mapped at address 4096, in frame 3.\<close>

definition file_word :: "index \<Rightarrow> u32" where
  "file_word i = (if i = 6 then 0x400000 else if i = 7 then 52 else if i = 10 then 0x200000 else if i = 11 then 1 else if i = 13 then 1 else if i = 14 then 256
     else if i = 15 then 0x400000 else if i = 17 then 4 else if i = 18 then 4 else if i = 64 then 0xDEADBEEF else 0)"

definition file_mmu :: mmu where
  "file_mmu = \<lparr>mem = (\<lambda>f i. if f = 1 then if i = - 1 then 0x1003 else if i = 0 then 0x2003 else 0
     else if f = 2 then if i = 1 then 0x3003 else 0 else if f = 3 then file_word i else 0), cr3 = 0x1000\<rparr>"

definition file_machine :: "nat machine" where
  "file_machine = \<lparr>mm = file_mmu, page_map = 4, system_heap = 0\<rparr>"

lemma file_reads:
  "elf_phoffset file_mmu 0x1000 = Some 52" "elf_phsize file_mmu 0x1000 = Some 32" "elf_phcount file_mmu 0x1000 = Some 1"
  "ph_type file_mmu 0x1034 = Some 1" "ph_offset file_mmu 0x1034 = Some 256" "ph_vaddr file_mmu 0x1034 = Some 0x400000"
  "ph_memsize file_mmu 0x1034 = Some 4" "read32 file_mmu 0x1100 = Some 0xDEADBEEF"
  by code_simp+

lemma file_segments:
  "program_headers file_mmu 0x1000 = [0x1034]" "segments file_mmu 0x1000 = [(0x400000, 0x1100, 4)]"
proof -
  show h: "program_headers file_mmu 0x1000 = [0x1034]" by (simp add: program_headers_def file_reads One_nat_def [symmetric] del: One_nat_def) simp
  show "segments file_mmu 0x1000 = [(0x400000, 0x1100, 4)]"
    by (simp add: segments_def h map_filter_simps segment_at_def file_reads)
qed

lemma file_machine_ok:
  "frames_ok (\<lambda>h. {a. unat a < h * 4096}) (\<lambda>h. page_size) file_machine"
  "on_page 0x1000 q \<Longrightarrow> settled (\<lambda>h. {a. unat a < h * 4096}) file_machine q"
proof -
  have t: "top file_mmu = 1" by (simp add: file_mmu_def small_entries)
  have e: "mem file_mmu 1 i = (if i = - 1 then 0x1003 else if i = 0 then 0x2003 else 0)" for i by (simp add: file_mmu_def)
  have e2: "mem file_mmu 2 1 = 0x3003" by (simp add: file_mmu_def)
  have p3: "present 0x3003" "physical_address 0x3003 = 3" by (simp_all add: present_def physical_address_def frame_of_def bit_numeral_rec)
  have "space_ok file_mmu"
    unfolding space_ok_def self_mapped_def Let_def t by (simp add: e small_entries)
  moreover have tf: "table_frames file_mmu = {1, 2}"
    unfolding table_frames_def t using small_entries e [of "- 1"] e [of 0] by (auto simp: e split: if_splits) (rule exI [of _ "- 1"], simp)
  ultimately show "frames_ok (\<lambda>h. {a. unat a < h * 4096}) (\<lambda>h. page_size) file_machine"
    by (simp add: frames_ok_def file_machine_def addr_of_def)
  assume q: "on_page 0x1000 q"
  have d: "dir_of 0x1000 = 0" "tab_of 0x1000 = 1" by (simp_all add: dir_of_def tab_of_def)
  have "leaf file_mmu 0x1000 = Some 0x3003" by (simp add: leaf_def t e e2 d small_entries p3)
  then show "settled (\<lambda>h. {a. unat a < h * 4096}) file_machine q"
    using on_page_same(1,2) [OF q] d by (simp add: settled_def file_machine_def tf p3 addr_of_def)
qed

theorem load_program_spec_witness:
  "\<exists>s' e. load_program count_frames file_machine 0x1000 = Some (s', e) \<and>
     (e = error_code ENOMEM \<or> user_page (mm s') 0x400002 \<and> load8 (mm s') 0x400002 = Some 0xAD)"
proof -
  let ?W = "{q. on_page 0x1000 q}" and ?u = "\<lambda>h. {a :: u32. unat a < h * 4096}"
  have on: "0x1000 + j \<in> ?W" if "j < page_size" for j
    using page_offset [of "0x1000" j] that by (simp add: page_size_def)
  have m: "mm file_machine = file_mmu" by (simp add: file_machine_def)
  have a4: "\<forall>i\<in>{28..<46}. 0x1000 + of_nat i \<in> ?W"
    using on by (auto simp: page_size_def word_less_nat_alt unat_of_nat simp del: mem_Collect_eq)
  have a5: "\<forall>h\<in>set (program_headers (mm file_machine) 0x1000). \<forall>i<24. h + of_nat i \<in> ?W"
    using on [of "52 + of_nat i" for i] unfolding m file_segments by (auto simp: page_size_def word_less_nat_alt unat_of_nat unat_word_ariths simp del: mem_Collect_eq)
  have d: "dir_of (0x400000 + k) = 1 \<and> dir_of (0x1100 + k) = 0 \<and> dir_of 0x1000 = 0" if "k < 4" for k
  proof -
    have "k = 0 \<or> k = 1 \<or> k = 2 \<or> k = 3" using that by (auto simp: word_less_nat_alt word_unat_eq_iff)
    then show ?thesis by (auto simp: dir_of_def)
  qed
  have src: "0x1100 + k \<in> ?W" if "k < 4" for k
    using on [of "0x100 + k"] that by (simp add: page_size_def word_less_nat_alt unat_word_ariths)
  have pg: "pages_from 0x400000 4 0 \<inter> ?W = {}"
  proof -
    have False if "k < 4" "on_page (0x400000 + k) q" "on_page 0x1000 q" for k q
      using on_page_same(2) [OF that(2)] on_page_same(2) [OF that(3)] d [OF that(1)] by simp
    then show ?thesis by (auto simp: pages_from_def)
  qed
  have "segment_ok ?W (0x400000, 0x1100, 4)"
    using d src pg by (simp add: page_size_def)
  then have a6: "\<forall>g\<in>set (segments (mm file_machine) 0x1000). segment_ok ?W g" by (simp add: m file_segments del: segment_ok.simps)
  have a7: "pages_apart (segments (mm file_machine) 0x1000)" by (simp add: m file_segments)
  have set: "\<forall>q\<in>?W. settled ?u file_machine q" using file_machine_ok(2) by blast
  from load_program_spec [OF count.libmalloc_axioms file_machine_ok(1) set a4 a5 a6 a7] obtain s' e where
    r: "load_program count_frames file_machine 0x1000 = Some (s', e)"
      "e = error_code ENOMEM \<or> segment_loaded ?u file_machine s' (0x400000, 0x1100, 4) \<and>
         (\<forall>q\<in>pages_from 0x400000 4 0. user_page (mm s') q \<longleftrightarrow> dir_of q \<notin> kernel_tables file_mmu)"
    by (auto simp: m file_segments)
  have k: "(2 :: u32) < 4" "on_page 0x400002 0x400002" by (simp_all add: on_page_def)
  have "load8 file_mmu 0x1102 = Some 0xAD" by code_simp
  moreover have inp: "0x400002 \<in> pages_from 0x400000 4 0" unfolding pages_from_def using k by (auto intro!: exI [of _ 2])
  ultimately have "segment_loaded ?u file_machine s' (0x400000, 0x1100, 4) \<Longrightarrow> load8 (mm s') 0x400002 = Some 0xAD"
    using spec [where P = "\<lambda>k. 0 \<le> k \<longrightarrow> k < 4 \<longrightarrow> load8 (mm s') (0x400000 + k) = load8 (mm file_machine) (0x1100 + k)", of 2]
    by (auto simp: loaded_def m)
  moreover have "dir_of 0x400002 \<notin> kernel_tables file_mmu" by (simp add: kernel_tables_def file_mmu_def small_entries dir_of_def)
  ultimately show ?thesis using r inp by blast
qed

end
