(* ===== verification/Startup.thy ===== *)
theory Startup
  imports Byte_Memory
begin

text \<open>
  \<^verbatim>\<open>start_paging\<close> of \<^verbatim>\<open>src/x86/paging.c\<close>, which the entry code calls while paging is still off: addresses are physical. It
  fills the first page tables and turns paging on. Its loop is without a bound on the tables of 1024 entries.
\<close>

section \<open>The code\<close>

definition phys_store :: "mmu \<Rightarrow> physaddr_t \<Rightarrow> u32 \<Rightarrow> mmu" where
  "phys_store m a w = m\<lparr>mem := put_word (mem m) (frame_of a) (word_at a) w\<rparr>"

partial_function (option) start_loop :: "mmu \<Rightarrow> physaddr_t \<Rightarrow> physaddr_t \<Rightarrow> physaddr_t \<Rightarrow> physaddr_t \<Rightarrow> physaddr_t \<Rightarrow> u32 \<Rightarrow> (mmu \<times> u32) option" where
  "start_loop m start p finish table identity_table count =
     (if p < finish then
        (let table_entry = p + 3;
             index = p div page_size;
             m = phys_store m (table + 4 * (index - start div page_size)) table_entry;
             m = phys_store m (identity_table + 4 * index) table_entry
         in start_loop m start (p + page_size) finish table identity_table (count + 1))
      else Some (m, count))"

text \<open>The directory's address goes to \<^verbatim>\<open>cr3\<close>, and paging with write protection is turned on: from here on the unit translates.\<close>

definition start_paging :: "mmu \<Rightarrow> ptr \<Rightarrow> physaddr_t \<Rightarrow> physaddr_t \<Rightarrow> physaddr_t \<Rightarrow> physaddr_t \<Rightarrow> physaddr_t \<Rightarrow> (mmu \<times> u32) option" where
  "start_paging m linear_addr start finish directory table identity_table = do {
     let directory_index = drop_bit 22 linear_addr;
     (m, count) \<leftarrow> start_loop m start start finish table identity_table 0;
     let m = phys_store m directory (identity_table + 3);
     let m = phys_store m (directory + 4 * directory_index) (table + 3 + 1024);
     let m = phys_store m (directory + 4 * 1023) (directory + 3);
     Some (m\<lparr>cr3 := directory\<rparr>, count) }"

section \<open>Slots and entries\<close>

lemma on_page_frame: "on_page p q \<Longrightarrow> frame_of q = frame_of p"
proof (rule bit_word_eqI)
  fix n
  assume on: "on_page p q" and n: "n < LENGTH(20)"
  have "bit (tab_of q) n = bit (tab_of p) n" "bit (dir_of q) (n - 10) = bit (dir_of p) (n - 10)" using on by (simp_all add: on_page_def)
  then show "bit (frame_of q) n = bit (frame_of p) n"
    using n by (cases "n < 10") (auto simp: tab_of_def dir_of_def frame_of_def bit_simps)
qed

lemma unat_word_at: "unat (word_at q) = unat q div 4 mod 1024"
  by (simp add: word_at_def unsigned_ucast_eq drop_bit_eq_div unat_div_distrib take_bit_eq_mod)

lemma slot:
  assumes "a mod page_size = 0" "i < 1024"
  shows "frame_of (a + 4 * i) = frame_of a" "word_at (a + 4 * i) = ucast i"
proof -
  have i: "unat i < 1024" using assms(2) by (simp add: word_less_nat_alt)
  then have u: "unat (4 * i) = 4 * unat i" by (simp add: unat_word_ariths)
  with i have "4 * i < page_size" by (simp add: page_size_def word_less_nat_alt)
  from on_page_frame [OF page_offset [OF assms(1) this]] show "frame_of (a + 4 * i) = frame_of a" .
  obtain b where b: "unat a = 4096 * b" using assms(1) unfolding aligned_unat by (auto elim: dvdE)
  have "unat (a + 4 * i) = 4096 * b + 4 * unat i"
    using u b i unat_u32 [of a] by (subst unat_add_le) (auto simp del: unat_u32)
  then have "unat (word_at (a + 4 * i)) = (4 * (1024 * b + unat i)) div 4 mod 1024" by (simp add: unat_word_at)
  also have "\<dots> = unat i" using i by (simp only: nonzero_mult_div_cancel_left) simp
  finally show "word_at (a + 4 * i) = ucast i"
    using i by (simp add: word_unat_eq_iff unsigned_ucast_eq take_bit_nat_eq_self)
qed

lemma phys_store_simps: "cr3 (phys_store m a w) = cr3 m" "mem (phys_store m a w) = put_word (mem m) (frame_of a) (word_at a) w"
  by (simp_all add: phys_store_def)

text \<open>The entries: an aligned address plus 3 is present and writable; bit 10 is free for software.\<close>

lemma plus_flags:
  assumes "q mod page_size = 0"
  shows "q + 3 = q OR 3" "q + 1027 = q OR 1027"
proof -
  have "take_bit 12 q = 0" using assms by (simp add: page_size_def take_bit_eq_mod)
  then have q: "\<not> bit q n" if "n < 12" for n using that bit_take_bit_iff [of 12 q n] by auto
  have "\<not> bit (3 :: u32) n" "\<not> bit (1027 :: u32) n" if "12 \<le> n" for n
  proof -
    have "take_bit 12 (3 :: u32) = 3" "take_bit 12 (1027 :: u32) = 1027" by (simp_all add: take_bit_eq_mod)
    then show "\<not> bit (3 :: u32) n" "\<not> bit (1027 :: u32) n"
      using that bit_take_bit_iff [of 12 "3 :: u32" n] bit_take_bit_iff [of 12 "1027 :: u32" n] by auto
  qed
  with q show "q + 3 = q OR 3" "q + 1027 = q OR 1027" by (auto intro!: disjunctive_add) (meson not_le)+
qed

lemma boot_entry:
  assumes "q mod page_size = 0"
  shows "present (q + 3)" "rw (q + 3)" "physical_address (q + 3) = frame_of q"
    "present (q + 1027)" "rw (q + 1027)" "physical_address (q + 1027) = frame_of q"
proof -
  have "3 < page_size" "1027 < page_size" by (simp_all add: page_size_def)
  then show "physical_address (q + 3) = frame_of q" "physical_address (q + 1027) = frame_of q"
    using on_page_frame page_offset [OF assms] unfolding physical_address_def by blast+
  show "present (q + 3)" "rw (q + 3)" "present (q + 1027)" "rw (q + 1027)"
    unfolding plus_flags [OF assms] present_def rw_def by (simp_all add: bit_or_iff bit_numeral_rec)
qed

text \<open>The first four megabytes.\<close>

lemma low_dir: "q < 0x400000 \<Longrightarrow> dir_of q = 0"
proof -
  assume "q < 0x400000"
  then have "unat (drop_bit 22 q) = 0" by (simp add: drop_bit_eq_div unat_div_distrib word_less_nat_alt)
  then have "drop_bit 22 q = 0" by (simp add: unat_eq_0)
  then show ?thesis by (simp add: dir_of_def)
qed

lemma low_index:
  assumes "p mod page_size = 0" "q mod page_size = 0" "p < 0x400000" "q < 0x400000"
  shows "tab_of p = tab_of q \<longleftrightarrow> p = q"
  using on_page_aligned [OF assms(1,2)] low_dir [OF assms(3)] low_dir [OF assms(4)] by (auto simp: on_page_def)

lemma page_index: "q < 0x400000 \<Longrightarrow> q div page_size < 1024 \<and> ucast (q div page_size) = tab_of q"
  by (simp add: page_size_def word_less_nat_alt unat_div_distrib tab_of_def drop_bit_eq_div)

lemma page_split:
  obtains p j where "a = p + j" "p mod page_size = 0" "j < page_size" "p \<le> (a :: u32)"
proof -
  define b where "b = unat a div 4096"
  have b: "b * 4096 \<le> unat a" "b * 4096 < 2 ^ 32" "unat a - b * 4096 < 4096"
    using unat_u32 [of a] mod_less_divisor [of 4096 "unat a"] by (auto simp: b_def minus_div_mult_eq_mod simp del: unat_u32)
  have u: "unat (of_nat (b * 4096) :: u32) = b * 4096" using b(2) by (simp add: unat_of_nat del: of_nat_mult)
  have le: "of_nat (b * 4096) \<le> a" using b(1) u by (simp add: word_le_nat_alt)
  have "a - of_nat (b * 4096) < page_size" using b(3) u le by (simp add: word_less_nat_alt unat_sub page_size_def)
  from that [of "of_nat (b * 4096)" "a - of_nat (b * 4096)", OF _ aligned_step [OF b(2)] this le] show thesis by simp
qed

text \<open>Adding an offset below four megabytes to a multiple of it.\<close>

lemma linear_parts:
  assumes "l mod 0x400000 = 0" "q < 0x400000"
  shows "dir_of (l + q) = dir_of l \<and> tab_of (l + q) = tab_of q"
proof -
  have "take_bit 22 l = 0" using assms(1) by (simp add: take_bit_eq_mod)
  then have l: "\<not> bit l n" if "n < 22" for n using that bit_take_bit_iff [of 22 l n] by auto
  have "take_bit 22 q = q" using assms(2) by (simp add: take_bit_eq_mod word_unat_eq_iff unat_mod_distrib word_less_nat_alt)
  then have q: "\<not> bit q n" if "22 \<le> n" for n using that bit_take_bit_iff [of 22 q n] by auto
  have e: "l + q = l OR q" using l q by (intro disjunctive_add) (meson not_le)
  have "dir_of (l + q) = dir_of l"
    by (rule bit_word_eqI) (auto simp: dir_of_def bit_unsigned_iff bit_drop_bit_eq e bit_or_iff q)
  moreover have "tab_of (l + q) = tab_of q"
    by (rule bit_word_eqI) (auto simp: tab_of_def bit_unsigned_iff bit_drop_bit_eq e bit_or_iff l)
  ultimately show ?thesis by blast
qed

section \<open>The loop\<close>

lemma start_loop_fills:
  assumes al: "start mod page_size = 0" "table mod page_size = 0" "identity_table mod page_size = 0" "frame_of table \<noteq> frame_of identity_table"
    and fin: "finish \<le> 0x400000" and "p mod page_size = 0" "start \<le> p"
  shows "\<exists>m' c. start_loop m start p finish table identity_table count = Some (m', c) \<and> cr3 m' = cr3 m \<and>
    c = count + of_nat ((unat finish - unat p + 4095) div 4096) \<and>
    (\<forall>f. f \<noteq> frame_of table \<longrightarrow> f \<noteq> frame_of identity_table \<longrightarrow> mem m' f = mem m f) \<and>
    (\<forall>q. q mod page_size = 0 \<longrightarrow> q < 0x400000 \<longrightarrow>
       mem m' (frame_of identity_table) (tab_of q) = (if p \<le> q \<and> q < finish then q + 3 else mem m (frame_of identity_table) (tab_of q))) \<and>
    (\<forall>q. q mod page_size = 0 \<longrightarrow> start \<le> q \<longrightarrow> q < 0x400000 \<longrightarrow>
       mem m' (frame_of table) (tab_of (q - start)) = (if p \<le> q \<and> q < finish then q + 3 else mem m (frame_of table) (tab_of (q - start))))"
  using assms(6,7)
proof (induction "unat finish - unat p" arbitrary: m p count rule: less_induct)
  case less
  show ?case
  proof (cases "p < finish")
    case False
    then have "start_loop m start p finish table identity_table count = Some (m, count)" by (simp add: start_loop.simps)
    moreover have "unat finish - unat p = 0" using False by (simp add: word_less_nat_alt)
    ultimately show ?thesis using False by auto
  next
    case True
    have f: "unat finish \<le> 0xFFFFF000" "p < 0x400000" using fin True by (auto simp: word_le_nat_alt word_less_nat_alt)
    note nx = next_page [OF True f(1)]
    have dec: "unat finish - unat (p + page_size) < unat finish - unat p" using nx True by (simp add: word_less_nat_alt)
    let ?T = "frame_of table" and ?I = "frame_of identity_table"
    let ?m1 = "phys_store m (table + 4 * (p div page_size - start div page_size)) (p + 3)"
    let ?m = "phys_store ?m1 (identity_table + 4 * (p div page_size)) (p + 3)"
    have sub: "unat (p - start) = unat p - unat start" using less.prems(2) by (simp add: unat_sub word_le_nat_alt)
    have low: "p - start < 0x400000" using f(2) sub by (simp add: word_less_nat_alt)
    have idx: "p div page_size - start div page_size = (p - start) div page_size"
    proof -
      obtain a b where ab: "unat p = 4096 * a" "unat start = 4096 * b" using less.prems(1) al(1) unfolding aligned_unat by (auto elim!: dvdE)
      then have "b \<le> a" using less.prems(2) by (simp add: word_le_nat_alt)
      then show ?thesis using ab sub by (simp add: word_unat_eq_iff unat_div_distrib page_size_def unat_sub word_le_nat_alt flip: diff_mult_distrib2)
    qed
    have alsub: "(q - start) mod page_size = 0" if "q mod page_size = 0" "start \<le> q" for q
    proof -
      have "4096 dvd unat q" "4096 dvd unat start" using that(1) al(1) by (simp_all add: aligned_unat)
      then show ?thesis using that(2) by (simp add: aligned_unat unat_sub dvd_diff_nat)
    qed
    have mem: "mem ?m = put_word (put_word (mem m) ?T (tab_of (p - start)) (p + 3)) ?I (tab_of p) (p + 3)"
      using page_index [OF low] page_index [OF f(2)] slot [OF al(2)] slot [OF al(3)] by (simp add: phys_store_simps idx)
    have "\<exists>m' c. start_loop ?m start (p + page_size) finish table identity_table (count + 1) = Some (m', c) \<and> cr3 m' = cr3 ?m \<and>
      c = count + 1 + of_nat ((unat finish - unat (p + page_size) + 4095) div 4096) \<and>
      (\<forall>f. f \<noteq> ?T \<longrightarrow> f \<noteq> ?I \<longrightarrow> mem m' f = mem ?m f) \<and>
      (\<forall>q. q mod page_size = 0 \<longrightarrow> q < 0x400000 \<longrightarrow>
         mem m' ?I (tab_of q) = (if p + page_size \<le> q \<and> q < finish then q + 3 else mem ?m ?I (tab_of q))) \<and>
      (\<forall>q. q mod page_size = 0 \<longrightarrow> start \<le> q \<longrightarrow> q < 0x400000 \<longrightarrow>
         mem m' ?T (tab_of (q - start)) = (if p + page_size \<le> q \<and> q < finish then q + 3 else mem ?m ?T (tab_of (q - start))))"
    proof (rule less.hyps [OF dec])
      show "(p + page_size) mod page_size = 0" by (rule aligned_add [OF less.prems(1)]) simp
      show "start \<le> p + page_size" using less.prems(2) nx by (simp add: word_le_nat_alt)
    qed
    then obtain m' c where i: "start_loop ?m start (p + page_size) finish table identity_table (count + 1) = Some (m', c)" "cr3 m' = cr3 ?m"
      "c = count + 1 + of_nat ((unat finish - unat (p + page_size) + 4095) div 4096)"
      "\<forall>f. f \<noteq> ?T \<longrightarrow> f \<noteq> ?I \<longrightarrow> mem m' f = mem ?m f"
      "\<forall>q. q mod page_size = 0 \<longrightarrow> q < 0x400000 \<longrightarrow>
         mem m' ?I (tab_of q) = (if p + page_size \<le> q \<and> q < finish then q + 3 else mem ?m ?I (tab_of q))"
      "\<forall>q. q mod page_size = 0 \<longrightarrow> start \<le> q \<longrightarrow> q < 0x400000 \<longrightarrow>
         mem m' ?T (tab_of (q - start)) = (if p + page_size \<le> q \<and> q < finish then q + 3 else mem ?m ?T (tab_of (q - start)))" by blast
    have run: "start_loop m start p finish table identity_table count = Some (m', c)"
      using True i(1) by (subst start_loop.simps) (simp add: Let_def)
    have cnt: "(unat finish - unat p + 4095) div 4096 = Suc ((unat finish - unat (p + page_size) + 4095) div 4096)"
    proof (cases "unat finish \<le> unat p + 4096")
      case True
      then show ?thesis using \<open>p < finish\<close> nx by (simp add: word_less_nat_alt)
    next
      case False
      then have "unat finish - unat p + 4095 = (unat finish - unat (p + page_size) + 4095) + 4096" using nx by simp
      then show ?thesis by simp
    qed
    have le: "p \<le> q \<and> q < finish \<longleftrightarrow> q = p \<or> p + page_size \<le> q \<and> q < finish" if q: "q mod page_size = 0" for q
    proof -
      obtain a b where "unat p = 4096 * a" "unat q = 4096 * b" using less.prems(1) q unfolding aligned_unat by (auto elim!: dvdE)
      then show ?thesis using nx True by (auto simp: word_le_nat_alt word_less_nat_alt word_unat_eq_iff)
    qed
    show ?thesis
    proof (intro exI conjI allI impI)
      show "c = count + of_nat ((unat finish - unat p + 4095) div 4096)" unfolding cnt i(3) by simp
      show "mem m' f = mem m f" if "f \<noteq> ?T" "f \<noteq> ?I" for f using i(4) [rule_format, OF that] that unfolding mem by simp
      show "mem m' ?I (tab_of q) = (if p \<le> q \<and> q < finish then q + 3 else mem m ?I (tab_of q))" if q: "q mod page_size = 0" "q < 0x400000" for q
        using i(5) [rule_format, OF q] low_index [OF q(1) less.prems(1) q(2) f(2)] al(4) unfolding le [OF q(1)] mem
        by (cases "q = p") (auto simp: put_word_def)
      show "mem m' ?T (tab_of (q - start)) = (if p \<le> q \<and> q < finish then q + 3 else mem m ?T (tab_of (q - start)))"
        if q: "q mod page_size = 0" "start \<le> q" "q < 0x400000" for q
      proof -
        have "q - start < 0x400000" using q(2,3) by (simp add: word_less_nat_alt word_le_nat_alt unat_sub)
        from low_index [OF alsub [OF q(1,2)] alsub [OF less.prems] this low]
        have "tab_of (q - start) = tab_of (p - start) \<longleftrightarrow> q = p" by simp
        then show ?thesis using i(6) [rule_format, OF q] al(4) unfolding le [OF q(1)] mem
          by (cases "q = p") (auto simp: put_word_def)
      qed
    qed (use run i(2) in \<open>simp_all add: phys_store_simps\<close>)
  qed
qed

section \<open>Properties\<close>

text \<open>C23. \<^verbatim>\<open>start_paging\<close> with three empty, page-aligned tables, for a range of physical memory in the first four megabytes and a linear address
  aligned to four megabytes: it returns the number of pages, and the address space it turns on is well formed, with just these tables.
  Every byte of the range is mapped twice, writable: at its own address and at its place from the linear address on. Outside of the two
  table areas nothing is mapped.\<close>

theorem start_paging_spec:
  assumes al: "directory mod page_size = 0" "table mod page_size = 0" "identity_table mod page_size = 0" "start mod page_size = 0" "linear_addr mod 0x400000 = 0"
    and apart: "frame_of table \<noteq> frame_of identity_table" "frame_of directory \<noteq> frame_of table" "frame_of directory \<noteq> frame_of identity_table"
    and dir: "dir_of linear_addr \<noteq> 0" "dir_of linear_addr \<noteq> - 1" and fin: "finish \<le> 0x400000"
    and empty: "\<forall>i. \<not> present (mem m (frame_of directory) i)"
  shows "\<exists>m' count. start_paging m linear_addr start finish directory table identity_table = Some (m', count) \<and>
    unat count = (unat finish - unat start + 4095) div 4096 \<and> space_ok m' \<and> table_frames m' = frame_of ` {directory, table, identity_table} \<and>
    (\<forall>a w. start \<le> a \<longrightarrow> a < finish \<longrightarrow> translate m' a w = Some (frame_of a) \<and> translate m' (linear_addr + (a - start)) w = Some (frame_of a)) \<and>
    (\<forall>q w. dir_of q \<notin> {0, dir_of linear_addr, - 1} \<longrightarrow> translate m' q w = None)"
proof -
  let ?D = "frame_of directory" and ?T = "frame_of table" and ?I = "frame_of identity_table" and ?L = "dir_of linear_addr"
  obtain m1 c where l: "start_loop m start start finish table identity_table 0 = Some (m1, c)"
    "c = of_nat ((unat finish - unat start + 4095) div 4096)" "\<forall>f. f \<noteq> ?T \<longrightarrow> f \<noteq> ?I \<longrightarrow> mem m1 f = mem m f"
    "\<forall>q. q mod page_size = 0 \<longrightarrow> q < 0x400000 \<longrightarrow> mem m1 ?I (tab_of q) = (if start \<le> q \<and> q < finish then q + 3 else mem m ?I (tab_of q))"
    "\<forall>q. q mod page_size = 0 \<longrightarrow> start \<le> q \<longrightarrow> q < 0x400000 \<longrightarrow>
       mem m1 ?T (tab_of (q - start)) = (if start \<le> q \<and> q < finish then q + 3 else mem m ?T (tab_of (q - start)))"
    using start_loop_fills [OF al(4,2,3) apart(1) fin al(4) order_refl, of m 0] by auto
  define M where "M = put_word (put_word (put_word (mem m1) ?D 0 (identity_table + 3)) ?D ?L (table + 1027)) ?D (- 1) (directory + 3)"
  define m' where "m' = \<lparr>mem = M, cr3 = directory\<rparr>"
  have L: "drop_bit 22 linear_addr < (1024 :: u32)"
    using unat_u32 [of linear_addr] by (simp add: word_less_nat_alt drop_bit_eq_div unat_div_distrib less_mult_imp_div_less del: unat_u32)
  have mi: "(1023 :: index) = - 1" by simp
  have run: "start_paging m linear_addr start finish directory table identity_table = Some (m', c)"
    using slot [OF al(1) L] slot [OF al(1), of 0] slot [OF al(1), of 1023] mi
    by (cases m1) (simp add: start_paging_def l(1) m'_def M_def phys_store_def dir_of_def add.assoc)
  have c: "unat c = (unat finish - unat start + 4095) div 4096"
    using l(2) fin by (simp add: unat_of_nat word_le_nat_alt)
  have D: "mem m' ?D i = (if i = - 1 then directory + 3 else if i = ?L then table + 1027 else if i = 0 then identity_table + 3 else mem m ?D i)" for i
    using dir l(3) apart by (auto simp: m'_def M_def put_word_def)
  have top: "top m' = ?D" by (simp add: m'_def)
  have T: "mem m' ?T = mem m1 ?T" "mem m' ?I = mem m1 ?I" using apart by (auto simp: m'_def M_def)
  note be = boot_entry [OF al(1)] boot_entry [OF al(2)] boot_entry [OF al(3)]
  have sp: "space_ok m'"
    unfolding space_ok_def self_mapped_def Let_def top D using dir apart empty be by (auto split: if_splits)
  have "{physical_address (mem m' ?D i) | i. present (mem m' ?D i)} = {?D, ?T, ?I}"
  proof (intro equalityI subsetI)
    fix f assume "f \<in> {?D, ?T, ?I}"
    moreover have "physical_address (mem m' ?D (- 1)) = ?D \<and> present (mem m' ?D (- 1))" using be by (simp add: D)
    moreover have "physical_address (mem m' ?D ?L) = ?T \<and> present (mem m' ?D ?L)" using be dir by (simp add: D)
    moreover have "physical_address (mem m' ?D 0) = ?I \<and> present (mem m' ?D 0)" using be dir by (simp add: D)
    ultimately have "\<exists>i. physical_address (mem m' ?D i) = f \<and> present (mem m' ?D i)" by blast
    then show "f \<in> {physical_address (mem m' ?D i) | i. present (mem m' ?D i)}" by blast
  qed (use empty be in \<open>auto simp: D split: if_splits\<close>)
  then have tf: "table_frames m' = frame_of ` {directory, table, identity_table}" by (simp add: table_frames_def top)
  have none: "translate m' q w = None" if "dir_of q \<notin> {0, ?L, - 1}" for q w
    using that empty by (simp add: translate_space top D)
  have maps: "translate m' a w = Some (frame_of a) \<and> translate m' (linear_addr + (a - start)) w = Some (frame_of a)"
    if a: "start \<le> a" "a < finish" for a w
  proof -
    obtain p j where pj: "a = p + j" "p mod page_size = 0" "j < page_size" "p \<le> a" by (rule page_split)
    have sp: "start \<le> p"
    proof -
      obtain x y where xy: "unat p = 4096 * x" "unat start = 4096 * y" using pj(2) al(4) unfolding aligned_unat by (auto elim!: dvdE)
      have "unat j = unat a - unat p" using unat_sub [OF pj(4)] pj(1) by simp
      then have "unat a < unat p + 4096" using pj(3,4) by (simp add: word_less_nat_alt word_le_nat_alt page_size_def)
      then show ?thesis using a(1) xy by (simp add: word_le_nat_alt)
    qed
    have pl: "p < finish" "p < 0x400000" "a < 0x400000" using pj(4) a(2) fin by auto
    note on = page_offset [OF pj(2,3), folded pj(1)]
    have fr: "frame_of a = frame_of p" by (rule on_page_frame [OF on])
    have i: "mem m' ?I (tab_of p) = p + 3" using l(4) pj(2) pl sp by (simp add: T)
    have t: "mem m' ?T (tab_of (p - start)) = p + 3" using l(5) pj(2) pl sp by (simp add: T)
    have "translate m' p w = Some (frame_of p)"
      using low_dir [OF pl(2)] dir be i boot_entry [OF pj(2)] by (simp add: translate_space top D)
    then have 1: "translate m' a w = Some (frame_of a)" using on_page_same(3) [OF on] fr by simp
    let ?o = "p - start"
    have o: "?o < 0x400000" using pl(2) sp by (simp add: word_less_nat_alt word_le_nat_alt unat_sub)
    have parts: "dir_of (linear_addr + ?o) = ?L" "tab_of (linear_addr + ?o) = tab_of ?o"
      using linear_parts [OF al(5) o] by auto
    have la: "(linear_addr + ?o) mod page_size = 0"
    proof -
      have "4096 dvd unat linear_addr"
      proof -
        have "unat linear_addr mod 0x400000 = 0" using al(5) by (simp add: word_unat_eq_iff unat_mod_distrib)
        then have "0x400000 dvd unat linear_addr" by presburger
        then show ?thesis by (rule dvd_trans [rotated]) simp
      qed
      moreover have "4096 dvd unat ?o" using pj(2) al(4) sp by (simp add: aligned_unat unat_sub dvd_diff_nat)
      ultimately show ?thesis using aligned_add [of linear_addr ?o] by (simp add: aligned_unat)
    qed
    have "linear_addr + (a - start) = linear_addr + ?o + j" using pj(1) by simp
    then have on2: "on_page (linear_addr + ?o) (linear_addr + (a - start))" using page_offset [OF la pj(3)] by (simp only:)
    have "translate m' (linear_addr + ?o) w = Some (frame_of p)"
      using parts dir be t boot_entry [OF pj(2)] by (simp add: translate_space top D)
    then have 2: "translate m' (linear_addr + (a - start)) w = Some (frame_of a)" using on_page_same(3) [OF on2] fr by simp
    show ?thesis using 1 2 by blast
  qed
  show ?thesis using run c sp tf maps none by blast
qed

text \<open>Witness: an empty memory, the tables in frames 288 to 290, the kernel's image in one megabyte from the second on, at 0xFF400000.\<close>

theorem start_paging_spec_witness:
  "\<exists>m' count. start_paging \<lparr>mem = (\<lambda>f i. 0), cr3 = 0\<rparr> 0xFF400000 0x100000 0x200000 0x120000 0x121000 0x122000 = Some (m', count) \<and>
     unat count = 256 \<and> space_ok m' \<and> translate m' 0xFF400123 True = Some 0x100"
proof -
  let ?m = "\<lparr>mem = (\<lambda>f i. 0), cr3 = 0\<rparr> :: mmu"
  have a: "(0x120000 :: u32) mod page_size = 0" "(0x121000 :: u32) mod page_size = 0" "(0x122000 :: u32) mod page_size = 0"
    "(0x100000 :: u32) mod page_size = 0" "(0xFF400000 :: u32) mod 0x400000 = 0" by (simp_all add: page_size_def)
  have b: "frame_of 0x121000 \<noteq> frame_of 0x122000" "frame_of 0x120000 \<noteq> frame_of 0x121000" "frame_of 0x120000 \<noteq> frame_of 0x122000"
    "dir_of 0xFF400000 \<noteq> 0" "dir_of 0xFF400000 \<noteq> - 1" "(0x200000 :: u32) \<le> 0x400000" by (simp_all add: frame_of_def dir_of_def)
  have e: "\<forall>i. \<not> present (mem ?m (frame_of 0x120000) i)" by (simp add: present_def)
  from start_paging_spec [OF a b e] obtain m' count where r:
    "start_paging ?m 0xFF400000 0x100000 0x200000 0x120000 0x121000 0x122000 = Some (m', count)" "unat count = 256" "space_ok m'"
    "\<forall>a w. 0x100000 \<le> a \<longrightarrow> a < 0x200000 \<longrightarrow> translate m' (0xFF400000 + (a - 0x100000)) w = Some (frame_of a)" by auto
  have "translate m' 0xFF400123 True = Some 0x100" using r(4) [rule_format, of "0x100123" True] by (simp add: frame_of_def)
  with r show ?thesis by blast
qed

end
