(* ===== verification/Avl_Tree.thy ===== *)
theory Avl_Tree
  imports Prelude
begin

text \<open>
  The AVL tree of \<^verbatim>\<open>src/avltree.c\<close>, which holds the kernel's process, port and interrupt-handler
  tables. The C functions are modelled on a store of \<^verbatim>\<open>struct avltree_t\<close> nodes, with
  \<^verbatim>\<open>kmalloc\<close>/\<^verbatim>\<open>kfree\<close> as the allocator argument. They are related to functions on trees whose
  nodes carry their address, and those to finite maps from keys to value pointers.
\<close>

section \<open>The code on a store of nodes\<close>

record avltree_t =
  n_height :: int
  n_key :: int
  n_value :: ptr
  n_left :: ptr
  n_right :: ptr

type_synonym avl_store = "avltree_t store"

definition avl_new :: "'a allocator \<Rightarrow> 'a \<times> avl_store \<Rightarrow> int \<Rightarrow> ptr \<Rightarrow> (('a \<times> avl_store) \<times> ptr) option" where
  "avl_new A s key value = (case s of (a, h) \<Rightarrow> do {
     (a', new_tree) \<leftarrow> km A a 20;
     if new_tree = NULL then None
     else Some ((a', h(new_tree \<mapsto>
       \<lparr>n_height = 1, n_key = key, n_value = value, n_left = NULL, n_right = NULL\<rparr>)), new_tree)
   })"

definition avl_height :: "avl_store \<Rightarrow> ptr \<Rightarrow> int option" where
  "avl_height h tree =
     (if tree = NULL then Some 0 else do { n \<leftarrow> deref h tree; Some (n_height n) })"

definition avl_balance :: "avl_store \<Rightarrow> ptr \<Rightarrow> int option" where
  "avl_balance h tree =
     (if tree = NULL then Some 0
      else do { n \<leftarrow> deref h tree; hl \<leftarrow> avl_height h (n_left n); hr \<leftarrow> avl_height h (n_right n);
                Some (hl - hr) })"

definition avl_update_height :: "avl_store \<Rightarrow> ptr \<Rightarrow> avl_store option" where
  "avl_update_height h tree =
     (if tree = NULL then Some h
      else do { n \<leftarrow> deref h tree; hl \<leftarrow> avl_height h (n_left n); hr \<leftarrow> avl_height h (n_right n);
                Some (h(tree \<mapsto> n\<lparr>n_height := 1 + (if hl > hr then hl else hr)\<rparr>)) })"

text \<open>\<^verbatim>\<open>tree->left = p\<close> and \<^verbatim>\<open>tree->right = p\<close>.\<close>

definition set_left :: "avl_store \<Rightarrow> ptr \<Rightarrow> ptr \<Rightarrow> avl_store option" where
  "set_left h tree p = do { n \<leftarrow> deref h tree; Some (h(tree \<mapsto> n\<lparr>n_left := p\<rparr>)) }"

definition set_right :: "avl_store \<Rightarrow> ptr \<Rightarrow> ptr \<Rightarrow> avl_store option" where
  "set_right h tree p = do { n \<leftarrow> deref h tree; Some (h(tree \<mapsto> n\<lparr>n_right := p\<rparr>)) }"

definition avl_right_rotate :: "avl_store \<Rightarrow> ptr \<Rightarrow> (avl_store \<times> ptr) option" where
  "avl_right_rotate h y = do {
     ny \<leftarrow> deref h y;
     let x = n_left ny;
     nx \<leftarrow> deref h x;
     let z = n_right nx;
     h \<leftarrow> set_right h x y;
     h \<leftarrow> set_left h y z;
     h \<leftarrow> avl_update_height h x;
     h \<leftarrow> avl_update_height h y;
     Some (h, x)
   }"

definition avl_left_rotate :: "avl_store \<Rightarrow> ptr \<Rightarrow> (avl_store \<times> ptr) option" where
  "avl_left_rotate h x = do {
     nx \<leftarrow> deref h x;
     let y = n_right nx;
     ny \<leftarrow> deref h y;
     let z = n_left ny;
     h \<leftarrow> set_left h y x;
     h \<leftarrow> set_right h x z;
     h \<leftarrow> avl_update_height h x;
     h \<leftarrow> avl_update_height h y;
     Some (h, y)
   }"

text \<open>The two double rotations: \<^verbatim>\<open>tree->left = avl_left_rotate(tree->left)\<close>, then a right
  rotation, and its mirror image.\<close>

definition avl_left_right :: "avl_store \<Rightarrow> ptr \<Rightarrow> (avl_store \<times> ptr) option" where
  "avl_left_right h tree = do {
     n \<leftarrow> deref h tree;
     (h, l) \<leftarrow> avl_left_rotate h (n_left n);
     h \<leftarrow> set_left h tree l;
     avl_right_rotate h tree
   }"

definition avl_right_left :: "avl_store \<Rightarrow> ptr \<Rightarrow> (avl_store \<times> ptr) option" where
  "avl_right_left h tree = do {
     n \<leftarrow> deref h tree;
     (h, r) \<leftarrow> avl_right_rotate h (n_right n);
     h \<leftarrow> set_right h tree r;
     avl_left_rotate h tree
   }"

text \<open>The part of \<^verbatim>\<open>avl_insert\<close> after the recursive call. The keys of the children are read only
  when the balance test before them holds (\<^verbatim>\<open>&&\<close>).\<close>

definition child_key :: "avl_store \<Rightarrow> bool \<Rightarrow> ptr \<Rightarrow> (int \<Rightarrow> bool) \<Rightarrow> bool option" where
  "child_key h b p test = (if b then do { c \<leftarrow> deref h p; Some (test (n_key c)) } else Some False)"

definition avl_insert_fixup :: "avl_store \<Rightarrow> ptr \<Rightarrow> int \<Rightarrow> (avl_store \<times> ptr) option" where
  "avl_insert_fixup h tree key = do {
     h \<leftarrow> avl_update_height h tree;
     balance \<leftarrow> avl_balance h tree;
     n \<leftarrow> deref h tree;
     ll \<leftarrow> child_key h (balance > 1) (n_left n) (\<lambda>k. key < k);
     if ll then avl_right_rotate h tree else do {
       rr \<leftarrow> child_key h (balance < -1) (n_right n) (\<lambda>k. key > k);
       if rr then avl_left_rotate h tree else do {
         lr \<leftarrow> child_key h (balance > 1) (n_left n) (\<lambda>k. key > k);
         if lr then avl_left_right h tree else do {
           rl \<leftarrow> child_key h (balance < -1) (n_right n) (\<lambda>k. key < k);
           if rl then avl_right_left h tree else Some (h, tree) }}}
   }"

partial_function (option) avl_insert ::
  "'a allocator \<Rightarrow> 'a \<times> avl_store \<Rightarrow> ptr \<Rightarrow> int \<Rightarrow> ptr \<Rightarrow> (('a \<times> avl_store) \<times> ptr) option" where
  "avl_insert A s tree key value =
     (if tree = NULL then avl_new A s key value
      else do {
        n \<leftarrow> deref (snd s) tree;
        if key < n_key n then do {
          (s, l) \<leftarrow> avl_insert A s (n_left n) key value;
          h \<leftarrow> set_left (snd s) tree l;
          (h, t) \<leftarrow> avl_insert_fixup h tree key;
          Some ((fst s, h), t) }
        else if key > n_key n then do {
          (s, r) \<leftarrow> avl_insert A s (n_right n) key value;
          h \<leftarrow> set_right (snd s) tree r;
          (h, t) \<leftarrow> avl_insert_fixup h tree key;
          Some ((fst s, h), t) }
        else Some (s, tree)
      })"

text \<open>The loop \<^verbatim>\<open>while(min->left != NULL) min = min->left\<close>.\<close>

partial_function (option) avl_min :: "avl_store \<Rightarrow> ptr \<Rightarrow> ptr option" where
  "avl_min h mn = do {
     m \<leftarrow> deref h mn;
     if n_left m \<noteq> NULL then avl_min h (n_left m) else Some mn
   }"

definition avl_remove_fixup :: "avl_store \<Rightarrow> ptr \<Rightarrow> (avl_store \<times> ptr) option" where
  "avl_remove_fixup h tree = do {
     h \<leftarrow> avl_update_height h tree;
     balance \<leftarrow> avl_balance h tree;
     n \<leftarrow> deref h tree;
     bl \<leftarrow> (if balance > 1 then avl_balance h (n_left n) else Some 0);
     br \<leftarrow> (if balance < -1 then avl_balance h (n_right n) else Some 0);
     if balance > 1 \<and> bl \<ge> 0 then avl_right_rotate h tree
     else if balance > 1 \<and> bl < 0 then avl_left_right h tree
     else if balance < -1 \<and> br \<le> 0 then avl_left_rotate h tree
     else if balance < -1 \<and> br > 0 then avl_right_left h tree
     else Some (h, tree)
   }"

text \<open>\<^verbatim>\<open>*tree = *child; kfree(child)\<close> overwrites the node with its only child; a node without
  children is freed itself.\<close>

partial_function (option) avl_remove ::
  "'a allocator \<Rightarrow> 'a \<times> avl_store \<Rightarrow> ptr \<Rightarrow> int \<Rightarrow> (('a \<times> avl_store) \<times> ptr) option" where
  "avl_remove A s tree key =
     (if tree = NULL then Some (s, NULL)
      else do {
        n \<leftarrow> deref (snd s) tree;
        (s, tree) \<leftarrow>
          (if key < n_key n then do {
             (s, l) \<leftarrow> avl_remove A s (n_left n) key;
             h \<leftarrow> set_left (snd s) tree l;
             Some ((fst s, h), tree) }
           else if key > n_key n then do {
             (s, r) \<leftarrow> avl_remove A s (n_right n) key;
             h \<leftarrow> set_right (snd s) tree r;
             Some ((fst s, h), tree) }
           else if n_left n = NULL \<or> n_right n = NULL then do {
             let child = (if n_left n = NULL then n_right n else n_left n);
             if child = NULL then Some ((kf A (fst s) tree, (snd s)(tree := None)), NULL)
             else do {
               c \<leftarrow> deref (snd s) child;
               Some ((kf A (fst s) child, (snd s)(tree \<mapsto> c, child := None)), tree) }}
           else do {
             mn \<leftarrow> avl_min (snd s) (n_right n);
             m \<leftarrow> deref (snd s) mn;
             (s, r) \<leftarrow> avl_remove A
               (fst s, (snd s)(tree \<mapsto> n\<lparr>n_key := n_key m, n_value := n_value m\<rparr>)) (n_right n) (n_key m);
             h \<leftarrow> set_right (snd s) tree r;
             Some ((fst s, h), tree) });
        if tree = NULL then Some (s, NULL)
        else do {
          (h, t) \<leftarrow> avl_remove_fixup (snd s) tree;
          Some ((fst s, h), t) }
      })"

partial_function (option) avl_get :: "avl_store \<Rightarrow> ptr \<Rightarrow> int \<Rightarrow> ptr option" where
  "avl_get h tree key =
     (if tree \<noteq> NULL then do {
        n \<leftarrow> deref h tree;
        if key < n_key n then avl_get h (n_left n) key
        else if key > n_key n then avl_get h (n_right n) key
        else Some (n_value n) }
      else Some NULL)"

section \<open>The same operations on trees that carry their addresses\<close>

datatype atree =
    Tip
  | Nd (addr: ptr) (ht: int) (lsub: atree) (tkey: int) (tval: ptr) (rsub: atree)
where
  "ht Tip = 0"
| "addr Tip = NULL"
| "lsub Tip = Tip"
| "rsub Tip = Tip"

abbreviation root :: "atree \<Rightarrow> ptr" where "root \<equiv> addr"

fun addrs :: "atree \<Rightarrow> ptr list" where
  "addrs Tip = []"
| "addrs (Nd a _ l _ _ r) = addrs l @ a # addrs r"

fun keys :: "atree \<Rightarrow> int set" where
  "keys Tip = {}"
| "keys (Nd _ _ l k _ r) = insert k (keys l \<union> keys r)"

fun bst :: "atree \<Rightarrow> bool" where
  "bst Tip = True"
| "bst (Nd _ _ l k _ r) = (bst l \<and> bst r \<and> (\<forall>x \<in> keys l. x < k) \<and> (\<forall>x \<in> keys r. k < x))"

text \<open>Every stored height is positive: all that the code keeps of its heights.\<close>

fun hpos :: "atree \<Rightarrow> bool" where
  "hpos Tip = True"
| "hpos (Nd _ h l _ _ r) = (1 \<le> h \<and> hpos l \<and> hpos r)"

fun bal :: "atree \<Rightarrow> int" where
  "bal Tip = 0"
| "bal (Nd _ _ l _ _ r) = ht l - ht r"

fun upd_ht :: "atree \<Rightarrow> atree" where
  "upd_ht Tip = Tip"
| "upd_ht (Nd a _ l k v r) = Nd a (1 + max (ht l) (ht r)) l k v r"

fun rrot :: "atree \<Rightarrow> atree" where
  "rrot (Nd y hy (Nd x hx xl kx vx z) ky vy yr) =
     Nd x (1 + max (ht xl) hy) xl kx vx (upd_ht (Nd y hy z ky vy yr))"
| "rrot t = t"

fun lrot :: "atree \<Rightarrow> atree" where
  "lrot (Nd x hx xl kx vx (Nd y hy z ky vy yr)) =
     upd_ht (Nd y hy (upd_ht (Nd x hx xl kx vx z)) ky vy yr)"
| "lrot t = t"

fun lrrot :: "atree \<Rightarrow> atree" where
  "lrrot (Nd a h l k v r) = rrot (Nd a h (lrot l) k v r)"
| "lrrot Tip = Tip"

fun rlrot :: "atree \<Rightarrow> atree" where
  "rlrot (Nd a h l k v r) = lrot (Nd a h l k v (rrot r))"
| "rlrot Tip = Tip"

text \<open>
  The rebalancing after an insertion takes a double rotation on the strength of the balance and of
  the key alone. Where the grandchild it is to lift is missing, the C code dereferences NULL, which
  is the result \<^term>\<open>None\<close>.
\<close>

definition ins_fix :: "int \<Rightarrow> atree \<Rightarrow> atree option" where
  "ins_fix k t0 = (let t = upd_ht t0; b = bal t in
     if b > 1 \<and> k < tkey (lsub t) then Some (rrot t)
     else if b < -1 \<and> k > tkey (rsub t) then Some (lrot t)
     else if b > 1 \<and> k > tkey (lsub t) then (if rsub (lsub t) = Tip then None else Some (lrrot t))
     else if b < -1 \<and> k < tkey (rsub t) then (if lsub (rsub t) = Tip then None else Some (rlrot t))
     else Some t)"

fun t_insert :: "ptr \<Rightarrow> int \<Rightarrow> ptr \<Rightarrow> atree \<Rightarrow> atree option" where
  "t_insert n k v Tip = Some (Nd n 1 Tip k v Tip)"
| "t_insert n k v (Nd a h l k' v' r) =
     (if k < k' then do { l' \<leftarrow> t_insert n k v l; ins_fix k (Nd a h l' k' v' r) }
      else if k > k' then do { r' \<leftarrow> t_insert n k v r; ins_fix k (Nd a h l k' v' r') }
      else Some (Nd a h l k' v' r))"

definition rem_fix :: "atree \<Rightarrow> atree" where
  "rem_fix t0 = (let t = upd_ht t0; b = bal t in
     if b > 1 \<and> bal (lsub t) \<ge> 0 then rrot t
     else if b > 1 \<and> bal (lsub t) < 0 then lrrot t
     else if b < -1 \<and> bal (rsub t) \<le> 0 then lrot t
     else if b < -1 \<and> bal (rsub t) > 0 then rlrot t
     else t)"

fun t_min :: "atree \<Rightarrow> atree" where
  "t_min Tip = Tip"
| "t_min (Nd a h l k v r) = (if l = Tip then Nd a h l k v r else t_min l)"

text \<open>The contents of a node moved to another address.\<close>

fun move_to :: "ptr \<Rightarrow> atree \<Rightarrow> atree" where
  "move_to a Tip = Tip"
| "move_to a (Nd _ h l k v r) = Nd a h l k v r"

function t_remove :: "int \<Rightarrow> atree \<Rightarrow> atree" where
  "t_remove k Tip = Tip"
| "t_remove k (Nd a h l k' v' r) =
     (if k < k' then rem_fix (Nd a h (t_remove k l) k' v' r)
      else if k > k' then rem_fix (Nd a h l k' v' (t_remove k r))
      else if l = Tip \<and> r = Tip then Tip
      else if l = Tip then rem_fix (move_to a r)
      else if r = Tip then rem_fix (move_to a l)
      else rem_fix (Nd a h l (tkey (t_min r)) (tval (t_min r)) (t_remove (tkey (t_min r)) r)))"
  by pat_completeness auto
termination by (relation "measure (\<lambda>(k, t). size t)") auto

text \<open>The address of the one node that removing a key frees.\<close>

function t_freed :: "int \<Rightarrow> atree \<Rightarrow> ptr option" where
  "t_freed k Tip = None"
| "t_freed k (Nd a h l k' v' r) =
     (if k < k' then t_freed k l
      else if k > k' then t_freed k r
      else if l = Tip \<and> r = Tip then Some a
      else if l = Tip then Some (root r)
      else if r = Tip then Some (root l)
      else t_freed (tkey (t_min r)) r)"
  by pat_completeness auto
termination by (relation "measure (\<lambda>(k, t). size t)") auto

fun t_get :: "atree \<Rightarrow> int \<Rightarrow> ptr option" where
  "t_get Tip x = None"
| "t_get (Nd _ _ l k v r) x = (if x < k then t_get l x else if x > k then t_get r x else Some v)"

section \<open>Search-tree facts\<close>

lemma finite_keys [simp]: "finite (keys t)"
  by (induction t) auto

lemma keys_upd_ht [simp]: "keys (upd_ht t) = keys t"
  by (cases t) auto

lemma keys_rrot [simp]: "keys (rrot t) = keys t"
  by (cases t rule: rrot.cases) auto

lemma keys_lrot [simp]: "keys (lrot t) = keys t"
  by (cases t rule: lrot.cases) auto

lemma keys_lrrot [simp]: "keys (lrrot t) = keys t"
  by (cases t) auto

lemma keys_rlrot [simp]: "keys (rlrot t) = keys t"
  by (cases t) auto

lemma bst_upd_ht [simp]: "bst (upd_ht t) = bst t"
  by (cases t) auto

lemma bst_rrot [simp]: "bst t \<Longrightarrow> bst (rrot t)"
  by (cases t rule: rrot.cases) auto

lemma bst_lrot [simp]: "bst t \<Longrightarrow> bst (lrot t)"
  by (cases t rule: lrot.cases) auto

lemma bst_lrrot [simp]: "bst t \<Longrightarrow> bst (lrrot t)"
  by (cases t) auto

lemma bst_rlrot [simp]: "bst t \<Longrightarrow> bst (rlrot t)"
  by (cases t) auto

lemma get_upd_ht [simp]: "t_get (upd_ht t) = t_get t"
  by (cases t) auto

lemma get_rrot [simp]: "bst t \<Longrightarrow> t_get (rrot t) = t_get t"
  by (cases t rule: rrot.cases) (auto simp: fun_eq_iff)

lemma get_lrot [simp]: "bst t \<Longrightarrow> t_get (lrot t) = t_get t"
  by (cases t rule: lrot.cases) (auto simp: fun_eq_iff)

lemma get_lrrot [simp]: "bst t \<Longrightarrow> t_get (lrrot t) = t_get t"
  by (cases t) (auto simp: fun_eq_iff)

lemma get_rlrot [simp]: "bst t \<Longrightarrow> t_get (rlrot t) = t_get t"
  by (cases t) (auto simp: fun_eq_iff)

lemma ht_nonneg [simp]: "hpos t \<Longrightarrow> 0 \<le> ht t"
  by (cases t) auto

lemma ht_pos: "hpos t \<Longrightarrow> 0 < ht t \<longleftrightarrow> t \<noteq> Tip"
  by (cases t) auto

lemma hpos_upd_ht [simp]: "hpos (lsub t) \<Longrightarrow> hpos (rsub t) \<Longrightarrow> hpos (upd_ht t)"
  by (cases t) (auto dest: ht_nonneg)

lemma hpos_rrot [simp]: "hpos t \<Longrightarrow> hpos (rrot t)"
  by (cases t rule: rrot.cases) (auto dest: ht_nonneg)

lemma hpos_lrot [simp]: "hpos t \<Longrightarrow> hpos (lrot t)"
  by (cases t rule: lrot.cases) (auto dest: ht_nonneg)

lemma hpos_lrrot [simp]: "hpos t \<Longrightarrow> hpos (lrrot t)"
  by (cases t) auto

lemma hpos_rlrot [simp]: "hpos t \<Longrightarrow> hpos (rlrot t)"
  by (cases t) auto

lemma addrs_upd_ht [simp]: "addrs (upd_ht t) = addrs t"
  by (cases t) auto

lemma addrs_rrot [simp]: "addrs (rrot t) = addrs t"
  by (cases t rule: rrot.cases) auto

lemma addrs_lrot [simp]: "addrs (lrot t) = addrs t"
  by (cases t rule: lrot.cases) auto

lemma addrs_lrrot [simp]: "addrs (lrrot t) = addrs t"
  by (cases t) auto

lemma addrs_rlrot [simp]: "addrs (rlrot t) = addrs t"
  by (cases t) auto

text \<open>What the two rebalancing steps keep: everything but the shape and the heights.\<close>

lemma ins_fix_Some:
  "ins_fix k t = Some t' \<Longrightarrow>
   t' \<in> {upd_ht t, rrot (upd_ht t), lrot (upd_ht t), lrrot (upd_ht t), rlrot (upd_ht t)}"
  by (auto simp: ins_fix_def Let_def split: if_splits)

lemma ins_fix_keeps:
  assumes "ins_fix k t = Some t'"
  shows "keys t' = keys t" "bst t \<Longrightarrow> bst t'" "bst t \<Longrightarrow> t_get t' = t_get t" "addrs t' = addrs t"
    "hpos (lsub t) \<Longrightarrow> hpos (rsub t) \<Longrightarrow> hpos t'"
  using ins_fix_Some [OF assms] by auto

lemma rem_fix_simps [simp]:
  "keys (rem_fix t) = keys t"
  "bst t \<Longrightarrow> bst (rem_fix t)"
  "bst t \<Longrightarrow> t_get (rem_fix t) = t_get t"
  "addrs (rem_fix t) = addrs t"
  by (auto simp: rem_fix_def Let_def)

lemma hpos_rem_fix [simp]:
  assumes "hpos (lsub t)" "hpos (rsub t)"
  shows "hpos (rem_fix t)"
  using hpos_upd_ht [OF assms] by (auto simp: rem_fix_def Let_def)

lemma get_None_iff: "bst t \<Longrightarrow> t_get t x = None \<longleftrightarrow> x \<notin> keys t"
  by (induction t) (auto split: if_splits)

text \<open>The three ways an insertion goes through a node.\<close>

lemma insert_NdE:
  assumes "t_insert n k v (Nd a h l k' v' r) = Some t'"
  obtains (here) "k = k'" "t' = Nd a h l k' v' r"
  | (left) l' where "k < k'" "t_insert n k v l = Some l'" "ins_fix k (Nd a h l' k' v' r) = Some t'"
  | (right) r' where "k > k'" "t_insert n k v r = Some r'" "ins_fix k (Nd a h l k' v' r') = Some t'"
  using assms by (auto simp: bind_eq_Some_conv split: if_splits)

lemma keys_insert: "t_insert n k v t = Some t' \<Longrightarrow> keys t' = insert k (keys t)"
proof (induction t arbitrary: t')
  case (Nd a h l k' v' r)
  from Nd.prems show ?case
    by (cases rule: insert_NdE) (auto simp: ins_fix_keeps(1) dest: Nd.IH)
qed auto

lemma bst_insert: "t_insert n k v t = Some t' \<Longrightarrow> bst t \<Longrightarrow> bst t'"
proof (induction t arbitrary: t')
  case (Nd a h l k' v' r)
  from Nd.prems(1) show ?case
  proof (cases rule: insert_NdE)
    case (left l')
    show ?thesis
      by (rule ins_fix_keeps(2) [OF left(3)])
        (use Nd.prems(2) Nd.IH(1) [OF left(2)] left in \<open>auto simp: keys_insert\<close>)
  next
    case (right r')
    show ?thesis
      by (rule ins_fix_keeps(2) [OF right(3)])
        (use Nd.prems(2) Nd.IH(2) [OF right(2)] right in \<open>auto simp: keys_insert\<close>)
  qed (use Nd.prems in simp)
qed auto

lemma hpos_insert: "t_insert n k v t = Some t' \<Longrightarrow> hpos t \<Longrightarrow> hpos t'"
proof (induction t arbitrary: t')
  case (Nd a h l k' v' r)
  from Nd.prems(1) show ?case
  proof (cases rule: insert_NdE)
    case (left l')
    show ?thesis
      by (rule ins_fix_keeps(5) [OF left(3)]) (use Nd.prems(2) Nd.IH(1) [OF left(2)] in auto)
  next
    case (right r')
    show ?thesis
      by (rule ins_fix_keeps(5) [OF right(3)]) (use Nd.prems(2) Nd.IH(2) [OF right(2)] in auto)
  qed (use Nd.prems in simp)
qed auto

lemma get_insert:
  "t_insert n k v t = Some t' \<Longrightarrow> bst t \<Longrightarrow>
   t_get t' = (if k \<in> keys t then t_get t else (t_get t)(k \<mapsto> v))"
proof (induction t arbitrary: t')
  case (Nd a h l k' v' r)
  from Nd.prems(1) show ?case
  proof (cases rule: insert_NdE)
    case (left l')
    have b: "bst (Nd a h l' k' v' r)"
      using left Nd.prems(2) by (auto simp: keys_insert intro: bst_insert)
    show ?thesis
      using left Nd.IH(1) [OF left(2)] Nd.prems(2) ins_fix_keeps(3) [OF left(3) b]
      by (auto simp: fun_eq_iff)
  next
    case (right r')
    have b: "bst (Nd a h l k' v' r')"
      using right Nd.prems(2) by (auto simp: keys_insert intro: bst_insert)
    show ?thesis
      using right Nd.IH(2) [OF right(2)] Nd.prems(2) ins_fix_keeps(3) [OF right(3) b]
      by (auto simp: fun_eq_iff)
  qed simp
qed (auto simp: fun_eq_iff)

lemma addrs_insert: "t_insert n k v t = Some t' \<Longrightarrow> set (addrs t') \<subseteq> insert n (set (addrs t))"
proof (induction t arbitrary: t')
  case (Nd a h l k' v' r)
  from Nd.prems show ?case
    by (cases rule: insert_NdE) (auto simp: ins_fix_keeps(4) dest!: Nd.IH)
qed auto

lemma distinct_insert:
  "t_insert n k v t = Some t' \<Longrightarrow> distinct (addrs t) \<Longrightarrow> n \<notin> set (addrs t) \<Longrightarrow> distinct (addrs t')"
proof (induction t arbitrary: t')
  case (Nd a h l k' v' r)
  from Nd.prems(1) show ?case
    by (cases rule: insert_NdE)
      (use Nd.prems(2,3) Nd.IH addrs_insert in \<open>fastforce simp: ins_fix_keeps(4)\<close>)+
qed auto

lemma t_min_Nd: "t \<noteq> Tip \<Longrightarrow> t_min t \<noteq> Tip \<and> lsub (t_min t) = Tip"
  by (induction t) auto

lemma t_min_key: "t \<noteq> Tip \<Longrightarrow> tkey (t_min t) \<in> keys t"
  by (induction t) auto

lemma t_min_le: "bst t \<Longrightarrow> x \<in> keys t \<Longrightarrow> tkey (t_min t) \<le> x"
proof (induction t)
  case (Nd a h l k v r)
  then show ?case using t_min_key [of l] by (cases "l = Tip") fastforce+
qed simp

lemma t_min_get: "bst t \<Longrightarrow> t \<noteq> Tip \<Longrightarrow> t_get t (tkey (t_min t)) = Some (tval (t_min t))"
proof (induction t)
  case (Nd a h l k v r)
  then show ?case using t_min_key [of l] by (cases "l = Tip") auto
qed simp

lemma t_min_less:
  "bst r \<Longrightarrow> x \<in> keys r - {tkey (t_min r)} \<Longrightarrow> tkey (t_min r) < x"
  using t_min_le [of r x] by auto

lemma keys_move_to [simp]: "keys (move_to a t) = keys t"
  by (cases t) simp_all

lemma bst_move_to [simp]: "bst (move_to a t) = bst t"
  by (cases t) simp_all

lemma get_move_to [simp]: "t_get (move_to a t) x = t_get t x"
  by (cases t) simp_all

lemma hpos_move_to [simp]: "hpos t \<Longrightarrow> hpos (lsub (move_to a t)) \<and> hpos (rsub (move_to a t))"
  by (cases t) simp_all

lemma keys_bst_remove: "bst t \<Longrightarrow> keys (t_remove k t) = keys t - {k} \<and> bst (t_remove k t)"
proof (induction k t rule: t_remove.induct)
  case (2 k a h l k' v' r)
  consider "k < k'" | "k > k'" | "k = k'" "l = Tip \<or> r = Tip" | "k = k'" "l \<noteq> Tip" "r \<noteq> Tip"
    by linarith
  then show ?case
  proof cases
    case 4
    then have m: "tkey (t_min r) \<in> keys r" using t_min_key by blast
    have "keys (t_remove (tkey (t_min r)) r) = keys r - {tkey (t_min r)}"
      "bst (t_remove (tkey (t_min r)) r)"
      using "2.IH"(3) 4 "2.prems" by auto
    moreover from this have "bst (Nd a h l (tkey (t_min r)) (tval (t_min r)) (t_remove (tkey (t_min r)) r))"
      using "2.prems" m by (auto intro: less_trans dest: t_min_less)
    ultimately show ?thesis using 4 m "2.prems" by auto
  qed (use "2.IH"(1,2) "2.prems" in auto)
qed simp

lemma get_remove: "bst t \<Longrightarrow> t_get (t_remove k t) = (t_get t)(k := None)"
proof (induction k t rule: t_remove.induct)
  case (2 k a h l k' v' r)
  have nk: "t_get l x = None" if "k' \<le> x" for x
    using that "2.prems" by (force simp: get_None_iff)
  have nr: "t_get r x = None" if "x \<le> k'" for x
    using that "2.prems" by (force simp: get_None_iff)
  consider "k < k'" | "k > k'" | "k = k'" "l = Tip \<or> r = Tip" | "k = k'" "l \<noteq> Tip" "r \<noteq> Tip"
    by linarith
  then show ?case
  proof cases
    case 4
    let ?m = "tkey (t_min r)"
    have IH: "t_get (t_remove ?m r) = (t_get r)(?m := None)"
      using "2.IH"(3) 4 "2.prems" by (simp add: fun_eq_iff)
    have m: "?m \<in> keys r" "k < ?m" using 4 "2.prems" t_min_key by auto
    have b: "bst (Nd a h l ?m (tval (t_min r)) (t_remove ?m r))"
      using "2.prems" 4 m by (auto simp: keys_bst_remove intro: less_trans dest: t_min_less)
    have small: "t_get r x = None" if "x < ?m" for x
      using that "2.prems" t_min_le [of r x] by (force simp: get_None_iff)
    show ?thesis
      using 4 m small nk IH "2.prems" b t_min_get [of r] by (auto simp: fun_eq_iff)
  qed (use "2.IH"(1,2) "2.prems" nk nr in \<open>auto simp: fun_eq_iff keys_bst_remove\<close>)
qed (simp add: fun_eq_iff)

lemma hpos_remove [simp]: "hpos t \<Longrightarrow> hpos (t_remove k t)"
  by (induction k t rule: t_remove.induct) auto

section \<open>Trees in the store\<close>

text \<open>The store holds the tree: each node at its address, linked to its children's addresses.\<close>

fun repr :: "avl_store \<Rightarrow> atree \<Rightarrow> bool" where
  "repr h Tip = True"
| "repr h (Nd a d l k v r) \<longleftrightarrow> a \<noteq> NULL \<and>
     h a = Some \<lparr>n_height = d, n_key = k, n_value = v, n_left = root l, n_right = root r\<rparr> \<and>
     repr h l \<and> repr h r"

lemma repr_frame: "same_off X h h' \<Longrightarrow> X \<inter> set (addrs t) = {} \<Longrightarrow> repr h' t = repr h t"
  by (induction t) (auto simp: same_off_def)

lemma repr_upd [simp]: "a \<notin> set (addrs t) \<Longrightarrow> repr (h(a := x)) t = repr h t"
  by (induction t) auto

lemma repr_root_null [simp]: "repr h t \<Longrightarrow> root t = NULL \<longleftrightarrow> t = Tip"
  by (cases t) auto

lemma repr_root_in: "t \<noteq> Tip \<Longrightarrow> root t \<in> set (addrs t)"
  by (cases t) auto

lemma height_repr [simp]: "repr h t \<Longrightarrow> avl_height h (root t) = Some (ht t)"
  by (cases t) (auto simp: avl_height_def)

lemma balance_repr [simp]: "repr h t \<Longrightarrow> avl_balance h (root t) = Some (bal t)"
  by (cases t) (auto simp: avl_balance_def)

lemma update_height_repr:
  assumes "repr h t" "distinct (addrs t)"
  shows "\<exists>h'. avl_update_height h (root t) = Some h' \<and> repr h' (upd_ht t) \<and> same_off (set (addrs t)) h h'"
  using assms by (cases t) (auto simp: avl_update_height_def max_def same_off_def)

lemma height_node: "p \<noteq> NULL \<Longrightarrow> h p = Some n \<Longrightarrow> avl_height h p = Some (n_height n)"
  by (simp add: avl_height_def)

lemmas rotate_simps = set_left_def set_right_def avl_update_height_def height_node max_def same_off_def Let_def

lemma right_rotate_repr:
  assumes "repr h t" "distinct (addrs t)" "lsub t \<noteq> Tip"
  shows "\<exists>h'. avl_right_rotate h (root t) = Some (h', root (rrot t)) \<and> repr h' (rrot t) \<and>
    same_off (set (addrs t)) h h'"
  using assms
  by (cases t rule: rrot.cases) (simp_all add: avl_right_rotate_def rotate_simps, auto)

lemma left_rotate_repr:
  assumes "repr h t" "distinct (addrs t)" "rsub t \<noteq> Tip"
  shows "\<exists>h'. avl_left_rotate h (root t) = Some (h', root (lrot t)) \<and> repr h' (lrot t) \<and>
    same_off (set (addrs t)) h h'"
  using assms
  by (cases t rule: lrot.cases) (simp_all add: avl_left_rotate_def rotate_simps, auto)

text \<open>Linking a node to a subtree that was rebuilt elsewhere in the store.\<close>

lemma set_left_repr:
  assumes "repr h (Nd a d l k v r)" "a \<notin> set (addrs r)" "same_off X h h1"
    "X \<inter> insert a (set (addrs r)) = {}" "repr h1 l'" "a \<notin> set (addrs l')"
  shows "\<exists>h2. set_left h1 a (root l') = Some h2 \<and> repr h2 (Nd a d l' k v r) \<and> same_off {a} h1 h2"
proof -
  have "h1 a = h a" "repr h1 r = repr h r"
    using assms(4) by (auto simp: same_offD [OF assms(3)] repr_frame [OF assms(3)])
  with assms show ?thesis by (simp add: set_left_def same_off_def)
qed

lemma set_right_repr:
  assumes "repr h (Nd a d l k v r)" "a \<notin> set (addrs l)" "same_off X h h1"
    "X \<inter> insert a (set (addrs l)) = {}" "repr h1 r'" "a \<notin> set (addrs r')"
  shows "\<exists>h2. set_right h1 a (root r') = Some h2 \<and> repr h2 (Nd a d l k v r') \<and> same_off {a} h1 h2"
proof -
  have "h1 a = h a" "repr h1 l = repr h l"
    using assms(4) by (auto simp: same_offD [OF assms(3)] repr_frame [OF assms(3)])
  with assms show ?thesis by (simp add: set_right_def same_off_def)
qed

lemma left_right_repr:
  assumes "repr h t" "distinct (addrs t)" "rsub (lsub t) \<noteq> Tip"
  shows "\<exists>h'. avl_left_right h (root t) = Some (h', root (lrrot t)) \<and> repr h' (lrrot t) \<and>
    same_off (set (addrs t)) h h'"
proof (cases t)
  case Tip
  with assms show ?thesis by simp
next
  case (Nd a d l k v r)
  with assms have l: "repr h l" "distinct (addrs l)" "rsub l \<noteq> Tip" by auto
  from left_rotate_repr [OF this] obtain h1 where
    h1: "avl_left_rotate h (root l) = Some (h1, root (lrot l))" "repr h1 (lrot l)"
      "same_off (set (addrs l)) h h1" by blast
  have "a \<notin> set (addrs r)" "set (addrs l) \<inter> insert a (set (addrs r)) = {}" "a \<notin> set (addrs (lrot l))"
    using assms(2) Nd by auto
  from set_left_repr [OF _ this(1) h1(3) this(2) h1(2) this(3)] assms Nd obtain h2 where
    h2: "set_left h1 a (root (lrot l)) = Some h2" "repr h2 (Nd a d (lrot l) k v r)" "same_off {a} h1 h2"
    by blast
  have ne: "lsub (Nd a d (lrot l) k v r) \<noteq> Tip" using l(3) by (cases l rule: lrot.cases) auto
  from right_rotate_repr [OF h2(2) _ ne] assms(2) Nd obtain h3 where
    h3: "avl_right_rotate h2 a = Some (h3, root (lrrot t))" "repr h3 (lrrot t)"
      "same_off (set (addrs t)) h2 h3" by auto
  have "avl_left_right h (root t) = Some (h3, root (lrrot t))"
    using h1(1) h2(1) h3(1) assms(1) Nd by (simp add: avl_left_right_def)
  moreover have "same_off (set (addrs t)) h h3"
    by (rule same_off_trans [OF same_off_trans [OF h1(3) h2(3) order_refl] h3(3)]) (use Nd in auto)
  ultimately show ?thesis using h3(2) by blast
qed

lemma right_left_repr:
  assumes "repr h t" "distinct (addrs t)" "lsub (rsub t) \<noteq> Tip"
  shows "\<exists>h'. avl_right_left h (root t) = Some (h', root (rlrot t)) \<and> repr h' (rlrot t) \<and>
    same_off (set (addrs t)) h h'"
proof (cases t)
  case Tip
  with assms show ?thesis by simp
next
  case (Nd a d l k v r)
  with assms have r: "repr h r" "distinct (addrs r)" "lsub r \<noteq> Tip" by auto
  from right_rotate_repr [OF this] obtain h1 where
    h1: "avl_right_rotate h (root r) = Some (h1, root (rrot r))" "repr h1 (rrot r)"
      "same_off (set (addrs r)) h h1" by blast
  have "a \<notin> set (addrs l)" "set (addrs r) \<inter> insert a (set (addrs l)) = {}" "a \<notin> set (addrs (rrot r))"
    using assms(2) Nd by auto
  from set_right_repr [OF _ this(1) h1(3) this(2) h1(2) this(3)] assms Nd obtain h2 where
    h2: "set_right h1 a (root (rrot r)) = Some h2" "repr h2 (Nd a d l k v (rrot r))" "same_off {a} h1 h2"
    by blast
  have ne: "rsub (Nd a d l k v (rrot r)) \<noteq> Tip" using r(3) by (cases r rule: rrot.cases) auto
  from left_rotate_repr [OF h2(2) _ ne] assms(2) Nd obtain h3 where
    h3: "avl_left_rotate h2 a = Some (h3, root (rlrot t))" "repr h3 (rlrot t)"
      "same_off (set (addrs t)) h2 h3" by auto
  have "avl_right_left h (root t) = Some (h3, root (rlrot t))"
    using h1(1) h2(1) h3(1) assms(1) Nd by (simp add: avl_right_left_def)
  moreover have "same_off (set (addrs t)) h h3"
    by (rule same_off_trans [OF same_off_trans [OF h1(3) h2(3) order_refl] h3(3)]) (use Nd in auto)
  ultimately show ?thesis using h3(2) by blast
qed

lemma deref_repr:
  "repr h c \<Longrightarrow> c \<noteq> Tip \<Longrightarrow> deref h (root c) = Some \<lparr>n_height = ht c, n_key = tkey c,
     n_value = tval c, n_left = root (lsub c), n_right = root (rsub c)\<rparr>"
  by (cases c) auto

lemma repr_subs [simp]: "repr h c \<Longrightarrow> repr h (lsub c)" "repr h c \<Longrightarrow> repr h (rsub c)"
  by (cases c; simp)+

lemma bal_nonempty:
  assumes "hpos (lsub t)" "hpos (rsub t)"
  shows "bal t > 1 \<Longrightarrow> lsub t \<noteq> Tip" "bal t < -1 \<Longrightarrow> rsub t \<noteq> Tip"
  using assms by (cases t; auto dest: ht_nonneg)+

lemma left_right_crash:
  assumes "repr h t" "t \<noteq> Tip" "lsub t \<noteq> Tip" "rsub (lsub t) = Tip"
  shows "avl_left_right h (root t) = None"
  using assms by (cases t; cases "lsub t") (auto simp: avl_left_right_def avl_left_rotate_def)

lemma right_left_crash:
  assumes "repr h t" "t \<noteq> Tip" "rsub t \<noteq> Tip" "lsub (rsub t) = Tip"
  shows "avl_right_left h (root t) = None"
  using assms by (cases t; cases "rsub t") (auto simp: avl_right_left_def avl_right_rotate_def)

text \<open>The code after an update of the heights, on a tree whose heights are up to date.\<close>

lemma insert_fixup_unfold:
  assumes "repr h u" "u \<noteq> Tip" "hpos (lsub u)" "hpos (rsub u)"
    "avl_update_height h0 (root u) = Some h"
  shows "avl_insert_fixup h0 (root u) k =
    (if bal u > 1 \<and> k < tkey (lsub u) then avl_right_rotate h (root u)
     else if bal u < -1 \<and> k > tkey (rsub u) then avl_left_rotate h (root u)
     else if bal u > 1 \<and> k > tkey (lsub u) then avl_left_right h (root u)
     else if bal u < -1 \<and> k < tkey (rsub u) then avl_right_left h (root u)
     else Some (h, root u))"
  using assms(1,2,5) bal_nonempty [OF assms(3,4)]
  by (auto simp: avl_insert_fixup_def child_key_def deref_repr simp del: deref_nonnull)

lemma insert_fixup_repr:
  assumes t: "repr h t" "distinct (addrs t)" "t \<noteq> Tip" "hpos (lsub t)" "hpos (rsub t)"
  shows "case ins_fix k t of
      None \<Rightarrow> avl_insert_fixup h (root t) k = None
    | Some t' \<Rightarrow> \<exists>h'. avl_insert_fixup h (root t) k = Some (h', root t') \<and> repr h' t' \<and>
        same_off (set (addrs t)) h h'"
proof -
  define u where "u = upd_ht t"
  have u: "root u = root t" "u \<noteq> Tip" "addrs u = addrs t" "lsub u = lsub t" "rsub u = rsub t"
    using t(3) by (cases t; simp add: u_def)+
  from update_height_repr [OF t(1,2)] obtain h1 where
    h1: "avl_update_height h (root t) = Some h1" "repr h1 u" "same_off (set (addrs t)) h h1"
    unfolding u_def by blast
  have d: "distinct (addrs u)" using t(2) u(3) by simp
  note rot = right_rotate_repr [OF h1(2) d] left_rotate_repr [OF h1(2) d]
    left_right_repr [OF h1(2) d] right_left_repr [OF h1(2) d]
  have tr: "same_off (set (addrs t)) h1 h2 \<Longrightarrow> same_off (set (addrs t)) h h2" for h2
    by (rule same_off_trans [OF h1(3)]) auto
  have hp: "hpos (lsub u)" "hpos (rsub u)" using t(4,5) u(4,5) by auto
  note ne = bal_nonempty [OF hp]
  note crash = left_right_crash [OF h1(2) u(2)] right_left_crash [OF h1(2) u(2)]
  show ?thesis
    unfolding insert_fixup_unfold [OF h1(2) u(2) hp h1(1) [folded u(1)], unfolded u(1)]
    using rot ne crash h1(2,3) u(1,3) tr
    by (simp add: ins_fix_def Let_def u_def [symmetric]) blast
qed

text \<open>
  Insertion in the store is insertion in the tree, crash included. \<^term>\<open>t_get\<close> decides whether a
  node is allocated: the code takes one only when its search runs off the tree.
\<close>

lemma insert_repr:
  assumes "km A a 20 = Some (a1, n)" "n \<noteq> NULL"
  shows "repr h t \<Longrightarrow> distinct (addrs t) \<Longrightarrow> hpos t \<Longrightarrow> n \<notin> set (addrs t) \<Longrightarrow>
    (case t_insert n k v t of
      None \<Rightarrow> avl_insert A (a, h) (root t) k v = None
    | Some t' \<Rightarrow> \<exists>h'. avl_insert A (a, h) (root t) k v =
          Some ((if t_get t k = None then a1 else a, h'), root t') \<and>
        repr h' t' \<and> same_off (insert n (set (addrs t))) h h')"
proof (induction t arbitrary: h)
  case Tip
  then show ?case using assms by (auto simp: avl_insert.simps avl_new_def same_off_def)
next
  case (Nd b d l k' v' r)
  let ?X = "insert n (set (addrs (Nd b d l k' v' r)))"
  let ?a = "if t_get (Nd b d l k' v' r) k = None then a1 else a"
  have unf: "avl_insert A (a, h) b k v =
      (if k < k' then do { (s, l) \<leftarrow> avl_insert A (a, h) (root l) k v; h \<leftarrow> set_left (snd s) b l;
          (h, t) \<leftarrow> avl_insert_fixup h b k; Some ((fst s, h), t) }
       else if k > k' then do { (s, r) \<leftarrow> avl_insert A (a, h) (root r) k v; h \<leftarrow> set_right (snd s) b r;
          (h, t) \<leftarrow> avl_insert_fixup h b k; Some ((fst s, h), t) }
       else Some ((a, h), b))"
    using Nd.prems by (simp add: avl_insert.simps)
  have fin: "case ins_fix k u of
        None \<Rightarrow> avl_insert_fixup h2 b k = None
      | Some t' \<Rightarrow> \<exists>h'. avl_insert_fixup h2 b k = Some (h', root t') \<and> repr h' t' \<and> same_off ?X h h'"
    if u: "repr h2 u" "distinct (addrs u)" "root u = b" "u \<noteq> Tip" "hpos (lsub u)" "hpos (rsub u)"
      "set (addrs u) \<subseteq> ?X" "same_off ?X h h2" for u h2
  proof -
    have tr: "same_off (set (addrs u)) h2 h3 \<Longrightarrow> same_off ?X h h3" for h3
      by (rule same_off_trans [OF u(8)]) (use u(7) in auto)
    show ?thesis
      using insert_fixup_repr [OF u(1,2,4,5,6), of k] tr unfolding u(3) by (auto split: option.splits)
  qed
  consider "k < k'" | "k > k'" | "k = k'" by linarith
  then show ?case
  proof cases
    case 1
    note IH = Nd.IH(1) [of h]
    show ?thesis
    proof (cases "t_insert n k v l")
      case None
      with IH Nd.prems 1 unf show ?thesis by simp
    next
      case (Some l')
      with IH Nd.prems obtain h1 where
        h1: "avl_insert A (a, h) (root l) k v = Some ((if t_get l k = None then a1 else a, h1), root l')"
          "repr h1 l'" "same_off (insert n (set (addrs l))) h h1" by auto
      have ad: "b \<notin> set (addrs r)" "insert n (set (addrs l)) \<inter> insert b (set (addrs r)) = {}"
        "b \<notin> set (addrs l')" "distinct (addrs (Nd b d l' k' v' r))" "set (addrs (Nd b d l' k' v' r)) \<subseteq> ?X"
        using Nd.prems addrs_insert [OF Some] distinct_insert [OF Some] by auto
      from set_left_repr [OF Nd.prems(1) ad(1) h1(3) ad(2) h1(2) ad(3)] obtain h2 where
        h2: "set_left h1 b (root l') = Some h2" "repr h2 (Nd b d l' k' v' r)" "same_off {b} h1 h2" by blast
      have "same_off ?X h h2" by (rule same_off_trans [OF h1(3) h2(3)]) auto
      from fin [OF h2(2) ad(4) _ _ _ _ ad(5) this] show ?thesis
        using Nd.prems(3) hpos_insert [OF Some] Some 1 unf h1(1) h2(1) by (auto split: option.splits)
    qed
  next
    case 2
    note IH = Nd.IH(2) [of h]
    show ?thesis
    proof (cases "t_insert n k v r")
      case None
      with IH Nd.prems 2 unf show ?thesis by simp
    next
      case (Some r')
      with IH Nd.prems obtain h1 where
        h1: "avl_insert A (a, h) (root r) k v = Some ((if t_get r k = None then a1 else a, h1), root r')"
          "repr h1 r'" "same_off (insert n (set (addrs r))) h h1" by auto
      have ad: "b \<notin> set (addrs l)" "insert n (set (addrs r)) \<inter> insert b (set (addrs l)) = {}"
        "b \<notin> set (addrs r')" "distinct (addrs (Nd b d l k' v' r'))" "set (addrs (Nd b d l k' v' r')) \<subseteq> ?X"
        using Nd.prems addrs_insert [OF Some] distinct_insert [OF Some] by auto
      from set_right_repr [OF Nd.prems(1) ad(1) h1(3) ad(2) h1(2) ad(3)] obtain h2 where
        h2: "set_right h1 b (root r') = Some h2" "repr h2 (Nd b d l k' v' r')" "same_off {b} h1 h2" by blast
      have "same_off ?X h h2" by (rule same_off_trans [OF h1(3) h2(3)]) auto
      from fin [OF h2(2) ad(4) _ _ _ _ ad(5) this] show ?thesis
        using Nd.prems(3) hpos_insert [OF Some] Some 2 unf h1(1) h2(1) by (auto split: option.splits)
    qed
  next
    case 3
    then show ?thesis using unf Nd.prems by simp
  qed
qed

lemma get_repr: "repr h t \<Longrightarrow> avl_get h (root t) k = Some (case t_get t k of None \<Rightarrow> NULL | Some v \<Rightarrow> v)"
  by (induction t) (auto simp: avl_get.simps)

lemma min_repr: "repr h t \<Longrightarrow> t \<noteq> Tip \<Longrightarrow> avl_min h (root t) = Some (root (t_min t)) \<and> repr h (t_min t)"
proof (induction t)
  case (Nd a d l k v r)
  then show ?case by (cases "l = Tip") (auto simp: avl_min.simps)
qed simp

lemma remove_fixup_repr:
  assumes t: "repr h t" "distinct (addrs t)" "t \<noteq> Tip" "hpos (lsub t)" "hpos (rsub t)"
  shows "\<exists>h'. avl_remove_fixup h (root t) = Some (h', root (rem_fix t)) \<and> repr h' (rem_fix t) \<and>
    same_off (set (addrs t)) h h'"
proof -
  define u where "u = upd_ht t"
  have u: "root u = root t" "u \<noteq> Tip" "addrs u = addrs t" "lsub u = lsub t" "rsub u = rsub t"
    using t(3) by (cases t; simp add: u_def)+
  from update_height_repr [OF t(1,2)] obtain h1 where
    h1: "avl_update_height h (root t) = Some h1" "repr h1 u" "same_off (set (addrs t)) h h1"
    unfolding u_def by blast
  have d: "distinct (addrs u)" using t(2) u(3) by simp
  note rot = right_rotate_repr [OF h1(2) d] left_rotate_repr [OF h1(2) d]
    left_right_repr [OF h1(2) d] right_left_repr [OF h1(2) d]
  have tr: "same_off (set (addrs t)) h1 h2 \<Longrightarrow> same_off (set (addrs t)) h h2" for h2
    by (rule same_off_trans [OF h1(3)]) auto
  have hp: "hpos (lsub u)" "hpos (rsub u)" using t(4,5) u(4,5) by auto
  have inner: "bal (lsub u) < 0 \<Longrightarrow> rsub (lsub u) \<noteq> Tip" "bal (rsub u) > 0 \<Longrightarrow> lsub (rsub u) \<noteq> Tip"
    using hp by (cases "lsub u"; cases "rsub u"; auto dest: ht_nonneg)+
  have unf: "avl_remove_fixup h (root t) =
    (if bal u > 1 \<and> bal (lsub u) \<ge> 0 then avl_right_rotate h1 (root u)
     else if bal u > 1 \<and> bal (lsub u) < 0 then avl_left_right h1 (root u)
     else if bal u < -1 \<and> bal (rsub u) \<le> 0 then avl_left_rotate h1 (root u)
     else if bal u < -1 \<and> bal (rsub u) > 0 then avl_right_left h1 (root u)
     else Some (h1, root u))"
    using h1(1) [folded u(1)] h1(2) u(2) unfolding u(1) [symmetric]
    by (simp add: avl_remove_fixup_def deref_repr del: deref_nonnull)
  show ?thesis
    unfolding unf using rot bal_nonempty [OF hp] inner h1(2,3) u(1,3) tr
    by (simp add: rem_fix_def Let_def u_def [symmetric]) (metis not_less)
qed

lemma freed_Some: "bst t \<Longrightarrow> k \<in> keys t \<Longrightarrow> t_freed k t \<noteq> None"
proof (induction k t rule: t_freed.induct)
  case (2 k a h l k' v' r)
  then show ?case using t_min_key [of r] by auto
qed simp

lemma freed_None: "bst t \<Longrightarrow> k \<notin> keys t \<Longrightarrow> t_freed k t = None"
  by (induction k t rule: t_freed.induct) auto

lemma freed_in: "t_freed k t = Some p \<Longrightarrow> p \<in> set (addrs t)"
  by (induction k t rule: t_freed.induct) (auto split: if_splits intro: repr_root_in)

lemma addrs_move_to: "t \<noteq> Tip \<Longrightarrow> distinct (addrs t) \<Longrightarrow> b \<notin> set (addrs t) \<Longrightarrow>
  set (addrs (move_to b t)) = insert b (set (addrs t) - {root t}) \<and> distinct (addrs (move_to b t))"
  by (cases t) auto

lemma addrs_remove:
  "distinct (addrs t) \<Longrightarrow>
   set (addrs (t_remove k t)) = set (addrs t) - set_option (t_freed k t) \<and> distinct (addrs (t_remove k t))"
proof (induction k t rule: t_remove.induct)
  case (2 k a h l k' v' r)
  consider "k < k'" | "k > k'" | "k = k'" "l = Tip" "r = Tip" | "k = k'" "l = Tip" "r \<noteq> Tip"
    | "k = k'" "l \<noteq> Tip" "r = Tip" | "k = k'" "l \<noteq> Tip" "r \<noteq> Tip"
    by linarith
  then show ?case
  proof cases
    case 1
    with 2 freed_in [of k l] show ?thesis by fastforce
  next
    case 2
    with "2.IH"(2) "2.prems" freed_in [of k r] show ?thesis by fastforce
  next
    case 4
    with "2.prems" addrs_move_to [of r a] repr_root_in [of r] show ?thesis by auto
  next
    case 5
    with "2.prems" addrs_move_to [of l a] repr_root_in [of l] show ?thesis by auto
  next
    case 6
    with "2.IH"(3) "2.prems" freed_in [of _ r] show ?thesis by fastforce
  qed simp
qed simp

text \<open>What \<^verbatim>\<open>avl_remove\<close> does at one node before rebalancing, and the rebalancing that follows.\<close>

definition freed_alloc :: "'a allocator \<Rightarrow> 'a \<Rightarrow> ptr option \<Rightarrow> 'a" where
  "freed_alloc A a f = (case f of None \<Rightarrow> a | Some p \<Rightarrow> kf A a p)"

lemma remove_finish:
  assumes u: "repr h2 u" "distinct (addrs u)" "root u = b" "u \<noteq> Tip" "hpos (lsub u)" "hpos (rsub u)"
    "set (addrs u) \<subseteq> X" "same_off X h h2"
  shows "\<exists>h'. avl_remove_fixup h2 b = Some (h', root (rem_fix u)) \<and> repr h' (rem_fix u) \<and> same_off X h h'"
proof -
  have tr: "same_off (set (addrs u)) h2 h3 \<Longrightarrow> same_off X h h3" for h3
    by (rule same_off_trans [OF u(8)]) (use u(7) in auto)
  show ?thesis using remove_fixup_repr [OF u(1,2,4,5,6)] tr unfolding u(3) by blast
qed

lemma move_to_repr:
  assumes "repr h t" "t \<noteq> Tip" "distinct (addrs t)" "b \<notin> set (addrs t)" "b \<noteq> NULL" "h (root t) = Some c"
  shows "repr (h(b \<mapsto> c, root t := None)) (move_to b t)"
  using assms by (cases t) auto

lemma remove_repr:
  "repr h t \<Longrightarrow> distinct (addrs t) \<Longrightarrow> hpos t \<Longrightarrow>
   \<exists>h'. avl_remove A (a, h) (root t) k = Some ((freed_alloc A a (t_freed k t), h'), root (t_remove k t)) \<and>
     repr h' (t_remove k t) \<and> same_off (set (addrs t)) h h'"
proof (induction k t arbitrary: h rule: t_remove.induct)
  case (1 k)
  then show ?case by (simp add: avl_remove.simps freed_alloc_def)
next
  case (2 k b d l k' v' r)
  let ?t = "Nd b d l k' v' r"
  let ?X = "set (addrs ?t)"
  note P = "2.prems"
  consider (lt) "k < k'" | (gt) "k > k'" | (leaf) "k = k'" "l = Tip" "r = Tip" | (onlyr) "k = k'" "l = Tip" "r \<noteq> Tip"
    | (onlyl) "k = k'" "l \<noteq> Tip" "r = Tip" | (two) "k = k'" "l \<noteq> Tip" "r \<noteq> Tip"
    by linarith
  then show ?case
  proof cases
    case lt
    with "2.IH"(1) [of h] P obtain h1 where
      h1: "avl_remove A (a, h) (root l) k = Some ((freed_alloc A a (t_freed k l), h1), root (t_remove k l))"
        "repr h1 (t_remove k l)" "same_off (set (addrs l)) h h1" by auto
    have ad: "b \<notin> set (addrs r)" "set (addrs l) \<inter> insert b (set (addrs r)) = {}"
      "b \<notin> set (addrs (t_remove k l))" "distinct (addrs (Nd b d (t_remove k l) k' v' r))"
      "set (addrs (Nd b d (t_remove k l) k' v' r)) \<subseteq> ?X"
      using P(2) addrs_remove [of l k] by auto
    from set_left_repr [OF P(1) ad(1) h1(3) ad(2) h1(2) ad(3)] obtain h2 where
      h2: "set_left h1 b (root (t_remove k l)) = Some h2" "repr h2 (Nd b d (t_remove k l) k' v' r)"
        "same_off {b} h1 h2" by blast
    have "same_off ?X h h2" by (rule same_off_trans [OF h1(3) h2(3)]) auto
    from remove_finish [OF h2(2) ad(4) _ _ _ _ ad(5) this, of b] P(3) show ?thesis
      using P(1) lt h1(1) h2(1) by (auto simp: avl_remove.simps [of A _ b])
  next
    case gt
    with "2.IH"(2) [of h] P obtain h1 where
      h1: "avl_remove A (a, h) (root r) k = Some ((freed_alloc A a (t_freed k r), h1), root (t_remove k r))"
        "repr h1 (t_remove k r)" "same_off (set (addrs r)) h h1" by auto
    have ad: "b \<notin> set (addrs l)" "set (addrs r) \<inter> insert b (set (addrs l)) = {}"
      "b \<notin> set (addrs (t_remove k r))" "distinct (addrs (Nd b d l k' v' (t_remove k r)))"
      "set (addrs (Nd b d l k' v' (t_remove k r))) \<subseteq> ?X"
      using P(2) addrs_remove [of r k] by auto
    from set_right_repr [OF P(1) ad(1) h1(3) ad(2) h1(2) ad(3)] obtain h2 where
      h2: "set_right h1 b (root (t_remove k r)) = Some h2" "repr h2 (Nd b d l k' v' (t_remove k r))"
        "same_off {b} h1 h2" by blast
    have "same_off ?X h h2" by (rule same_off_trans [OF h1(3) h2(3)]) auto
    from remove_finish [OF h2(2) ad(4) _ _ _ _ ad(5) this, of b] P(3) show ?thesis
      using P(1) gt h1(1) h2(1) by (auto simp: avl_remove.simps [of A _ b])
  next
    case leaf
    with P show ?thesis by (auto simp: avl_remove.simps freed_alloc_def same_off_def)
  next
    case onlyr
    then have r: "repr h r" "distinct (addrs r)" "b \<notin> set (addrs r)" "b \<noteq> NULL" "hpos r" using P by auto
    then obtain c where c: "h (root r) = Some c" "root r \<noteq> NULL" using onlyr(3) by (cases r) auto
    let ?h = "h(b \<mapsto> c, root r := None)"
    have m: "set (addrs (move_to b r)) \<subseteq> ?X" "distinct (addrs (move_to b r))" "root (move_to b r) = b"
      "move_to b r \<noteq> Tip" "same_off ?X h ?h"
      using addrs_move_to [OF onlyr(3) r(2,3)] onlyr(3) by (cases r; auto simp: same_off_def)+
    from remove_finish [OF move_to_repr [OF r(1) onlyr(3) r(2,3,4) c(1)] m(2,3,4) _ _ m(1,5)] show ?thesis
      using P onlyr c by (auto simp: avl_remove.simps [of A _ b] freed_alloc_def Let_def)
  next
    case onlyl
    then have l: "repr h l" "distinct (addrs l)" "b \<notin> set (addrs l)" "b \<noteq> NULL" "hpos l" using P by auto
    then obtain c where c: "h (root l) = Some c" "root l \<noteq> NULL" using onlyl(2) by (cases l) auto
    let ?h = "h(b \<mapsto> c, root l := None)"
    have m: "set (addrs (move_to b l)) \<subseteq> ?X" "distinct (addrs (move_to b l))" "root (move_to b l) = b"
      "move_to b l \<noteq> Tip" "same_off ?X h ?h"
      using addrs_move_to [OF onlyl(2) l(2,3)] onlyl(2) by (cases l; auto simp: same_off_def)+
    from remove_finish [OF move_to_repr [OF l(1) onlyl(2) l(2,3,4) c(1)] m(2,3,4) _ _ m(1,5)] show ?thesis
      using P onlyl c by (auto simp: avl_remove.simps [of A _ b] freed_alloc_def Let_def)
  next
    case two
    let ?m = "t_min r"
    define g where "g = h(b \<mapsto> \<lparr>n_height = d, n_key = tkey ?m, n_value = tval ?m,
      n_left = root l, n_right = root r\<rparr>)"
    have mn: "avl_min h (root r) = Some (root ?m)" "repr h ?m" "?m \<noteq> Tip"
      using min_repr [of h r] t_min_Nd [of r] P(1) two(3) by auto
    have r: "repr g (Nd b d l (tkey ?m) (tval ?m) r)" "same_off {b} h g" "repr g r"
      using P by (auto simp: same_off_def g_def)
    from two "2.IH"(3) [of g] P r(3) obtain h1 where
      h1: "avl_remove A (a, g) (root r) (tkey ?m) =
          Some ((freed_alloc A a (t_freed (tkey ?m) r), h1), root (t_remove (tkey ?m) r))"
        "repr h1 (t_remove (tkey ?m) r)" "same_off (set (addrs r)) g h1" by auto
    have ad: "b \<notin> set (addrs l)" "set (addrs r) \<inter> insert b (set (addrs l)) = {}"
      "b \<notin> set (addrs (t_remove (tkey ?m) r))"
      "distinct (addrs (Nd b d l (tkey ?m) (tval ?m) (t_remove (tkey ?m) r)))"
      "set (addrs (Nd b d l (tkey ?m) (tval ?m) (t_remove (tkey ?m) r))) \<subseteq> ?X"
      using P(2) addrs_remove [of r "tkey ?m"] by auto
    from set_right_repr [OF r(1) ad(1) h1(3) ad(2) h1(2) ad(3)] obtain h2 where
      h2: "set_right h1 b (root (t_remove (tkey ?m) r)) = Some h2"
        "repr h2 (Nd b d l (tkey ?m) (tval ?m) (t_remove (tkey ?m) r))" "same_off {b} h1 h2" by blast
    have "same_off ?X h h2"
      by (rule same_off_trans [OF same_off_trans [OF r(2) h1(3) order_refl] h2(3)]) auto
    from remove_finish [OF h2(2) ad(4) _ _ _ _ ad(5) this, of b] P(3) show ?thesis
      using P(1) two mn h1(1) [unfolded g_def] h2(1) deref_repr [OF P(1)] deref_repr [OF mn(2,3)]
      by (auto simp: avl_remove.simps [of A _ b] simp del: deref_nonnull deref_Some)
  qed
qed

section \<open>Balance under ascending keys\<close>

fun rht :: "atree \<Rightarrow> int" where
  "rht Tip = 0"
| "rht (Nd _ _ l _ _ r) = 1 + max (rht l) (rht r)"

text \<open>A proper AVL tree: stored heights are the heights, and siblings differ by at most one.\<close>

fun avl :: "atree \<Rightarrow> bool" where
  "avl Tip = True"
| "avl (Nd _ h l _ _ r) =
     (h = 1 + max (rht l) (rht r) \<and> \<bar>rht l - rht r\<bar> \<le> 1 \<and> avl l \<and> avl r)"

lemma rht_nonneg [simp]: "0 \<le> rht t"
  by (induction t) auto

lemma avl_ht: "avl t \<Longrightarrow> ht t = rht t"
  by (cases t) auto

lemma avl_hpos: "avl t \<Longrightarrow> hpos t"
proof (induction t)
  case (Nd a h l k v r)
  then show ?case using rht_nonneg [of l] rht_nonneg [of r] by (auto simp: max_def)
qed simp

text \<open>One node of the right spine: the new subtree is at most one higher, and leans right if so.\<close>

lemma ins_fix_spine:
  assumes t: "avl l" "avl r'" "\<bar>rht l - hr\<bar> \<le> 1" "rht r' = hr \<or> rht r' = hr + 1"
    and lean: "rht r' = hr + 1 \<Longrightarrow> 0 < hr \<Longrightarrow> rht (lsub r') < rht (rsub r')"
    and k: "r' \<noteq> Tip \<Longrightarrow> rht r' = hr + 1 \<Longrightarrow> 0 < hr \<Longrightarrow> tkey r' < k" and hr: "0 \<le> hr"
  shows "\<exists>t'. ins_fix k (Nd a d l k' v' r') = Some t' \<and> avl t' \<and>
    (rht t' = 1 + max (rht l) hr \<or> rht t' = 2 + max (rht l) hr \<and> rht (lsub t') < rht (rsub t'))"
proof -
  let ?u = "upd_ht (Nd a d l k' v' r')"
  have b: "bal ?u = rht l - rht r'" using t by (simp add: avl_ht)
  show ?thesis
  proof (cases "rht l - rht r' < -1")
    case False
    with t hr have "ins_fix k (Nd a d l k' v' r') = Some ?u" unfolding ins_fix_def Let_def b by auto
    with False t show ?thesis by (auto simp: avl_ht max_def)
  next
    case True
    with t(3,4) have h: "rht r' = hr + 1" "rht l = hr - 1" by auto
    with rht_nonneg [of l] have h': "0 < hr" by linarith
    from h(1) hr obtain y hy z ky vy yr where r': "r' = Nd y hy z ky vy yr" by (cases r') auto
    with h h' k have "ins_fix k (Nd a d l k' v' r') = Some (lrot ?u)"
      unfolding ins_fix_def Let_def b using True by auto
    moreover have "rht z = hr - 1" "rht yr = hr" using lean h h' t(2) r' by (auto simp: max_def split: if_splits)
    ultimately show ?thesis using t r' h by (auto simp: avl_ht max_def)
  qed
qed

lemma insert_spine:
  assumes "avl t" "bst t" "\<forall>x \<in> keys t. x < k"
  shows "\<exists>t'. t_insert n k v t = Some t' \<and> avl t' \<and>
    (rht t' = rht t \<or> rht t' = rht t + 1 \<and> (t \<noteq> Tip \<longrightarrow> rht (lsub t') < rht (rsub t')))"
  using assms
proof (induction t)
  case (Nd a d l k' v' r)
  then obtain r' where r': "t_insert n k v r = Some r'" "avl r'"
    "rht r' = rht r \<or> rht r' = rht r + 1 \<and> (r \<noteq> Tip \<longrightarrow> rht (lsub r') < rht (rsub r'))" by auto
  have top: "tkey r' < k" if "rht (lsub r') < rht (rsub r')"
  proof -
    from that obtain y hy z ky vy yr where eq: "r' = Nd y hy z ky vy yr" by (cases r') auto
    with that obtain x where "x \<in> keys yr" using rht_nonneg [of z] by (cases yr) auto
    moreover from this have "x \<in> insert k (keys r)" using keys_insert [OF r'(1)] eq by auto
    moreover have "bst r'" using bst_insert [OF r'(1)] Nd.prems(2) by simp
    ultimately have "x \<le> k" "ky < x" using eq Nd.prems(3) by (auto simp: order.order_iff_strict)
    then show ?thesis using eq by simp
  qed
  have "0 < rht r \<Longrightarrow> r \<noteq> Tip" by auto
  with r' top Nd.prems have "\<exists>t'. ins_fix k (Nd a d l k' v' r') = Some t' \<and> avl t' \<and>
    (rht t' = 1 + max (rht l) (rht r) \<or> rht t' = 2 + max (rht l) (rht r) \<and> rht (lsub t') < rht (rsub t'))"
    by (intro ins_fix_spine) auto
  with r'(1) Nd.prems(3) show ?case by auto
qed auto

end
