(* ===== verification/Avl_Table.thy ===== *)
theory Avl_Table
  imports Avl_Tree
begin

text \<open>
  What the kernel gets from \<^verbatim>\<open>src/avltree.c\<close>: finite maps from integer keys to pointers. A table is a
  root pointer together with the part of the store it reaches. The theorems are about the C functions
  of the theory of the tree; the map laws are stated once, as a locale, and interpreted on the
  trees.
\<close>

section \<open>The map interface\<close>

text \<open>
  The contract of a search structure whose insertion keeps an existing entry and may fail. The
  laws a client uses follow from it once.
\<close>

locale keyed_map =
  fixes inv :: "'t \<Rightarrow> bool"
    and lookup :: "'t \<Rightarrow> int \<Rightarrow> ptr option"
    and ins :: "ptr \<Rightarrow> int \<Rightarrow> ptr \<Rightarrow> 't \<Rightarrow> 't option"
    and del :: "int \<Rightarrow> 't \<Rightarrow> 't"
  assumes inv_ins: "inv t \<Longrightarrow> ins n k v t = Some t' \<Longrightarrow> inv t'"
    and inv_del: "inv t \<Longrightarrow> inv (del k t)"
    and lookup_ins: "inv t \<Longrightarrow> ins n k v t = Some t' \<Longrightarrow>
      lookup t' = (if lookup t k = None then (lookup t)(k \<mapsto> v) else lookup t)"
    and lookup_del: "inv t \<Longrightarrow> lookup (del k t) = (lookup t)(k := None)"
begin

lemma ins_old: "inv t \<Longrightarrow> lookup t k = Some w \<Longrightarrow> ins n k v t = Some t' \<Longrightarrow> lookup t' = lookup t"
  by (simp add: lookup_ins)

lemma ins_other: "inv t \<Longrightarrow> ins n k v t = Some t' \<Longrightarrow> j \<noteq> k \<Longrightarrow> lookup t' j = lookup t j"
  by (simp add: lookup_ins)

lemma del_ins_new: "inv t \<Longrightarrow> lookup t k = None \<Longrightarrow> ins n k v t = Some t' \<Longrightarrow> lookup (del k t') = lookup t"
  by (simp add: lookup_ins lookup_del inv_ins fun_upd_idem)

lemma ins_del: "inv t \<Longrightarrow> ins n k v (del k t) = Some t' \<Longrightarrow> lookup t' = (lookup t)(k \<mapsto> v)"
  using lookup_ins [OF inv_del [of t k]] by (simp add: lookup_del)

end

interpretation tab: keyed_map "\<lambda>t. bst t \<and> hpos t" t_get t_insert t_remove
proof (unfold_locales, goal_cases)
  case (1 t n k v t')
  then show ?case using bst_insert hpos_insert by blast
next
  case (2 t k)
  then show ?case using keys_bst_remove by simp
next
  case (3 t n k v t')
  then show ?case using get_insert get_None_iff by metis
next
  case (4 t k)
  then show ?case using get_remove by blast
qed

section \<open>Tables in the store\<close>

text \<open>
  A table as the kernel holds it: a root pointer into the store that represents the finite map
  \<open>m\<close> on the nodes at the addresses \<open>X\<close>.
\<close>

definition avl_table :: "avl_store \<Rightarrow> ptr \<Rightarrow> (int \<rightharpoonup> ptr) \<Rightarrow> ptr set \<Rightarrow> bool" where
  "avl_table h p m X \<longleftrightarrow> (\<exists>t. repr h t \<and> root t = p \<and> distinct (addrs t) \<and> set (addrs t) = X \<and>
     bst t \<and> hpos t \<and> t_get t = m)"

lemma dom_get: "bst t \<Longrightarrow> dom (t_get t) = keys t"
  using get_None_iff [of t] by (auto simp: dom_def)

lemma set_addrs_insert:
  "t_insert n k v t = Some t' \<Longrightarrow>
   set (addrs t') = (if t_get t k = None then insert n (set (addrs t)) else set (addrs t))"
proof (induction t arbitrary: t')
  case (Nd a h l k' v' r)
  from Nd.prems show ?case
  proof (cases rule: insert_NdE)
    case (left l')
    with Nd.IH(1) [OF left(2)] ins_fix_keeps(4) [OF left(3)] show ?thesis by auto
  next
    case (right r')
    with Nd.IH(2) [OF right(2)] ins_fix_keeps(4) [OF right(3)] show ?thesis by auto
  qed simp
qed auto

text \<open>A run of insertions, in the store and in the tree (with a supply of node addresses).\<close>

fun avl_insert_all :: "'a allocator \<Rightarrow> 'a \<times> avl_store \<Rightarrow> ptr \<Rightarrow> (int \<times> ptr) list \<Rightarrow> (('a \<times> avl_store) \<times> ptr) option" where
  "avl_insert_all A s p [] = Some (s, p)"
| "avl_insert_all A s p ((k, v) # kvs) = do { (s, p) \<leftarrow> avl_insert A s p k v; avl_insert_all A s p kvs }"

fun t_insert_all :: "(int \<times> ptr) list \<Rightarrow> ptr list \<Rightarrow> atree \<Rightarrow> atree option" where
  "t_insert_all ((k, v) # kvs) (n # ns) t = do { t \<leftarrow> t_insert n k v t; t_insert_all kvs ns t }"
| "t_insert_all _ _ t = Some t"

lemma insert_alloc_fails:
  assumes "km A a 20 = None \<or> km A a 20 = Some (a1, NULL)"
  shows "repr h t \<Longrightarrow> t_get t k = None \<Longrightarrow> avl_insert A (a, h) (root t) k v = None"
proof (induction t)
  case (Nd b d l k' v' r)
  then show ?case by (auto simp: avl_insert.simps [of A _ b] split: if_splits)
qed (use assms in \<open>auto simp: avl_insert.simps avl_new_def\<close>)

context kernel_heap
begin

text \<open>A run of insertions of new keys that crashes in the tree crashes in the store, on any heap: an
  allocation that fails on the way is a write through NULL as well.\<close>

lemma insert_all_crash:
  assumes "\<And>ns. length ns = length kvs \<Longrightarrow> t_insert_all kvs ns t = None"
    and "repr h t" "distinct (addrs t)" "hpos t" "bst t" "set (addrs t) \<subseteq> live a"
    and "distinct (map fst kvs)" "set (map fst kvs) \<inter> keys t = {}"
  shows "avl_insert_all A (a, h) (root t) kvs = None"
  using assms
proof (induction kvs arbitrary: t a h)
  case Nil
  then show ?case by simp
next
  case (Cons kv kvs)
  obtain k v where kv: "kv = (k, v)" by force
  have k: "t_get t k = None" using Cons.prems(5,8) kv by (simp add: get_None_iff)
  show ?case
  proof (cases "\<exists>a1 n. km A a 20 = Some (a1, n) \<and> n \<noteq> NULL")
    case False
    then have "km A a 20 = None \<or> km A a 20 = Some (fst (the (km A a 20)), NULL)"
      by (cases "km A a 20") auto
    from insert_alloc_fails [OF this Cons.prems(2) k] kv show ?thesis by simp
  next
    case True
    then obtain a1 n where km: "km A a 20 = Some (a1, n)" "n \<noteq> NULL" by blast
    note n = km_fresh_disjoint [OF km Cons.prems(6)]
    note R = insert_repr [OF km Cons.prems(2,3,4) n(1), of k v]
    show ?thesis
    proof (cases "t_insert n k v t")
      case None
      with R kv show ?thesis by simp
    next
      case (Some t')
      with R k obtain h' where h': "avl_insert A (a, h) (root t) k v = Some ((a1, h'), root t')" "repr h' t'"
        by auto
      have "avl_insert_all A (a1, h') (root t') kvs = None"
      proof (rule Cons.IH)
        fix ns :: "ptr list"
        assume "length ns = length kvs"
        then show "t_insert_all kvs ns t' = None" using Cons.prems(1) [of "n # ns"] kv Some by simp
      qed (use h'(2) distinct_insert [OF Some] hpos_insert [OF Some] bst_insert [OF Some] Cons.prems n
        keys_insert [OF Some] addrs_insert [OF Some] kv in auto)
      with h'(1) kv show ?thesis by simp
    qed
  qed
qed

end

text \<open>An example table: key 9 to the right of key 5, both in a heap whose next block is at 192.\<close>

definition ex_tree :: atree where
  "ex_tree = Nd 64 2 Tip 5 1 (Nd 128 1 Tip 9 2 Tip)"

definition ex_store :: avl_store where
  "ex_store = [64 \<mapsto> \<lparr>n_height = 2, n_key = 5, n_value = 1, n_left = NULL, n_right = 128\<rparr>,
               128 \<mapsto> \<lparr>n_height = 1, n_key = 9, n_value = 2, n_left = NULL, n_right = NULL\<rparr>]"

lemma ex_repr: "repr ex_store ex_tree" "distinct (addrs ex_tree)" "hpos ex_tree" "bst ex_tree" "avl ex_tree"
  "set (addrs ex_tree) = {64, 128}" "root ex_tree = 64"
  by (auto simp: ex_tree_def ex_store_def)

lemma ex_get: "t_get ex_tree = [5 \<mapsto> 1, 9 \<mapsto> 2]"
  by (auto simp: ex_tree_def fun_eq_iff)

lemma ex_table: "avl_table ex_store 64 [5 \<mapsto> 1, 9 \<mapsto> 2] {64, 128}"
  unfolding avl_table_def using ex_repr ex_get by (intro exI [of _ ex_tree]) simp

text \<open>Keys 3, 2, 1 inserted in this order, just before the rotation that the third one asks for.\<close>

definition ex_spine :: avl_store where
  "ex_spine = [64 \<mapsto> \<lparr>n_height = 3, n_key = 3, n_value = 1, n_left = 128, n_right = NULL\<rparr>,
               128 \<mapsto> \<lparr>n_height = 2, n_key = 2, n_value = 1, n_left = 192, n_right = NULL\<rparr>,
               192 \<mapsto> \<lparr>n_height = 1, n_key = 1, n_value = 1, n_left = NULL, n_right = NULL\<rparr>]"

lemma ex_spine_repr:
  "repr ex_spine (Nd 64 3 (Nd 128 2 (Nd 192 1 Tip 1 1 Tip) 2 1 Tip) 3 1 Tip)"
  "distinct (addrs (Nd 64 3 (Nd 128 2 (Nd 192 1 Tip 1 1 Tip) 2 1 Tip) 3 1 Tip))"
  by (simp_all add: ex_spine_def)

lemma ex_km: "km bump_alloc 192 20 = Some (256, 192)"
  by (simp add: bump_alloc_def)

lemma insert_table:
  assumes "avl_table h p m X" "km A a 20 = Some (a1, n)" "n \<noteq> NULL" "n \<notin> X"
    and "avl_insert A (a, h) p k v = Some ((a', h'), p')"
  shows "avl_table h' p' (if k \<in> dom m then m else m(k \<mapsto> v)) (if k \<in> dom m then X else insert n X) \<and>
    a' = (if k \<in> dom m then a else a1) \<and> same_off (insert n X) h h'"
proof -
  from assms(1) obtain t where t: "repr h t" "root t = p" "distinct (addrs t)" "set (addrs t) = X"
    "bst t" "hpos t" "t_get t = m" by (auto simp: avl_table_def)
  have nX: "n \<notin> set (addrs t)" using assms(4) t(4) by simp
  note R = insert_repr [OF assms(2,3) t(1,3,6) nX, of k v]
  obtain t' where t': "t_insert n k v t = Some t'"
    using R assms(5) t(2) by (cases "t_insert n k v t") auto
  with R assms(5) t(2) have c: "a' = (if t_get t k = None then a1 else a)" "p' = root t'" "repr h' t'"
    "same_off (insert n X) h h'" by (auto simp: t(4))
  have "avl_table h' p' (if k \<in> keys t then m else m(k \<mapsto> v)) (if t_get t k = None then insert n X else X)"
    unfolding avl_table_def
    using c(2,3) distinct_insert [OF t' t(3) nX] bst_insert [OF t' t(5)] hpos_insert [OF t' t(6)]
      get_insert [OF t' t(5)] set_addrs_insert [OF t'] t(4,7) by (intro exI [of _ t']) auto
  with c(1,4) get_None_iff [OF t(5), of k] dom_get [OF t(5)] t(7) show ?thesis by (auto split: if_splits)
qed

lemma remove_table:
  assumes "avl_table h p m X"
  shows "\<exists>h' p' f. avl_remove A (a, h) p k = Some ((freed_alloc A a f, h'), p') \<and>
    avl_table h' p' (m(k := None)) (X - set_option f) \<and> same_off X h h' \<and>
    set_option f \<subseteq> X \<and> (f \<noteq> None \<longleftrightarrow> k \<in> dom m)"
proof -
  from assms obtain t where t: "repr h t" "root t = p" "distinct (addrs t)" "set (addrs t) = X"
    "bst t" "hpos t" "t_get t = m" by (auto simp: avl_table_def)
  from remove_repr [OF t(1,3,6), of A a k] obtain h' where
    h': "avl_remove A (a, h) p k = Some ((freed_alloc A a (t_freed k t), h'), root (t_remove k t))"
      "repr h' (t_remove k t)" "same_off X h h'" using t(2,4) by auto
  have "avl_table h' (root (t_remove k t)) (m(k := None)) (X - set_option (t_freed k t))"
    unfolding avl_table_def
    using h'(2) addrs_remove [OF t(3), of k] keys_bst_remove [OF t(5), of k] t(4,6,7) get_remove [OF t(5), of k]
    by (intro exI [of _ "t_remove k t"]) auto
  moreover have "t_freed k t \<noteq> None \<longleftrightarrow> k \<in> dom m"
    unfolding dom_get [OF t(5), unfolded t(7)]
    using freed_Some [OF t(5), of k] freed_None [OF t(5), of k] by (cases "k \<in> keys t") simp_all
  moreover have "set_option (t_freed k t) \<subseteq> X" using freed_in [of k t] t(4) by auto
  ultimately show ?thesis using h'(1,3) by blast
qed

lemma get_table:
  assumes "avl_table h p m X"
  shows "avl_get h p k = Some (case m k of None \<Rightarrow> NULL | Some v \<Rightarrow> v)"
  using assms get_repr by (auto simp: avl_table_def)

lemma table_frame: "avl_table h p m X \<Longrightarrow> same_off Y h h' \<Longrightarrow> X \<inter> Y = {} \<Longrightarrow> avl_table h' p m X"
  unfolding avl_table_def using repr_frame by (metis Int_commute)

lemma table_empty: "avl_table h NULL Map.empty {}"
  unfolding avl_table_def by (intro exI [of _ Tip]) auto

lemma t_insert_all_crash_gen:
  assumes "length vs = 9" "length ns = 9"
  shows "t_insert_all (zip [5, 9, 6, 0, 2, 7, 1, 8, 3] vs) ns Tip = None"
proof -
  obtain a b c d e f g h i where "ns = [a, b, c, d, e, f, g, h, i]"
    using assms(2) by (auto simp: numeral_eq_Suc length_Suc_conv)
  moreover obtain a' b' c' d' e' f' g' h' i' where "vs = [a', b', c', d', e', f', g', h', i']"
    using assms(1) by (auto simp: numeral_eq_Suc length_Suc_conv)
  ultimately show ?thesis by (simp add: ins_fix_def Let_def)
qed

lemma t_insert_all_crash:
  "length ns = 9 \<Longrightarrow>
   t_insert_all [(5, v), (9, v), (6, v), (0, v), (2, v), (7, v), (1, v), (8, v), (3, v)] ns Tip = None"
  using t_insert_all_crash_gen [of "replicate 9 v" ns] by (simp add: numeral_eq_Suc)

text \<open>C30. Inserting with \<^verbatim>\<open>avl_insert\<close> into a table that stands for the finite map \<open>m\<close>, when the run
  returns: the new root stands for \<open>m\<close> with the entry added, or for \<open>m\<close> itself if the key was there
  (an existing value is not replaced, and then nothing is allocated). Exactly one node is added, at
  the block \<^verbatim>\<open>kmalloc\<close> handed out, and no node outside of the table is touched.\<close>

theorem avl_insert_table:
  assumes "avl_table h p m X" "km A a 20 = Some (a1, n)" "n \<noteq> NULL" "n \<notin> X"
    and "avl_insert A (a, h) p k v = Some ((a', h'), p')"
  shows "avl_table h' p' (if k \<in> dom m then m else m(k \<mapsto> v)) (if k \<in> dom m then X else insert n X) \<and>
    a' = (if k \<in> dom m then a else a1) \<and> same_off (insert n X) h h'"
  using insert_table [OF assms] .

theorem avl_insert_table_witness:
  "\<exists>h' p'. avl_insert bump_alloc (192, ex_store) 64 7 3 = Some ((256, h'), p') \<and>
     avl_table h' p' [5 \<mapsto> 1, 9 \<mapsto> 2, 7 \<mapsto> 3] {64, 128, 192}"
proof -
  have ins: "t_insert 192 7 3 ex_tree = Some (Nd 192 2 (Nd 64 1 Tip 5 1 Tip) 7 3 (Nd 128 1 Tip 9 2 Tip))"
    by (simp add: ex_tree_def ins_fix_def Let_def)
  have n: "192 \<notin> set (addrs ex_tree)" "t_get ex_tree 7 = None" by (simp_all add: ex_tree_def)
  from insert_repr [OF ex_km _ ex_repr(1,2,3) n(1), of 7 3] ins n(2) ex_repr(7) obtain h' p' where
    r: "avl_insert bump_alloc (192, ex_store) 64 7 3 = Some ((256, h'), p')" by auto
  from avl_insert_table [OF ex_table ex_km _ _ r] r show ?thesis
    by (auto simp: insert_commute fun_upd_twist)
qed

text \<open>Inserting the keys 5, 9, 6, 0, 2, 7, 1, 8, 3 in this order into an empty tree does not return, on
  any kernel heap: the height that \<^verbatim>\<open>avl_right_rotate\<close> leaves stale makes a later rotation follow a NULL
  child pointer. Port identifiers are keys chosen by user processes.\<close>

theorem avl_insert_null_dereference:
  assumes "kernel_heap A live"
  shows "avl_insert_all A (a, \<lambda>_. None) NULL
     [(5, v), (9, v), (6, v), (0, v), (2, v), (7, v), (1, v), (8, v), (3, v)] = None"
  using kernel_heap.insert_all_crash [OF assms, of "[(5, v), (9, v), (6, v), (0, v), (2, v), (7, v), (1, v), (8, v), (3, v)]" Tip]
    t_insert_all_crash by simp

theorem avl_insert_null_dereference_witness:
  "avl_insert_all bump_alloc (64, \<lambda>_. None) NULL
     [(5, 1), (9, 1), (6, 1), (0, 1), (2, 1), (7, 1), (1, 1), (8, 1), (3, 1)] = None"
  by (rule avl_insert_null_dereference [OF bump.kernel_heap_axioms])



text \<open>\<^verbatim>\<open>avl_get\<close> always returns on a table: the value of the key, or NULL when there is none.\<close>

theorem avl_get_table:
  assumes "avl_table h p m X"
  shows "avl_get h p k = Some (case m k of None \<Rightarrow> NULL | Some v \<Rightarrow> v)"
  using get_table [OF assms] .

theorem avl_get_table_witness:
  "avl_get ex_store 64 9 = Some 2 \<and> avl_get ex_store 64 6 = Some NULL"
  using avl_get_table [OF ex_table, of 9] avl_get_table [OF ex_table, of 6] by simp

text \<open>Keys inserted in ascending order, as the kernel assigns process identifiers, are safe: into a
  search tree with correct heights and AVL balance, \<^verbatim>\<open>avl_insert\<close> of a key above all others returns
  whenever the allocation succeeds, and the tree is again a search tree with correct heights and AVL
  balance that has gained this entry.\<close>

theorem avl_insert_ascending:
  assumes "repr h t" "distinct (addrs t)" "bst t" "avl t" "\<forall>x \<in> keys t. x < k"
    and "km A a 20 = Some (a1, n)" "n \<noteq> NULL" "n \<notin> set (addrs t)"
  shows "\<exists>t' h'. avl_insert A (a, h) (root t) k v = Some ((a1, h'), root t') \<and> repr h' t' \<and> avl t' \<and>
    bst t' \<and> t_get t' = (t_get t)(k \<mapsto> v)"
proof -
  have k: "k \<notin> keys t" using assms(5) by auto
  from insert_spine [OF assms(4,3,5)] obtain t' where t': "t_insert n k v t = Some t'" "avl t'" by blast
  have "t_get t k = None" using k get_None_iff [OF assms(3)] by simp
  with insert_repr [OF assms(6,7,1,2) avl_hpos [OF assms(4)] assms(8), of k v] t' obtain h' where
    "avl_insert A (a, h) (root t) k v = Some ((a1, h'), root t')" "repr h' t'" by auto
  with t' get_insert [OF t'(1) assms(3)] bst_insert [OF t'(1) assms(3)] k show ?thesis by auto
qed

theorem avl_insert_ascending_witness:
  "\<exists>t' h'. avl_insert bump_alloc (192, ex_store) 64 12 3 = Some ((256, h'), root t') \<and> repr h' t' \<and> avl t' \<and>
     t_get t' 12 = Some 3"
proof -
  have "\<forall>x \<in> keys ex_tree. x < 12" "192 \<notin> set (addrs ex_tree)" by (auto simp: ex_tree_def)
  from avl_insert_ascending [OF ex_repr(1,2,4,5) this(1) ex_km _ this(2), of 3] ex_repr(7)
  show ?thesis by fastforce
qed

text \<open>\<^verbatim>\<open>avl_right_rotate\<close> updates the new root before the node below it, so that the height it records
  is not that of the rotated tree: on a left-heavy tree with correct heights the recorded value is
  strictly larger.\<close>

theorem avl_right_rotate_stale_height:
  assumes "repr h (Nd y hy (Nd x hx xl kx vx z) ky vy yr)" "distinct (addrs (Nd y hy (Nd x hx xl kx vx z) ky vy yr))"
    and "avl xl" "avl z" "avl yr" "hy = 1 + max (1 + max (rht xl) (rht z)) (rht yr)" "rht yr < rht xl"
  shows "\<exists>h'. avl_right_rotate h y = Some (h', x) \<and>
    avl_height h' x = Some (3 + max (rht xl) (rht z))
    \<and> rht (rrot (Nd y hy (Nd x hx xl kx vx z) ky vy yr)) < 3 + max (rht xl) (rht z)"
proof -
  let ?t = "Nd y hy (Nd x hx xl kx vx z) ky vy yr"
  from right_rotate_repr [OF assms(1,2)] obtain h' where
    h': "avl_right_rotate h y = Some (h', x)" "repr h' (rrot ?t)" by auto
  from height_repr [OF h'(2)] have "avl_height h' x = Some (1 + max (ht xl) hy)" by simp
  moreover have hy: "hy = 2 + max (rht xl) (rht z)" using assms(6,7) by linarith
  moreover have "1 + max (rht xl) (1 + max (rht z) (rht yr)) < 3 + max (rht xl) (rht z)"
    using assms(7) by linarith
  ultimately show ?thesis using h'(1) assms(3) by (simp add: avl_ht)
qed


theorem avl_right_rotate_stale_height_witness:
  "\<exists>h'. avl_right_rotate ex_spine 64 = Some (h', 128) \<and> avl_height h' 128 = Some 4"
  using avl_right_rotate_stale_height [OF ex_spine_repr(1,2)] by simp

end
