(* ===== verification/Priority_Queue.thy ===== *)
theory Priority_Queue
  imports Prelude "HOL-Library.Multiset"
begin

text \<open>
  The scheduler's run queue, \<^verbatim>\<open>src/priorityqueue.c\<close>: a binary heap in an array of
  \<^verbatim>\<open>capacity\<close> nodes of which the first \<^verbatim>\<open>size\<close> are in use. The array is modelled with all its
  cells, because \<^verbatim>\<open>heapify\<close> reads the cell just past the last one in use. Indices are natural
  numbers: the code's \<^verbatim>\<open>size_t\<close> products stay below \<open>2 * capacity + 2\<close>, which the \<^verbatim>\<open>int\<close>
  capacity keeps within 32 bits.
\<close>

section \<open>The code\<close>

record priority_queue_node_t =
  pq_value :: ptr
  pq_priority :: int

record priority_queue_t =
  q_heap :: "priority_queue_node_t list"
  q_size :: nat
  q_capacity :: nat

text \<open>\<^verbatim>\<open>buffer = heap[i]; heap[i] = heap[j]; heap[j] = buffer\<close>.\<close>

definition swap_nodes :: "priority_queue_node_t list \<Rightarrow> nat \<Rightarrow> nat \<Rightarrow> priority_queue_node_t list option" where
  "swap_nodes xs i j = do {
     buffer \<leftarrow> arr_get xs i;
     y \<leftarrow> arr_get xs j;
     xs \<leftarrow> arr_set xs i y;
     arr_set xs j buffer
   }"

function heapify :: "priority_queue_t \<Rightarrow> nat \<Rightarrow> priority_queue_t option" where
  "heapify queue i =
     (if i * 2 + 1 \<ge> q_size queue then Some queue
      else do {
        let heap = q_heap queue;
        p \<leftarrow> arr_get heap i;
        l \<leftarrow> arr_get heap (i * 2 + 1);
        go_left \<leftarrow>
          (if pq_priority l \<le> pq_priority p
           then do { r \<leftarrow> arr_get heap (i * 2 + 2); Some (pq_priority l \<le> pq_priority r) }
           else Some False);
        if go_left then do {
          heap \<leftarrow> swap_nodes heap i (i * 2 + 1);
          heapify (queue\<lparr>q_heap := heap\<rparr>) (i * 2 + 1) }
        else do {
          r \<leftarrow> arr_get heap (i * 2 + 2);
          if pq_priority r \<le> pq_priority p \<and> pq_priority r \<le> pq_priority l then do {
            heap \<leftarrow> swap_nodes heap i (i * 2 + 2);
            heapify (queue\<lparr>q_heap := heap\<rparr>) (i * 2 + 2) }
          else Some queue }
      })"
  by pat_completeness auto
termination by (relation "measure (\<lambda>(q, i). q_size q - i)") auto

text \<open>\<^verbatim>\<open>cells\<close> is what the block handed out by \<^verbatim>\<open>kmalloc\<close> holds; the code leaves it as it is.
  \<^verbatim>\<open>sizeof(struct priority_queue_node_t)\<close> is 8.\<close>

definition construct_priority_queue ::
  "'a allocator \<Rightarrow> 'a \<Rightarrow> priority_queue_node_t list \<Rightarrow> nat \<Rightarrow> ('a \<times> priority_queue_t option \<times> error_t) option" where
  "construct_priority_queue A a cells capacity = do {
     (a, p) \<leftarrow> km A a (8 * of_nat capacity);
     if p = NULL then Some (a, None, ENOMEM)
     else Some (a, Some \<lparr>q_heap = cells, q_size = 0, q_capacity = capacity\<rparr>, ENONE)
   }"

definition priorityqueue_extract_min :: "priority_queue_t \<Rightarrow> (priority_queue_t \<times> ptr) option" where
  "priorityqueue_extract_min queue =
     (if q_size queue = 0 then Some (queue, NULL)
      else do {
        let queue = queue\<lparr>q_size := q_size queue - 1\<rparr>;
        n \<leftarrow> arr_get (q_heap queue) 0;
        let value = pq_value n;
        x \<leftarrow> arr_get (q_heap queue) (q_size queue);
        heap \<leftarrow> arr_set (q_heap queue) 0 x;
        queue \<leftarrow> heapify (queue\<lparr>q_heap := heap\<rparr>) 0;
        Some (queue, value)
      })"

text \<open>The loop of \<^verbatim>\<open>priorityqueue_insert\<close> that moves larger parents down.\<close>

fun shift_parents ::
  "priority_queue_node_t list \<Rightarrow> nat \<Rightarrow> int \<Rightarrow> (priority_queue_node_t list \<times> nat) option" where
  "shift_parents heap i priority =
     (if i > 0 then do {
        p \<leftarrow> arr_get heap ((i - 1) div 2);
        if pq_priority p > priority then do {
          heap \<leftarrow> arr_set heap i p;
          shift_parents heap ((i - 1) div 2) priority }
        else Some (heap, i) }
      else Some (heap, i))"

declare shift_parents.simps [simp del] heapify.simps [simp del]

definition priorityqueue_insert :: "priority_queue_t \<Rightarrow> ptr \<Rightarrow> int \<Rightarrow> (priority_queue_t \<times> error_t) option" where
  "priorityqueue_insert queue value priority =
     (if q_size queue = q_capacity queue then Some (queue, ENOMEM)
      else do {
        let i = q_size queue;
        let queue = queue\<lparr>q_size := q_size queue + 1\<rparr>;
        (heap, i) \<leftarrow> shift_parents (q_heap queue) i priority;
        heap \<leftarrow> arr_set heap i \<lparr>pq_value = value, pq_priority = priority\<rparr>;
        Some (queue\<lparr>q_heap := heap\<rparr>, ENONE)
      })"

text \<open>\<^verbatim>\<open>for(i = 0; i < size; i++) if(heap[i].value == value)\<close>: the first such index.\<close>

function find_value :: "priority_queue_node_t list \<Rightarrow> nat \<Rightarrow> ptr \<Rightarrow> nat \<Rightarrow> nat option option" where
  "find_value heap n value i =
     (if i < n then do {
        x \<leftarrow> arr_get heap i;
        if pq_value x = value then Some (Some i) else find_value heap n value (i + 1) }
      else Some None)"
  by pat_completeness auto
termination by (relation "measure (\<lambda>(h, n, v, i). n - i)") auto

declare find_value.simps [simp del]

definition priorityqueue_remove :: "priority_queue_t \<Rightarrow> ptr \<Rightarrow> (priority_queue_t \<times> error_t) option" where
  "priorityqueue_remove queue value = do {
     found \<leftarrow> find_value (q_heap queue) (q_size queue) value 0;
     case found of
       None \<Rightarrow> Some (queue, EOUTOFBOUNDS)
     | Some i \<Rightarrow> do {
         let queue = queue\<lparr>q_size := q_size queue - 1\<rparr>;
         x \<leftarrow> arr_get (q_heap queue) (q_size queue);
         heap \<leftarrow> arr_set (q_heap queue) i x;
         queue \<leftarrow> heapify (queue\<lparr>q_heap := heap\<rparr>) i;
         Some (queue, ENONE) }
   }"

section \<open>Heap order\<close>

definition parent :: "nat \<Rightarrow> nat" where
  "parent j = (j - 1) div 2"

abbreviation prio :: "priority_queue_node_t list \<Rightarrow> nat \<Rightarrow> int" where
  "prio xs i \<equiv> pq_priority (xs ! i)"

definition heap_ordered :: "priority_queue_node_t list \<Rightarrow> nat \<Rightarrow> bool" where
  "heap_ordered xs n \<longleftrightarrow> (\<forall>j < n. 0 < j \<longrightarrow> prio xs (parent j) \<le> prio xs j)"

text \<open>Ordered but for the node at \<open>i\<close>, which may be too large for its children.\<close>

definition ordered_above :: "priority_queue_node_t list \<Rightarrow> nat \<Rightarrow> nat \<Rightarrow> bool" where
  "ordered_above xs n i \<longleftrightarrow>
     (\<forall>j < n. 0 < j \<longrightarrow> parent j \<noteq> i \<longrightarrow> prio xs (parent j) \<le> prio xs j) \<and>
     (\<forall>j < n. 0 < j \<longrightarrow> parent j = i \<longrightarrow> 0 < i \<longrightarrow> prio xs (parent i) \<le> prio xs j)"

definition pq_inv :: "priority_queue_t \<Rightarrow> bool" where
  "pq_inv q \<longleftrightarrow> q_size q \<le> q_capacity q \<and> length (q_heap q) = q_capacity q"

definition pq_ordered :: "priority_queue_t \<Rightarrow> bool" where
  "pq_ordered q \<longleftrightarrow> heap_ordered (q_heap q) (q_size q)"

definition contents :: "priority_queue_t \<Rightarrow> priority_queue_node_t multiset" where
  "contents q = mset (take (q_size q) (q_heap q))"

lemma parent_div: "(j - 1) div 2 = parent j" "(j - Suc 0) div 2 = parent j"
  by (simp_all add: parent_def)

lemma parent_less: "0 < j \<Longrightarrow> parent j < j"
  by (auto simp: parent_def)

lemma parent_children [simp]: "parent (i * 2 + 1) = i" "parent (i * 2 + 2) = i"
  "parent (Suc (i * 2)) = i" "parent (Suc (Suc (i * 2))) = i"
  by (auto simp: parent_def)

lemma parent_eq: "0 < j \<Longrightarrow> parent j = i \<longleftrightarrow> j = i * 2 + 1 \<or> j = i * 2 + 2"
  by (auto simp: parent_def)

lemma root_minimal: "heap_ordered xs n \<Longrightarrow> j < n \<Longrightarrow> prio xs 0 \<le> prio xs j"
proof (induction j rule: less_induct)
  case (less j)
  show ?case
  proof (cases "j = 0")
    case False
    then have "prio xs 0 \<le> prio xs (parent j)" using less parent_less [of j] by simp
    also have "\<dots> \<le> prio xs j" using less.prems False by (simp add: heap_ordered_def)
    finally show ?thesis .
  qed simp
qed

section \<open>Sifting down\<close>

definition swapped :: "'a list \<Rightarrow> nat \<Rightarrow> nat \<Rightarrow> 'a list" where
  "swapped xs i j = xs[i := xs ! j, j := xs ! i]"

lemma swap_nodes_in: "i < length xs \<Longrightarrow> j < length xs \<Longrightarrow> swap_nodes xs i j = Some (swapped xs i j)"
  by (simp add: swap_nodes_def swapped_def)

lemma length_swapped [simp]: "length (swapped xs i j) = length xs"
  by (simp add: swapped_def)

lemma nth_swapped:
  "i < length xs \<Longrightarrow> j < length xs \<Longrightarrow>
   swapped xs i j ! k = (if k = j then xs ! i else if k = i then xs ! j else xs ! k)"
  by (simp add: swapped_def nth_list_update)

lemma mset_take_swapped:
  "i < n \<Longrightarrow> j < n \<Longrightarrow> n \<le> length xs \<Longrightarrow> mset (take n (swapped xs i j)) = mset (take n xs)"
  using mset_swap [of j "take n xs" i] by (simp add: swapped_def take_update_swap)

lemma swapped_same: "i < length xs \<Longrightarrow> xs ! j = xs ! i \<Longrightarrow> swapped xs i j = xs"
  by (metis list_update_id swapped_def)

lemma ordered_above_swap:
  assumes o: "ordered_above xs n i" and c: "parent c = i" "0 < c" "c < n" "n \<le> length xs"
    and le: "prio xs c \<le> prio xs i" "\<And>j. j < n \<Longrightarrow> 0 < j \<Longrightarrow> parent j = i \<Longrightarrow> prio xs c \<le> prio xs j"
  shows "ordered_above (swapped xs i c) n c"
proof -
  have i: "i < c" using c parent_less by blast
  then have nth: "prio (swapped xs i c) k = (if k = c then prio xs i else if k = i then prio xs c else prio xs k)" for k
    using c by (simp add: nth_swapped)
  have up: "prio (swapped xs i c) (parent j) \<le> prio (swapped xs i c) j" if "j < n" "0 < j" "parent j \<noteq> c" for j
  proof -
    consider "j = c" | "j = i" | "j \<noteq> c" "j \<noteq> i" "parent j = i" | "j \<noteq> c" "j \<noteq> i" "parent j \<noteq> i" by blast
    then show ?thesis
    proof cases
      case 2
      then have "parent i \<noteq> i" using that parent_less [of i] by auto
      then show ?thesis using 2 o c i that by (simp add: nth ordered_above_def)
    qed (use o c le that in \<open>auto simp: nth ordered_above_def\<close>)
  qed
  have down: "prio (swapped xs i c) (parent c) \<le> prio (swapped xs i c) j" if "j < n" "0 < j" "parent j = c" for j
    using o c i that parent_less [of j] by (auto simp: nth ordered_above_def)
  show ?thesis using up down by (simp add: ordered_above_def)
qed

lemma ordered_above_done:
  assumes "ordered_above xs n i" "\<And>j. j < n \<Longrightarrow> 0 < j \<Longrightarrow> parent j = i \<Longrightarrow> prio xs i \<le> prio xs j"
  shows "heap_ordered xs n"
  using assms by (auto simp: heap_ordered_def ordered_above_def)

text \<open>
  \<^verbatim>\<open>heapify\<close> is called after the last node in use was copied to index \<open>i\<close> and \<^verbatim>\<open>size\<close> was
  decremented, so the cell at \<^verbatim>\<open>size\<close> still holds a copy of the node being sifted. That is what
  makes the read one past the end harmless.
\<close>

lemma heapify_correct:
  assumes "q_size q < length (q_heap q)" "i \<le> q_size q" "q_heap q ! q_size q = q_heap q ! i"
  shows "\<exists>q'. heapify q i = Some q' \<and> q_size q' = q_size q \<and> q_capacity q' = q_capacity q \<and>
    length (q_heap q') = length (q_heap q) \<and> contents q' = contents q \<and>
    (ordered_above (q_heap q) (q_size q) i \<longrightarrow> pq_ordered q')"
  using assms
proof (induction "q_size q - i" arbitrary: q i rule: less_induct)
  case less
  define xs where "xs = q_heap q"
  define n where "n = q_size q"
  let ?l = "i * 2 + 1" and ?r = "i * 2 + 2"
  note P = less.prems [folded xs_def n_def]
  show ?case
  proof (cases "?l \<ge> n")
    case True
    have "ordered_above xs n i \<Longrightarrow> heap_ordered xs n"
      by (rule ordered_above_done) (use True in \<open>auto simp: parent_eq\<close>)
    with True show ?thesis by (simp add: heapify.simps [of q i] n_def xs_def pq_ordered_def)
  next
    case False
    then have len: "i < length xs" "?l < length xs" "?r < length xs" "?r \<le> n" "n < length xs" using P by auto
    have kids: "j = ?l \<or> j = ?r \<and> ?r < n" if "j < n" "0 < j" "parent j = i" for j
      using that by (auto simp: parent_eq)
    have unf: "heapify q i =
      (if prio xs ?l \<le> prio xs i \<and> prio xs ?l \<le> prio xs ?r then heapify (q\<lparr>q_heap := swapped xs i ?l\<rparr>) ?l
       else if prio xs ?r \<le> prio xs i \<and> prio xs ?r \<le> prio xs ?l then heapify (q\<lparr>q_heap := swapped xs i ?r\<rparr>) ?r
       else Some q)"
      using False len by (simp add: heapify.simps [of q i] xs_def [symmetric] n_def [symmetric] swap_nodes_in Let_def)
    consider (left) "prio xs ?l \<le> prio xs i" "prio xs ?l \<le> prio xs ?r"
      | (right) "\<not> (prio xs ?l \<le> prio xs i \<and> prio xs ?l \<le> prio xs ?r)"
          "prio xs ?r \<le> prio xs i" "prio xs ?r \<le> prio xs ?l"
      | (stay) "\<not> (prio xs ?l \<le> prio xs i \<and> prio xs ?l \<le> prio xs ?r)"
          "\<not> (prio xs ?r \<le> prio xs i \<and> prio xs ?r \<le> prio xs ?l)" by blast
    then show ?thesis
    proof cases
      case left
      let ?q = "q\<lparr>q_heap := swapped xs i ?l\<rparr>"
      have "\<exists>q'. heapify ?q ?l = Some q' \<and> q_size q' = n \<and> q_capacity q' = q_capacity q \<and>
        length (q_heap q') = length xs \<and> contents q' = contents ?q \<and>
        (ordered_above (swapped xs i ?l) n ?l \<longrightarrow> pq_ordered q')"
        using less.hyps [of ?q ?l] False len P by (auto simp: n_def nth_swapped)
      moreover have sib: "prio xs ?l \<le> prio xs j" if "j < n" "0 < j" "parent j = i" for j
        using kids [OF that] left by auto
      have "ordered_above xs n i \<Longrightarrow> ordered_above (swapped xs i ?l) n ?l"
        by (rule ordered_above_swap [OF _ _ _ _ _ _ sib]) (use left len False in auto)
      moreover have "contents ?q = contents q"
        using mset_take_swapped [of i n ?l xs] False len by (simp add: contents_def xs_def n_def)
      ultimately show ?thesis using unf left by (auto simp: xs_def n_def)
    next
      case right
      let ?q = "q\<lparr>q_heap := swapped xs i ?r\<rparr>"
      have same: "?r = n \<Longrightarrow> swapped xs i ?r = xs" using P len by (simp add: swapped_same)
      have "swapped xs i ?r ! n = swapped xs i ?r ! ?r"
        using P len False by (auto simp: nth_swapped)
      then have "\<exists>q'. heapify ?q ?r = Some q' \<and> q_size q' = n \<and> q_capacity q' = q_capacity q \<and>
        length (q_heap q') = length xs \<and> contents q' = contents ?q \<and>
        (ordered_above (swapped xs i ?r) n ?r \<longrightarrow> pq_ordered q')"
        using less.hyps [of ?q ?r] False len P by (auto simp: n_def)
      moreover have "ordered_above (swapped xs i ?r) n ?r" if o: "ordered_above xs n i"
      proof (cases "?r = n")
        case True
        have "prio xs i \<le> prio xs j" if "j < n" "0 < j" "parent j = i" for j
          using kids [OF that] right True P(3) by auto
        then have "heap_ordered xs n" by (rule ordered_above_done [OF o])
        then show ?thesis using True same by (auto simp: ordered_above_def heap_ordered_def parent_eq)
      next
        case False
        have sib: "prio xs ?r \<le> prio xs j" if "j < n" "0 < j" "parent j = i" for j
          using kids [OF that] right by auto
        show ?thesis by (rule ordered_above_swap [OF o _ _ _ _ _ sib]) (use right len False in auto)
      qed
      moreover have "contents ?q = contents q"
        using mset_take_swapped [of i n ?r xs] same len by (cases "?r = n") (auto simp: contents_def xs_def n_def)
      ultimately show ?thesis using unf right by (auto simp: xs_def n_def)
    next
      case stay
      have "ordered_above xs n i \<Longrightarrow> heap_ordered xs n"
        by (rule ordered_above_done) (use stay kids in force)+
      with stay unf show ?thesis by (auto simp: pq_ordered_def xs_def n_def)
    qed
  qed
qed

section \<open>Sifting up\<close>

text \<open>The hole at \<open>i\<close>, one of the first \<open>m\<close> cells: order holds away from it, and its children
  are large enough both for the node to be placed and for the hole's parent.\<close>

definition hole_ordered :: "priority_queue_node_t list \<Rightarrow> nat \<Rightarrow> nat \<Rightarrow> int \<Rightarrow> bool" where
  "hole_ordered xs m i p \<longleftrightarrow>
     (\<forall>j < m. 0 < j \<longrightarrow> j \<noteq> i \<longrightarrow> parent j \<noteq> i \<longrightarrow> prio xs (parent j) \<le> prio xs j) \<and>
     (\<forall>j < m. 0 < j \<longrightarrow> parent j = i \<longrightarrow> p \<le> prio xs j \<and> (0 < i \<longrightarrow> prio xs (parent i) \<le> prio xs j))"

text \<open>Filling the hole gives the multiset \<open>M\<close> and the node put in.\<close>

definition hole_mset :: "'a list \<Rightarrow> nat \<Rightarrow> nat \<Rightarrow> 'a multiset \<Rightarrow> bool" where
  "hole_mset xs m i M \<longleftrightarrow> (\<forall>x. mset (take m (xs[i := x])) = add_mset x M)"

lemma mset_hole_move:
  assumes "i < length xs" "k < length xs" "i \<noteq> k"
  shows "mset (xs[i := xs ! k, k := x]) = mset (xs[i := x])"
  using mset_swap [of i "xs[i := x]" k] assms by (simp add: list_update_swap [of i k])

lemma hole_mset_move:
  assumes "hole_mset xs m i M" "i < m" "k < m" "i \<noteq> k" "m \<le> length xs"
  shows "hole_mset (xs[i := xs ! k]) m k M"
proof -
  have "mset (take m (xs[i := xs ! k, k := x])) = mset (take m (xs[i := x]))" for x
    using mset_hole_move [of i "take m xs" k x] assms by (simp add: take_update_swap)
  with assms(1) show ?thesis by (simp add: hole_mset_def)
qed

lemma hole_ordered_move:
  assumes o: "hole_ordered xs m i p" and i: "0 < i" "i < m" "m \<le> length xs" and p: "p < prio xs (parent i)"
  shows "hole_ordered (xs[i := xs ! parent i]) m (parent i) p"
proof -
  let ?k = "parent i"
  have k: "?k < i" using i parent_less by blast
  have nth: "prio (xs[i := xs ! ?k]) j = (if j = i then prio xs ?k else prio xs j)" for j
    using i by (simp add: nth_list_update)
  have away: "prio (xs[i := xs ! ?k]) (parent j) \<le> prio (xs[i := xs ! ?k]) j"
    if "j < m" "0 < j" "j \<noteq> ?k" "parent j \<noteq> ?k" for j
    using o that i by (cases "parent j = i") (auto simp: nth hole_ordered_def)
  have kids: "p \<le> prio (xs[i := xs ! ?k]) j \<and> (0 < ?k \<longrightarrow> prio (xs[i := xs ! ?k]) (parent ?k) \<le> prio (xs[i := xs ! ?k]) j)"
    if j: "j < m" "0 < j" "parent j = ?k" for j
  proof -
    have le: "prio xs ?k \<le> prio (xs[i := xs ! ?k]) j"
      using o j k by (auto simp: nth hole_ordered_def)
    have "prio xs (parent ?k) \<le> prio xs ?k" if "0 < ?k"
      using o that k i parent_less [OF that] by (auto simp: hole_ordered_def)
    moreover have "parent ?k \<noteq> i" using k by (auto simp: parent_def)
    ultimately show ?thesis using le p by (auto simp: nth)
  qed
  show ?thesis using away kids by (simp add: hole_ordered_def)
qed

lemma shift_parents_correct:
  assumes "i < m" "m \<le> length xs" "hole_mset xs m i M"
  shows "\<exists>xs' i'. shift_parents xs i p = Some (xs', i') \<and> length xs' = length xs \<and> i' < m \<and>
    hole_mset xs' m i' M \<and>
    (hole_ordered xs m i p \<longrightarrow> hole_ordered xs' m i' p \<and> (0 < i' \<longrightarrow> prio xs' (parent i') \<le> p))"
  using assms
proof (induction i arbitrary: xs rule: less_induct)
  case (less i)
  show ?case
  proof (cases "0 < i \<and> p < prio xs (parent i)")
    case True
    then have k: "parent i < i" using parent_less [of i] by blast
    then have km: "parent i < m" using less.prems(1) by simp
    note k = k km
    have step: "shift_parents xs i p = shift_parents (xs[i := xs ! parent i]) (parent i) p"
      using True k less.prems by (simp add: shift_parents.simps [of xs i] parent_div)
    have "hole_mset (xs[i := xs ! parent i]) m (parent i) M"
      by (rule hole_mset_move) (use less.prems k in auto)
    with less.IH [OF k(1), of "xs[i := xs ! parent i]"] k less.prems True hole_ordered_move [of xs m i p]
    show ?thesis unfolding step by auto
  next
    case False
    then have "shift_parents xs i p = Some (xs, i)"
      using less.prems parent_less [of i] by (auto simp: shift_parents.simps [of xs i] parent_div)
    with False less.prems show ?thesis by auto
  qed
qed

lemma hole_filled:
  assumes o: "hole_ordered xs m i p" and i: "i < m" "m \<le> length xs"
    and up: "0 < i \<Longrightarrow> prio xs (parent i) \<le> p" and x: "pq_priority x = p"
  shows "heap_ordered (xs[i := x]) m"
proof -
  have nth: "prio (xs[i := x]) j = (if j = i then p else prio xs j)" for j
    using i x by (simp add: nth_list_update)
  have "prio (xs[i := x]) (parent j) \<le> prio (xs[i := x]) j" if j: "j < m" "0 < j" for j
  proof (cases "j = i")
    case True
    then have "parent j \<noteq> i" using parent_less [of j] j by simp
    then show ?thesis using True up j by (simp add: nth)
  next
    case False
    then show ?thesis using o j by (cases "parent j = i") (auto simp: nth hole_ordered_def)
  qed
  then show ?thesis by (simp add: heap_ordered_def)
qed

lemma hole_at_end:
  assumes "heap_ordered xs n"
  shows "hole_ordered xs (Suc n) n p"
proof -
  have "\<not> parent j = n" if "j < Suc n" "0 < j" for j
    using parent_less [of j] that by simp
  with assms show ?thesis by (auto simp: hole_ordered_def heap_ordered_def less_Suc_eq)
qed

section \<open>The operations\<close>

lemma insert_correct:
  assumes "pq_inv q" "q_size q < q_capacity q"
  shows "\<exists>q'. priorityqueue_insert q v p = Some (q', ENONE) \<and> pq_inv q' \<and> q_capacity q' = q_capacity q \<and>
    contents q' = add_mset \<lparr>pq_value = v, pq_priority = p\<rparr> (contents q) \<and> (pq_ordered q \<longrightarrow> pq_ordered q')"
proof -
  let ?n = "q_size q" and ?xs = "q_heap q" and ?x = "\<lparr>pq_value = v, pq_priority = p\<rparr>"
  have len: "?n < Suc ?n" "Suc ?n \<le> length ?xs" using assms by (auto simp: pq_inv_def)
  have "hole_mset ?xs (Suc ?n) ?n (contents q)"
    using len by (auto simp: hole_mset_def contents_def take_Suc_conv_app_nth)
  from shift_parents_correct [OF len this, of p] obtain xs' i' where
    s: "shift_parents ?xs ?n p = Some (xs', i')" "length xs' = length ?xs" "i' < Suc ?n"
      "hole_mset xs' (Suc ?n) i' (contents q)"
      "hole_ordered ?xs (Suc ?n) ?n p \<Longrightarrow> hole_ordered xs' (Suc ?n) i' p \<and> (0 < i' \<longrightarrow> prio xs' (parent i') \<le> p)"
    by blast
  let ?q = "q\<lparr>q_size := Suc ?n, q_heap := xs'[i' := ?x]\<rparr>"
  have "priorityqueue_insert q v p = Some (?q, ENONE)"
    using assms s(1,2,3) by (simp add: priorityqueue_insert_def pq_inv_def Let_def)
  moreover have "contents ?q = add_mset ?x (contents q)" using s(4) by (simp add: contents_def hole_mset_def)
  moreover have "pq_ordered ?q" if "pq_ordered q"
  proof -
    have "hole_ordered ?xs (Suc ?n) ?n p"
      using that by (simp add: pq_ordered_def hole_at_end)
    with hole_filled [of xs' "Suc ?n" i' p ?x] s(2,3,5) len show ?thesis by (simp add: pq_ordered_def)
  qed
  ultimately show ?thesis using assms s(2) by (auto simp: pq_inv_def)
qed

lemma insert_full: "q_size q = q_capacity q \<Longrightarrow> priorityqueue_insert q v p = Some (q, ENOMEM)"
  by (simp add: priorityqueue_insert_def)

text \<open>The last node in use is copied over index \<open>i\<close> and the heap shrinks by one: the node that was
  at \<open>i\<close> is gone.\<close>

definition drop_at :: "priority_queue_t \<Rightarrow> nat \<Rightarrow> priority_queue_t" where
  "drop_at q i = q\<lparr>q_size := q_size q - 1, q_heap := (q_heap q)[i := q_heap q ! (q_size q - 1)]\<rparr>"

lemma mset_take_drop_at:
  assumes "i \<le> n" "n < length xs"
  shows "mset (take n (xs[i := xs ! n])) = mset (take (Suc n) xs) - {#xs ! i#}"
proof (cases "i = n")
  case True
  then show ?thesis using assms by (simp add: take_Suc_conv_app_nth)
next
  case False
  then have i: "i < length (take n xs)" "xs ! i = take n xs ! i" using assms by simp_all
  have "mset (take n (xs[i := xs ! n])) = add_mset (xs ! n) (mset (take n xs) - {#xs ! i#})"
    using i by (simp add: take_update_swap mset_update)
  also have "\<dots> = add_mset (xs ! n) (mset (take n xs)) - {#xs ! i#}"
    using i nth_mem_mset [OF i(1)] by (simp only: diff_union_swap2)
  finally show ?thesis using assms by (simp add: take_Suc_conv_app_nth)
qed

lemma contents_drop_at:
  "pq_inv q \<Longrightarrow> i < q_size q \<Longrightarrow> contents (drop_at q i) = contents q - {#q_heap q ! i#}"
  using mset_take_drop_at [of i "q_size q - 1" "q_heap q"] by (auto simp: contents_def drop_at_def pq_inv_def)

lemma heapify_drop_at:
  assumes "pq_inv q" "i < q_size q"
  shows "\<exists>q'. heapify (drop_at q i) i = Some q' \<and> pq_inv q' \<and> q_capacity q' = q_capacity q \<and>
    contents q' = contents q - {#q_heap q ! i#} \<and>
    (ordered_above (q_heap (drop_at q i)) (q_size q - 1) i \<longrightarrow> pq_ordered q')"
proof -
  let ?d = "drop_at q i"
  have d: "q_size ?d = q_size q - 1" "q_capacity ?d = q_capacity q" "length (q_heap ?d) = q_capacity q"
    using assms by (simp_all add: drop_at_def pq_inv_def)
  have "q_heap ?d ! q_size ?d = q_heap ?d ! i"
    using assms by (auto simp: drop_at_def pq_inv_def nth_list_update)
  moreover have "q_size ?d < length (q_heap ?d)" "i \<le> q_size ?d" using assms d by (auto simp: pq_inv_def)
  ultimately obtain q' where "heapify ?d i = Some q'" "q_size q' = q_size q - 1" "q_capacity q' = q_capacity q"
    "length (q_heap q') = q_capacity q" "contents q' = contents ?d"
    "ordered_above (q_heap ?d) (q_size q - 1) i \<longrightarrow> pq_ordered q'"
    using heapify_correct [of ?d i] unfolding d by blast
  then show ?thesis using contents_drop_at [OF assms] assms by (auto simp: pq_inv_def)
qed

lemma ordered_drop_root:
  assumes "pq_ordered q" "0 < q_size q" "pq_inv q"
  shows "ordered_above (q_heap (drop_at q 0)) (q_size q - 1) 0"
  using assms by (auto simp: ordered_above_def drop_at_def pq_ordered_def heap_ordered_def nth_list_update)

lemma extract_correct:
  assumes "pq_inv q" "0 < q_size q"
  shows "\<exists>q'. priorityqueue_extract_min q = Some (q', pq_value (q_heap q ! 0)) \<and> pq_inv q' \<and>
    q_capacity q' = q_capacity q \<and> contents q' = contents q - {#q_heap q ! 0#} \<and> (pq_ordered q \<longrightarrow> pq_ordered q')"
proof -
  have "arr_get (q_heap q) (q_size q - Suc 0) = Some (q_heap q ! (q_size q - Suc 0))"
    by (rule arr_get_in) (use assms in \<open>auto simp: pq_inv_def\<close>)
  then have "priorityqueue_extract_min q = do { q' \<leftarrow> heapify (drop_at q 0) 0; Some (q', pq_value (q_heap q ! 0)) }"
    using assms by (simp add: priorityqueue_extract_min_def drop_at_def pq_inv_def Let_def)
  then show ?thesis using heapify_drop_at [OF assms] ordered_drop_root [OF _ assms(2,1)] by auto
qed

lemma root_in_contents: "pq_inv q \<Longrightarrow> 0 < q_size q \<Longrightarrow> q_heap q ! 0 \<in># contents q"
  by (force simp: contents_def pq_inv_def in_set_conv_nth)

lemma root_least: "pq_ordered q \<Longrightarrow> pq_inv q \<Longrightarrow> y \<in># contents q \<Longrightarrow> pq_priority (q_heap q ! 0) \<le> pq_priority y"
  by (auto simp: contents_def pq_inv_def pq_ordered_def in_set_conv_nth intro: root_minimal)

lemma contents_empty: "pq_inv q \<Longrightarrow> contents q = {#} \<longleftrightarrow> q_size q = 0"
  by (auto simp: contents_def pq_inv_def)

lemma size_contents: "pq_inv q \<Longrightarrow> size (contents q) = q_size q"
  by (simp add: contents_def pq_inv_def)

lemma extract_empty: "q_size q = 0 \<Longrightarrow> priorityqueue_extract_min q = Some (q, NULL)"
  by (simp add: priorityqueue_extract_min_def)

lemma find_value_result:
  assumes "n \<le> length xs" "i \<le> n" "\<forall>j < i. pq_value (xs ! j) \<noteq> v"
  shows "(\<exists>k < n. find_value xs n v i = Some (Some k) \<and> pq_value (xs ! k) = v) \<or>
    find_value xs n v i = Some None \<and> (\<forall>j < n. pq_value (xs ! j) \<noteq> v)"
  using assms
proof (induction "n - i" arbitrary: i rule: less_induct)
  case less
  consider "i = n" | "i < n" "pq_value (xs ! i) = v" | "i < n" "pq_value (xs ! i) \<noteq> v" using less.prems by linarith
  then show ?case
  proof cases
    case 1
    have "find_value xs n v n = Some None" by (subst find_value.simps) simp
    then show ?thesis using 1 less.prems by simp
  next
    case 3
    moreover have "\<forall>j < Suc i. pq_value (xs ! j) \<noteq> v" using 3 less.prems less_Suc_eq by blast
    ultimately show ?thesis using less.hyps [of "Suc i"] less.prems by (simp add: find_value.simps [of xs n v i])
  qed (use less.prems in \<open>auto simp: find_value.simps [of xs n v i]\<close>)
qed

lemma remove_correct:
  assumes "pq_inv q"
  shows "if \<exists>x. x \<in># contents q \<and> pq_value x = v
    then \<exists>q' x. priorityqueue_remove q v = Some (q', ENONE) \<and> pq_inv q' \<and> q_capacity q' = q_capacity q \<and>
      x \<in># contents q \<and> pq_value x = v \<and> contents q' = contents q - {#x#}
    else priorityqueue_remove q v = Some (q, EOUTOFBOUNDS)"
proof -
  have n: "q_size q \<le> length (q_heap q)" using assms by (simp add: pq_inv_def)
  have elems: "x \<in># contents q \<longleftrightarrow> (\<exists>j < q_size q. q_heap q ! j = x)" for x
    using n by (auto simp: contents_def in_set_conv_nth)
  consider (found) k where "k < q_size q" "find_value (q_heap q) (q_size q) v 0 = Some (Some k)" "pq_value (q_heap q ! k) = v"
    | (absent) "find_value (q_heap q) (q_size q) v 0 = Some None" "\<forall>j < q_size q. pq_value (q_heap q ! j) \<noteq> v"
    using find_value_result [of "q_size q" "q_heap q" 0 v] n by auto
  then show ?thesis
  proof cases
    case found
    have "priorityqueue_remove q v = do { q' \<leftarrow> heapify (drop_at q k) k; Some (q', ENONE) }"
      using found n by (simp add: priorityqueue_remove_def drop_at_def Let_def)
    moreover have k: "q_heap q ! k \<in># contents q" using elems found(1) by blast
    moreover obtain q' where "heapify (drop_at q k) k = Some q'" "pq_inv q'" "q_capacity q' = q_capacity q"
      "contents q' = contents q - {#q_heap q ! k#}" using heapify_drop_at [OF assms found(1)] by blast
    ultimately have "priorityqueue_remove q v = Some (q', ENONE) \<and> pq_inv q' \<and> q_capacity q' = q_capacity q \<and>
      q_heap q ! k \<in># contents q \<and> pq_value (q_heap q ! k) = v \<and> contents q' = contents q - {#q_heap q ! k#}"
      using found(3) by simp
    then have "\<exists>q' x. priorityqueue_remove q v = Some (q', ENONE) \<and> pq_inv q' \<and> q_capacity q' = q_capacity q \<and>
      x \<in># contents q \<and> pq_value x = v \<and> contents q' = contents q - {#x#}" by (intro exI)
    moreover have "\<exists>x. x \<in># contents q \<and> pq_value x = v" using k found(3) by (intro exI conjI)
    ultimately show ?thesis by (simp only: if_True)
  next
    case absent
    have "\<not> (\<exists>x. x \<in># contents q \<and> pq_value x = v)" using absent(2) by (auto simp: elems)
    moreover have "priorityqueue_remove q v = Some (q, EOUTOFBOUNDS)" using absent(1) by (simp add: priorityqueue_remove_def)
    ultimately show ?thesis by (simp only: if_False)
  qed
qed

section \<open>The contract of a priority queue\<close>

text \<open>What the scheduler relies on. \<open>elems\<close> is the bag of entries, \<open>room\<close> the number of entries that
  still fit.\<close>

locale prio_queue =
  fixes ins :: "'q \<Rightarrow> 'v \<Rightarrow> int \<Rightarrow> ('q \<times> error_t) option"
    and ext :: "'q \<Rightarrow> ('q \<times> 'v) option"
    and good :: "'q \<Rightarrow> bool"
    and elems :: "'q \<Rightarrow> ('v \<times> int) multiset"
    and room :: "'q \<Rightarrow> nat"
    and null :: 'v
  assumes ins_ok: "good q \<Longrightarrow> 0 < room q \<Longrightarrow> \<exists>q'. ins q v p = Some (q', ENONE) \<and> good q' \<and>
      elems q' = add_mset (v, p) (elems q) \<and> Suc (room q') = room q"
    and ins_full: "good q \<Longrightarrow> room q = 0 \<Longrightarrow> ins q v p = Some (q, ENOMEM)"
    and ext_min: "good q \<Longrightarrow> elems q \<noteq> {#} \<Longrightarrow> \<exists>q' v p. ext q = Some (q', v) \<and> good q' \<and> room q' = Suc (room q) \<and>
      (v, p) \<in># elems q \<and> (\<forall>x \<in># elems q. p \<le> snd x) \<and> elems q' = elems q - {#(v, p)#}"
    and ext_none: "good q \<Longrightarrow> elems q = {#} \<Longrightarrow> ext q = Some (q, null)"
begin

text \<open>Putting an entry back and taking the next one, as the scheduler does on every switch.\<close>

lemma rotate:
  assumes "good q" "0 < room q"
  shows "\<exists>q' q'' w r. ins q v p = Some (q', ENONE) \<and> ext q' = Some (q'', w) \<and> good q'' \<and> room q'' = room q \<and>
    (w, r) \<in># add_mset (v, p) (elems q) \<and> (\<forall>x \<in># add_mset (v, p) (elems q). r \<le> snd x) \<and>
    elems q'' = add_mset (v, p) (elems q) - {#(w, r)#}"
proof -
  from ins_ok [OF assms] obtain q' where q': "ins q v p = Some (q', ENONE)" "good q'"
    "elems q' = add_mset (v, p) (elems q)" "Suc (room q') = room q" by blast
  then have "elems q' \<noteq> {#}" by simp
  from ext_min [OF q'(2) this] q' show ?thesis by auto
qed

text \<open>Taking everything out gives the entries in the order of their priorities.\<close>

lemma drain_step:
  assumes "good q" "size (elems q) = Suc n"
  shows "\<exists>q' v p. ext q = Some (q', v) \<and> good q' \<and> size (elems q') = n \<and> elems q = add_mset (v, p) (elems q') \<and>
    (\<forall>x \<in># elems q'. p \<le> snd x)"
proof -
  have "elems q \<noteq> {#}" using assms(2) by auto
  from ext_min [OF assms(1) this] obtain q' v p where *: "ext q = Some (q', v)" "good q'"
    "(v, p) \<in># elems q" "\<forall>x \<in># elems q. p \<le> snd x" "elems q' = elems q - {#(v, p)#}" by blast
  moreover have "elems q = add_mset (v, p) (elems q')" using * by simp
  ultimately show ?thesis using assms(2) by (metis in_diffD size_add_mset add_left_cancel plus_1_eq_Suc)
qed

end

text \<open>\<open>n\<close> calls of \<open>ext\<close> in a row.\<close>

fun extract_all :: "('q \<Rightarrow> ('q \<times> 'v) option) \<Rightarrow> nat \<Rightarrow> 'q \<Rightarrow> ('q \<times> 'v list) option" where
  "extract_all ext 0 q = Some (q, [])"
| "extract_all ext (Suc n) q = do {
     (q, v) \<leftarrow> ext q;
     (q, vs) \<leftarrow> extract_all ext n q;
     Some (q, v # vs)
   }"

context prio_queue
begin

lemma extract_all_sorted:
  assumes "good q" "size (elems q) = n"
  shows "\<exists>q' xs. extract_all ext n q = Some (q', map fst xs) \<and> good q' \<and> elems q' = {#} \<and>
    mset xs = elems q \<and> sorted (map snd xs)"
  using assms
proof (induction n arbitrary: q)
  case 0
  then show ?case by (intro exI [of _ q] exI [of _ "[]"]) simp
next
  case (Suc n)
  from drain_step [OF Suc.prems] obtain q1 v p where s: "ext q = Some (q1, v)" "good q1" "size (elems q1) = n"
    "elems q = add_mset (v, p) (elems q1)" "\<forall>x \<in># elems q1. p \<le> snd x" by blast
  from Suc.IH [OF s(2,3)] obtain q' xs where r: "extract_all ext n q1 = Some (q', map fst xs)" "good q'" "elems q' = {#}"
    "mset xs = elems q1" "sorted (map snd xs)" by blast
  have "\<forall>x \<in> set xs. p \<le> snd x" using s(5) r(4) by (metis set_mset_mset)
  with s r show ?case by (intro exI [of _ q'] exI [of _ "(v, p) # xs"]) simp
qed

end

definition pq_good :: "priority_queue_t \<Rightarrow> bool" where
  "pq_good q \<longleftrightarrow> pq_inv q \<and> pq_ordered q"

definition entry :: "priority_queue_node_t \<Rightarrow> ptr \<times> int" where
  "entry x = (pq_value x, pq_priority x)"

definition entries :: "priority_queue_t \<Rightarrow> (ptr \<times> int) multiset" where
  "entries q = image_mset entry (contents q)"

definition pq_room :: "priority_queue_t \<Rightarrow> nat" where
  "pq_room q = q_capacity q - q_size q"

lemma entries_drop: "x \<in># contents q \<Longrightarrow> image_mset entry (contents q - {#x#}) = entries q - {#entry x#}"
  by (simp add: entries_def image_mset_Diff)

lemma same_contents_room:
  "pq_inv q \<Longrightarrow> pq_inv q' \<Longrightarrow> q_capacity q' = q_capacity q \<Longrightarrow>
   pq_room q' + size (contents q') = pq_room q + size (contents q)"
  by (simp add: pq_room_def size_contents pq_inv_def)

interpretation rq: prio_queue priorityqueue_insert priorityqueue_extract_min pq_good entries pq_room NULL
proof (unfold_locales, goal_cases)
  case (1 q v p)
  then have q: "pq_inv q" "pq_ordered q" "q_size q < q_capacity q" by (auto simp: pq_good_def pq_room_def)
  from insert_correct [OF q(1,3)] q(2) obtain q' where q': "priorityqueue_insert q v p = Some (q', ENONE)" "pq_inv q'"
    "q_capacity q' = q_capacity q" "contents q' = add_mset \<lparr>pq_value = v, pq_priority = p\<rparr> (contents q)" "pq_ordered q'" by blast
  then show ?case using same_contents_room [OF q(1) q'(2,3)]
    by (auto simp: pq_good_def entries_def entry_def)
next
  case (2 q v p)
  then have "q_size q = q_capacity q" by (simp add: pq_good_def pq_inv_def pq_room_def)
  then show ?case by (rule insert_full)
next
  case (3 q)
  let ?x = "q_heap q ! 0"
  have q: "pq_inv q" "pq_ordered q" using 3(1) by (auto simp: pq_good_def)
  then have n: "0 < q_size q" using 3(2) contents_empty [OF q(1)] by (auto simp: entries_def)
  from extract_correct [OF q(1) n] q(2) obtain q' where q': "priorityqueue_extract_min q = Some (q', pq_value ?x)" "pq_inv q'"
    "q_capacity q' = q_capacity q" "contents q' = contents q - {#?x#}" "pq_ordered q'" by blast
  have x: "?x \<in># contents q" using root_in_contents [OF q(1) n] .
  have least: "\<forall>y \<in># entries q. pq_priority ?x \<le> snd y"
    using root_least [OF q(2,1)] by (auto simp: entries_def entry_def)
  have "entries q' = entries q - {#entry ?x#}" using entries_drop [OF x] q'(4) by (simp add: entries_def)
  moreover have "pq_room q' = Suc (pq_room q)"
    using same_contents_room [OF q(1) q'(2,3)] x q'(4) by (simp add: size_Diff_singleton) (metis Suc_pred add_Suc_right add_right_cancel nonempty_has_size x empty_iff set_mset_empty add_Suc)
  moreover have "entry ?x \<in># entries q" using x by (simp add: entries_def)
  ultimately show ?case using q' least by (auto simp: pq_good_def entry_def)
next
  case (4 q)
  then show ?case using contents_empty [of q] by (auto simp: entries_def pq_good_def intro: extract_empty)
qed

lemma ordered_drop_ge:
  assumes q: "pq_good q" and i: "i < q_size q"
    and ge: "0 < i \<Longrightarrow> prio (q_heap q) (parent i) \<le> prio (q_heap q) (q_size q - 1)"
  shows "ordered_above (q_heap (drop_at q i)) (q_size q - 1) i"
proof -
  let ?xs = "q_heap q" and ?n = "q_size q - 1"
  have len: "q_size q \<le> length ?xs" and o: "\<And>j. j < q_size q \<Longrightarrow> 0 < j \<Longrightarrow> prio ?xs (parent j) \<le> prio ?xs j"
    using q by (auto simp: pq_good_def pq_inv_def pq_ordered_def heap_ordered_def)
  have nth: "prio (q_heap (drop_at q i)) j = (if j = i then prio ?xs ?n else prio ?xs j)" for j
    using i len by (simp add: drop_at_def nth_list_update)
  have grand: "prio ?xs (parent i) \<le> prio ?xs j" if "j < ?n" "0 < j" "parent j = i" "0 < i" for j
    using o [of j] o [of i] that i by (simp add: order_trans)
  have "prio (q_heap (drop_at q i)) (parent j) \<le> prio (q_heap (drop_at q i)) j" if "j < ?n" "0 < j" "parent j \<noteq> i" for j
    using o [of j] ge that by (cases "j = i") (auto simp: nth)
  moreover have "parent i \<noteq> i" if "0 < i" using parent_less [OF that] by simp
  ultimately show ?thesis using grand by (auto simp: ordered_above_def nth)
qed

section \<open>Properties\<close>

text \<open>\<^verbatim>\<open>priorityqueue_insert\<close> into a well-formed heap-ordered queue always returns: when the
  queue is full it answers ENOMEM and changes nothing, otherwise it answers ENONE, adds exactly the
  given entry to the bag of entries and keeps the capacity, the shape of the array and heap order.\<close>

theorem priorityqueue_insert_spec:
  assumes "pq_good q"
  shows "if q_size q = q_capacity q then priorityqueue_insert q v p = Some (q, ENOMEM)
    else \<exists>q'. priorityqueue_insert q v p = Some (q', ENONE) \<and> pq_good q' \<and> q_capacity q' = q_capacity q \<and>
      contents q' = add_mset \<lparr>pq_value = v, pq_priority = p\<rparr> (contents q)"
  using assms insert_full [of q v p] insert_correct [of q v p] by (auto simp: pq_good_def pq_inv_def)

text \<open>A queue with the given entries in the array, the array being just large enough.\<close>

definition queue_of :: "(ptr \<times> int) list \<Rightarrow> priority_queue_t" where
  "queue_of es = \<lparr>q_heap = map (\<lambda>(v, p). \<lparr>pq_value = v, pq_priority = p\<rparr>) es, q_size = length es, q_capacity = length es\<rparr>"

lemma heap_ordered_code [code]:
  "heap_ordered xs n \<longleftrightarrow> list_all (\<lambda>j. prio xs (parent j) \<le> prio xs j) [1..<n]"
  by (auto simp: heap_ordered_def list_all_iff)

lemmas pq_eval = pq_good_def pq_inv_def pq_ordered_def heap_ordered_code queue_of_def parent_def

theorem priorityqueue_insert_spec_witness:
  "\<exists>q'. priorityqueue_insert (queue_of [(16, 1), (32, 4)]\<lparr>q_size := 1\<rparr>) 48 0 = Some (q', ENONE) \<and> pq_good q' \<and>
     contents q' = {#\<lparr>pq_value = 48, pq_priority = 0\<rparr>, \<lparr>pq_value = 16, pq_priority = 1\<rparr>#}"
  using priorityqueue_insert_spec [of "queue_of [(16, 1), (32, 4)]\<lparr>q_size := 1\<rparr>" 48 0]
  by (auto simp: pq_eval contents_def)

text \<open>\<^verbatim>\<open>priorityqueue_extract_min\<close> on a well-formed heap-ordered queue always returns: NULL on an
  empty queue, otherwise the value of an entry whose priority is least of all entries. Exactly that
  entry is gone afterwards, and the queue is well-formed and heap-ordered again.\<close>

theorem priorityqueue_extract_min_spec:
  assumes "pq_good q"
  shows "if contents q = {#} then priorityqueue_extract_min q = Some (q, NULL)
    else \<exists>q' x. priorityqueue_extract_min q = Some (q', pq_value x) \<and> x \<in># contents q \<and>
      (\<forall>y \<in># contents q. pq_priority x \<le> pq_priority y) \<and> contents q' = contents q - {#x#} \<and>
      pq_good q' \<and> q_capacity q' = q_capacity q"
proof (cases "q_size q = 0")
  case True
  then show ?thesis using assms by (simp add: contents_def extract_empty)
next
  case False
  have q: "pq_inv q" "pq_ordered q" using assms by (auto simp: pq_good_def)
  have n: "0 < q_size q" using False by simp
  then show ?thesis
    using extract_correct [OF q(1) n] root_in_contents [OF q(1) n] root_least [OF q(2,1)] q contents_empty [OF q(1)]
    by (auto simp: pq_good_def)
qed

theorem priorityqueue_extract_min_spec_witness:
  "\<exists>q'. priorityqueue_extract_min (queue_of [(16, 1), (32, 4), (48, 2)]) = Some (q', 16) \<and> pq_good q' \<and>
     entries q' = {#(32, 4), (48, 2)#}"
  using priorityqueue_extract_min_spec [of "queue_of [(16, 1), (32, 4), (48, 2)]"]
  by (auto simp: pq_eval contents_def entries_def entry_def)

text \<open>C32. Extracting as often as the queue has entries yields every entry exactly once, in
  nondecreasing order of priority, and leaves the queue empty: the queue sorts.\<close>

theorem extract_all_sorts:
  assumes "pq_good q" "q_size q = n"
  shows "\<exists>q' xs. extract_all priorityqueue_extract_min n q = Some (q', map fst xs) \<and>
    mset xs = entries q \<and> sorted (map snd xs) \<and> q_size q' = 0"
proof -
  have "size (entries q) = n" using assms by (simp add: entries_def pq_good_def size_contents)
  from rq.extract_all_sorted [OF assms(1) this] show ?thesis
    by (auto simp: entries_def pq_good_def contents_empty)
qed

theorem extract_all_sorts_witness:
  "\<exists>xs :: (ptr \<times> int) list. mset xs = {#(16, 1), (32, 4), (48, 2)#} \<and> sorted (map snd xs) \<and>
     map_option snd (extract_all priorityqueue_extract_min 3 (queue_of [(16, 1), (32, 4), (48, 2)])) = Some (map fst xs)"
  using extract_all_sorts [of "queue_of [(16, 1), (32, 4), (48, 2)]" 3]
  by (auto simp: pq_eval contents_def entries_def entry_def)

text \<open>\<^verbatim>\<open>priorityqueue_remove\<close> on a well-formed queue always returns: EOUTOFBOUNDS and an unchanged
  queue when no entry has the value, otherwise ENONE with exactly one entry of that value gone and
  the queue well-formed. (Heap order is a separate matter.)\<close>

theorem priorityqueue_remove_spec:
  assumes "pq_inv q"
  shows "if \<exists>x. x \<in># contents q \<and> pq_value x = v
    then \<exists>q' x. priorityqueue_remove q v = Some (q', ENONE) \<and> pq_inv q' \<and> q_capacity q' = q_capacity q \<and>
      x \<in># contents q \<and> pq_value x = v \<and> contents q' = contents q - {#x#}
    else priorityqueue_remove q v = Some (q, EOUTOFBOUNDS)"
  using remove_correct [OF assms] .

theorem priorityqueue_remove_spec_witness:
  "\<exists>q'. priorityqueue_remove (queue_of [(16, 1), (32, 4), (48, 2)]) 32 = Some (q', ENONE) \<and>
     entries q' = {#(16, 1), (48, 2)#}"
proof -
  let ?q = "queue_of [(16, 1), (32, 4), (48, 2)]"
  have i: "pq_inv ?q" and c: "contents ?q = image_mset (\<lambda>(v, p). \<lparr>pq_value = v, pq_priority = p\<rparr>) {#(16, 1), (32, 4), (48, 2)#}"
    by (simp_all add: pq_eval contents_def)
  have ex: "\<exists>x. x \<in># contents ?q \<and> pq_value x = 32"
    by (rule exI [of _ "\<lparr>pq_value = 32, pq_priority = 4\<rparr>"]) (simp add: c)
  note s = priorityqueue_remove_spec [OF i, of 32, unfolded if_P [OF ex]]
  from s obtain q' x where
    q': "priorityqueue_remove ?q 32 = Some (q', ENONE)" "x \<in># contents ?q" "pq_value x = 32" "contents q' = contents ?q - {#x#}"
    by (elim exE conjE)
  from q'(2,3) have "x = \<lparr>pq_value = 32, pq_priority = 4\<rparr>" by (auto simp: c)
  with q'(1,4) show ?thesis by (simp add: c entries_def entry_def)
qed

text \<open>\<^verbatim>\<open>priorityqueue_remove\<close> only sifts down. From a heap-ordered queue of seven entries it
  produces a queue that is not heap-ordered, and the extractions that follow deliver an entry of
  priority 4 before one of priority 3.\<close>

theorem priorityqueue_remove_breaks_order:
  "let q = queue_of [(16, 1), (32, 4), (48, 2), (64, 5), (80, 6), (96, 7), (112, 3)] in
   pq_good q \<and> (case priorityqueue_remove q 64 of
     Some (q', e) \<Rightarrow> e = ENONE \<and> \<not> pq_good q' \<and>
       map_option snd (extract_all priorityqueue_extract_min 6 q') = Some [16, 48, 32, 112, 80, 96]
   | None \<Rightarrow> False)"
  by code_simp

fun insert_all :: "(ptr \<times> int) list \<Rightarrow> priority_queue_t \<Rightarrow> priority_queue_t option" where
  "insert_all [] q = Some q"
| "insert_all ((v, p) # es) q = do { (q, e) \<leftarrow> priorityqueue_insert q v p; insert_all es q }"

text \<open>Among entries of equal priority the extraction order is not the insertion order: after
  inserting a, b, c, d (at 16, 32, 48 and 64) with the same priority, d is extracted before c.\<close>

theorem equal_priorities_not_fifo:
  "do { q \<leftarrow> insert_all [(16, 1), (32, 1), (48, 1), (64, 1)] (queue_of (replicate 4 (0, 0))\<lparr>q_size := 0\<rparr>);
        (q, vs) \<leftarrow> extract_all priorityqueue_extract_min 4 q;
        Some vs } = Some [16, 32, 64, 48]"
  by code_simp

end
