(* ===== verification/Fifo_Queue.thy ===== *)
theory Fifo_Queue
  imports Prelude
begin

text \<open>
  The linked queue of \<^verbatim>\<open>src/queue.c\<close>, in which a process keeps its undelivered messages and the
  processes that wait to send to it. Nodes live in a store; \<^verbatim>\<open>struct queue_t\<close>, which is embedded in
  \<^verbatim>\<open>struct process_t\<close>, is passed and returned by value.
\<close>

section \<open>The code\<close>

record queue_node_t =
  qn_ptr :: ptr
  qn_next :: ptr

record queue_t =
  q_count :: u32
  q_first :: ptr
  q_last :: ptr

type_synonym queue_store = "queue_node_t store"

text \<open>\<^verbatim>\<open>queue_construct\<close> sets every field, so the result does not depend on the old contents.\<close>

definition queue_construct :: queue_t where
  "queue_construct = \<lparr>q_count = 0, q_first = NULL, q_last = NULL\<rparr>"

definition queue_insert ::
  "'a allocator \<Rightarrow> 'a \<times> queue_store \<Rightarrow> queue_t \<Rightarrow> ptr \<Rightarrow> (('a \<times> queue_store) \<times> queue_t \<times> error_t) option" where
  "queue_insert A s queue p = (case s of (a, h) \<Rightarrow> do {
     (a, node) \<leftarrow> km A a 8;
     if node = NULL then Some ((a, h), queue, ENOMEM)
     else do {
       let h = h(node \<mapsto> \<lparr>qn_ptr = p, qn_next = NULL\<rparr>);
       (h, queue) \<leftarrow>
         (if q_last queue = NULL then Some (h, queue\<lparr>q_first := node, q_last := node\<rparr>)
          else do {
            l \<leftarrow> deref h (q_last queue);
            Some (h(q_last queue \<mapsto> l\<lparr>qn_next := node\<rparr>), queue\<lparr>q_last := node\<rparr>) });
       Some ((a, h), queue\<lparr>q_count := q_count queue + 1\<rparr>, ENONE)
     }
   })"

definition queue_get_next ::
  "'a allocator \<Rightarrow> 'a \<times> queue_store \<Rightarrow> queue_t \<Rightarrow> (('a \<times> queue_store) \<times> queue_t \<times> ptr) option" where
  "queue_get_next A s queue = (case s of (a, h) \<Rightarrow> do {
     let node = q_first queue;
     if node = NULL then Some ((a, h), queue, NULL)
     else do {
       n \<leftarrow> deref h node;
       let queue = queue\<lparr>q_first := qn_next n\<rparr>;
       let queue = (if q_first queue = NULL then queue\<lparr>q_last := NULL\<rparr> else queue);
       let queue = queue\<lparr>q_count := q_count queue - 1\<rparr>;
       let p = qn_ptr n;
       Some ((kf A a node, h(node := None)), queue, p)
     }
   })"

definition queue_peek :: "queue_store \<Rightarrow> queue_t \<Rightarrow> ptr option" where
  "queue_peek h queue = do { n \<leftarrow> deref h (q_first queue); Some (qn_ptr n) }"

section \<open>The list a queue holds\<close>

text \<open>The chain of nodes from \<open>p\<close>: addresses and values, in order.\<close>

fun links :: "queue_store \<Rightarrow> ptr \<Rightarrow> (ptr \<times> ptr) list \<Rightarrow> bool" where
  "links h p [] \<longleftrightarrow> p = NULL"
| "links h p ((n, v) # ns) \<longleftrightarrow> p = n \<and> n \<noteq> NULL \<and>
     (case h n of None \<Rightarrow> False | Some x \<Rightarrow> qn_ptr x = v \<and> links h (qn_next x) ns)"

definition queue_nodes :: "queue_store \<Rightarrow> queue_t \<Rightarrow> (ptr \<times> ptr) list \<Rightarrow> bool" where
  "queue_nodes h q ns \<longleftrightarrow> links h (q_first q) ns \<and> distinct (map fst ns) \<and>
     q_last q = (if ns = [] then NULL else fst (last ns)) \<and> q_count q = of_nat (length ns)"

lemma links_nonnull: "links h p ns \<Longrightarrow> x \<in> set ns \<Longrightarrow> fst x \<noteq> NULL"
  by (induction h p ns rule: links.induct) (auto split: option.splits)

lemma links_cong [frame_simps]: "(\<And>x. x \<in> set ns \<Longrightarrow> h' (fst x) = h (fst x)) \<Longrightarrow> links h' p ns = links h p ns"
proof (induction ns arbitrary: p)
  case (Cons x ns)
  from Cons.prems [of x] have "h' (fst x) = h (fst x)" by simp
  moreover have "links h' q ns = links h q ns" for q using Cons by simp
  ultimately show ?case by (cases x) (simp split: option.split)
qed simp

lemma links_last: "links h p ns \<Longrightarrow> ns \<noteq> [] \<Longrightarrow> \<exists>x. h (fst (last ns)) = Some x \<and> qn_next x = NULL \<and> fst (last ns) \<noteq> NULL"
proof (induction h p ns rule: links.induct)
  case (2 h p n v ns)
  then show ?case by (cases ns) (auto split: option.splits)
qed simp

lemma links_append:
  assumes "links h p ns" "distinct (map fst ns)" "ns \<noteq> []" "n \<notin> fst ` set ns" "n \<noteq> NULL"
    and "h (fst (last ns)) = Some l" "g = h(n \<mapsto> \<lparr>qn_ptr = v, qn_next = NULL\<rparr>, fst (last ns) \<mapsto> l\<lparr>qn_next := n\<rparr>)"
  shows "links g p (ns @ [(n, v)])"
  using assms
proof (induction ns arbitrary: p)
  case (Cons x ns)
  obtain b w where x: "x = (b, w)" by force
  from Cons.prems(1) x obtain y where y: "p = b" "b \<noteq> NULL" "h b = Some y" "qn_ptr y = w" "links h (qn_next y) ns"
    by (auto split: option.splits)
  show ?case
  proof (cases "ns = []")
    case True
    then show ?thesis using Cons.prems x y by auto
  next
    case False
    then have "fst (last ns) \<in> fst ` set ns" by simp
    moreover have "b \<notin> fst ` set ns" "n \<noteq> b" using Cons.prems(2,4) x by auto
    ultimately have "g b = h b" using Cons.prems(7) False x by auto
    moreover have "links g (qn_next y) (ns @ [(n, v)])"
      by (rule Cons.IH [OF y(5)]) (use Cons.prems False x in simp_all)
    ultimately show ?thesis using x y by simp
  qed
qed simp

lemma queue_insert_nodes:
  assumes "queue_nodes h q ns" "km A a 8 = Some (a', n)" "n \<noteq> NULL" "n \<notin> fst ` set ns"
  shows "\<exists>h' q'. queue_insert A (a, h) q v = Some ((a', h'), q', ENONE) \<and> queue_nodes h' q' (ns @ [(n, v)]) \<and>
    same_off (insert n (fst ` set ns)) h h'"
proof (cases "ns = []")
  case True
  then show ?thesis using assms by (auto simp: queue_nodes_def queue_insert_def Let_def same_off_def)
next
  case False
  let ?l = "fst (last ns)"
  have q: "links h (q_first q) ns" "distinct (map fst ns)" "q_last q = ?l" "q_count q = of_nat (length ns)"
    using assms(1) False by (auto simp: queue_nodes_def)
  from links_last [OF q(1) False] obtain l where l: "h ?l = Some l" "?l \<noteq> NULL" by blast
  have in_ns: "?l \<in> fst ` set ns" using False by simp
  then have "n \<noteq> ?l" using assms(4) by blast
  then have "queue_insert A (a, h) q v =
      Some ((a', h(n \<mapsto> \<lparr>qn_ptr = v, qn_next = NULL\<rparr>, ?l \<mapsto> l\<lparr>qn_next := n\<rparr>)), q\<lparr>q_last := n, q_count := q_count q + 1\<rparr>, ENONE)"
    using assms(2,3) q(3) l by (simp add: queue_insert_def Let_def)
  moreover have "queue_nodes (h(n \<mapsto> \<lparr>qn_ptr = v, qn_next = NULL\<rparr>, ?l \<mapsto> l\<lparr>qn_next := n\<rparr>))
      (q\<lparr>q_last := n, q_count := q_count q + 1\<rparr>) (ns @ [(n, v)])"
    using links_append [OF q(1,2) False assms(4,3) l(1) refl, of v] q assms(4) by (auto simp: queue_nodes_def)
  moreover have "same_off (insert n (fst ` set ns)) h (h(n \<mapsto> \<lparr>qn_ptr = v, qn_next = NULL\<rparr>, ?l \<mapsto> l\<lparr>qn_next := n\<rparr>))"
    using in_ns by (auto simp: same_off_def)
  ultimately show ?thesis by blast
qed

lemma queue_get_next_nodes:
  assumes "queue_nodes h q ((n, v) # ns)"
  shows "\<exists>q'. queue_get_next A (a, h) q = Some ((kf A a n, h(n := None)), q', v) \<and> queue_nodes (h(n := None)) q' ns"
proof -
  from assms obtain x where x: "q_first q = n" "n \<noteq> NULL" "h n = Some x" "qn_ptr x = v" "links h (qn_next x) ns"
    "n \<notin> fst ` set ns" "distinct (map fst ns)" by (auto simp: queue_nodes_def split: option.splits)
  have l: "links (h(n := None)) (qn_next x) ns"
    using x(5,6) links_cong [of ns "h(n := None)" h] by (metis fun_upd_other imageI)
  have "qn_next x = NULL \<longleftrightarrow> ns = []" using x(5) by (cases ns) auto
  then show ?thesis using assms x l by (auto simp: queue_get_next_def queue_nodes_def Let_def)
qed

lemma queue_get_next_none: "queue_nodes h q [] \<Longrightarrow> queue_get_next A s q = Some (s, q, NULL)"
  by (cases s) (simp add: queue_nodes_def queue_get_next_def)

section \<open>The contract of a FIFO queue\<close>

text \<open>\<open>holds s q vs\<close>: in state \<open>s\<close> the queue \<open>q\<close> holds the values \<open>vs\<close>, oldest first. Inserting may fail
  (\<open>put\<close> answers an error or does not return), and then the queue is as before.\<close>

locale fifo =
  fixes put :: "'s \<Rightarrow> 'q \<Rightarrow> ptr \<Rightarrow> ('s \<times> 'q \<times> error_t) option"
    and get :: "'s \<Rightarrow> 'q \<Rightarrow> ('s \<times> 'q \<times> ptr) option"
    and holds :: "'s \<Rightarrow> 'q \<Rightarrow> ptr list \<Rightarrow> bool"
  assumes put_ok: "holds s q vs \<Longrightarrow> put s q v = Some (s', q', e) \<Longrightarrow>
      (if e = ENONE then holds s' q' (vs @ [v]) else q' = q \<and> holds s' q vs)"
    and get_ok: "holds s q (v # vs) \<Longrightarrow> \<exists>s' q'. get s q = Some (s', q', v) \<and> holds s' q' vs"
    and get_none: "holds s q [] \<Longrightarrow> get s q = Some (s, q, NULL)"

text \<open>A run of insertions that all succeed, and a run of \<open>n\<close> removals.\<close>

fun put_all :: "('s \<Rightarrow> 'q \<Rightarrow> ptr \<Rightarrow> ('s \<times> 'q \<times> error_t) option) \<Rightarrow> 's \<Rightarrow> 'q \<Rightarrow> ptr list \<Rightarrow> ('s \<times> 'q) option" where
  "put_all put s q [] = Some (s, q)"
| "put_all put s q (v # vs) = do { (s, q, e) \<leftarrow> put s q v; if e = ENONE then put_all put s q vs else None }"

fun get_all :: "('s \<Rightarrow> 'q \<Rightarrow> ('s \<times> 'q \<times> ptr) option) \<Rightarrow> 's \<Rightarrow> 'q \<Rightarrow> nat \<Rightarrow> ('s \<times> 'q \<times> ptr list) option" where
  "get_all get s q 0 = Some (s, q, [])"
| "get_all get s q (Suc n) = do { (s, q, v) \<leftarrow> get s q; (s, q, vs) \<leftarrow> get_all get s q n; Some (s, q, v # vs) }"

context fifo
begin

lemma put_all_holds: "holds s q us \<Longrightarrow> put_all put s q vs = Some (s', q') \<Longrightarrow> holds s' q' (us @ vs)"
proof (induction vs arbitrary: s q us)
  case (Cons v vs)
  from Cons.prems(2) obtain s1 q1 where 1: "put s q v = Some (s1, q1, ENONE)" "put_all put s1 q1 vs = Some (s', q')"
    by (auto split: Option.bind_splits prod.splits if_splits)
  with put_ok [OF Cons.prems(1) 1(1)] Cons.IH [of s1 q1 "us @ [v]"] show ?case by simp
qed simp

lemma get_all_holds: "holds s q (vs @ us) \<Longrightarrow> \<exists>s' q'. get_all get s q (length vs) = Some (s', q', vs) \<and> holds s' q' us"
proof (induction vs arbitrary: s q)
  case (Cons v vs)
  from get_ok [of s q v "vs @ us"] Cons.prems obtain s1 q1 where "get s q = Some (s1, q1, v)" "holds s1 q1 (vs @ us)" by auto
  with Cons.IH [of s1 q1] show ?case by auto
qed simp

text \<open>What was put in comes out in the same order, behind what was there before.\<close>

lemma first_in_first_out:
  assumes "holds s q us" "put_all put s q vs = Some (s', q')"
  shows "\<exists>s'' q''. get_all get s' q' (length us + length vs) = Some (s'', q'', us @ vs) \<and> holds s'' q'' []"
  using get_all_holds [of s' q' "us @ vs" "[]"] put_all_holds [OF assms] by simp

end

text \<open>The queue code on a kernel heap: the nodes are blocks in use.\<close>

definition queue_holds :: "('a \<Rightarrow> ptr set) \<Rightarrow> 'a \<times> queue_store \<Rightarrow> queue_t \<Rightarrow> ptr list \<Rightarrow> bool" where
  "queue_holds live s q vs \<longleftrightarrow> (\<exists>ns. queue_nodes (snd s) q ns \<and> map snd ns = vs \<and> fst ` set ns \<subseteq> live (fst s))"

sublocale kernel_heap \<subseteq> fq: fifo "queue_insert A" "queue_get_next A" "queue_holds live"
proof (unfold_locales, goal_cases)
  case (1 s q vs v s' q' e)
  obtain a h where s: "s = (a, h)" by force
  from 1(1) obtain ns where ns: "queue_nodes h q ns" "map snd ns = vs" "fst ` set ns \<subseteq> live a"
    by (auto simp: queue_holds_def s)
  from 1(2) obtain a' n where km: "km A a 8 = Some (a', n)"
    by (auto simp: queue_insert_def s split: Option.bind_splits)
  show ?case
  proof (cases "n = NULL")
    case True
    have "fst ` set ns \<subseteq> live a'" using ns(3) km_live [OF km] by (rule subset_trans)
    then have "queue_holds live (a', h) q vs" unfolding queue_holds_def using ns(1,2) by (intro exI [of _ ns]) simp
    with 1(2) km True show ?thesis by (auto simp: queue_insert_def s)
  next
    case False
    note f = km_fresh_disjoint [OF km False ns(3)]
    from queue_insert_nodes [OF ns(1) km False f(1), of v] 1(2) s ns(2) f(2) show ?thesis
      by (fastforce simp: queue_holds_def)
  qed
next
  case (2 s q v vs)
  obtain a h where s: "s = (a, h)" by force
  from 2 obtain n ns where ns: "queue_nodes h q ((n, v) # ns)" "map snd ns = vs" "fst ` set ((n, v) # ns) \<subseteq> live a"
    by (auto simp: queue_holds_def s map_eq_Cons_conv)
  have "n \<notin> fst ` set ns" using ns(1) by (simp add: queue_nodes_def)
  then have "fst ` set ns \<subseteq> live (kf A a n)" using ns(3) kf_live [of a n] by auto
  with queue_get_next_nodes [OF ns(1), of A a] ns(2) s show ?case by (auto simp: queue_holds_def)
next
  case (3 s q)
  then show ?case by (auto simp: queue_holds_def queue_get_next_none)
qed

context kernel_heap
begin

lemma queue_first_in_first_out:
  "queue_holds live s q us \<Longrightarrow> put_all (queue_insert A) s q vs = Some (s', q') \<Longrightarrow>
   \<exists>s'' q''. get_all (queue_get_next A) s' q' (length us + length vs) = Some (s'', q'', us @ vs) \<and>
     queue_holds live s'' q'' []"
  by (rule fq.first_in_first_out)

end

section \<open>Properties\<close>

text \<open>\<^verbatim>\<open>queue_insert\<close> on a queue holding \<open>vs\<close>, over any kernel heap: when the allocation fails it
  answers ENOMEM and queue and nodes are as before; otherwise it answers ENONE and the queue holds
  \<open>vs\<close> followed by the new value. It returns whenever \<^verbatim>\<open>kmalloc\<close> does, and changes no node but the
  new one and those of this queue.\<close>

theorem queue_insert_spec:
  assumes "kernel_heap A live" "queue_nodes h q ns" "fst ` set ns \<subseteq> live a" "km A a 8 = Some (a', n)"
  shows "if n = NULL then queue_insert A (a, h) q v = Some ((a', h), q, ENOMEM)
    else \<exists>h' q'. queue_insert A (a, h) q v = Some ((a', h'), q', ENONE) \<and> queue_nodes h' q' (ns @ [(n, v)]) \<and>
      same_off (insert n (fst ` set ns)) h h'"
proof (cases "n = NULL")
  case True
  then show ?thesis using assms(4) by (simp add: queue_insert_def)
next
  case False
  from kernel_heap.km_fresh_disjoint(1) [OF assms(1,4) False assms(3)]
  show ?thesis using queue_insert_nodes [OF assms(2,4) False] False by simp
qed

definition ex_queue :: queue_t where
  "ex_queue = \<lparr>q_count = 2, q_first = 128, q_last = 64\<rparr>"

definition ex_nodes :: queue_store where
  "ex_nodes = [128 \<mapsto> \<lparr>qn_ptr = 7, qn_next = 64\<rparr>, 64 \<mapsto> \<lparr>qn_ptr = 9, qn_next = NULL\<rparr>]"

lemma ex_queue_nodes: "queue_nodes ex_nodes ex_queue [(128, 7), (64, 9)]"
  by (simp add: queue_nodes_def ex_queue_def ex_nodes_def)

theorem queue_insert_spec_witness:
  "\<exists>h' q'. queue_insert bump_alloc (192, ex_nodes) ex_queue 5 = Some ((256, h'), q', ENONE) \<and>
     queue_nodes h' q' [(128, 7), (64, 9), (192, 5)]"
proof -
  have "km bump_alloc 192 8 = Some (256, 192)" "fst ` set [(128, 7), (64, 9)] \<subseteq> {p :: ptr. p < 192}"
    by (simp_all add: bump_alloc_def)
  from queue_insert_spec [OF bump.kernel_heap_axioms ex_queue_nodes this(2,1), of 5] show ?thesis by auto
qed

text \<open>\<^verbatim>\<open>queue_get_next\<close> always returns: NULL and nothing changed on an empty queue; otherwise the
  oldest value, with its node freed and the queue holding the rest in order. The other nodes of the
  store are not touched.\<close>

theorem queue_get_next_spec:
  assumes "queue_nodes h q ns"
  shows "case ns of [] \<Rightarrow> queue_get_next A (a, h) q = Some ((a, h), q, NULL)
    | (n, v) # ns' \<Rightarrow> \<exists>q'. queue_get_next A (a, h) q = Some ((kf A a n, h(n := None)), q', v) \<and>
        queue_nodes (h(n := None)) q' ns'"
  using queue_get_next_nodes queue_get_next_none assms by (auto split: list.split)

theorem queue_get_next_spec_witness:
  "\<exists>q'. queue_get_next bump_alloc (192, ex_nodes) ex_queue = Some ((192, ex_nodes(128 := None)), q', 7) \<and>
     queue_nodes (ex_nodes(128 := None)) q' [(64, 9)]"
  using queue_get_next_spec [OF ex_queue_nodes, of bump_alloc 192] by (simp add: bump_alloc_def)

text \<open>C33. First in, first out: after a run of successful \<^verbatim>\<open>queue_insert\<close> calls on a queue that held
  \<open>us\<close>, as many \<^verbatim>\<open>queue_get_next\<close> calls return \<open>us\<close> and then the inserted values in the order of
  their insertion, and leave the queue empty. (\<^verbatim>\<open>queue.h\<close> calls the queue last-in-first-out.)\<close>

theorem queue_fifo:
  assumes "kernel_heap A live" "queue_holds live s q us" "put_all (queue_insert A) s q vs = Some (s', q')"
  shows "\<exists>s'' q''. get_all (queue_get_next A) s' q' (length us + length vs) = Some (s'', q'', us @ vs) \<and>
    queue_holds live s'' q'' []"
  using kernel_heap.queue_first_in_first_out [OF assms] .

theorem queue_fifo_witness:
  "\<exists>s' q' s'' q''. put_all (queue_insert bump_alloc) (64, Map.empty) queue_construct [7, 9, 5] = Some (s', q') \<and>
     get_all (queue_get_next bump_alloc) s' q' 3 = Some (s'', q'', [7, 9, 5])"
proof -
  have h: "queue_holds (\<lambda>a. {p. p < a}) (64, Map.empty) queue_construct []"
    by (simp add: queue_holds_def queue_nodes_def queue_construct_def)
  obtain s' q' where p: "put_all (queue_insert bump_alloc) (64, Map.empty) queue_construct [7, 9, 5] = Some (s', q')"
    by (simp add: queue_insert_def bump_alloc_def queue_construct_def Let_def)
  have len: "length ([] :: ptr list) + length [7, 9, 5 :: ptr] = 3" by simp
  from queue_fifo [OF bump.kernel_heap_axioms h p] p show ?thesis unfolding len append_Nil by blast
qed

text \<open>\<^verbatim>\<open>queue_peek\<close> returns the oldest value of a non-empty queue, but dereferences NULL on an
  empty one, where \<^verbatim>\<open>queue_get_next\<close> answers NULL.\<close>

theorem queue_peek_spec:
  assumes "queue_nodes h q ns"
  shows "queue_peek h q = (case ns of [] \<Rightarrow> None | (n, v) # _ \<Rightarrow> Some v)"
  using assms by (auto simp: queue_nodes_def queue_peek_def split: list.split option.splits)

theorem queue_peek_spec_witness:
  "queue_peek ex_nodes ex_queue = Some 7 \<and> queue_peek ex_nodes queue_construct = None"
proof -
  have "queue_nodes ex_nodes queue_construct []" by (simp add: queue_nodes_def queue_construct_def)
  from queue_peek_spec [OF this] queue_peek_spec [OF ex_queue_nodes] show ?thesis by simp
qed

end
