(* ===== verification/Context.thy ===== *)
theory Context
  imports Platform
begin

text \<open>
  Saved processor contexts, \<^verbatim>\<open>src/x86/context.c\<close> on i386. The functions that only write fields
  take and return the structure; those that use the stack of the process also read or write memory of
  the current address space.
\<close>

section \<open>The code\<close>

record process_context_t =
  gp_registers :: "u32 list"
  c_ss :: u32
  c_cs :: u32
  c_eip :: u32
  c_flags :: u32

definition DEFAULT_FLAGS :: u32 where "DEFAULT_FLAGS = 0x3200"

text \<open>The eight general-purpose registers are an array of fixed length.\<close>

definition context_wf :: "process_context_t \<Rightarrow> bool" where
  "context_wf c \<longleftrightarrow> length (gp_registers c) = 8"

definition get_context_pc :: "process_context_t \<Rightarrow> ptr" where
  "get_context_pc c = c_eip c"

definition set_context_pc :: "process_context_t \<Rightarrow> ptr \<Rightarrow> process_context_t" where
  "set_context_pc c pc = c\<lparr>c_eip := pc, c_cs := 0x1B\<rparr>"

definition get_context_stack :: "process_context_t \<Rightarrow> ptr" where
  "get_context_stack c = gp_registers c ! 7"

abbreviation set_gp :: "process_context_t \<Rightarrow> nat \<Rightarrow> u32 \<Rightarrow> process_context_t" where
  "set_gp c i v \<equiv> c\<lparr>gp_registers := (gp_registers c)[i := v]\<rparr>"

definition set_context_stack :: "process_context_t \<Rightarrow> ptr \<Rightarrow> process_context_t" where
  "set_context_stack c stack = (set_gp c 7 stack)\<lparr>c_ss := 0x23\<rparr>"

definition set_context_flags :: "process_context_t \<Rightarrow> u32 \<Rightarrow> process_context_t" where
  "set_context_flags c flags = c\<lparr>c_flags := flags\<rparr>"

definition set_context_return :: "process_context_t \<Rightarrow> u32 \<Rightarrow> process_context_t" where
  "set_context_return c v = set_gp c 0 v"

definition context_stack_push ::
  "'m platform \<Rightarrow> 'm \<Rightarrow> process_context_t \<Rightarrow> u32 \<Rightarrow> ('m \<times> process_context_t \<times> ptr) option" where
  "context_stack_push P m c v = do {
     let c = set_gp c 7 (gp_registers c ! 7 - 4);
     m \<leftarrow> write_bytes P m (gp_registers c ! 7) (bytes_of v);
     Some (m, c, gp_registers c ! 7)
   }"

text \<open>\<open>data\<close> gives the bytes at the source; it is read after the stack pointer was moved, which shows
  when the source is the context itself.\<close>

definition context_stack_push_struct ::
  "'m platform \<Rightarrow> 'm \<Rightarrow> process_context_t \<Rightarrow> (process_context_t \<Rightarrow> u8 list) \<Rightarrow> u32 \<Rightarrow>
   ('m \<times> process_context_t \<times> ptr) option" where
  "context_stack_push_struct P m c data sz = do {
     let c = set_gp c 7 (gp_registers c ! 7 - sz);
     m \<leftarrow> write_bytes P m (gp_registers c ! 7) (take (unat sz) (data c));
     Some (m, c, gp_registers c ! 7)
   }"

text \<open>The popped value is returned, for the caller to store where \<^verbatim>\<open>value\<close> points.\<close>

definition context_stack_pop ::
  "'m platform \<Rightarrow> 'm \<Rightarrow> process_context_t \<Rightarrow> (process_context_t \<times> u32) option" where
  "context_stack_pop P m c = do {
     let prev_stack = gp_registers c ! 7;
     let c = set_gp c 7 (gp_registers c ! 7 + 4);
     bs \<leftarrow> read_bytes P m prev_stack 4;
     Some (c, word_of bs)
   }"

definition context_stack_pop_struct ::
  "'m platform \<Rightarrow> 'm \<Rightarrow> process_context_t \<Rightarrow> u32 \<Rightarrow> (process_context_t \<times> u8 list) option" where
  "context_stack_pop_struct P m c sz = do {
     let prev_stack = gp_registers c ! 7;
     let c = set_gp c 7 (gp_registers c ! 7 + sz);
     bs \<leftarrow> read_bytes P m prev_stack (unat sz);
     Some (c, bs)
   }"

fun push_args :: "'m platform \<Rightarrow> 'm \<Rightarrow> process_context_t \<Rightarrow> u32 list \<Rightarrow> ('m \<times> process_context_t) option" where
  "push_args P m c [] = Some (m, c)"
| "push_args P m c (v # vs) = do { (m, c, _) \<leftarrow> context_stack_push P m c v; push_args P m c vs }"

definition context_call_func ::
  "'m platform \<Rightarrow> 'm \<Rightarrow> process_context_t \<Rightarrow> ptr \<Rightarrow> ptr \<Rightarrow> u32 list \<Rightarrow> ('m \<times> process_context_t) option" where
  "context_call_func P m c func_ptr ret_ptr args = do {
     let c = c\<lparr>c_eip := func_ptr\<rparr>;
     (m, c) \<leftarrow> push_args P m c args;
     (m, c, _) \<leftarrow> context_stack_push P m c ret_ptr;
     Some (m, c)
   }"

definition context_cleanup_func :: "process_context_t \<Rightarrow> nat \<Rightarrow> process_context_t" where
  "context_cleanup_func c argc = set_gp c 7 (gp_registers c ! 7 - 4 * of_nat argc)"

text \<open>\<^verbatim>\<open>struct process_context_t\<close> in memory: twelve words.\<close>

definition context_bytes :: "process_context_t \<Rightarrow> u8 list" where
  "context_bytes c = concat (map bytes_of (gp_registers c @ [c_ss c, c_cs c, c_eip c, c_flags c]))"

definition context_of_bytes :: "u8 list \<Rightarrow> process_context_t" where
  "context_of_bytes bs = (let ws = words_of bs in
     \<lparr>gp_registers = take 8 ws, c_ss = ws ! 8, c_cs = ws ! 9, c_eip = ws ! 10, c_flags = ws ! 11\<rparr>)"

section \<open>Lemmas\<close>

lemma context_roundtrip [simp]: "context_wf c \<Longrightarrow> context_of_bytes (context_bytes c) = c"
  unfolding context_of_bytes_def context_bytes_def words_of_concat
  by (simp add: context_wf_def nth_append)

lemma length_context_bytes [simp]: "context_wf c \<Longrightarrow> length (context_bytes c) = 48"
  by (simp add: context_bytes_def context_wf_def)

lemma context_wf_set [simp]:
  "context_wf (set_gp c i v) = context_wf c" "context_wf (set_context_pc c pc) = context_wf c"
  "context_wf (set_context_stack c sp) = context_wf c" "context_wf (set_context_flags c fl) = context_wf c"
  "context_wf (set_context_return c v) = context_wf c" "context_wf (c\<lparr>c_eip := e\<rparr>) = context_wf c"
  by (simp_all add: context_wf_def set_context_pc_def set_context_stack_def set_context_flags_def set_context_return_def)

lemma push_args_regs:
  "push_args P m c vs = Some (m', c') \<Longrightarrow> context_wf c \<Longrightarrow>
   c' = set_gp c 7 (gp_registers c ! 7 - 4 * of_nat (length vs))"
proof (induction vs arbitrary: m c)
  case Nil
  then show ?case by simp
next
  case (Cons v vs)
  let ?c = "set_gp c 7 (gp_registers c ! 7 - 4)"
  from Cons.prems obtain m1 where "push_args P m1 ?c vs = Some (m', c')"
    by (auto simp: context_stack_push_def Let_def split: Option.bind_splits)
  from Cons.IH [OF this] Cons.prems(2) show ?case by (simp add: context_wf_def algebra_simps)
qed

end
