(* ===== verification/Kernel_State.thy ===== *)
theory Kernel_State
  imports Avl_Table Priority_Queue Fifo_Queue Context
begin

text \<open>
  The state of \<^verbatim>\<open>src/kernel.c\<close>: the structures of \<^verbatim>\<open>include/kernel.h\<close>, the global \<^verbatim>\<open>kernel\<close>
  together with the typed stores its pointers lead to, and the invariants on the three search
  tables that the operations on processes, ports, messages and interrupt handlers share.

  Console output (\<^verbatim>\<open>printf\<close>) does not change this state; only the pointers that its arguments follow
  are modelled. \<^verbatim>\<open>panic\<close> does not return, so it is the outcome \<^term>\<open>None\<close>.
\<close>

section \<open>Structures\<close>

record message_t =
  msg_sender :: u32
  msg_code :: u32
  msg_args :: "u32 list"

text \<open>The states of a process are words, because \<^verbatim>\<open>kernel_signal_return\<close> stores into the field
  whatever it finds on the stack of the process.\<close>

abbreviation PROCESS_ACTIVE :: u32 where "PROCESS_ACTIVE \<equiv> 0"
abbreviation PROCESS_REQUESTING :: u32 where "PROCESS_REQUESTING \<equiv> 1"
abbreviation PROCESS_SENDING :: u32 where "PROCESS_SENDING \<equiv> 2"

record process_t =
  p_pid :: u32
  p_priority :: int
  p_page_table :: physaddr_t
  p_state :: u32
  p_sending_queue :: queue_t
  p_message_queue :: queue_t
  p_message_buffer :: ptr
  p_ctx :: ptr

record port_t =
  port_id :: u32
  port_owner_pid :: u32

record signal_action_t =
  sa_pid :: u32
  sa_func_ptr :: ptr
  sa_trampoline_ptr :: ptr
  sa_userdata :: ptr

record syscall_t =
  sys_defined :: bool
  sys_arg_count :: int
  sys_process_id :: int
  sys_func_ptr :: ptr

definition MAX_SYSCALL_ID :: nat where "MAX_SYSCALL_ID = 256"

text \<open>\<^verbatim>\<open>struct kernel_t\<close>, after the machine and the stores of the objects on the kernel heap.\<close>

record 'm kernel_t =
  mach :: 'm
  avl_nodes :: avl_store
  queue_nodes_of :: queue_store
  processes :: "process_t store"
  contexts :: "process_context_t store"
  ports :: "port_t store"
  actions :: "signal_action_t store"
  messages :: "message_t store"
  syscall_table :: "syscall_t list"
  priority_queue :: priority_queue_t
  interrupt_handlers :: ptr
  port_table :: ptr
  process_table :: ptr
  active_process :: ptr
  next_pid :: u32

section \<open>Calls into the data structures\<close>

text \<open>A key of a table is an \<^verbatim>\<open>int\<close>; the kernel passes \<^verbatim>\<open>unsigned long\<close> identifiers.\<close>

abbreviation key_of :: "u32 \<Rightarrow> int" where "key_of i \<equiv> sint i"

definition tree_insert :: "'m platform \<Rightarrow> 'm kernel_t \<Rightarrow> ptr \<Rightarrow> u32 \<Rightarrow> ptr \<Rightarrow> ('m kernel_t \<times> ptr) option" where
  "tree_insert P k tree i p = do {
     ((m, h), tree) \<leftarrow> avl_insert (heap_of P) (mach k, avl_nodes k) tree (key_of i) p;
     Some (k\<lparr>mach := m, avl_nodes := h\<rparr>, tree)
   }"

definition tree_remove :: "'m platform \<Rightarrow> 'm kernel_t \<Rightarrow> ptr \<Rightarrow> u32 \<Rightarrow> ('m kernel_t \<times> ptr) option" where
  "tree_remove P k tree i = do {
     ((m, h), tree) \<leftarrow> avl_remove (heap_of P) (mach k, avl_nodes k) tree (key_of i);
     Some (k\<lparr>mach := m, avl_nodes := h\<rparr>, tree)
   }"

definition tree_get :: "'m kernel_t \<Rightarrow> ptr \<Rightarrow> u32 \<Rightarrow> ptr option" where
  "tree_get k tree i = avl_get (avl_nodes k) tree (key_of i)"

definition put_queue :: "'m platform \<Rightarrow> 'm kernel_t \<Rightarrow> queue_t \<Rightarrow> ptr \<Rightarrow> ('m kernel_t \<times> queue_t \<times> error_t) option" where
  "put_queue P k q p = do {
     ((m, h), q, e) \<leftarrow> queue_insert (heap_of P) (mach k, queue_nodes_of k) q p;
     Some (k\<lparr>mach := m, queue_nodes_of := h\<rparr>, q, e)
   }"

definition get_queue :: "'m platform \<Rightarrow> 'm kernel_t \<Rightarrow> queue_t \<Rightarrow> ('m kernel_t \<times> queue_t \<times> ptr) option" where
  "get_queue P k q = do {
     ((m, h), q, p) \<leftarrow> queue_get_next (heap_of P) (mach k, queue_nodes_of k) q;
     Some (k\<lparr>mach := m, queue_nodes_of := h\<rparr>, q, p)
   }"

definition kmalloc_k :: "'m platform \<Rightarrow> 'm kernel_t \<Rightarrow> u32 \<Rightarrow> ('m kernel_t \<times> ptr) option" where
  "kmalloc_k P k n = do { (m, p) \<leftarrow> km (heap_of P) (mach k) n; Some (k\<lparr>mach := m\<rparr>, p) }"

definition kfree_k :: "'m platform \<Rightarrow> 'm kernel_t \<Rightarrow> ptr \<Rightarrow> 'm kernel_t" where
  "kfree_k P k p = k\<lparr>mach := kf (heap_of P) (mach k) p\<rparr>"

definition load_space :: "'m platform \<Rightarrow> 'm kernel_t \<Rightarrow> physaddr_t \<Rightarrow> 'm kernel_t" where
  "load_space P k t = k\<lparr>mach := paging_load P (mach k) t\<rparr>"

definition kernel_current_pid :: "'m kernel_t \<Rightarrow> u32 option" where
  "kernel_current_pid k =
     (if active_process k = NULL then Some 0
      else do { a \<leftarrow> deref (processes k) (active_process k); Some (p_pid a) })"

definition kernel_current_context :: "'m kernel_t \<Rightarrow> ptr option" where
  "kernel_current_context k =
     (if active_process k = NULL then Some NULL
      else do { a \<leftarrow> deref (processes k) (active_process k); Some (p_ctx a) })"

section \<open>Three tables in one store\<close>

text \<open>
  Three roots that stand for three maps, with separate nodes, all at addresses in \<open>L\<close>.
\<close>

definition forest :: "avl_store \<Rightarrow> ptr set \<Rightarrow> ptr \<times> (int \<rightharpoonup> ptr) \<Rightarrow> ptr \<times> (int \<rightharpoonup> ptr) \<Rightarrow> ptr \<times> (int \<rightharpoonup> ptr) \<Rightarrow> bool" where
  "forest h L a b c \<longleftrightarrow> (\<exists>X Y Z.
     avl_table h (fst a) (snd a) X \<and> avl_table h (fst b) (snd b) Y \<and> avl_table h (fst c) (snd c) Z \<and>
     X \<inter> (Y \<union> Z) = {} \<and> Y \<inter> Z = {} \<and> X \<union> (Y \<union> Z) \<subseteq> L)"

lemma forestE:
  assumes "forest h L a b c"
  obtains X Y Z where "avl_table h (fst a) (snd a) X" "avl_table h (fst b) (snd b) Y" "avl_table h (fst c) (snd c) Z"
    "X \<inter> (Y \<union> Z) = {}" "Y \<inter> Z = {}" "X \<union> (Y \<union> Z) \<subseteq> L"
  using assms unfolding forest_def by (elim exE conjE)

lemma forestI:
  assumes "avl_table h (fst a) (snd a) X" "avl_table h (fst b) (snd b) Y" "avl_table h (fst c) (snd c) Z"
    "X \<inter> (Y \<union> Z) = {}" "Y \<inter> Z = {}" "X \<union> (Y \<union> Z) \<subseteq> L"
  shows "forest h L a b c"
  using assms unfolding forest_def by (intro exI conjI)

lemma forest_swap12: assumes "forest h L a b c" shows "forest h L b a c"
  using assms by (rule forestE) (rule forestI, assumption+, auto)

lemma forest_swap13: assumes "forest h L a b c" shows "forest h L c b a"
  using assms by (rule forestE) (rule forestI, assumption+, auto)

lemma forest_mono: assumes "forest h L a b c" "L \<subseteq> L'" shows "forest h L' a b c"
  using assms(1) by (rule forestE) (rule forestI, assumption+, erule subset_trans [OF _ assms(2)])

lemma forest_get:
  assumes "forest h L a b c"
  shows "avl_get h (fst a) i = Some (case snd a i of None \<Rightarrow> NULL | Some p \<Rightarrow> p)"
    "avl_get h (fst b) i = Some (case snd b i of None \<Rightarrow> NULL | Some p \<Rightarrow> p)"
    "avl_get h (fst c) i = Some (case snd c i of None \<Rightarrow> NULL | Some p \<Rightarrow> p)"
  using assms by (auto elim!: forestE simp: get_table)

lemma forest_empty: "forest h L (NULL, Map.empty) (NULL, Map.empty) (NULL, Map.empty)"
  by (rule forestI [where X = "{}" and Y = "{}" and Z = "{}"]) (simp_all add: table_empty)

context kernel_heap
begin

lemma insert_new_allocates:
  assumes "avl_insert A (a, h) r i p = Some ((a', h'), r')" "avl_table h r m X" "i \<notin> dom m"
  obtains a1 n where "km A a 20 = Some (a1, n)" "n \<noteq> NULL"
proof -
  from assms(2) obtain tr where tr: "repr h tr" "root tr = r" "t_get tr = m" by (auto simp: avl_table_def)
  have "t_get tr i = None" using assms(3) tr(3) by auto
  then show thesis
    using insert_alloc_fails [OF _ tr(1), of A a _ i p] assms(1) tr(2) that by (cases "km A a 20") fastforce+
qed

lemma forest_insert:
  assumes "avl_insert A (a, h) r i p = Some ((a', h'), r')" "forest h L (r, m) b c" "L \<subseteq> live a" "i \<notin> dom m"
  shows "\<exists>n. n \<notin> live a \<and> insert n (live a) \<subseteq> live a' \<and> forest h' (insert n L) (r', m(i \<mapsto> p)) b c"
proof -
  from assms(2) obtain X Y Z where t: "avl_table h r m X" "avl_table h (fst b) (snd b) Y" "avl_table h (fst c) (snd c) Z"
    "X \<inter> (Y \<union> Z) = {}" "Y \<inter> Z = {}" "X \<union> (Y \<union> Z) \<subseteq> L"
    by (rule forestE) simp
  from assms(1) t(1) assms(4) obtain a1 n where km: "km A a 20 = Some (a1, n)" "n \<noteq> NULL" by (rule insert_new_allocates)
  note f = km_fresh [OF km]
  have n: "n \<notin> X" "n \<notin> Y \<union> Z" using f t(6) assms(3) by auto
  from insert_table [OF t(1) km n(1) assms(1)] assms(4) have r:
    "avl_table h' r' (m(i \<mapsto> p)) (insert n X)" "a' = a1" "same_off (insert n X) h h'" by auto
  have d: "Y \<inter> insert n X = {}" "Z \<inter> insert n X = {}" "insert n X \<inter> (Y \<union> Z) = {}" "insert n X \<union> (Y \<union> Z) \<subseteq> insert n L"
    using t(4,6) n(2) by auto
  have "forest h' (insert n L) (r', m(i \<mapsto> p)) b c"
    by (rule forestI [OF _ table_frame [OF t(2) r(3) d(1)] table_frame [OF t(3) r(3) d(2)] d(3) t(5) d(4)]) (simp add: r(1))
  with f r(2) show ?thesis by blast
qed

lemma forest_remove:
  assumes "forest h L (r, m) b c"
  shows "\<exists>a' h' r' f. avl_remove A (a, h) r i = Some ((a', h'), r') \<and> forest h' (L - f) (r', m(i := None)) b c \<and>
    f \<subseteq> L \<and> live a - f \<subseteq> live a'"
proof -
  from assms obtain X Y Z where t: "avl_table h r m X" "avl_table h (fst b) (snd b) Y" "avl_table h (fst c) (snd c) Z"
    "X \<inter> (Y \<union> Z) = {}" "Y \<inter> Z = {}" "X \<union> (Y \<union> Z) \<subseteq> L"
    by (rule forestE) simp
  from remove_table [OF t(1), of A a i] obtain h' p' f where
    r: "avl_remove A (a, h) r i = Some ((freed_alloc A a f, h'), p')" "avl_table h' p' (m(i := None)) (X - set_option f)"
      "same_off X h h'" "set_option f \<subseteq> X" by (elim exE conjE)
  have d: "Y \<inter> X = {}" "Z \<inter> X = {}" "(X - set_option f) \<inter> (Y \<union> Z) = {}" "X - set_option f \<union> (Y \<union> Z) \<subseteq> L - set_option f"
    "set_option f \<subseteq> L" using t(4,6) r(4) by auto
  have "forest h' (L - set_option f) (p', m(i := None)) b c"
    by (rule forestI [OF _ table_frame [OF t(2) r(3) d(1)] table_frame [OF t(3) r(3) d(2)] d(3) t(5) d(4)]) (simp add: r(2))
  moreover have "live a - set_option f \<subseteq> live (freed_alloc A a f)"
    using kf_live [of a "the f"] by (cases f) (auto simp: freed_alloc_def)
  ultimately show ?thesis using r(1) d(5) by blast
qed

end

section \<open>The heap of the kernel\<close>

text \<open>
  Every object of the kernel is a block in use of one kind, and stays of that kind while it is in use.
  \<open>kind\<close> is a ghost function: the code does not look at it.
\<close>

datatype kind = KNode | KLink | KProcess | KContext | KPort | KAction | KMessage

type_synonym typing = "ptr \<Rightarrow> kind"

definition typed :: "ptr set \<Rightarrow> typing \<Rightarrow> kind \<Rightarrow> ptr set \<Rightarrow> bool" where
  "typed L ty c D \<longleftrightarrow> (\<forall>p \<in> D. p \<in> L \<and> ty p = c)"

definition objects :: "ptr set \<Rightarrow> typing \<Rightarrow> 'm kernel_t \<Rightarrow> bool" where
  "objects L ty k \<longleftrightarrow> typed L ty KLink (dom (queue_nodes_of k)) \<and> typed L ty KProcess (dom (processes k)) \<and>
     typed L ty KContext (dom (contexts k)) \<and> typed L ty KPort (dom (ports k)) \<and> typed L ty KAction (dom (actions k)) \<and>
     typed L ty KMessage (dom (messages k))"

definition tables :: "ptr set \<Rightarrow> typing \<Rightarrow> 'm kernel_t \<Rightarrow> (int \<rightharpoonup> ptr) \<Rightarrow> (int \<rightharpoonup> ptr) \<Rightarrow> (int \<rightharpoonup> ptr) \<Rightarrow> bool" where
  "tables L ty k pt qt it \<longleftrightarrow>
     forest (avl_nodes k) {p \<in> L. ty p = KNode} (process_table k, pt) (port_table k, qt) (interrupt_handlers k, it)"

lemma typed_new: "typed L ty c D \<Longrightarrow> n \<notin> L \<Longrightarrow> insert n L \<subseteq> L' \<Longrightarrow> typed L' (ty(n := c)) c (insert n D)"
  by (auto simp: typed_def)

lemma typed_other: "typed L ty c D \<Longrightarrow> n \<notin> L \<Longrightarrow> insert n L \<subseteq> L' \<Longrightarrow> typed L' (ty(n := d)) c D"
  by (auto simp: typed_def)

lemma typed_mono: "typed L ty c D \<Longrightarrow> L \<subseteq> L' \<Longrightarrow> typed L' ty c D"
  by (auto simp: typed_def)

lemma typed_free: "typed L ty c D \<Longrightarrow> L - {p} \<subseteq> L' \<Longrightarrow> typed L' ty c (D - {p})"
  by (auto simp: typed_def)

lemma typed_free_other: "typed L ty c D \<Longrightarrow> L - f \<subseteq> L' \<Longrightarrow> \<forall>p \<in> f. ty p \<noteq> c \<Longrightarrow> typed L' ty c D"
  unfolding typed_def by blast

text \<open>Allocating and freeing, for all kinds of objects at once.\<close>

lemma objects_trans:
  assumes "objects L ty k" "\<And>c D. c \<noteq> KNode \<Longrightarrow> typed L ty c D \<Longrightarrow> typed L' ty' c D"
  shows "objects L' ty' k"
  using assms(1) unfolding objects_def by (simp add: assms(2))

lemma objects_mono: "objects L ty k \<Longrightarrow> L \<subseteq> L' \<Longrightarrow> objects L' ty k"
  by (erule objects_trans) (rule typed_mono)

lemma objects_other: "objects L ty k \<Longrightarrow> n \<notin> L \<Longrightarrow> insert n L \<subseteq> L' \<Longrightarrow> objects L' (ty(n := d)) k"
  by (erule objects_trans) (rule typed_other)

lemma objects_free_node:
  assumes "objects L ty k" "L - f \<subseteq> L'" "\<forall>p \<in> f. ty p = KNode"
  shows "objects L' ty k"
  using assms(1) by (rule objects_trans) (use assms(3) in \<open>auto intro: typed_free_other [OF _ assms(2)]\<close>)

lemma tables_mono: "tables L ty k pt qt it \<Longrightarrow> L \<subseteq> L' \<Longrightarrow> tables L' ty k pt qt it"
  by (auto simp: tables_def intro: forest_mono)

lemma tables_other: "tables L ty k pt qt it \<Longrightarrow> n \<notin> L \<Longrightarrow> insert n L \<subseteq> L' \<Longrightarrow> tables L' (ty(n := d)) k pt qt it"
  unfolding tables_def by (erule forest_mono) auto

lemma tables_free_other: "tables L ty k pt qt it \<Longrightarrow> L - f \<subseteq> L' \<Longrightarrow> \<forall>p \<in> f. ty p \<noteq> KNode \<Longrightarrow> tables L' ty k pt qt it"
  unfolding tables_def by (erule forest_mono) auto

lemma tables_get:
  assumes "tables L ty k pt qt it"
  shows "tree_get k (process_table k) i = Some (case pt (key_of i) of None \<Rightarrow> NULL | Some p \<Rightarrow> p)"
    "tree_get k (port_table k) i = Some (case qt (key_of i) of None \<Rightarrow> NULL | Some p \<Rightarrow> p)"
    "tree_get k (interrupt_handlers k) i = Some (case it (key_of i) of None \<Rightarrow> NULL | Some p \<Rightarrow> p)"
  using forest_get [OF assms [unfolded tables_def]] by (simp_all add: tree_get_def)

text \<open>The invariant of the kernel's heap: objects and tables over the blocks in use.\<close>

definition kernel_heap_inv ::
  "('m \<Rightarrow> ptr set) \<Rightarrow> typing \<Rightarrow> 'm kernel_t \<Rightarrow> (int \<rightharpoonup> ptr) \<Rightarrow> (int \<rightharpoonup> ptr) \<Rightarrow> (int \<rightharpoonup> ptr) \<Rightarrow> bool" where
  "kernel_heap_inv live ty k pt qt it \<longleftrightarrow> objects (live (mach k)) ty k \<and> tables (live (mach k)) ty k pt qt it"

abbreviation nodes_in_use :: "('m \<Rightarrow> ptr set) \<Rightarrow> typing \<Rightarrow> 'm kernel_t \<Rightarrow> ptr set" where
  "nodes_in_use live ty k \<equiv> {p \<in> live (mach k). ty p = KNode}"

text \<open>The invariant with the table of processes, of ports, or of interrupt handlers in front.\<close>

lemma heap_inv_process:
  "kernel_heap_inv live ty k pt qt it \<longleftrightarrow> objects (live (mach k)) ty k \<and>
   forest (avl_nodes k) (nodes_in_use live ty k) (process_table k, pt) (port_table k, qt) (interrupt_handlers k, it)"
  by (simp add: kernel_heap_inv_def tables_def)

lemma heap_inv_port:
  "kernel_heap_inv live ty k pt qt it \<longleftrightarrow> objects (live (mach k)) ty k \<and>
   forest (avl_nodes k) (nodes_in_use live ty k) (port_table k, qt) (process_table k, pt) (interrupt_handlers k, it)"
  unfolding heap_inv_process using forest_swap12 by blast

lemma heap_inv_handler:
  "kernel_heap_inv live ty k pt qt it \<longleftrightarrow> objects (live (mach k)) ty k \<and>
   forest (avl_nodes k) (nodes_in_use live ty k) (interrupt_handlers k, it) (port_table k, qt) (process_table k, pt)"
  unfolding heap_inv_process using forest_swap13 by blast

text \<open>\<open>k'\<close> differs from \<open>k\<close> at most in the machine and in the nodes of the search trees.\<close>

definition same_but_tree :: "'m kernel_t \<Rightarrow> 'm kernel_t \<Rightarrow> bool" where
  "same_but_tree k k' \<longleftrightarrow> k' = k\<lparr>mach := mach k', avl_nodes := avl_nodes k'\<rparr>"

lemma same_but_treeD:
  assumes "same_but_tree k k'"
  shows "process_table k' = process_table k" "port_table k' = port_table k" "interrupt_handlers k' = interrupt_handlers k"
    "queue_nodes_of k' = queue_nodes_of k" "processes k' = processes k" "contexts k' = contexts k" "ports k' = ports k"
    "actions k' = actions k" "messages k' = messages k" "syscall_table k' = syscall_table k"
    "priority_queue k' = priority_queue k" "active_process k' = active_process k" "next_pid k' = next_pid k"
  by (subst assms [unfolded same_but_tree_def], simp)+

lemma objects_upd [simp]:
  "objects L ty (k\<lparr>mach := m\<rparr>) = objects L ty k" "objects L ty (k\<lparr>avl_nodes := h\<rparr>) = objects L ty k"
  "objects L ty (k\<lparr>process_table := r\<rparr>) = objects L ty k" "objects L ty (k\<lparr>port_table := r\<rparr>) = objects L ty k"
  "objects L ty (k\<lparr>interrupt_handlers := r\<rparr>) = objects L ty k" "objects L ty (k\<lparr>priority_queue := q\<rparr>) = objects L ty k"
  "objects L ty (k\<lparr>active_process := p\<rparr>) = objects L ty k" "objects L ty (k\<lparr>next_pid := i\<rparr>) = objects L ty k"
  "objects L ty (k\<lparr>syscall_table := st\<rparr>) = objects L ty k"
  by (simp_all add: objects_def)

lemma tables_upd [simp]:
  "tables L ty (k\<lparr>mach := m\<rparr>) = tables L ty k" "tables L ty (k\<lparr>queue_nodes_of := qn\<rparr>) = tables L ty k"
  "tables L ty (k\<lparr>processes := ps\<rparr>) = tables L ty k" "tables L ty (k\<lparr>contexts := cs\<rparr>) = tables L ty k"
  "tables L ty (k\<lparr>ports := po\<rparr>) = tables L ty k" "tables L ty (k\<lparr>actions := ac\<rparr>) = tables L ty k"
  "tables L ty (k\<lparr>messages := ms\<rparr>) = tables L ty k" "tables L ty (k\<lparr>priority_queue := q\<rparr>) = tables L ty k"
  "tables L ty (k\<lparr>active_process := p\<rparr>) = tables L ty k" "tables L ty (k\<lparr>next_pid := i\<rparr>) = tables L ty k"
  "tables L ty (k\<lparr>syscall_table := st\<rparr>) = tables L ty k"
  by (simp_all add: tables_def fun_eq_iff)

text \<open>A new object in a fresh block, and an object that is freed.\<close>

lemma heap_inv_alloc:
  assumes "kernel_heap_inv live ty k pt qt it" "p \<notin> live (mach k)" "insert p (live (mach k)) \<subseteq> live m"
  shows "kernel_heap_inv live (ty(p := KPort)) (k\<lparr>mach := m, ports := (ports k)(p \<mapsto> x1)\<rparr>) pt qt it"
    "kernel_heap_inv live (ty(p := KProcess)) (k\<lparr>mach := m, processes := (processes k)(p \<mapsto> x2)\<rparr>) pt qt it"
    "kernel_heap_inv live (ty(p := KContext)) (k\<lparr>mach := m, contexts := (contexts k)(p \<mapsto> x3)\<rparr>) pt qt it"
    "kernel_heap_inv live (ty(p := KAction)) (k\<lparr>mach := m, actions := (actions k)(p \<mapsto> x4)\<rparr>) pt qt it"
    "kernel_heap_inv live (ty(p := KMessage)) (k\<lparr>mach := m, messages := (messages k)(p \<mapsto> x5)\<rparr>) pt qt it"
  using assms typed_new [OF _ assms(2,3)] typed_other [OF _ assms(2,3)] tables_other [OF _ assms(2,3)]
  by (auto simp: kernel_heap_inv_def objects_def)

lemma heap_inv_mach:
  assumes "kernel_heap_inv live ty k pt qt it" "live (mach k) \<subseteq> live m"
  shows "kernel_heap_inv live ty (k\<lparr>mach := m\<rparr>) pt qt it"
  using assms objects_mono tables_mono by (fastforce simp: kernel_heap_inv_def)

context kernel_platform
begin

lemma tree_insertE:
  assumes "tree_insert P k r i p = Some (k', r')"
  obtains m h where "avl_insert (heap_of P) (mach k, avl_nodes k) r (key_of i) p = Some ((m, h), r')"
    "k' = k\<lparr>mach := m, avl_nodes := h\<rparr>"
  using assms by (auto simp: tree_insert_def split: Option.bind_splits prod.splits)

text \<open>An insertion at one of the three roots, and what it keeps; \<open>b\<close> and \<open>c\<close> are the other two.\<close>

lemma tree_insert_forest:
  assumes "tree_insert P k r i p = Some (k', r')" "objects (live (mach k)) ty k"
    and "forest (avl_nodes k) (nodes_in_use live ty k) (r, m) b c" "key_of i \<notin> dom m"
  shows "\<exists>ty'. (\<forall>q \<in> live (mach k). ty' q = ty q) \<and> objects (live (mach k')) ty' k' \<and>
    forest (avl_nodes k') (nodes_in_use live ty' k') (r', m(key_of i \<mapsto> p)) b c \<and>
    live (mach k) \<subseteq> live (mach k') \<and> same_but_tree k k'"
proof -
  from assms(1) obtain mm h where i: "avl_insert (heap_of P) (mach k, avl_nodes k) r (key_of i) p = Some ((mm, h), r')"
    "k' = k\<lparr>mach := mm, avl_nodes := h\<rparr>" by (rule tree_insertE)
  from forest_insert [OF i(1) assms(3) _ assms(4)] obtain n where n: "n \<notin> live (mach k)" "insert n (live (mach k)) \<subseteq> live mm"
    "forest h (insert n {p \<in> live (mach k). ty p = KNode}) (r', m(key_of i \<mapsto> p)) b c" by blast
  have "insert n {p \<in> live (mach k). ty p = KNode} \<subseteq> {p \<in> live mm. (ty(n := KNode)) p = KNode}" using n(2) by auto
  from forest_mono [OF n(3) this] objects_other [OF assms(2) n(1,2), of KNode] n(1,2) i(2)
  show ?thesis by (intro exI [of _ "ty(n := KNode)"]) (auto simp: same_but_tree_def)
qed

lemma tree_remove_forest:
  assumes "objects (live (mach k)) ty k" "forest (avl_nodes k) (nodes_in_use live ty k) (r, m) b c"
  shows "\<exists>k' r'. tree_remove P k r i = Some (k', r') \<and> objects (live (mach k')) ty k' \<and>
    forest (avl_nodes k') (nodes_in_use live ty k') (r', m(key_of i := None)) b c \<and> same_but_tree k k'"
proof -
  from forest_remove [OF assms(2), of "mach k" "key_of i"] obtain mm h r' f where
    r: "avl_remove (heap_of P) (mach k, avl_nodes k) r (key_of i) = Some ((mm, h), r')"
      "forest h ({p \<in> live (mach k). ty p = KNode} - f) (r', m(key_of i := None)) b c"
      "f \<subseteq> {p \<in> live (mach k). ty p = KNode}" "live (mach k) - f \<subseteq> live mm" by (elim exE conjE)
  have "{p \<in> live (mach k). ty p = KNode} - f \<subseteq> {p \<in> live mm. ty p = KNode}" "\<forall>p \<in> f. ty p = KNode" using r(3,4) by auto
  with forest_mono [OF r(2)] objects_free_node [OF assms(1) r(4)] r(1) show ?thesis
    by (auto simp: tree_remove_def same_but_tree_def)
qed

lemma kmalloc_k_fresh:
  assumes "kmalloc_k P k n = Some (k', p)" "p \<noteq> NULL"
  obtains m where "p \<notin> live (mach k)" "insert p (live (mach k)) \<subseteq> live m" "k' = k\<lparr>mach := m\<rparr>"
  using assms km_fresh by (fastforce simp: kmalloc_k_def split: Option.bind_splits)

lemma kmalloc_k_live:
  assumes "kmalloc_k P k n = Some (k', p)"
  obtains m where "live (mach k) \<subseteq> live m" "k' = k\<lparr>mach := m\<rparr>"
  using assms km_live by (fastforce simp: kmalloc_k_def split: Option.bind_splits)

lemma heap_inv_free:
  assumes "kernel_heap_inv live ty k pt qt it" "ty p \<noteq> KNode"
  shows "ty p = KPort \<Longrightarrow> kernel_heap_inv live ty ((kfree_k P k p)\<lparr>ports := (ports k)(p := None)\<rparr>) pt qt it"
    "ty p = KProcess \<Longrightarrow> kernel_heap_inv live ty ((kfree_k P k p)\<lparr>processes := (processes k)(p := None)\<rparr>) pt qt it"
    "ty p = KContext \<Longrightarrow> kernel_heap_inv live ty ((kfree_k P k p)\<lparr>contexts := (contexts k)(p := None)\<rparr>) pt qt it"
    "ty p = KAction \<Longrightarrow> kernel_heap_inv live ty ((kfree_k P k p)\<lparr>actions := (actions k)(p := None)\<rparr>) pt qt it"
    "ty p = KMessage \<Longrightarrow> kernel_heap_inv live ty ((kfree_k P k p)\<lparr>messages := (messages k)(p := None)\<rparr>) pt qt it"
proof -
  let ?L = "live (kf (heap_of P) (mach k) p)"
  have "tables ?L ty k pt qt it"
    using assms by (intro tables_free_other [OF _ kf_live [of "mach k" p]]) (auto simp: kernel_heap_inv_def)
  moreover have "typed ?L ty c D" if "typed (live (mach k)) ty c D" "ty p \<noteq> c" for c D
    using typed_free_other [OF that(1) kf_live [of "mach k" p]] that(2) by simp
  moreover have "typed ?L ty c (D - {p})" if "typed (live (mach k)) ty c D" for c D
    using typed_free [OF that kf_live [of "mach k" p]] .
  moreover have "objects (live (mach k)) ty k" using assms(1) by (simp add: kernel_heap_inv_def)
  ultimately show
    "ty p = KPort \<Longrightarrow> kernel_heap_inv live ty ((kfree_k P k p)\<lparr>ports := (ports k)(p := None)\<rparr>) pt qt it"
    "ty p = KProcess \<Longrightarrow> kernel_heap_inv live ty ((kfree_k P k p)\<lparr>processes := (processes k)(p := None)\<rparr>) pt qt it"
    "ty p = KContext \<Longrightarrow> kernel_heap_inv live ty ((kfree_k P k p)\<lparr>contexts := (contexts k)(p := None)\<rparr>) pt qt it"
    "ty p = KAction \<Longrightarrow> kernel_heap_inv live ty ((kfree_k P k p)\<lparr>actions := (actions k)(p := None)\<rparr>) pt qt it"
    "ty p = KMessage \<Longrightarrow> kernel_heap_inv live ty ((kfree_k P k p)\<lparr>messages := (messages k)(p := None)\<rparr>) pt qt it"
    by (simp_all add: kernel_heap_inv_def objects_def kfree_k_def)
qed

lemma insert_process_inv:
  assumes "tree_insert P k (process_table k) i p = Some (k', r)" "kernel_heap_inv live ty k pt qt it" "key_of i \<notin> dom pt"
  shows "\<exists>ty'. (\<forall>q \<in> live (mach k). ty' q = ty q) \<and> kernel_heap_inv live ty' (k'\<lparr>process_table := r\<rparr>) (pt(key_of i \<mapsto> p)) qt it \<and>
    live (mach k) \<subseteq> live (mach k') \<and> same_but_tree k k'"
  using tree_insert_forest [OF assms(1) _ _ assms(3)] assms(2)
  by (fastforce simp: heap_inv_process same_but_treeD)

lemma insert_port_inv:
  assumes "tree_insert P k (port_table k) i p = Some (k', r)" "kernel_heap_inv live ty k pt qt it" "key_of i \<notin> dom qt"
  shows "\<exists>ty'. (\<forall>q \<in> live (mach k). ty' q = ty q) \<and> kernel_heap_inv live ty' (k'\<lparr>port_table := r\<rparr>) pt (qt(key_of i \<mapsto> p)) it \<and>
    live (mach k) \<subseteq> live (mach k') \<and> same_but_tree k k'"
  using tree_insert_forest [OF assms(1) _ _ assms(3)] assms(2)
  by (fastforce simp: heap_inv_port same_but_treeD)

lemma insert_handler_inv:
  assumes "tree_insert P k (interrupt_handlers k) i p = Some (k', r)" "kernel_heap_inv live ty k pt qt it" "key_of i \<notin> dom it"
  shows "\<exists>ty'. (\<forall>q \<in> live (mach k). ty' q = ty q) \<and> kernel_heap_inv live ty' (k'\<lparr>interrupt_handlers := r\<rparr>) pt qt (it(key_of i \<mapsto> p)) \<and>
    live (mach k) \<subseteq> live (mach k') \<and> same_but_tree k k'"
  using tree_insert_forest [OF assms(1) _ _ assms(3)] assms(2)
  by (fastforce simp: heap_inv_handler same_but_treeD)

lemma remove_process_inv:
  assumes "kernel_heap_inv live ty k pt qt it"
  shows "\<exists>k' r. tree_remove P k (process_table k) i = Some (k', r) \<and>
    kernel_heap_inv live ty (k'\<lparr>process_table := r\<rparr>) (pt(key_of i := None)) qt it \<and> same_but_tree k k'"
  using tree_remove_forest [where i = i] assms
  by (fastforce simp: heap_inv_process same_but_treeD)

lemma remove_port_inv:
  assumes "kernel_heap_inv live ty k pt qt it"
  shows "\<exists>k' r. tree_remove P k (port_table k) i = Some (k', r) \<and>
    kernel_heap_inv live ty (k'\<lparr>port_table := r\<rparr>) pt (qt(key_of i := None)) it \<and> same_but_tree k k'"
  using tree_remove_forest [where i = i] assms
  by (fastforce simp: heap_inv_port same_but_treeD)

lemma remove_handler_inv:
  assumes "kernel_heap_inv live ty k pt qt it"
  shows "\<exists>k' r. tree_remove P k (interrupt_handlers k) i = Some (k', r) \<and>
    kernel_heap_inv live ty (k'\<lparr>interrupt_handlers := r\<rparr>) pt qt (it(key_of i := None)) \<and> same_but_tree k k'"
  using tree_remove_forest [where i = i] assms
  by (fastforce simp: heap_inv_handler same_but_treeD)

end

end
