(* ===== verification/Kernel_Ports.thy ===== *)
theory Kernel_Ports
  imports Kernel_State
begin

text \<open>
  Ports: names that a process claims and to which others send. The functions of
  \<^verbatim>\<open>src/kernel.c\<close> that keep \<^verbatim>\<open>kernel.port_table\<close> are shown to implement an abstract registry, a
  finite map from port identifiers to owners. Their \<^verbatim>\<open>int\<close> keys are the signed readings of the
  identifiers, which are distinct for distinct identifiers.
\<close>

section \<open>The code\<close>

definition kernel_create_port :: "'m platform \<Rightarrow> 'm kernel_t \<Rightarrow> u32 \<Rightarrow> ('m kernel_t \<times> error_t) option" where
  "kernel_create_port P k i = do {
     old \<leftarrow> tree_get k (port_table k) i;
     if old \<noteq> NULL then Some (k, EEXISTS)
     else do {
       a \<leftarrow> deref (processes k) (active_process k);
       (k, port) \<leftarrow> kmalloc_k P k 8;
       if port = NULL then None
       else do {
         let k = k\<lparr>ports := (ports k)(port \<mapsto> \<lparr>port_id = i, port_owner_pid = p_pid a\<rparr>)\<rparr>;
         (k, r) \<leftarrow> tree_insert P k (port_table k) i port;
         Some (k\<lparr>port_table := r\<rparr>, ENONE) } }
   }"

definition kernel_remove_port :: "'m platform \<Rightarrow> 'm kernel_t \<Rightarrow> u32 \<Rightarrow> ('m kernel_t \<times> error_t) option" where
  "kernel_remove_port P k i = do {
     port \<leftarrow> tree_get k (port_table k) i;
     if port = NULL then Some (k, EDOESNTEXIST)
     else do {
       x \<leftarrow> deref (ports k) port;
       a \<leftarrow> deref (processes k) (active_process k);
       if port_owner_pid x \<noteq> p_pid a then Some (k, EPERM)
       else do {
         (k, r) \<leftarrow> tree_remove P k (port_table k) i;
         let k = kfree_k P (k\<lparr>port_table := r\<rparr>) port;
         Some (k\<lparr>ports := (ports k)(port := None)\<rparr>, ENONE) } }
   }"

definition kernel_get_port_owner :: "'m kernel_t \<Rightarrow> u32 \<Rightarrow> u32 option" where
  "kernel_get_port_owner k i = do {
     port \<leftarrow> tree_get k (port_table k) i;
     if port = NULL then Some 0
     else do { x \<leftarrow> deref (ports k) port; Some (port_owner_pid x) }
   }"

section \<open>The registry of ports\<close>

text \<open>What the operations are meant to do, on the finite map of identifiers to owners.\<close>

definition registry_open :: "(u32 \<rightharpoonup> u32) \<Rightarrow> u32 \<Rightarrow> u32 \<Rightarrow> (u32 \<rightharpoonup> u32) \<times> error_t" where
  "registry_open reg pid i = (if i \<in> dom reg then (reg, EEXISTS) else (reg(i \<mapsto> pid), ENONE))"

definition registry_close :: "(u32 \<rightharpoonup> u32) \<Rightarrow> u32 \<Rightarrow> u32 \<Rightarrow> (u32 \<rightharpoonup> u32) \<times> error_t" where
  "registry_close reg pid i = (case reg i of
     None \<Rightarrow> (reg, EDOESNTEXIST)
   | Some owner \<Rightarrow> if owner \<noteq> pid then (reg, EPERM) else (reg(i := None), ENONE))"

text \<open>Every entry of the table leads to a port that carries the identifier it is filed under.\<close>

definition ports_ok :: "'m kernel_t \<Rightarrow> (int \<rightharpoonup> ptr) \<Rightarrow> bool" where
  "ports_ok k qt \<longleftrightarrow> (\<forall>i p. qt i = Some p \<longrightarrow> p \<noteq> NULL \<and> (\<exists>x. ports k p = Some x \<and> key_of (port_id x) = i))"

definition registry :: "'m kernel_t \<Rightarrow> (int \<rightharpoonup> ptr) \<Rightarrow> u32 \<rightharpoonup> u32" where
  "registry k qt i = (case qt (key_of i) of None \<Rightarrow> None | Some p \<Rightarrow> map_option port_owner_pid (ports k p))"

lemma key_of_inject [simp]: "key_of i = key_of j \<longleftrightarrow> i = j"
  by (metis signed_word_eqI)

lemma registry_None: "ports_ok k qt \<Longrightarrow> registry k qt i = None \<longleftrightarrow> qt (key_of i) = None"
  by (auto simp: registry_def ports_ok_def split: option.splits)

lemma ports_ok_inj: "ports_ok k qt \<Longrightarrow> qt i = Some p \<Longrightarrow> qt j = Some p \<Longrightarrow> i = j"
  unfolding ports_ok_def by (metis option.inject)

lemma registry_new:
  assumes "ports_ok k qt" "p \<notin> dom (ports k)" "p \<noteq> NULL" "ports k' = (ports k)(p \<mapsto> \<lparr>port_id = i, port_owner_pid = o'\<rparr>)"
  shows "ports_ok k' (qt(key_of i \<mapsto> p))" "registry k' (qt(key_of i \<mapsto> p)) = (registry k qt)(i \<mapsto> o')"
proof -
  have old: "ports k' q = ports k q" if "qt j = Some q" for j q
    using assms(1,2) that unfolding assms(4) ports_ok_def by (metis domI fun_upd_other)
  show "ports_ok k' (qt(key_of i \<mapsto> p))"
    using assms(1,3,4) old unfolding ports_ok_def by auto
  show "registry k' (qt(key_of i \<mapsto> p)) = (registry k qt)(i \<mapsto> o')"
    using assms(4) old by (auto simp: registry_def fun_eq_iff split: option.split)
qed

lemma registry_drop:
  assumes "ports_ok k qt" "qt (key_of i) = Some p" "ports k' = (ports k)(p := None)"
  shows "ports_ok k' (qt(key_of i := None))" "registry k' (qt(key_of i := None)) = (registry k qt)(i := None)"
proof -
  have old: "ports k' q = ports k q" if "qt j = Some q" "j \<noteq> key_of i" for j q
    using ports_ok_inj [OF assms(1) that(1), of "key_of i"] assms(2,3) that by auto
  show "ports_ok k' (qt(key_of i := None))"
    using assms(1) old unfolding ports_ok_def by (auto split: if_splits)
  show "registry k' (qt(key_of i := None)) = (registry k qt)(i := None)"
    using old by (auto simp: registry_def fun_eq_iff split: option.split)
qed

section \<open>The code implements the registry\<close>

definition port_inv :: "('m \<Rightarrow> ptr set) \<Rightarrow> 'm kernel_t \<Rightarrow> (int \<rightharpoonup> ptr) \<Rightarrow> (int \<rightharpoonup> ptr) \<Rightarrow> (int \<rightharpoonup> ptr) \<Rightarrow> bool" where
  "port_inv live k pt qt it \<longleftrightarrow> (\<exists>ty. kernel_heap_inv live ty k pt qt it) \<and> ports_ok k qt"

lemma create_port_newE:
  assumes "kernel_create_port P k i = Some (k', e)" "tree_get k (port_table k) i = Some NULL"
  obtains a k1 p k3 r where "processes k (active_process k) = Some a" "kmalloc_k P k 8 = Some (k1, p)" "p \<noteq> NULL"
    "tree_insert P (k1\<lparr>ports := (ports k1)(p \<mapsto> \<lparr>port_id = i, port_owner_pid = p_pid a\<rparr>)\<rparr>) (port_table k1) i p = Some (k3, r)"
    "k' = k3\<lparr>port_table := r\<rparr>" "e = ENONE"
proof -
  from assms obtain a where "deref (processes k) (active_process k) = Some a"
    by (auto simp: kernel_create_port_def split: Option.bind_splits)
  with assms that show thesis
    by (auto simp: kernel_create_port_def Let_def split: Option.bind_splits prod.splits if_splits)
qed

context kernel_platform
begin

lemma create_port_refines:
  assumes inv: "port_inv live k pt qt it" and a: "processes k (active_process k) = Some a" "active_process k \<noteq> NULL"
    and run: "kernel_create_port P k i = Some (k', e)"
  shows "\<exists>qt'. port_inv live k' pt qt' it \<and> (registry k' qt', e) = registry_open (registry k qt) (p_pid a) i"
proof -
  from inv obtain ty where h: "kernel_heap_inv live ty k pt qt it" and ok: "ports_ok k qt" by (auto simp: port_inv_def)
  have get: "tree_get k (port_table k) i = Some (case qt (key_of i) of None \<Rightarrow> NULL | Some p \<Rightarrow> p)"
    using h tables_get by (auto simp: kernel_heap_inv_def)
  show ?thesis
  proof (cases "qt (key_of i)")
    case (Some p)
    then have "p \<noteq> NULL" using ok by (auto simp: ports_ok_def)
    with get Some run have "k' = k" "e = EEXISTS" by (auto simp: kernel_create_port_def)
    moreover have "i \<in> dom (registry k qt)" using registry_None [OF ok, of i] Some by auto
    ultimately show ?thesis using inv by (auto simp: registry_open_def)
  next
    case None
    with get have "tree_get k (port_table k) i = Some NULL" by simp
    with run a(1) obtain k1 p k3 r where s: "kmalloc_k P k 8 = Some (k1, p)" "p \<noteq> NULL"
      "tree_insert P (k1\<lparr>ports := (ports k1)(p \<mapsto> \<lparr>port_id = i, port_owner_pid = p_pid a\<rparr>)\<rparr>) (port_table k1) i p = Some (k3, r)"
      "k' = k3\<lparr>port_table := r\<rparr>" "e = ENONE" by (auto elim: create_port_newE)
    obtain m where f: "p \<notin> live (mach k)" "insert p (live (mach k)) \<subseteq> live m" "k1 = k\<lparr>mach := m\<rparr>"
      using s(1,2) by (rule kmalloc_k_fresh)
    let ?k2 = "k\<lparr>mach := m, ports := (ports k)(p \<mapsto> \<lparr>port_id = i, port_owner_pid = p_pid a\<rparr>)\<rparr>"
    have ins: "tree_insert P ?k2 (port_table ?k2) i p = Some (k3, r)" using s(3) f(3) by simp
    have "key_of i \<notin> dom qt" using None by auto
    from insert_port_inv [OF ins heap_inv_alloc(1) [OF h f(1,2)] this] obtain ty' where
      t: "kernel_heap_inv live ty' k' pt (qt(key_of i \<mapsto> p)) it" "same_but_tree ?k2 k3" using s(4) by blast
    have "ports k' = (ports k)(p \<mapsto> \<lparr>port_id = i, port_owner_pid = p_pid a\<rparr>)"
      using same_but_treeD(7) [OF t(2)] s(4) by simp
    moreover have "p \<notin> dom (ports k)" using h f(1) by (auto simp: kernel_heap_inv_def objects_def typed_def)
    ultimately have "ports_ok k' (qt(key_of i \<mapsto> p))" "registry k' (qt(key_of i \<mapsto> p)) = (registry k qt)(i \<mapsto> p_pid a)"
      using registry_new [OF ok _ s(2)] by blast+
    moreover have "i \<notin> dom (registry k qt)" using registry_None [OF ok, of i] None by auto
    ultimately show ?thesis using t(1) s(5) by (auto simp: port_inv_def registry_open_def)
  qed
qed

lemma port_lookup:
  assumes "port_inv live k pt qt it"
  shows "tree_get k (port_table k) i = Some (case qt (key_of i) of None \<Rightarrow> NULL | Some p \<Rightarrow> p)"
  using assms tables_get by (auto simp: port_inv_def kernel_heap_inv_def)

lemma port_present:
  assumes "port_inv live k pt qt it" "qt (key_of i) = Some p"
  obtains x where "p \<noteq> NULL" "ports k p = Some x" "port_id x = i" "registry k qt i = Some (port_owner_pid x)"
proof -
  have "ports_ok k qt" using assms(1) by (simp add: port_inv_def)
  then obtain x where "p \<noteq> NULL" "ports k p = Some x" "key_of (port_id x) = key_of i"
    using assms(2) unfolding ports_ok_def by blast
  then show thesis using that assms(2) by (simp add: registry_def)
qed

lemma remove_port_refines:
  assumes inv: "port_inv live k pt qt it" and a: "processes k (active_process k) = Some a" "active_process k \<noteq> NULL"
  shows "\<exists>k' e qt'. kernel_remove_port P k i = Some (k', e) \<and> port_inv live k' pt qt' it \<and>
    (registry k' qt', e) = registry_close (registry k qt) (p_pid a) i"
proof -
  from inv obtain ty where h: "kernel_heap_inv live ty k pt qt it" and ok: "ports_ok k qt" by (auto simp: port_inv_def)
  note get = port_lookup [OF inv, of i]
  show ?thesis
  proof (cases "qt (key_of i)")
    case None
    then show ?thesis using get inv registry_None [OF ok, of i]
      by (intro exI [of _ k] exI [of _ EDOESNTEXIST] exI [of _ qt]) (simp add: kernel_remove_port_def registry_close_def)
  next
    case (Some p)
    from port_present [OF inv Some] obtain x where x: "p \<noteq> NULL" "ports k p = Some x" "registry k qt i = Some (port_owner_pid x)" .
    show ?thesis
    proof (cases "port_owner_pid x = p_pid a")
      case False
      then show ?thesis using get Some x a inv
        by (intro exI [of _ k] exI [of _ EPERM] exI [of _ qt]) (simp add: kernel_remove_port_def registry_close_def)
    next
      case True
      from remove_port_inv [OF h, of i] obtain k1 r where
        k1: "tree_remove P k (port_table k) i = Some (k1, r)" "kernel_heap_inv live ty (k1\<lparr>port_table := r\<rparr>) pt (qt(key_of i := None)) it"
          "same_but_tree k k1" by (elim exE conjE)
      let ?k = "(kfree_k P (k1\<lparr>port_table := r\<rparr>) p)\<lparr>ports := (ports k1)(p := None)\<rparr>"
      have "ty p = KPort" using h x(2) by (auto simp: kernel_heap_inv_def objects_def typed_def)
      then have "kernel_heap_inv live ty ?k pt (qt(key_of i := None)) it" using heap_inv_free(1) [OF k1(2)] by simp
      moreover have "ports ?k = (ports k)(p := None)" using same_but_treeD(7) [OF k1(3)] by (simp add: kfree_k_def)
      note registry_drop [OF ok Some this]
      moreover have "kernel_remove_port P k i = Some (?k, ENONE)"
        using get Some x a True k1(1) by (simp add: kernel_remove_port_def Let_def kfree_k_def)
      ultimately show ?thesis using x(3) True by (auto simp: port_inv_def registry_close_def)
    qed
  qed
qed

lemma port_owner_refines:
  assumes "port_inv live k pt qt it"
  shows "kernel_get_port_owner k i = Some (case registry k qt i of None \<Rightarrow> 0 | Some pid \<Rightarrow> pid)"
proof (cases "qt (key_of i)")
  case None
  then show ?thesis using port_lookup [OF assms, of i] by (simp add: kernel_get_port_owner_def registry_def)
next
  case (Some p)
  from port_present [OF assms Some] obtain x where "p \<noteq> NULL" "ports k p = Some x" "registry k qt i = Some (port_owner_pid x)" .
  then show ?thesis using port_lookup [OF assms, of i] Some by (simp add: kernel_get_port_owner_def)
qed

end

section \<open>Opening ports can crash the kernel\<close>

fun create_ports :: "'m platform \<Rightarrow> 'm kernel_t \<Rightarrow> u32 list \<Rightarrow> 'm kernel_t option" where
  "create_ports P k [] = Some k"
| "create_ports P k (i # is) = do { (k, e) \<leftarrow> kernel_create_port P k i; create_ports P k is }"

context kernel_platform
begin

text \<open>Creating a new port in a kernel whose port table is the tree \<open>t\<close>: one step of the tree insertion.\<close>

lemma create_port_tree:
  assumes t: "repr (avl_nodes k) t" "root t = port_table k" "distinct (addrs t)" "hpos t" "bst t" "set (addrs t) \<subseteq> live (mach k)"
    and new: "t_get t (key_of i) = None" and run: "kernel_create_port P k i = Some (k', e)"
  shows "\<exists>n v t'. t_insert n (key_of i) v t = Some t' \<and> n \<notin> set (addrs t) \<and> set (addrs t') \<subseteq> live (mach k') \<and>
    repr (avl_nodes k') t' \<and> root t' = port_table k'"
proof -
  have "tree_get k (port_table k) i = Some NULL" using get_repr [OF t(1), of "key_of i"] t(2) new by (simp add: tree_get_def)
  with run obtain a :: process_t and k1 p k3 r where s: "kmalloc_k P k 8 = Some (k1, p)" "p \<noteq> NULL"
    "tree_insert P (k1\<lparr>ports := (ports k1)(p \<mapsto> \<lparr>port_id = i, port_owner_pid = p_pid a\<rparr>)\<rparr>) (port_table k1) i p = Some (k3, r)"
    "k' = k3\<lparr>port_table := r\<rparr>" by (rule create_port_newE) blast
  obtain m where f: "insert p (live (mach k)) \<subseteq> live m" "k1 = k\<lparr>mach := m\<rparr>"
    using kmalloc_k_fresh [OF s(1,2)] by metis
  from s(3) f(2) t(2) obtain m' h where ins: "avl_insert (heap_of P) (m, avl_nodes k) (root t) (key_of i) p = Some ((m', h), r)"
    "mach k3 = m'" "avl_nodes k3 = h" by (auto elim!: tree_insertE)
  have tab: "avl_table (avl_nodes k) (root t) (t_get t) (set (addrs t))" using t by (auto simp: avl_table_def)
  have "key_of i \<notin> dom (t_get t)" using new by auto
  from insert_new_allocates [OF ins(1) tab this] obtain a1 n where km: "km (heap_of P) m 20 = Some (a1, n)" "n \<noteq> NULL" .
  have "set (addrs t) \<subseteq> live m" using t(6) f(1) by auto
  note n = km_fresh_disjoint [OF km this]
  note R = insert_repr [OF km t(1,3,4) n(1), of "key_of i" p]
  then obtain t' where t': "t_insert n (key_of i) p t = Some t'" using ins(1) by (cases "t_insert n (key_of i) p t") auto
  with R ins new s(4) addrs_insert [OF t'] n show ?thesis by (intro exI [of _ n] exI [of _ p] exI [of _ t']) auto
qed

lemma create_ports_crash:
  assumes "\<And>vs ns. length vs = length is \<Longrightarrow> length ns = length is \<Longrightarrow> t_insert_all (zip (map key_of is) vs) ns t = None"
    and "repr (avl_nodes k) t" "root t = port_table k" "distinct (addrs t)" "hpos t" "bst t" "set (addrs t) \<subseteq> live (mach k)"
    and "distinct is" "key_of ` set is \<inter> keys t = {}"
  shows "create_ports P k is = None"
  using assms
proof (induction "is" arbitrary: t k)
  case Nil
  from Nil.prems(1) [of "[]" "[]"] show ?case by simp
next
  case (Cons i "is")
  show ?case
  proof (cases "kernel_create_port P k i")
    case (Some r)
    obtain k' e where r: "r = (k', e)" by force
    have "t_get t (key_of i) = None" using Cons.prems(6,9) by (simp add: get_None_iff)
    from create_port_tree [OF Cons.prems(2-7) this Some [unfolded r]] obtain n v t' where
      t': "t_insert n (key_of i) v t = Some t'" "n \<notin> set (addrs t)" "set (addrs t') \<subseteq> live (mach k')"
        "repr (avl_nodes k') t'" "root t' = port_table k'" by blast
    have "create_ports P k' is = None"
    proof (rule Cons.IH [OF _ t'(4,5) distinct_insert [OF t'(1) Cons.prems(4) t'(2)]])
      fix vs ns :: "ptr list"
      assume "length vs = length is" "length ns = length is"
      then show "t_insert_all (zip (map key_of is) vs) ns t' = None"
        using Cons.prems(1) [of "v # vs" "n # ns"] t'(1) by simp
    qed (use hpos_insert [OF t'(1)] bst_insert [OF t'(1)] keys_insert [OF t'(1)] Cons.prems t'(3) in auto)
    then show ?thesis using Some r by simp
  qed simp
qed

end

section \<open>Properties\<close>

text \<open>An example kernel: one process, with identifier 7, is running; no ports are open.\<close>

definition one_process :: "flat kernel_t" where
  "one_process = \<lparr>mach = flat_init\<lparr>f_brk := 192\<rparr>, avl_nodes = Map.empty, queue_nodes_of = Map.empty,
     processes = [64 \<mapsto> \<lparr>p_pid = 7, p_priority = 1, p_page_table = 0x1000, p_state = PROCESS_ACTIVE,
       p_sending_queue = queue_construct, p_message_queue = queue_construct, p_message_buffer = NULL, p_ctx = 128\<rparr>],
     contexts = [128 \<mapsto> \<lparr>gp_registers = replicate 8 0, c_ss = 0, c_cs = 0, c_eip = 0, c_flags = 0\<rparr>],
     ports = Map.empty, actions = Map.empty, messages = Map.empty, syscall_table = [],
     priority_queue = (queue_of (replicate 4 (0, 0)))\<lparr>q_size := 0\<rparr>, interrupt_handlers = NULL, port_table = NULL,
     process_table = NULL, active_process = 64, next_pid = 8\<rparr>"

lemma one_process_heap:
  "kernel_heap_inv (\<lambda>m. {p. p < f_brk m}) (\<lambda>p. if p = 64 then KProcess else KContext) one_process Map.empty Map.empty Map.empty"
  by (simp add: one_process_def kernel_heap_inv_def objects_def typed_def tables_def forest_empty)

lemma one_process_ports: "port_inv (\<lambda>m. {p. p < f_brk m}) one_process Map.empty Map.empty Map.empty"
  using one_process_heap by (auto simp: port_inv_def ports_ok_def)

lemma one_process_registry: "registry one_process Map.empty = Map.empty"
  by (simp add: registry_def fun_eq_iff)

lemma one_process_active:
  "active_process one_process = 64" "processes one_process 64 \<noteq> None" "p_pid (the (processes one_process 64)) = 7"
  by (simp_all add: one_process_def)

text \<open>C3. When \<^verbatim>\<open>kernel_create_port\<close> returns, it has done what opening a port means on the registry: EEXISTS and
  no change when the identifier is taken, otherwise ENONE and the identifier belongs to the running
  process. The invariant of the tables and of the kernel's heap is kept, and the tables of processes and
  interrupt handlers stand for the same maps as before.\<close>

theorem kernel_create_port_refines:
  assumes "kernel_platform P live" "port_inv live k pt qt it"
    and "active_process k \<noteq> NULL" "processes k (active_process k) = Some a"
    and "kernel_create_port P k i = Some (k', e)"
  shows "\<exists>qt'. port_inv live k' pt qt' it \<and> (registry k' qt', e) = registry_open (registry k qt) (p_pid a) i"
  using kernel_platform.create_port_refines [OF assms(1,2,4,3,5)] .

theorem kernel_create_port_refines_witness:
  "\<exists>k' qt'. kernel_create_port flat_platform one_process 40 = Some (k', ENONE) \<and> registry k' qt' = [40 \<mapsto> 7]"
proof -
  obtain k' where r: "kernel_create_port flat_platform one_process 40 = Some (k', ENONE)"
    by (simp add: kernel_create_port_def one_process_def tree_get_def kmalloc_k_def tree_insert_def flat_defs
        avl_get.simps avl_insert.simps avl_new_def)
  from kernel_create_port_refines [OF flat.kernel_platform_axioms one_process_ports _ _ r] r one_process_active
  show ?thesis by (auto simp: registry_open_def one_process_registry)
qed

text \<open>C4. \<^verbatim>\<open>kernel_remove_port\<close>, called by a running process, always returns and does what closing means on the
  registry: EDOESNTEXIST for an unknown identifier, EPERM for the port of another process, each without
  a change, and otherwise ENONE with exactly this port gone. The invariant is kept.\<close>

theorem kernel_remove_port_refines:
  assumes "kernel_platform P live" "port_inv live k pt qt it"
    and "active_process k \<noteq> NULL" "processes k (active_process k) = Some a"
  shows "\<exists>k' e qt'. kernel_remove_port P k i = Some (k', e) \<and> port_inv live k' pt qt' it \<and>
    (registry k' qt', e) = registry_close (registry k qt) (p_pid a) i"
  using kernel_platform.remove_port_refines [OF assms(1,2,4,3)] .

theorem kernel_remove_port_refines_witness:
  "\<exists>k' qt'. kernel_remove_port flat_platform one_process 40 = Some (k', EDOESNTEXIST) \<and> registry k' qt' = Map.empty"
  using kernel_remove_port_refines [OF flat.kernel_platform_axioms one_process_ports, of _ 40] one_process_active
  by (fastforce simp: registry_close_def one_process_registry)

text \<open>\<^verbatim>\<open>kernel_get_port_owner\<close> always returns the owner in the registry, or 0 for an identifier that is
  not open.\<close>

theorem kernel_get_port_owner_refines:
  assumes "kernel_platform P live" "port_inv live k pt qt it"
  shows "kernel_get_port_owner k i = Some (case registry k qt i of None \<Rightarrow> 0 | Some pid \<Rightarrow> pid)"
  using kernel_platform.port_owner_refines [OF assms] .

theorem kernel_get_port_owner_refines_witness: "kernel_get_port_owner one_process 40 = Some 0"
  using kernel_get_port_owner_refines [OF flat.kernel_platform_axioms one_process_ports, of 40] by (simp add: registry_def)

text \<open>C34. A process that opens the ports 5, 9, 6, 0, 2, 7, 1, 8 and 3 in this order, while no other port is open,
  does not get past the last one: the kernel dereferences NULL in \<^verbatim>\<open>avl_insert\<close> (unless it ran out of
  memory before, which is a NULL dereference as well).\<close>

theorem kernel_create_port_crash:
  assumes "kernel_platform P live" "port_table k = NULL"
  shows "create_ports P k [5, 9, 6, 0, 2, 7, 1, 8, 3] = None"
proof (rule kernel_platform.create_ports_crash [OF assms(1), where t = Tip])
  fix vs ns :: "ptr list"
  assume "length vs = length [5, 9, 6, 0, 2, 7, 1, 8, 3 :: u32]" "length ns = length [5, 9, 6, 0, 2, 7, 1, 8, 3 :: u32]"
  then show "t_insert_all (zip (map key_of [5, 9, 6, 0, 2, 7, 1, 8, 3]) vs) ns Tip = None"
    using t_insert_all_crash_gen [of vs ns] by simp
qed (use assms(2) in auto)

theorem kernel_create_port_crash_witness: "create_ports flat_platform one_process [5, 9, 6, 0, 2, 7, 1, 8, 3] = None"
  by (rule kernel_create_port_crash [OF flat.kernel_platform_axioms]) (simp add: one_process_def)

end
