(* ===== verification/Kernel_Scheduler.thy ===== *)
theory Kernel_Scheduler
  imports Kernel_Ports
begin

text \<open>
  Processes and the scheduler of \<^verbatim>\<open>src/kernel.c\<close>: creating and terminating processes, saving the running
  context, and choosing the process to run next. The run queue is the priority queue of the theory
  of \<^verbatim>\<open>src/priorityqueue.c\<close>, used through its contract.
\<close>

section \<open>The code\<close>

abbreviation set_process :: "'m kernel_t \<Rightarrow> ptr \<Rightarrow> process_t \<Rightarrow> 'm kernel_t" where
  "set_process k p x \<equiv> k\<lparr>processes := (processes k)(p \<mapsto> x)\<rparr>"

abbreviation set_context :: "'m kernel_t \<Rightarrow> ptr \<Rightarrow> process_context_t \<Rightarrow> 'm kernel_t" where
  "set_context k p c \<equiv> k\<lparr>contexts := (contexts k)(p \<mapsto> c)\<rparr>"

text \<open>\<^verbatim>\<open>priorityqueue_insert(&kernel.priority_queue, p, prio)\<close>, whose result the kernel never looks at.\<close>

definition enqueue :: "'m kernel_t \<Rightarrow> ptr \<Rightarrow> int \<Rightarrow> 'm kernel_t option" where
  "enqueue k p pr = do {
     (q, _) \<leftarrow> priorityqueue_insert (priority_queue k) p pr;
     Some (k\<lparr>priority_queue := q\<rparr>)
   }"

text \<open>\<^verbatim>\<open>kernel_start\<close> is the address of the linker symbol \<^verbatim>\<open>_kernel_start\<close>; the first page below it is the
  stack of the new process. The flags are \<^verbatim>\<open>PAGE_PRESENT | PAGE_USERMODE | PAGE_RW\<close>.\<close>

definition kernel_spawn_process ::
  "'m platform \<Rightarrow> ptr \<Rightarrow> 'm kernel_t \<Rightarrow> ptr \<Rightarrow> int \<Rightarrow> physaddr_t \<Rightarrow> ('m kernel_t \<times> u32) option" where
  "kernel_spawn_process P kernel_start k program_entry priority address_space = do {
     (k, new_process) \<leftarrow> kmalloc_k P k 48;
     if new_process = NULL then Some (k, 0)
     else do {
       (k, initial_context) \<leftarrow> kmalloc_k P k 48;
       if initial_context = NULL then Some (k, 0)
       else do {
         (m, stack_page) \<leftarrow> reserve_frame P (mach k);
         let k = k\<lparr>mach := m\<rparr>;
         if stack_page mod 4096 \<noteq> 0 then Some (k, 0)
         else do {
           (m, _) \<leftarrow> map_frame P (mach k) (kernel_start - 4096) stack_page 0x10005;
           let k = k\<lparr>mach := m\<rparr>;
           let c = \<lparr>gp_registers = replicate 8 0, c_ss = 0, c_cs = 0, c_eip = 0, c_flags = 0\<rparr>;
           let c = set_context_pc c program_entry;
           let c = set_context_flags c DEFAULT_FLAGS;
           let c = set_context_stack c kernel_start;
           let k = set_context k initial_context c;
           let k = set_process k new_process
             \<lparr>p_pid = next_pid k, p_priority = priority, p_page_table = address_space, p_state = PROCESS_ACTIVE,
              p_sending_queue = queue_construct, p_message_queue = queue_construct,
              p_message_buffer = NULL, p_ctx = initial_context\<rparr>;
           let pid = next_pid k;
           (k, r) \<leftarrow> tree_insert P k (process_table k) pid new_process;
           let k = k\<lparr>process_table := r\<rparr>;
           k \<leftarrow> enqueue k new_process priority;
           Some (k\<lparr>next_pid := next_pid k + 1\<rparr>, pid) } } }
   }"

definition kernel_advance_scheduler :: "'m platform \<Rightarrow> 'm kernel_t \<Rightarrow> ('m kernel_t \<times> ptr) option" where
  "kernel_advance_scheduler P k = do {
     k \<leftarrow> (if active_process k \<noteq> NULL then do {
             a \<leftarrow> deref (processes k) (active_process k);
             enqueue k (active_process k) (p_priority a) }
           else Some k);
     (q, p) \<leftarrow> priorityqueue_extract_min (priority_queue k);
     let k = k\<lparr>priority_queue := q, active_process := p\<rparr>;
     if p \<noteq> NULL then do {
       x \<leftarrow> deref (processes k) p;
       Some (load_space P k (p_page_table x), p_ctx x) }
     else None
   }"

text \<open>The loop that frees undelivered messages, and the one that wakes waiting senders.\<close>

partial_function (option) drain_messages :: "'m platform \<Rightarrow> 'm kernel_t \<Rightarrow> ptr \<Rightarrow> 'm kernel_t option" where
  "drain_messages P k p = do {
     x \<leftarrow> deref (processes k) p;
     (k, q, msg) \<leftarrow> get_queue P k (p_message_queue x);
     let k = set_process k p (x\<lparr>p_message_queue := q\<rparr>);
     if msg \<noteq> NULL
     then drain_messages P ((kfree_k P k msg)\<lparr>messages := (messages k)(msg := None)\<rparr>) p
     else Some k
   }"

partial_function (option) wake_senders :: "'m platform \<Rightarrow> 'm kernel_t \<Rightarrow> ptr \<Rightarrow> 'm kernel_t option" where
  "wake_senders P k p = do {
     x \<leftarrow> deref (processes k) p;
     (k, q, sender) \<leftarrow> get_queue P k (p_sending_queue x);
     let k = set_process k p (x\<lparr>p_sending_queue := q\<rparr>);
     if sender \<noteq> NULL then do {
       s \<leftarrow> deref (processes k) sender;
       let k = set_process k sender (s\<lparr>p_state := PROCESS_ACTIVE\<rparr>);
       c \<leftarrow> deref (contexts k) (p_ctx s);
       let k = set_context k (p_ctx s) (set_context_return c (error_code EEXITED));
       k \<leftarrow> enqueue k sender (p_priority s);
       wake_senders P k p }
     else Some k
   }"

definition kernel_terminate_process :: "'m platform \<Rightarrow> 'm kernel_t \<Rightarrow> u32 \<Rightarrow> ('m kernel_t \<times> error_t) option" where
  "kernel_terminate_process P k process_id = do {
     process \<leftarrow> tree_get k (process_table k) process_id;
     if process = NULL then Some (k, EDOESNTEXIST)
     else do {
       let k = (if active_process k = process then k\<lparr>active_process := NULL\<rparr> else k);
       (k, r) \<leftarrow> tree_remove P k (process_table k) process_id;
       let k = k\<lparr>process_table := r\<rparr>;
       (q, _) \<leftarrow> priorityqueue_remove (priority_queue k) process;
       let k = k\<lparr>priority_queue := q\<rparr>;
       k \<leftarrow> drain_messages P k process;
       k \<leftarrow> wake_senders P k process;
       x \<leftarrow> deref (processes k) process;
       let k = (kfree_k P k (p_ctx x))\<lparr>contexts := (contexts k)(p_ctx x := None)\<rparr>;
       let k = (kfree_k P k process)\<lparr>processes := (processes k)(process := None)\<rparr>;
       Some (k, ENONE) }
   }"

definition kernel_store_active_context :: "'m kernel_t \<Rightarrow> process_context_t \<Rightarrow> ('m kernel_t \<times> error_t) option" where
  "kernel_store_active_context k context =
     (if active_process k \<noteq> NULL then do {
        a \<leftarrow> deref (processes k) (active_process k);
        if p_ctx a \<noteq> NULL then do {
          _ \<leftarrow> deref (contexts k) (p_ctx a);
          Some (set_context k (p_ctx a) context, ENONE) }
        else Some (k, EDOESNTEXIST) }
      else Some (k, EDOESNTEXIST))"

section \<open>What the scheduler knows\<close>

text \<open>A process is runnable when its state says so. The run queue holds each runnable process
  other than the running one exactly once, under its own priority, and nothing else.\<close>

definition runnable :: "'m kernel_t \<Rightarrow> ptr \<Rightarrow> bool" where
  "runnable k p \<longleftrightarrow> p \<noteq> NULL \<and> (\<exists>x. processes k p = Some x \<and> p_state x = PROCESS_ACTIVE)"

definition prio_of :: "'m kernel_t \<Rightarrow> ptr \<Rightarrow> int" where
  "prio_of k p = p_priority (the (processes k p))"

definition ready :: "'m kernel_t \<Rightarrow> ptr set" where
  "ready k = {p. runnable k p \<and> p \<noteq> active_process k}"

definition ready_entries :: "'m kernel_t \<Rightarrow> ptr set \<Rightarrow> (ptr \<times> int) multiset" where
  "ready_entries k S = image_mset (\<lambda>p. (p, prio_of k p)) (mset_set S)"

definition sched_inv :: "'m kernel_t \<Rightarrow> bool" where
  "sched_inv k \<longleftrightarrow> pq_good (priority_queue k) \<and> entries (priority_queue k) = ready_entries k (ready k) \<and>
     (active_process k \<noteq> NULL \<longrightarrow> runnable k (active_process k))"

lemma finite_ptrs [simp]: "finite (S :: ptr set)"
  by simp

lemma ready_entries_insert: "p \<notin> S \<Longrightarrow> ready_entries k (insert p S) = add_mset (p, prio_of k p) (ready_entries k S)"
  by (simp add: ready_entries_def)

lemma ready_entries_remove: "p \<in> S \<Longrightarrow> ready_entries k (S - {p}) = ready_entries k S - {#(p, prio_of k p)#}"
  by (metis Diff_insert_absorb add_mset_remove_trivial insert_Diff mk_disjoint_insert ready_entries_insert)

lemma in_ready_entries [simp]: "(p, r) \<in># ready_entries k S \<longleftrightarrow> p \<in> S \<and> r = prio_of k p"
  by (auto simp: ready_entries_def)

lemma size_ready_entries [simp]: "size (ready_entries k S) = card S"
  by (simp add: ready_entries_def)

lemma ready_entries_cong: "(\<And>p. p \<in> S \<Longrightarrow> prio_of k' p = prio_of k p) \<Longrightarrow> ready_entries k' S = ready_entries k S"
  by (auto simp: ready_entries_def intro: image_mset_cong)

lemma runnable_active: "sched_inv k \<Longrightarrow> {p. runnable k p} = (if active_process k = NULL then ready k else insert (active_process k) (ready k))"
  by (auto simp: sched_inv_def ready_def runnable_def)

lemma room_entries: "pq_good q \<Longrightarrow> pq_room q + size (entries q) = q_capacity q"
  by (auto simp: pq_good_def pq_inv_def pq_room_def entries_def size_contents)

section \<open>Choosing the next process\<close>

text \<open>The run queue with the running process put back: all runnable processes.\<close>

lemma requeue_active:
  assumes "sched_inv k" "card {p. runnable k p} \<le> q_capacity (priority_queue k)"
  shows "\<exists>q. (if active_process k \<noteq> NULL then do {
             a \<leftarrow> deref (processes k) (active_process k); enqueue k (active_process k) (p_priority a) }
           else Some k) = Some (k\<lparr>priority_queue := q\<rparr>) \<and> pq_good q \<and> q_capacity q = q_capacity (priority_queue k) \<and>
    entries q = ready_entries k {p. runnable k p}"
proof (cases "active_process k = NULL")
  case True
  then show ?thesis using assms(1) runnable_active [OF assms(1)]
    by (intro exI [of _ "priority_queue k"]) (simp add: sched_inv_def)
next
  case False
  let ?a = "active_process k" and ?q = "priority_queue k"
  have good: "pq_good ?q" and e: "entries ?q = ready_entries k (ready k)" and "runnable k ?a"
    using assms(1) False by (auto simp: sched_inv_def)
  then obtain a where a: "processes k ?a = Some a" by (auto simp: runnable_def)
  have na: "?a \<notin> ready k" by (simp add: ready_def)
  then have "card (ready k) < q_capacity ?q" using runnable_active [OF assms(1)] False assms(2) by simp
  then have "0 < pq_room ?q" using room_entries [OF good] e by simp
  from rq.ins_ok [OF good this, of ?a "p_priority a"] obtain q where
    q: "priorityqueue_insert ?q ?a (p_priority a) = Some (q, ENONE)" "pq_good q" "entries q = add_mset (?a, p_priority a) (entries ?q)"
      "Suc (pq_room q) = pq_room ?q" by blast
  have "q_capacity q = q_capacity ?q" using room_entries [OF good] room_entries [OF q(2)] q(3,4) by simp
  moreover have "entries q = ready_entries k {p. runnable k p}"
    using q(3) e a runnable_active [OF assms(1)] False by (simp add: ready_entries_insert [OF na] prio_of_def)
  ultimately show ?thesis using q(1,2) a False by (intro exI [of _ q]) (simp add: enqueue_def)
qed

lemma advance_chooses:
  assumes inv: "sched_inv k" and cap: "card {p. runnable k p} \<le> q_capacity (priority_queue k)" and some: "runnable k p0"
  shows "\<exists>k' p x. kernel_advance_scheduler P k = Some (k', p_ctx x) \<and> runnable k p \<and> processes k p = Some x \<and>
    (\<forall>q. runnable k q \<longrightarrow> prio_of k p \<le> prio_of k q) \<and> sched_inv k' \<and>
    k' = k\<lparr>mach := paging_load P (mach k) (p_page_table x), active_process := p, priority_queue := priority_queue k'\<rparr> \<and>
    q_capacity (priority_queue k') = q_capacity (priority_queue k)"
proof -
  from requeue_active [OF inv cap] obtain q where q: "(if active_process k \<noteq> NULL then do {
      a \<leftarrow> deref (processes k) (active_process k); enqueue k (active_process k) (p_priority a) }
    else Some k) = Some (k\<lparr>priority_queue := q\<rparr>)" "pq_good q" "q_capacity q = q_capacity (priority_queue k)"
    "entries q = ready_entries k {p. runnable k p}" by (elim exE conjE)
  have "(p0, prio_of k p0) \<in># entries q" using some q(4) by simp
  then have "entries q \<noteq> {#}" by auto
  from rq.ext_min [OF q(2) this] obtain q' p r where e: "priorityqueue_extract_min q = Some (q', p)" "pq_good q'"
    "pq_room q' = Suc (pq_room q)" "(p, r) \<in># entries q" "\<forall>x \<in># entries q. r \<le> snd x" "entries q' = entries q - {#(p, r)#}"
    by (elim exE conjE)
  have p: "runnable k p" "r = prio_of k p" using e(4) q(4) by auto
  then obtain x where x: "processes k p = Some x" "p \<noteq> NULL" by (auto simp: runnable_def)
  let ?k = "k\<lparr>mach := paging_load P (mach k) (p_page_table x), active_process := p, priority_queue := q'\<rparr>"
  have "kernel_advance_scheduler P k = Some (?k, p_ctx x)"
    using q(1) e(1) x by (simp add: kernel_advance_scheduler_def load_space_def)
  moreover have "prio_of k p \<le> prio_of k y" if "runnable k y" for y
    using e(5) q(4) p(2) that by (auto simp: ready_entries_def)
  moreover have "sched_inv ?k"
  proof -
    have "entries q' = ready_entries k ({p. runnable k p} - {p})" using e(6) q(4) p by (simp add: ready_entries_remove)
    moreover have "ready ?k = {p. runnable k p} - {p}" by (auto simp: ready_def runnable_def)
    moreover have "ready_entries ?k S = ready_entries k S" for S by (rule ready_entries_cong) (simp add: prio_of_def)
    ultimately show ?thesis using e(2) p(1) by (simp add: sched_inv_def runnable_def)
  qed
  moreover have "q_capacity q' = q_capacity q"
    using room_entries [OF q(2)] room_entries [OF e(2)] e(3,4,6) by (simp add: size_Diff_singleton) (metis Suc_pred add_Suc add_Suc_right size_eq_0_iff_empty neq0_conv empty_iff set_mset_empty)
  ultimately show ?thesis using p(1) x(1) q(3) by (intro exI [of _ ?k] exI [of _ p] exI [of _ x]) simp
qed

lemma advance_none:
  assumes "sched_inv k" "\<And>p. \<not> runnable k p"
  shows "kernel_advance_scheduler P k = None"
proof -
  have e: "active_process k = NULL" "ready k = {}" using assms by (auto simp: sched_inv_def ready_def)
  then have "q_size (priority_queue k) = 0"
    using assms(1) by (auto simp: sched_inv_def ready_entries_def entries_def pq_good_def contents_empty)
  then show ?thesis using e(1) by (simp add: kernel_advance_scheduler_def extract_empty)
qed

text \<open>With a full run queue the running process is not put back.\<close>

lemma advance_full:
  assumes inv: "sched_inv k" and full: "q_size (priority_queue k) = q_capacity (priority_queue k)"
    and a: "active_process k \<noteq> NULL" and run: "kernel_advance_scheduler P k = Some (k', c)"
  shows "runnable k' (active_process k)" "active_process k \<noteq> active_process k'"
    "active_process k \<notin> fst ` set_mset (entries (priority_queue k'))"
proof -
  let ?a = "active_process k" and ?q = "priority_queue k"
  have good: "pq_good ?q" and e: "entries ?q = ready_entries k (ready k)" and r: "runnable k ?a"
    using inv a by (auto simp: sched_inv_def)
  then obtain x where x: "processes k ?a = Some x" by (auto simp: runnable_def)
  have "enqueue k ?a (p_priority x) = Some k" using full by (simp add: enqueue_def insert_full)
  with run a x obtain q p where p: "priorityqueue_extract_min ?q = Some (q, p)" "p \<noteq> NULL"
    "active_process k' = p" "priority_queue k' = q" "processes k' = processes k"
    by (auto simp: kernel_advance_scheduler_def load_space_def Let_def split: Option.bind_splits prod.splits if_splits)
  have "entries ?q \<noteq> {#}" using p(1,2) rq.ext_none [OF good] by fastforce
  from rq.ext_min [OF good this] p(1) obtain pr where "(p, pr) \<in># entries ?q" "entries q = entries ?q - {#(p, pr)#}" by auto
  then have "p \<in> ready k" "fst ` set_mset (entries q) \<subseteq> ready k" using e in_diffD by fastforce+
  then show "runnable k' ?a" "?a \<noteq> active_process k'" "?a \<notin> fst ` set_mset (entries (priority_queue k'))"
    using r p by (auto simp: ready_def runnable_def)
qed

section \<open>Equal priorities\<close>

fun advance_times :: "'m platform \<Rightarrow> nat \<Rightarrow> 'm kernel_t \<Rightarrow> 'm kernel_t option" where
  "advance_times P 0 k = Some k"
| "advance_times P (Suc n) k = do { (k, c) \<leftarrow> kernel_advance_scheduler P k; advance_times P n k }"

abbreviation node :: "ptr \<Rightarrow> int \<Rightarrow> priority_queue_node_t" where
  "node p pr \<equiv> \<lparr>pq_value = p, pq_priority = pr\<rparr>"

text \<open>Three waiting processes in the array, the third one being \<open>d\<close>, and the running process.\<close>

definition three_waiting :: "'m kernel_t \<Rightarrow> ptr \<Rightarrow> ptr \<Rightarrow> ptr \<Rightarrow> ptr \<Rightarrow> int \<Rightarrow> bool" where
  "three_waiting k a b c d pr \<longleftrightarrow> active_process k = a \<and>
     (\<exists>g rest. priority_queue k = \<lparr>q_heap = node b pr # node c pr # node d pr # g # rest, q_size = 3, q_capacity = 4 + length rest\<rparr>)"

lemma advance_three:
  assumes w: "three_waiting k a b c d pr" and p: "a \<noteq> NULL" "b \<noteq> NULL" "processes k a = Some xa" "p_priority xa = pr" "processes k b = Some xb"
  shows "\<exists>k' ctx. kernel_advance_scheduler P k = Some (k', ctx) \<and> three_waiting k' b c a d pr \<and> processes k' = processes k"
proof -
  from w obtain g rest where q: "active_process k = a"
    "priority_queue k = \<lparr>q_heap = node b pr # node c pr # node d pr # g # rest, q_size = 3, q_capacity = 4 + length rest\<rparr>"
    by (auto simp: three_waiting_def)
  let ?q1 = "\<lparr>q_heap = node b pr # node c pr # node d pr # node a pr # rest, q_size = 4, q_capacity = 4 + length rest\<rparr>"
  let ?q2 = "\<lparr>q_heap = node c pr # node a pr # node d pr # node a pr # rest, q_size = 3, q_capacity = 4 + length rest\<rparr>"
  have "priorityqueue_insert (priority_queue k) a pr = Some (?q1, ENONE)"
    unfolding q by (simp add: priorityqueue_insert_def shift_parents.simps arr_get_def arr_set_def numeral_eq_Suc Let_def)
  moreover have "priorityqueue_extract_min ?q1 = Some (?q2, b)"
    by (simp add: priorityqueue_extract_min_def arr_get_def arr_set_def heapify.simps swap_nodes_def numeral_eq_Suc Let_def)
  ultimately have "kernel_advance_scheduler P k =
      Some (load_space P (k\<lparr>priority_queue := ?q2, active_process := b\<rparr>) (p_page_table xb), p_ctx xb)"
    using p q(1) by (simp add: kernel_advance_scheduler_def enqueue_def Let_def)
  then show ?thesis by (auto simp: three_waiting_def load_space_def)
qed

lemma advance_three_times:
  assumes "three_waiting k a b c d pr" "a \<noteq> NULL" "b \<noteq> NULL" "c \<noteq> NULL"
    "\<forall>p \<in> {a, b, c}. \<exists>x. processes k p = Some x \<and> p_priority x = pr"
  shows "\<exists>k'. advance_times P n k = Some k' \<and> active_process k' \<in> {a, b, c}"
  using assms
proof (induction n arbitrary: k a b c)
  case 0
  then show ?case by (auto simp: three_waiting_def)
next
  case (Suc n)
  from Suc.prems(5) obtain xa xb where x: "processes k a = Some xa" "p_priority xa = pr" "processes k b = Some xb" by auto
  from advance_three [OF Suc.prems(1,2,3) x, of P] obtain k' ctx where k': "kernel_advance_scheduler P k = Some (k', ctx)"
    "three_waiting k' b c a d pr" "processes k' = processes k" by blast
  have "\<forall>p \<in> {b, c, a}. \<exists>x. processes k' p = Some x \<and> p_priority x = pr" using Suc.prems(5) k'(3) by auto
  from Suc.IH [OF k'(2) Suc.prems(3,4,2) this] k'(1) show ?case by auto
qed

section \<open>Processes that become runnable and processes that stop\<close>

lemma sched_wake:
  assumes inv: "sched_inv k" and p: "\<not> runnable k p" "p \<noteq> NULL" "processes k' p = Some x" "p_state x = PROCESS_ACTIVE"
    and same: "\<And>q. q \<noteq> p \<Longrightarrow> processes k' q = processes k q" "active_process k' = active_process k"
    and q: "pq_good (priority_queue k')" "entries (priority_queue k') = add_mset (p, p_priority x) (entries (priority_queue k))"
  shows "sched_inv k'"
proof -
  have np: "p \<notin> ready k" "p \<noteq> active_process k" using p(1,2) inv by (auto simp: ready_def sched_inv_def)
  have run: "runnable k' y \<longleftrightarrow> y = p \<or> runnable k y" for y
    using same(1) [of y] p by (cases "y = p") (auto simp: runnable_def)
  have "ready k' = insert p (ready k)" using np(2) same(2) by (auto simp: ready_def run)
  moreover have "ready_entries k' (ready k) = ready_entries k (ready k)"
    by (rule ready_entries_cong) (metis np(1) same(1) prio_of_def)
  ultimately have "entries (priority_queue k') = ready_entries k' (ready k')"
    using q(2) inv ready_entries_insert [OF np(1), of k'] p(3) by (simp add: sched_inv_def prio_of_def)
  then show ?thesis using q(1) inv same(2) by (simp add: sched_inv_def run)
qed

text \<open>\<open>enqueue\<close> when there is room.\<close>

lemma enqueue_ok:
  assumes "pq_good (priority_queue k)" "size (entries (priority_queue k)) < q_capacity (priority_queue k)"
  shows "\<exists>q. enqueue k p pr = Some (k\<lparr>priority_queue := q\<rparr>) \<and> pq_good q \<and>
    entries q = add_mset (p, pr) (entries (priority_queue k)) \<and> q_capacity q = q_capacity (priority_queue k)"
proof -
  have "0 < pq_room (priority_queue k)" using room_entries [OF assms(1)] assms(2) by simp
  from rq.ins_ok [OF assms(1) this, of p pr] obtain q where q: "priorityqueue_insert (priority_queue k) p pr = Some (q, ENONE)"
    "pq_good q" "entries q = add_mset (p, pr) (entries (priority_queue k))" "Suc (pq_room q) = pq_room (priority_queue k)" by blast
  moreover have "q_capacity q = q_capacity (priority_queue k)"
    using room_entries [OF assms(1)] room_entries [OF q(2)] q(3,4) by simp
  ultimately show ?thesis by (intro exI [of _ q]) (simp add: enqueue_def)
qed

lemma sched_room:
  assumes "sched_inv k" "card {p. runnable k p} < q_capacity (priority_queue k)"
  shows "size (entries (priority_queue k)) < q_capacity (priority_queue k)"
proof -
  have "card (ready k) \<le> card {p. runnable k p}" by (rule card_mono) (auto simp: ready_def)
  then show ?thesis using assms by (simp add: sched_inv_def)
qed

text \<open>The running process stops running without being put back.\<close>

lemma sched_block:
  assumes inv: "sched_inv k" and same: "\<And>q. q \<noteq> active_process k \<Longrightarrow> processes k' q = processes k q"
    and stop: "\<not> runnable k' (active_process k)" "active_process k' = NULL" "priority_queue k' = priority_queue k"
  shows "sched_inv k'"
proof -
  have "ready k' = ready k" using same stop by (auto simp: ready_def runnable_def) metis+
  moreover have "ready_entries k' (ready k) = ready_entries k (ready k)"
    by (rule ready_entries_cong) (use same in \<open>auto simp: prio_of_def ready_def\<close>)
  ultimately show ?thesis using inv stop by (simp add: sched_inv_def)
qed

section \<open>Creating processes\<close>

text \<open>The process and the context that a successful spawn leaves behind.\<close>

definition fresh_context :: "ptr \<Rightarrow> ptr \<Rightarrow> process_context_t" where
  "fresh_context kernel_start pc = set_context_stack (set_context_flags (set_context_pc
     \<lparr>gp_registers = replicate 8 0, c_ss = 0, c_cs = 0, c_eip = 0, c_flags = 0\<rparr> pc) DEFAULT_FLAGS) kernel_start"

definition fresh_process :: "u32 \<Rightarrow> int \<Rightarrow> physaddr_t \<Rightarrow> ptr \<Rightarrow> process_t" where
  "fresh_process pid pr space ctx = \<lparr>p_pid = pid, p_priority = pr, p_page_table = space, p_state = PROCESS_ACTIVE,
     p_sending_queue = queue_construct, p_message_queue = queue_construct, p_message_buffer = NULL, p_ctx = ctx\<rparr>"

lemma spawn_cases:
  assumes "kernel_spawn_process P ks k pc pr space = Some (k', pid)"
  obtains (fail) m where "k' = k\<lparr>mach := m\<rparr>" "pid = 0"
  | (ok) k1 p k2 c m1 f m2 e k3 r where "kmalloc_k P k 48 = Some (k1, p)" "p \<noteq> NULL" "kmalloc_k P k1 48 = Some (k2, c)" "c \<noteq> NULL"
      "reserve_frame P (mach k2) = Some (m1, f)" "map_frame P m1 (ks - 4096) f 0x10005 = Some (m2, e)"
      "tree_insert P (set_process (set_context (k2\<lparr>mach := m2\<rparr>) c (fresh_context ks pc)) p (fresh_process (next_pid k2) pr space c))
         (process_table k2) (next_pid k2) p = Some (k3, r)"
      "do { k4 \<leftarrow> enqueue (k3\<lparr>process_table := r\<rparr>) p pr; Some (k4\<lparr>next_pid := next_pid k4 + 1\<rparr>) } = Some k'" "pid = next_pid k2"
proof -
  have m: "k1 = k0\<lparr>mach := mach k1\<rparr>" if "kmalloc_k P k0 n = Some (k1, p)" for k0 k1 n p
    using that by (auto simp: kmalloc_k_def split: Option.bind_splits)
  from assms obtain k1 p where 1: "kmalloc_k P k 48 = Some (k1, p)" by (auto simp: kernel_spawn_process_def split: Option.bind_splits)
  show thesis
  proof (cases "p = NULL")
    case True
    then show thesis using assms 1 m [OF 1] fail by (auto simp: kernel_spawn_process_def)
  next
    case False
    with assms 1 obtain k2 c where 2: "kmalloc_k P k1 48 = Some (k2, c)" by (auto simp: kernel_spawn_process_def split: Option.bind_splits)
    show thesis
    proof (cases "c = NULL")
      case True
      then have "k' = k2" "pid = 0" using assms 1 2 False by (auto simp: kernel_spawn_process_def)
      moreover have "k2 = k\<lparr>mach := mach k2\<rparr>" by (subst m [OF 2], subst m [OF 1]) simp
      ultimately show thesis using fail by blast
    next
      case c: False
      with assms 1 2 False obtain m1 f where 3: "reserve_frame P (mach k2) = Some (m1, f)"
        by (auto simp: kernel_spawn_process_def split: Option.bind_splits)
      show thesis
      proof (cases "f mod 4096 = 0")
        case nf: False
        then have "k' = k2\<lparr>mach := m1\<rparr>" "pid = 0" using assms 1 2 3 False c by (auto simp: kernel_spawn_process_def Let_def)
        moreover have "k2\<lparr>mach := m1\<rparr> = k\<lparr>mach := m1\<rparr>" by (subst m [OF 2], subst m [OF 1]) simp
        ultimately show thesis using fail by blast
      next
        case True
        with assms 1 2 3 False c obtain m2 e where 4: "map_frame P m1 (ks - 4096) f 0x10005 = Some (m2, e)"
          by (auto simp: kernel_spawn_process_def Let_def split: Option.bind_splits)
        with assms 1 2 3 False c True show thesis
          by (auto simp: kernel_spawn_process_def Let_def fresh_context_def fresh_process_def split: Option.bind_splits prod.splits
              intro!: ok [OF 1 False 2 c 3 4])
      qed
    qed
  qed
qed

text \<open>A process whose control block sits in a block that was not in use.\<close>

lemma runnable_in_dom: "runnable k p \<Longrightarrow> p \<in> dom (processes k)"
  by (auto simp: runnable_def)

lemma heap_inv_not_live:
  "kernel_heap_inv live ty k pt qt it \<Longrightarrow> p \<notin> live (mach k) \<Longrightarrow> p \<notin> dom (processes k) \<and> p \<notin> dom (contexts k)"
  by (auto simp: kernel_heap_inv_def objects_def typed_def)

definition spawned :: "'m kernel_t \<Rightarrow> 'm kernel_t \<Rightarrow> ptr \<Rightarrow> ptr \<Rightarrow> process_t \<Rightarrow> process_context_t \<Rightarrow> bool" where
  "spawned k k' p c x ctx \<longleftrightarrow> p \<noteq> NULL \<and> p \<notin> dom (processes k) \<and> c \<notin> dom (contexts k) \<and>
     processes k' = (processes k)(p \<mapsto> x) \<and> contexts k' = (contexts k)(c \<mapsto> ctx) \<and>
     next_pid k' = next_pid k + 1 \<and> active_process k' = active_process k \<and> ports k' = ports k \<and> actions k' = actions k \<and>
     messages k' = messages k \<and> queue_nodes_of k' = queue_nodes_of k \<and> syscall_table k' = syscall_table k"

context kernel_platform
begin

text \<open>No identifier: nothing was created.\<close>

lemma spawn_failed:
  assumes "kernel_spawn_process P ks k pc pr space = Some (k', 0)" "next_pid k \<noteq> 0"
  obtains m where "k' = k\<lparr>mach := m\<rparr>" "live (mach k) \<subseteq> live m"
proof -
  obtain k1 p where 1: "kmalloc_k P k 48 = Some (k1, p)" using assms(1) by (auto simp: kernel_spawn_process_def split: Option.bind_splits)
  obtain m1 where m1: "live (mach k) \<subseteq> live m1" "k1 = k\<lparr>mach := m1\<rparr>" using 1 by (rule kmalloc_k_live)
  show thesis
  proof (cases "p = NULL")
    case True
    then show thesis using that assms(1) 1 m1 by (auto simp: kernel_spawn_process_def)
  next
    case False
    obtain k2 c where 2: "kmalloc_k P k1 48 = Some (k2, c)" using assms(1) 1 False by (auto simp: kernel_spawn_process_def split: Option.bind_splits)
    obtain m2 where m2: "live (mach k1) \<subseteq> live m2" "k2 = k1\<lparr>mach := m2\<rparr>" using 2 by (rule kmalloc_k_live)
    show thesis
    proof (cases "c = NULL")
      case True
      then show thesis using that assms(1) 1 2 False m1 m2 by (auto simp: kernel_spawn_process_def)
    next
      case cn: False
      obtain m3 f where 3: "reserve_frame P (mach k2) = Some (m3, f)" "live m3 = live m2"
        using assms(1) 1 2 False cn reserve_live m2(2) by (fastforce simp: kernel_spawn_process_def split: Option.bind_splits)
      then have "f mod 4096 \<noteq> 0" using assms 1 2 False cn m1 m2
        by (auto simp: kernel_spawn_process_def enqueue_def tree_insert_def Let_def split: Option.bind_splits if_splits)
      then show thesis using that [of m3] assms(1) 1 2 False cn m1 m2 3 by (auto simp: kernel_spawn_process_def)
    qed
  qed
qed

lemma spawn_ok:
  assumes inv: "kernel_heap_inv live ty k pt qt it" "sched_inv k" and new: "key_of (next_pid k) \<notin> dom pt"
    and cap: "card {p. runnable k p} < q_capacity (priority_queue k)"
    and run: "kernel_spawn_process P ks k pc pr space = Some (k', pid)" "pid \<noteq> 0"
  shows "\<exists>p c ty'. spawned k k' p c (fresh_process (next_pid k) pr space c) (fresh_context ks pc) \<and> pid = next_pid k \<and>
    sched_inv k' \<and> kernel_heap_inv live ty' k' (pt(key_of pid \<mapsto> p)) qt it"
  using run(1)
proof (cases rule: spawn_cases)
  case (fail m)
  then show ?thesis using run(2) by simp
next
  case (ok k1 p k2 c m1 f m2 e k3 r)
  obtain ma where a: "p \<notin> live (mach k)" "insert p (live (mach k)) \<subseteq> live ma" "k1 = k\<lparr>mach := ma\<rparr>"
    using ok(1,2) by (rule kmalloc_k_fresh)
  obtain mb where b: "c \<notin> live (mach k1)" "insert c (live (mach k1)) \<subseteq> live mb" "k2 = k1\<lparr>mach := mb\<rparr>"
    using ok(3,4) by (rule kmalloc_k_fresh)
  have m2: "live m2 = live mb" using map_live [OF ok(6)] reserve_live [OF ok(5)] b(3) by simp
  let ?x = "fresh_process (next_pid k) pr space c" and ?c = "fresh_context ks pc"
  let ?k2 = "k\<lparr>mach := m2, processes := (processes k)(p \<mapsto> ?x), contexts := (contexts k)(c \<mapsto> ?c)\<rparr>"
  have h1: "kernel_heap_inv live (ty(p := KProcess)) (k\<lparr>mach := ma, processes := (processes k)(p \<mapsto> ?x)\<rparr>) pt qt it"
    by (rule heap_inv_alloc(2) [OF inv(1) a(1,2)])
  have "insert c (live ma) \<subseteq> live m2" "c \<notin> live ma" using b(1,2) a(3) m2 by auto
  moreover have e: "?k2 = (k\<lparr>mach := ma, processes := (processes k)(p \<mapsto> ?x)\<rparr>)
      \<lparr>mach := m2, contexts := (contexts (k\<lparr>mach := ma, processes := (processes k)(p \<mapsto> ?x)\<rparr>))(c \<mapsto> ?c)\<rparr>" by simp
  ultimately have h2: "kernel_heap_inv live (ty(p := KProcess, c := KContext)) ?k2 pt qt it"
    unfolding e by (intro heap_inv_alloc(3) [OF h1]) simp_all
  have e2: "set_process (set_context (k2\<lparr>mach := m2\<rparr>) c ?c) p (fresh_process (next_pid k2) pr space c) = ?k2" using a(3) b(3) by simp
  have "tree_insert P ?k2 (process_table k2) (next_pid k2) p = Some (k3, r)" using ok(7) by (simp only: e2)
  then have ins: "tree_insert P ?k2 (process_table ?k2) (next_pid k) p = Some (k3, r)" using a(3) b(3) by simp
  from insert_process_inv [OF ins h2] new obtain ty' where
    t: "kernel_heap_inv live ty' (k3\<lparr>process_table := r\<rparr>) (pt(key_of (next_pid k) \<mapsto> p)) qt it" "same_but_tree ?k2 k3" by auto
  have k3: "priority_queue k3 = priority_queue k" "processes k3 = (processes k)(p \<mapsto> ?x)" "contexts k3 = (contexts k)(c \<mapsto> ?c)"
    "active_process k3 = active_process k" "next_pid k3 = next_pid k" "ports k3 = ports k" "actions k3 = actions k"
    "messages k3 = messages k" "queue_nodes_of k3 = queue_nodes_of k" "syscall_table k3 = syscall_table k"
    using same_but_treeD [OF t(2)] by simp_all
  have good: "pq_good (priority_queue k)" using inv(2) by (simp add: sched_inv_def)
  from enqueue_ok [of "k3\<lparr>process_table := r\<rparr>" p pr] good sched_room [OF inv(2) cap] k3(1) obtain q where
    q: "enqueue (k3\<lparr>process_table := r\<rparr>) p pr = Some (k3\<lparr>process_table := r, priority_queue := q\<rparr>)" "pq_good q"
      "entries q = add_mset (p, pr) (entries (priority_queue k))" by auto
  have k': "k' = k3\<lparr>process_table := r, priority_queue := q, next_pid := next_pid k + 1\<rparr>" using ok(8) q(1) k3(5) by simp
  have "live (mach k) \<subseteq> live ma" using a(2) by auto
  then have c: "c \<notin> live (mach k)" using b(1) a(3) by auto
  note fresh = heap_inv_not_live [OF inv(1) a(1)] heap_inv_not_live [OF inv(1) c]
  have "sched_inv k'"
    by (rule sched_wake [OF inv(2), of p]) (use fresh runnable_in_dom k' k3 q ok(2) in \<open>auto simp: fresh_process_def\<close>)
  moreover have "spawned k k' p c ?x ?c" using k' k3 ok(2) fresh by (simp add: spawned_def)
  moreover have "kernel_heap_inv live ty' k' (pt(key_of (next_pid k) \<mapsto> p)) qt it"
    using t(1) k' by (simp add: kernel_heap_inv_def)
  moreover have "pid = next_pid k" using ok(9) a(3) b(3) by simp
  ultimately show ?thesis by blast
qed

end

section \<open>Properties\<close>

text \<open>An example with two processes: 64 is running with priority 1, 192 waits with priority 0.\<close>

definition two_processes :: "flat kernel_t" where
  "two_processes = one_process\<lparr>processes := (processes one_process)(192 \<mapsto> fresh_process 8 0 0x2000 256),
     priority_queue := (queue_of [(192, 0), (0, 0), (0, 0), (0, 0)])\<lparr>q_size := 1\<rparr>\<rparr>"

lemma two_processes_runnable: "runnable two_processes p \<longleftrightarrow> p = 64 \<or> p = 192"
  by (auto simp: runnable_def two_processes_def one_process_def fresh_process_def split: if_splits)

lemma two_processes_sched: "sched_inv two_processes"
proof -
  have "ready two_processes = {192}"
    by (auto simp: ready_def two_processes_runnable) (simp_all add: two_processes_def one_process_def)
  moreover have "entries (priority_queue two_processes) = {#(192, 0)#}"
    by (simp add: two_processes_def queue_of_def entries_def contents_def entry_def)
  moreover have "prio_of two_processes 192 = 0" by (simp add: prio_of_def two_processes_def fresh_process_def)
  moreover have "active_process two_processes = 64" "pq_good (priority_queue two_processes)"
    by (simp_all add: two_processes_def one_process_def pq_eval)
  ultimately show ?thesis by (simp add: sched_inv_def ready_entries_def two_processes_runnable)
qed

text \<open>C2. \<^verbatim>\<open>kernel_advance_scheduler\<close>, when the run queue is large enough for all runnable processes and there is
  one: it always returns, the process it makes active is runnable and no runnable process (the one that
  ran before included) has a smaller priority value, its address space is loaded and its context
  returned. The run queue again holds exactly the other runnable processes. Nothing else changes.\<close>

theorem kernel_advance_scheduler_spec:
  assumes "sched_inv k" "card {p. runnable k p} \<le> q_capacity (priority_queue k)" "\<exists>p. runnable k p"
  shows "\<exists>k' p x. kernel_advance_scheduler P k = Some (k', p_ctx x) \<and> runnable k p \<and> processes k p = Some x \<and>
    (\<forall>q. runnable k q \<longrightarrow> prio_of k p \<le> prio_of k q) \<and> sched_inv k' \<and>
    k' = k\<lparr>mach := paging_load P (mach k) (p_page_table x), active_process := p, priority_queue := priority_queue k'\<rparr> \<and>
    q_capacity (priority_queue k') = q_capacity (priority_queue k)"
  using advance_chooses [OF assms(1,2)] assms(3) by blast

theorem kernel_advance_scheduler_spec_witness:
  "\<exists>k'. kernel_advance_scheduler flat_platform two_processes = Some (k', 256) \<and> active_process k' = 192 \<and> sched_inv k'"
proof -
  have eq: "{p. runnable two_processes p} = {64, 192}" by (auto simp: two_processes_runnable)
  have "card {p. runnable two_processes p} \<le> q_capacity (priority_queue two_processes)" "\<exists>p. runnable two_processes p"
    by (simp add: eq, simp add: two_processes_def queue_of_def) (auto simp: two_processes_runnable)
  from kernel_advance_scheduler_spec [OF two_processes_sched this, of flat_platform] obtain k' p x where
    r: "kernel_advance_scheduler flat_platform two_processes = Some (k', p_ctx x)" "runnable two_processes p"
      "processes two_processes p = Some x" "\<forall>q. runnable two_processes q \<longrightarrow> prio_of two_processes p \<le> prio_of two_processes q"
      "sched_inv k'" "k' = two_processes\<lparr>mach := paging_load flat_platform (mach two_processes) (p_page_table x), active_process := p,
        priority_queue := priority_queue k'\<rparr>" by (elim exE conjE)
  have "prio_of two_processes p \<le> prio_of two_processes 192" using r(4) two_processes_runnable by blast
  then have "p = 192" using r(2) by (auto simp: two_processes_runnable) (simp add: prio_of_def two_processes_def one_process_def fresh_process_def)
  moreover have "active_process k' = p" by (subst r(6)) simp
  moreover have "p_ctx x = 256" using r(3) \<open>p = 192\<close> by (auto simp: two_processes_def fresh_process_def)
  ultimately show ?thesis using r(1,5) by simp
qed

text \<open>With no runnable process \<^verbatim>\<open>kernel_advance_scheduler\<close> panics: the kernel has no idle process.\<close>

theorem kernel_advance_scheduler_panics:
  assumes "sched_inv k" "\<forall>p. \<not> runnable k p"
  shows "kernel_advance_scheduler P k = None"
  using advance_none [OF assms(1)] assms(2) by blast

theorem kernel_advance_scheduler_panics_witness:
  "kernel_advance_scheduler flat_platform (one_process\<lparr>processes := Map.empty, active_process := NULL\<rparr>) = None"
  by (rule kernel_advance_scheduler_panics)
    (auto simp: sched_inv_def ready_def runnable_def ready_entries_def one_process_def pq_eval entries_def contents_def)

text \<open>The scheduler ignores that the run queue may be full: then the process that was running stays runnable,
  but it is neither active nor in the run queue afterwards, and is never chosen again.\<close>

theorem kernel_advance_scheduler_loses_process:
  assumes "sched_inv k" "q_size (priority_queue k) = q_capacity (priority_queue k)" "active_process k \<noteq> NULL"
    and "kernel_advance_scheduler P k = Some (k', c)"
  shows "runnable k' (active_process k) \<and> active_process k \<noteq> active_process k' \<and>
    active_process k \<notin> fst ` set_mset (entries (priority_queue k'))"
  using advance_full [OF assms] by blast

definition full_queue :: "flat kernel_t" where
  "full_queue = two_processes\<lparr>priority_queue := queue_of [(192, 0)]\<rparr>"

lemma full_queue_sched: "sched_inv full_queue"
proof -
  have "entries (priority_queue full_queue) = entries (priority_queue two_processes)"
    by (simp add: full_queue_def two_processes_def queue_of_def entries_def contents_def)
  moreover have "ready full_queue = ready two_processes" "ready_entries full_queue S = ready_entries two_processes S"
    "runnable full_queue p = runnable two_processes p" "active_process full_queue = active_process two_processes" for S p
    by (auto simp: full_queue_def ready_def runnable_def prio_of_def intro!: ready_entries_cong)
  moreover have "pq_good (priority_queue full_queue)" by (simp add: full_queue_def pq_eval)
  ultimately show ?thesis using two_processes_sched by (simp add: sched_inv_def)
qed

theorem kernel_advance_scheduler_loses_process_witness:
  "\<exists>k' c. kernel_advance_scheduler flat_platform full_queue = Some (k', c) \<and> runnable k' 64 \<and> active_process k' \<noteq> 64 \<and>
     64 \<notin> fst ` set_mset (entries (priority_queue k'))"
proof -
  obtain k' c where r: "kernel_advance_scheduler flat_platform full_queue = Some (k', c)"
    by (simp add: kernel_advance_scheduler_def full_queue_def two_processes_def one_process_def queue_of_def enqueue_def
        priorityqueue_insert_def priorityqueue_extract_min_def arr_get_def arr_set_def heapify.simps)
  have "active_process full_queue = 64" by (simp add: full_queue_def two_processes_def one_process_def)
  with kernel_advance_scheduler_loses_process [OF full_queue_sched _ _ r] r show ?thesis
    by (auto simp: full_queue_def queue_of_def)
qed

text \<open>C35. Four processes of equal priority, one running and three waiting in the array order b, c, d: however
  often the scheduler is called, d never runs. (\<^verbatim>\<open>priorityqueue.h\<close> promises that among equal priorities
  the entry that waited longest comes first.)\<close>

theorem equal_priority_starvation:
  assumes "three_waiting k a b c d pr" "a \<noteq> NULL" "b \<noteq> NULL" "c \<noteq> NULL" "d \<notin> {a, b, c}"
    and "\<forall>p \<in> {a, b, c, d}. \<exists>x. processes k p = Some x \<and> p_priority x = pr \<and> p_state x = PROCESS_ACTIVE"
  shows "\<exists>k'. advance_times P n k = Some k' \<and> active_process k' \<noteq> d"
  using advance_three_times [OF assms(1-4), of P n] assms(5,6) by auto

definition four_processes :: "flat kernel_t" where
  "four_processes = one_process\<lparr>processes := [64 \<mapsto> fresh_process 1 1 0 0, 128 \<mapsto> fresh_process 2 1 0 0,
       192 \<mapsto> fresh_process 3 1 0 0, 256 \<mapsto> fresh_process 4 1 0 0],
     priority_queue := (queue_of [(128, 1), (192, 1), (256, 1), (0, 0)])\<lparr>q_size := 3\<rparr>\<rparr>"

theorem equal_priority_starvation_witness:
  "\<forall>n. \<exists>k'. advance_times flat_platform n four_processes = Some k' \<and> active_process k' \<noteq> 256"
proof
  fix n
  have "three_waiting four_processes 64 128 192 256 1"
    by (simp add: three_waiting_def four_processes_def one_process_def queue_of_def)
  from equal_priority_starvation [OF this] show "\<exists>k'. advance_times flat_platform n four_processes = Some k' \<and> active_process k' \<noteq> 256"
    by (simp add: four_processes_def fresh_process_def)
qed

text \<open>C14. \<^verbatim>\<open>kernel_spawn_process\<close>, when it answers a process identifier and the run queue has room: the identifier
  is the next free one, and a new control block with a new context was added, ready to run at the entry
  point with the stack and flags of a user process, filed under its identifier and put in the run queue.
  The invariants of scheduler and heap are kept, and the other objects are as before.\<close>

theorem kernel_spawn_process_spec:
  assumes "kernel_platform P live" "kernel_heap_inv live ty k pt qt it" "sched_inv k" "key_of (next_pid k) \<notin> dom pt"
    and "card {p. runnable k p} < q_capacity (priority_queue k)"
    and "kernel_spawn_process P ks k pc pr space = Some (k', pid)" "pid \<noteq> 0"
  shows "\<exists>p c ty'. spawned k k' p c (fresh_process (next_pid k) pr space c) (fresh_context ks pc) \<and> pid = next_pid k \<and>
    sched_inv k' \<and> kernel_heap_inv live ty' k' (pt(key_of pid \<mapsto> p)) qt it"
  using kernel_platform.spawn_ok [OF assms] .

lemma one_process_sched: "sched_inv one_process" "{p. runnable one_process p} = {64}"
proof -
  show r: "{p. runnable one_process p} = {64}" by (auto simp: runnable_def one_process_def split: if_splits)
  have a: "active_process one_process = 64" by (simp add: one_process_def)
  then have "ready one_process = {}" "runnable one_process 64" using r by (auto simp: ready_def)
  moreover have "entries (priority_queue one_process) = {#}" "pq_good (priority_queue one_process)"
    by (simp_all add: one_process_def pq_eval entries_def contents_def)
  ultimately show "sched_inv one_process" using a by (simp add: sched_inv_def ready_entries_def)
qed

theorem kernel_spawn_process_spec_witness:
  "\<exists>k' p c. kernel_spawn_process flat_platform 0xC0000000 one_process 0x400000 1 0x2000 = Some (k', 8) \<and>
     processes k' p = Some (fresh_process 8 1 0x2000 c) \<and> contexts k' c = Some (fresh_context 0xC0000000 0x400000) \<and> sched_inv k'"
proof -
  obtain k' where r: "kernel_spawn_process flat_platform 0xC0000000 one_process 0x400000 1 0x2000 = Some (k', 8)"
    by (simp add: kernel_spawn_process_def one_process_def kmalloc_k_def tree_insert_def flat_defs Let_def
        avl_insert.simps avl_new_def enqueue_def priorityqueue_insert_def shift_parents.simps queue_of_def)
  have "next_pid one_process = 8" "q_capacity (priority_queue one_process) = 4" by (simp_all add: one_process_def queue_of_def)
  with kernel_spawn_process_spec [OF flat.kernel_platform_axioms one_process_heap one_process_sched(1) _ _ r] one_process_sched(2)
  obtain p c where "spawned one_process k' p c (fresh_process 8 1 0x2000 c) (fresh_context 0xC0000000 0x400000)" "sched_inv k'" by auto
  with r show ?thesis by (intro exI [of _ k'] exI [of _ p] exI [of _ c]) (simp add: spawned_def)
qed

end
