(* ===== verification/Kernel_Messages.thy ===== *)
theory Kernel_Messages
  imports Kernel_Scheduler
begin

text \<open>
  Message passing in \<^verbatim>\<open>src/kernel.c\<close> and the system calls on top of it in \<^verbatim>\<open>src/syscalls.c\<close>. A message goes
  straight into the buffer of a process that waits for one, and otherwise into the mailbox of the
  recipient, a queue of heap copies. A process that receives from an empty mailbox blocks.
\<close>

section \<open>The code\<close>

text \<open>How a function of the kernel ends that may call \<^verbatim>\<open>load_context\<close>: it returns a value, or it enters the
  process whose saved context is at the given address.\<close>

datatype 'r outcome = Returns 'r | Enters ptr

text \<open>\<^verbatim>\<open>struct message_t\<close> in memory: eight words.\<close>

definition message_bytes :: "message_t \<Rightarrow> u8 list" where
  "message_bytes msg = concat (map bytes_of (msg_sender msg # msg_code msg # msg_args msg))"

definition message_of_bytes :: "u8 list \<Rightarrow> message_t" where
  "message_of_bytes bs = (let ws = words_of bs in
     \<lparr>msg_sender = ws ! 0, msg_code = ws ! 1, msg_args = take 6 (drop 2 ws)\<rparr>)"

definition kernel_send_message :: "'m platform \<Rightarrow> 'm kernel_t \<Rightarrow> u32 \<Rightarrow> ptr \<Rightarrow> ('m kernel_t \<times> error_t) option" where
  "kernel_send_message P k recipient message = do {
     dest \<leftarrow> tree_get k (process_table k) recipient;
     if dest = NULL then Some (k, EDOESNTEXIST)
     else do {
       d \<leftarrow> deref (processes k) dest;
       if p_message_buffer d \<noteq> NULL \<and> p_state d = PROCESS_REQUESTING then do {
         a \<leftarrow> deref (processes k) (active_process k);
         bs \<leftarrow> read_bytes P (mach k) message 32;
         let kernel_buffer = (message_of_bytes bs)\<lparr>msg_sender := p_pid a\<rparr>;
         let k = load_space P k (p_page_table d);
         m \<leftarrow> write_bytes P (mach k) (p_message_buffer d) (message_bytes kernel_buffer);
         let k = load_space P (k\<lparr>mach := m\<rparr>) (p_page_table a);
         let k = set_process k dest (d\<lparr>p_message_buffer := NULL, p_state := PROCESS_ACTIVE\<rparr>);
         c \<leftarrow> deref (contexts k) (p_ctx d);
         let k = set_context k (p_ctx d) (set_context_return c (error_code ENONE));
         k \<leftarrow> enqueue k dest (p_priority d);
         Some (k, ENONE) }
       else Some (k, EBUSY) }
   }"

definition kernel_queue_message :: "'m platform \<Rightarrow> 'm kernel_t \<Rightarrow> u32 \<Rightarrow> ptr \<Rightarrow> ('m kernel_t \<times> error_t) option" where
  "kernel_queue_message P k recipient message = do {
     dest \<leftarrow> tree_get k (process_table k) recipient;
     if dest \<noteq> NULL then do {
       a \<leftarrow> deref (processes k) (active_process k);
       d \<leftarrow> deref (processes k) dest;
       (k, queued_msg) \<leftarrow> kmalloc_k P k 32;
       if queued_msg = NULL then Some (k, ENOMEM)
       else do {
         bs \<leftarrow> read_bytes P (mach k) message 32;
         let k = k\<lparr>messages := (messages k)(queued_msg \<mapsto> message_of_bytes bs)\<rparr>;
         (k, q, _) \<leftarrow> put_queue P k (p_message_queue d) queued_msg;
         Some (set_process k dest (d\<lparr>p_message_queue := q\<rparr>), ENONE) } }
     else Some (k, EDOESNTEXIST)
   }"

unbundle bit_operations_syntax

definition receive_message :: "'m platform \<Rightarrow> 'm kernel_t \<Rightarrow> ptr \<Rightarrow> u32 \<Rightarrow> ('m kernel_t \<times> error_t outcome) option" where
  "receive_message P k buffer flags = do {
     a \<leftarrow> deref (processes k) (active_process k);
     if q_count (p_message_queue a) > 0 then do {
       (k, q, queued_msg) \<leftarrow> get_queue P k (p_message_queue a);
       let k = set_process k (active_process k) (a\<lparr>p_message_queue := q\<rparr>);
       msg \<leftarrow> deref (messages k) queued_msg;
       m \<leftarrow> write_bytes P (mach k) buffer (message_bytes msg);
       let k = k\<lparr>mach := m\<rparr>;
       let k = (kfree_k P k queued_msg)\<lparr>messages := (messages k)(queued_msg := None)\<rparr>;
       Some (k, Returns ENONE) }
     else if flags AND 1 = 1 then Some (k, Returns EDOESNTEXIST)
     else do {
       let k = set_process k (active_process k) (a\<lparr>p_message_buffer := buffer, p_state := PROCESS_REQUESTING\<rparr>);
       let k = k\<lparr>active_process := NULL\<rparr>;
       (k, ctx) \<leftarrow> kernel_advance_scheduler P k;
       Some (k, Enters ctx) }
   }"

text \<open>The system calls. The flags are \<^verbatim>\<open>IO_OP = 1\<close>, \<^verbatim>\<open>IO_RECIPIENT_TYPE = 6\<close>, \<^verbatim>\<open>IO_PORT = 2\<close>,
  \<^verbatim>\<open>IO_MAILBOX = 4\<close>.\<close>

definition send :: "'m platform \<Rightarrow> 'm kernel_t \<Rightarrow> u32 \<Rightarrow> ptr \<Rightarrow> u32 \<Rightarrow> ('m kernel_t \<times> error_t) option" where
  "send P k recipient message flags = do {
     let dest_type = flags AND 6;
     if flags AND (NOT 7) \<noteq> 0 \<or> dest_type \<ge> 4 then Some (k, EINVALIDARG)
     else do {
       r \<leftarrow> (if dest_type = 2 then kernel_get_port_owner k recipient else Some recipient);
       if dest_type = 2 \<and> r = 0 then Some (k, EDOESNTEXIST)
       else do {
         (k, status) \<leftarrow> kernel_send_message P k r message;
         if status = EBUSY then kernel_queue_message P k r message
         else Some (k, status) } }
   }"

definition receive :: "'m platform \<Rightarrow> 'm kernel_t \<Rightarrow> ptr \<Rightarrow> u32 \<Rightarrow> ('m kernel_t \<times> error_t outcome) option" where
  "receive P k buffer flags = receive_message P k buffer flags"

definition open_port :: "'m platform \<Rightarrow> 'm kernel_t \<Rightarrow> u32 \<Rightarrow> ('m kernel_t \<times> error_t) option" where
  "open_port P k i = kernel_create_port P k i"

definition close_port :: "'m platform \<Rightarrow> 'm kernel_t \<Rightarrow> u32 \<Rightarrow> ('m kernel_t \<times> error_t) option" where
  "close_port P k i = kernel_remove_port P k i"

definition terminate_self :: "'m platform \<Rightarrow> 'm kernel_t \<Rightarrow> ('m kernel_t \<times> error_t) option" where
  "terminate_self P k = do { pid \<leftarrow> kernel_current_pid k; kernel_terminate_process P k pid }"

section \<open>Mailboxes\<close>

definition message_wf :: "message_t \<Rightarrow> bool" where
  "message_wf msg \<longleftrightarrow> length (msg_args msg) = 6"

lemma message_roundtrip [simp]: "message_wf msg \<Longrightarrow> message_of_bytes (message_bytes msg) = msg"
  unfolding message_of_bytes_def message_bytes_def words_of_concat by (simp add: message_wf_def)

lemma message_of_bytes_wf: "length bs = 32 \<Longrightarrow> message_wf (message_of_bytes bs)"
  by (simp add: message_of_bytes_def message_wf_def length_words_of Let_def)

lemma length_message_bytes: "message_wf msg \<Longrightarrow> length (message_bytes msg) = 32"
  by (simp add: message_bytes_def message_wf_def)

text \<open>\<open>N p\<close> lists the nodes of the mailbox of process \<open>p\<close> with the messages they point to. No node and no
  message is shared, and no process waits to send.\<close>

definition mail_inv :: "'m kernel_t \<Rightarrow> (ptr \<Rightarrow> (ptr \<times> ptr) list) \<Rightarrow> bool" where
  "mail_inv k N \<longleftrightarrow>
     (\<forall>p x. processes k p = Some x \<longrightarrow>
        queue_nodes (queue_nodes_of k) (p_message_queue x) (N p) \<and> p_sending_queue x = queue_construct) \<and>
     (\<forall>p. p \<notin> dom (processes k) \<longrightarrow> N p = []) \<and>
     (\<forall>p. distinct (map snd (N p)) \<and> (\<forall>m \<in> snd ` set (N p). m \<noteq> NULL \<and> (\<exists>x. messages k m = Some x \<and> message_wf x))) \<and>
     (\<forall>p q. p \<noteq> q \<longrightarrow> fst ` set (N p) \<inter> fst ` set (N q) = {} \<and> snd ` set (N p) \<inter> snd ` set (N q) = {})"

definition mailbox :: "'m kernel_t \<Rightarrow> (ptr \<Rightarrow> (ptr \<times> ptr) list) \<Rightarrow> ptr \<Rightarrow> message_t list" where
  "mailbox k N p = map (\<lambda>e. the (messages k (snd e))) (N p)"

lemma same_off_dom: "same_off X h h' \<Longrightarrow> dom h' \<subseteq> X \<union> dom h"
  unfolding same_off_def dom_def by force

lemma links_dom: "links h p ns \<Longrightarrow> fst ` set ns \<subseteq> dom h"
proof (induction ns arbitrary: p)
  case (Cons x ns)
  then obtain y :: queue_node_t where "fst x \<in> dom h" "links h (qn_next y) ns" by (cases x) (auto split: option.splits)
  with Cons.IH show ?case by auto
qed simp

lemma queue_nodes_dom: "queue_nodes h q ns \<Longrightarrow> fst ` set ns \<subseteq> dom h"
  unfolding queue_nodes_def using links_dom by blast

lemma queue_nodes_frame:
  assumes "queue_nodes h q ns" "same_off X h h'" "fst ` set ns \<inter> X = {}"
  shows "queue_nodes h' q ns"
proof -
  have "h' (fst e) = h (fst e)" if "e \<in> set ns" for e using same_offD [OF assms(2)] assms(3) that by blast
  then have "links h' (q_first q) ns = links h (q_first q) ns" by (rule links_cong)
  then show ?thesis using assms(1) by (simp add: queue_nodes_def)
qed

lemma queue_nodes_short: "queue_nodes h q ns \<Longrightarrow> length ns < 2 ^ 32"
proof -
  assume q: "queue_nodes h q ns"
  then have "distinct (map fst ns)" "NULL \<notin> set (map fst ns)" using links_nonnull by (auto simp: queue_nodes_def)
  then have "distinct (NULL # map fst ns)" by simp
  then have "card (set (NULL # map fst ns)) = length (NULL # map fst ns)" by (rule distinct_card)
  moreover have "card (set (NULL # map fst ns)) \<le> card (UNIV :: ptr set)" by (rule card_mono) auto
  ultimately show ?thesis by (simp add: card_word)
qed

lemma queue_count_zero: "queue_nodes h q ns \<Longrightarrow> q_count q = 0 \<longleftrightarrow> ns = []"
proof -
  assume q: "queue_nodes h q ns"
  then have c: "q_count q = of_nat (length ns)" by (simp add: queue_nodes_def)
  show ?thesis using queue_nodes_short [OF q] unfolding c by (simp add: word_of_nat_eq_0_iff) (metis dvd_imp_le length_greater_0_conv linorder_not_less list.size(3) dvd_0_right)
qed

lemma mail_queue: "mail_inv k N \<Longrightarrow> processes k p = Some x \<Longrightarrow> queue_nodes (queue_nodes_of k) (p_message_queue x) (N p)"
  by (simp add: mail_inv_def)

lemma mail_nodes_dom: "mail_inv k N \<Longrightarrow> fst ` set (N p) \<subseteq> dom (queue_nodes_of k)"
proof -
  assume m: "mail_inv k N"
  show ?thesis
  proof (cases "processes k p")
    case None
    then show ?thesis using m by (simp add: mail_inv_def domIff)
  next
    case (Some x)
    then show ?thesis using queue_nodes_dom [OF mail_queue [OF m]] by blast
  qed
qed

lemmas mail_refs = mail_inv_def [THEN iffD1, THEN conjunct2, THEN conjunct2, THEN conjunct1, rule_format]
lemmas mail_sep = mail_inv_def [THEN iffD1, THEN conjunct2, THEN conjunct2, THEN conjunct2, rule_format]

lemma mail_message:
  assumes "mail_inv k N" "m \<in> snd ` set (N p)"
  obtains x where "m \<noteq> NULL" "messages k m = Some x" "message_wf x"
  using mail_refs [OF assms(1), of p, THEN conjunct2, rule_format, OF assms(2)] that by (elim conjE exE)

lemma mail_distinct: "mail_inv k N \<Longrightarrow> distinct (map snd (N p))"
  by (rule mail_refs [THEN conjunct1])

lemma mail_disjoint:
  assumes "mail_inv k N" "p \<noteq> q"
  shows "fst ` set (N p) \<inter> fst ` set (N q) = {}" "snd ` set (N p) \<inter> snd ` set (N q) = {}"
  by (rule mail_sep [OF assms, THEN conjunct1], rule mail_sep [OF assms, THEN conjunct2])

text \<open>One mailbox changes and the others do not: \<open>X\<close> are the nodes that were written.\<close>

lemma mail_step:
  assumes inv: "mail_inv k N" and p: "processes k p = Some x"
    and k': "processes k' = (processes k)(p \<mapsto> x')" "p_sending_queue x' = p_sending_queue x"
      "queue_nodes (queue_nodes_of k') (p_message_queue x') ns" "same_off X (queue_nodes_of k) (queue_nodes_of k')"
      "\<And>q. q \<noteq> p \<Longrightarrow> fst ` set (N q) \<inter> X = {}" "\<And>q. q \<noteq> p \<Longrightarrow> fst ` set (N q) \<inter> fst ` set ns = {} \<and> snd ` set (N q) \<inter> snd ` set ns = {}"
      "distinct (map snd ns)" "\<And>m. m \<in> snd ` set ns \<Longrightarrow> m \<noteq> NULL \<and> (\<exists>y. messages k' m = Some y \<and> message_wf y)"
      "\<And>q m. q \<noteq> p \<Longrightarrow> m \<in> snd ` set (N q) \<Longrightarrow> messages k' m = messages k m"
  shows "mail_inv k' (N(p := ns))"
  unfolding mail_inv_def
proof (intro conjI allI impI)
  fix q y
  assume y: "processes k' q = Some y"
  show "queue_nodes (queue_nodes_of k') (p_message_queue y) ((N(p := ns)) q)"
  proof (cases "q = p")
    case True
    then show ?thesis using y k'(1,3) by simp
  next
    case False
    then have "queue_nodes (queue_nodes_of k) (p_message_queue y) (N q)" using y k'(1) mail_queue [OF inv] by simp
    from queue_nodes_frame [OF this k'(4) k'(5)] False show ?thesis by simp
  qed
  show "p_sending_queue y = queue_construct"
    using y k'(1,2) inv p by (cases "q = p") (auto simp: mail_inv_def)
next
  fix q
  assume "q \<notin> dom (processes k')"
  then show "(N(p := ns)) q = []" using k'(1) inv by (auto simp: mail_inv_def domIff split: if_splits)
next
  fix q
  show "distinct (map snd ((N(p := ns)) q))" using k'(7) inv by (simp add: mail_inv_def)
  show "\<forall>m \<in> snd ` set ((N(p := ns)) q). m \<noteq> NULL \<and> (\<exists>x. messages k' m = Some x \<and> message_wf x)"
  proof (cases "q = p")
    case False
    then have "m \<noteq> NULL \<and> (\<exists>x. messages k m = Some x \<and> message_wf x)" if "m \<in> snd ` set (N q)" for m
      using inv that unfolding mail_inv_def by blast
    then show ?thesis using k'(9) [OF False] False by simp
  qed (use k'(8) in auto)
next
  fix q r :: ptr
  assume "q \<noteq> r"
  then have "q = p \<and> r \<noteq> p \<or> q \<noteq> p \<and> r = p \<or> q \<noteq> p \<and> r \<noteq> p" by blast
  then show "fst ` set ((N(p := ns)) q) \<inter> fst ` set ((N(p := ns)) r) = {}" "snd ` set ((N(p := ns)) q) \<inter> snd ` set ((N(p := ns)) r) = {}"
    using k'(6) inv \<open>q \<noteq> r\<close> by (auto simp: mail_inv_def Int_commute)
qed

section \<open>Filling and emptying a mailbox\<close>

definition same_but_links :: "'m kernel_t \<Rightarrow> 'm kernel_t \<Rightarrow> bool" where
  "same_but_links k k' \<longleftrightarrow> k' = k\<lparr>mach := mach k', queue_nodes_of := queue_nodes_of k'\<rparr>"

lemma same_but_linksD:
  assumes "same_but_links k k'"
  shows "process_table k' = process_table k" "port_table k' = port_table k" "interrupt_handlers k' = interrupt_handlers k"
    "avl_nodes k' = avl_nodes k" "processes k' = processes k" "contexts k' = contexts k" "ports k' = ports k"
    "actions k' = actions k" "messages k' = messages k" "syscall_table k' = syscall_table k"
    "priority_queue k' = priority_queue k" "active_process k' = active_process k" "next_pid k' = next_pid k"
  by (subst assms [unfolded same_but_links_def], simp)+

lemma heap_inv_links:
  assumes "same_but_links k k'" "objects L ty k" "tables L' ty' k pt qt it"
    and "typed L' ty' KLink (dom (queue_nodes_of k'))" "\<And>c D. c \<noteq> KNode \<Longrightarrow> c \<noteq> KLink \<Longrightarrow> typed L ty c D \<Longrightarrow> typed L' ty' c D"
  shows "objects L' ty' k'" "tables L' ty' k' pt qt it"
  using assms(2-5) same_but_linksD [OF assms(1)] by (auto simp: objects_def tables_def)

context kernel_platform
begin

lemma put_queue_inv:
  assumes h: "kernel_heap_inv live ty k pt qt it" and q: "queue_nodes (queue_nodes_of k) q ns"
    and run: "put_queue P k q v = Some (k', q', e)" "e = ENONE"
  shows "\<exists>n ty'. n \<notin> live (mach k) \<and> queue_nodes (queue_nodes_of k') q' (ns @ [(n, v)]) \<and>
    same_off (insert n (fst ` set ns)) (queue_nodes_of k) (queue_nodes_of k') \<and> same_but_links k k' \<and>
    kernel_heap_inv live ty' k' pt qt it"
proof -
  from run(1) obtain m n where km: "km (heap_of P) (mach k) 8 = Some (m, n)"
    by (auto simp: put_queue_def queue_insert_def split: Option.bind_splits)
  have "n \<noteq> NULL" using run km by (auto simp: put_queue_def queue_insert_def)
  note f = km_fresh [OF km this]
  have nodes: "fst ` set ns \<subseteq> dom (queue_nodes_of k)" using queue_nodes_dom [OF q] .
  have ob: "objects (live (mach k)) ty k" "tables (live (mach k)) ty k pt qt it" using h by (auto simp: kernel_heap_inv_def)
  then have L: "typed (live (mach k)) ty KLink (dom (queue_nodes_of k))" by (simp add: objects_def)
  then have "n \<notin> fst ` set ns" using f nodes unfolding typed_def by blast
  from queue_insert_nodes [OF q km \<open>n \<noteq> NULL\<close> this, of v] run(1) obtain h' where
    k': "queue_nodes h' q' (ns @ [(n, v)])" "same_off (insert n (fst ` set ns)) (queue_nodes_of k) h'"
      "k' = k\<lparr>mach := m, queue_nodes_of := h'\<rparr>" by (auto simp: put_queue_def)
  have sb: "same_but_links k k'" using k'(3) by (simp add: same_but_links_def)
  have "dom h' \<subseteq> insert n (dom (queue_nodes_of k))"
    using same_off_dom [OF k'(2)] nodes by blast
  then have "typed (live m) (ty(n := KLink)) KLink (dom h')" using L f by (auto simp: typed_def)
  then have "kernel_heap_inv live (ty(n := KLink)) k' pt qt it"
    using heap_inv_links [OF sb ob(1) tables_other [OF ob(2)], of n "live m" KLink] typed_other f k'(3) by (simp add: kernel_heap_inv_def)
  then show ?thesis using f k' sb by (intro exI [of _ n] exI [of _ "ty(n := KLink)"]) simp
qed

lemma put_queue_full:
  assumes "kernel_heap_inv live ty k pt qt it" "put_queue P k q v = Some (k', q', e)" "e \<noteq> ENONE"
  shows "\<exists>m. k' = k\<lparr>mach := m\<rparr> \<and> q' = q \<and> kernel_heap_inv live ty k' pt qt it \<and> km (heap_of P) (mach k) 8 = Some (m, NULL)"
proof -
  from assms(2,3) obtain m where m: "km (heap_of P) (mach k) 8 = Some (m, NULL)" "k' = k\<lparr>mach := m\<rparr>" "q' = q"
    unfolding put_queue_def queue_insert_def
    by (auto simp: Let_def split: Option.bind_splits prod.splits if_splits)
  have "kernel_heap_inv live ty k' pt qt it" unfolding m(2) by (rule heap_inv_mach [OF assms(1) km_live [OF m(1)]])
  with m show ?thesis by (intro exI [of _ m]) simp
qed

lemma get_queue_inv:
  assumes h: "kernel_heap_inv live ty k pt qt it" and q: "queue_nodes (queue_nodes_of k) q ((n, v) # ns)"
  shows "\<exists>k' q'. get_queue P k q = Some (k', q', v) \<and> queue_nodes (queue_nodes_of k') q' ns \<and>
    queue_nodes_of k' = (queue_nodes_of k)(n := None) \<and> mach k' = kf (heap_of P) (mach k) n \<and> same_but_links k k' \<and>
    kernel_heap_inv live ty k' pt qt it"
proof -
  from queue_get_next_nodes [OF q, of "heap_of P" "mach k"] obtain q' where
    g: "queue_get_next (heap_of P) (mach k, queue_nodes_of k) q = Some ((kf (heap_of P) (mach k) n, (queue_nodes_of k)(n := None)), q', v)"
      "queue_nodes ((queue_nodes_of k)(n := None)) q' ns" by blast
  let ?k = "k\<lparr>mach := kf (heap_of P) (mach k) n, queue_nodes_of := (queue_nodes_of k)(n := None)\<rparr>"
  have ob: "objects (live (mach k)) ty k" "tables (live (mach k)) ty k pt qt it" using h by (auto simp: kernel_heap_inv_def)
  then have L: "typed (live (mach k)) ty KLink (dom (queue_nodes_of k))" by (simp add: objects_def)
  have "n \<in> dom (queue_nodes_of k)" using queue_nodes_dom [OF q] by simp
  then have n: "ty n = KLink" using L by (auto simp: typed_def)
  have sb: "same_but_links k ?k" by (simp add: same_but_links_def)
  have "tables (live (mach ?k)) ty k pt qt it" using tables_free_other [OF ob(2) kf_live [of "mach k" n]] n by simp
  moreover have "typed (live (mach ?k)) ty KLink (dom (queue_nodes_of ?k))" using typed_free [OF L kf_live [of "mach k" n]] by simp
  moreover have "typed (live (mach ?k)) ty c D" if "c \<noteq> KLink" "typed (live (mach k)) ty c D" for c D
    using typed_free_other [OF that(2) kf_live [of "mach k" n]] n that(1) by simp
  ultimately have "kernel_heap_inv live ty ?k pt qt it" using heap_inv_links [OF sb ob(1)] by (simp add: kernel_heap_inv_def)
  then show ?thesis using g sb by (intro exI [of _ ?k] exI [of _ q']) (simp add: get_queue_def)
qed

text \<open>A message and a link to it are added at the end of the mailbox of \<open>dest\<close>.\<close>

lemma mailbox_append:
  assumes inv: "mail_inv k N" "kernel_heap_inv live ty k pt qt it" and d: "processes k dest = Some d"
    and m: "qm \<notin> live (mach k)" "qm \<noteq> NULL" "insert qm (live (mach k)) \<subseteq> live m" "message_wf msg"
    and run: "put_queue P (k\<lparr>mach := m, messages := (messages k)(qm \<mapsto> msg)\<rparr>) (p_message_queue d) qm = Some (k2, q, ENONE)"
  shows "\<exists>n ty'. mail_inv (set_process k2 dest (d\<lparr>p_message_queue := q\<rparr>)) (N(dest := N dest @ [(n, qm)])) \<and>
    (\<forall>p. mailbox (set_process k2 dest (d\<lparr>p_message_queue := q\<rparr>)) (N(dest := N dest @ [(n, qm)])) p =
       (if p = dest then mailbox k N p @ [msg] else mailbox k N p)) \<and>
    kernel_heap_inv live ty' (set_process k2 dest (d\<lparr>p_message_queue := q\<rparr>)) pt qt it"
proof -
  let ?k1 = "k\<lparr>mach := m, messages := (messages k)(qm \<mapsto> msg)\<rparr>" and ?k = "set_process k2 dest (d\<lparr>p_message_queue := q\<rparr>)"
  have h1: "kernel_heap_inv live (ty(qm := KMessage)) ?k1 pt qt it" by (rule heap_inv_alloc(5) [OF inv(2) m(1,3)])
  have "queue_nodes (queue_nodes_of ?k1) (p_message_queue d) (N dest)" using mail_queue [OF inv(1) d] by simp
  from put_queue_inv [OF h1 this run refl] obtain n ty' where
    r: "n \<notin> live m" "queue_nodes (queue_nodes_of k2) q (N dest @ [(n, qm)])"
      "same_off (insert n (fst ` set (N dest))) (queue_nodes_of k) (queue_nodes_of k2)" "same_but_links ?k1 k2"
      "kernel_heap_inv live ty' k2 pt qt it" by auto
  note k2 = same_but_linksD [OF r(4)]
  have ms: "messages k2 = (messages k)(qm \<mapsto> msg)" and ps: "processes k2 = processes k" using k2 by simp_all
  have dom: "dom (queue_nodes_of k) \<subseteq> live m" "qm \<notin> dom (messages k)"
    using inv(2) m(1,3) by (auto simp: kernel_heap_inv_def objects_def typed_def)
  have nodes: "fst ` set (N p) \<subseteq> live m" for p using subset_trans [OF mail_nodes_dom [OF inv(1)] dom(1)] .
  have qm: "qm \<notin> snd ` set (N p)" for p using mail_message [OF inv(1)] dom(2) by (metis domI)
  have nn: "n \<notin> fst ` set (N p)" for p using nodes [of p] r(1) by blast
  note disj = mail_disjoint [OF inv(1), of _ dest] and dis = mail_distinct [OF inv(1), of dest]
  have "mail_inv ?k (N(dest := N dest @ [(n, qm)]))"
  proof (rule mail_step [OF inv(1) d, where X = "insert n (fst ` set (N dest))" and x' = "d\<lparr>p_message_queue := q\<rparr>"])
    fix m'
    assume "m' \<in> snd ` set (N dest @ [(n, qm)])"
    then consider "m' = qm" | "m' \<noteq> qm" "m' \<in> snd ` set (N dest)" by auto
    then show "m' \<noteq> NULL \<and> (\<exists>y. messages ?k m' = Some y \<and> message_wf y)"
    proof cases
      case 2
      with mail_message [OF inv(1) 2(2)] ms show ?thesis by auto
    qed (use m(2,4) ms in auto)
  next
    fix p m'
    assume "m' \<in> snd ` set (N p)"
    then have "m' \<noteq> qm" using qm by blast
    then show "messages ?k m' = messages k m'" using ms by simp
  next
    fix p
    assume "p \<noteq> dest"
    then show "fst ` set (N p) \<inter> insert n (fst ` set (N dest)) = {}" using disj(1) nn [of p] by auto
    show "fst ` set (N p) \<inter> fst ` set (N dest @ [(n, qm)]) = {} \<and> snd ` set (N p) \<inter> snd ` set (N dest @ [(n, qm)]) = {}"
      using disj [OF \<open>p \<noteq> dest\<close>] nn [of p] qm [of p] by auto
  qed (use r(2,3) ps dis qm [of dest] in simp_all)
  moreover have "mailbox ?k (N(dest := N dest @ [(n, qm)])) p = (if p = dest then mailbox k N p @ [msg] else mailbox k N p)" for p
  proof -
    have "the (messages k2 (snd e)) = the (messages k (snd e))" if "e \<in> set (N p)" for e
      using qm [of p] that unfolding ms by (metis fun_upd_other imageI)
    then show ?thesis using ms by (simp add: mailbox_def)
  qed
  moreover have "kernel_heap_inv live ty' ?k pt qt it"
    using r(5) d ps by (auto simp: kernel_heap_inv_def objects_def typed_def insert_absorb domI)
  ultimately show ?thesis by blast
qed

end

section \<open>Sending\<close>

definition procs_ok :: "'m kernel_t \<Rightarrow> (int \<rightharpoonup> ptr) \<Rightarrow> bool" where
  "procs_ok k pt \<longleftrightarrow> (\<forall>i p. pt i = Some p \<longrightarrow> p \<noteq> NULL \<and> (\<exists>x. processes k p = Some x \<and> key_of (p_pid x) = i))"

lemma procs_okE:
  assumes "procs_ok k pt" "pt i = Some p"
  obtains x where "p \<noteq> NULL" "processes k p = Some x" "key_of (p_pid x) = i"
  using assms unfolding procs_ok_def by blast

text \<open>Mailboxes look at the links, the control blocks and the messages they hold.\<close>

lemma mail_inv_same:
  assumes inv: "mail_inv k N" and same: "processes k' = processes k" "queue_nodes_of k' = queue_nodes_of k"
    "\<And>m x. messages k m = Some x \<Longrightarrow> messages k' m = Some x"
  shows "mail_inv k' N" "mailbox k' N p = mailbox k N p"
proof -
  have m: "messages k' m = messages k m \<and> m \<noteq> NULL \<and> (\<exists>x. messages k m = Some x \<and> message_wf x)" if "m \<in> snd ` set (N q)" for q m
    using mail_message [OF inv that] same(3) by metis
  have "the (messages k' (snd e)) = the (messages k (snd e))" if "e \<in> set (N p)" for e using m [of "snd e" p] that by simp
  then show "mailbox k' N p = mailbox k N p" by (simp add: mailbox_def)
  have "\<forall>q. distinct (map snd (N q)) \<and> (\<forall>m \<in> snd ` set (N q). m \<noteq> NULL \<and> (\<exists>x. messages k' m = Some x \<and> message_wf x))"
    using m mail_distinct [OF inv] by auto
  then show "mail_inv k' N" using inv unfolding mail_inv_def same(1,2) by (elim conjE) (intro conjI)
qed

lemma mail_inv_process:
  assumes inv: "mail_inv k N" "processes k p = Some x"
    and k': "processes k' = (processes k)(p \<mapsto> x')" "p_message_queue x' = p_message_queue x" "p_sending_queue x' = p_sending_queue x"
      "queue_nodes_of k' = queue_nodes_of k" "messages k' = messages k"
  shows "mail_inv k' N"
proof -
  have "mail_inv k' (N(p := N p))"
  proof (rule mail_step [OF inv k'(1,3), where X = "{}"])
    show "m \<noteq> NULL \<and> (\<exists>y. messages k' m = Some y \<and> message_wf y)" if "m \<in> snd ` set (N p)" for m
      using mail_refs [OF inv(1), of p, THEN conjunct2, rule_format, OF that] k'(5) by simp
    show "fst ` set (N q) \<inter> fst ` set (N p) = {} \<and> snd ` set (N q) \<inter> snd ` set (N p) = {}" if "q \<noteq> p" for q
      by (rule mail_sep [OF inv(1) that])
  qed (use k' mail_queue [OF inv] mail_distinct [OF inv(1)] in simp_all)
  then show ?thesis by simp
qed

context kernel_platform
begin

lemma queue_message_effect:
  assumes inv: "kernel_heap_inv live ty k pt qt it" "mail_inv k N" "procs_ok k pt" and dest: "pt (key_of r) = Some dest"
    and run: "kernel_queue_message P k r message = Some (k', e)"
  shows "(\<exists>m qm bs n ty'. km (heap_of P) (mach k) 32 = Some (m, qm) \<and> read_bytes P m message 32 = Some bs \<and> e = ENONE \<and>
      mail_inv k' (N(dest := N dest @ [(n, qm)])) \<and> kernel_heap_inv live ty' k' pt qt it \<and>
      (\<forall>p. mailbox k' (N(dest := N dest @ [(n, qm)])) p =
         (if p = dest then mailbox k N p @ [message_of_bytes bs] else mailbox k N p))) \<or>
    (e = ENOMEM \<or> e = ENONE) \<and> mail_inv k' N \<and> (\<forall>p. mailbox k' N p = mailbox k N p) \<and>
      (\<exists>ty'. kernel_heap_inv live ty' k' pt qt it) \<and> (\<exists>a a' n. km (heap_of P) a n = Some (a', NULL))"
proof -
  from inv(3) dest obtain d where d: "dest \<noteq> NULL" "processes k dest = Some d" by (rule procs_okE)
  have get: "tree_get k (process_table k) r = Some dest" using tables_get(1) inv(1) dest by (fastforce simp: kernel_heap_inv_def)
  from run get d obtain m qm where km: "km (heap_of P) (mach k) 32 = Some (m, qm)"
    by (auto simp: kernel_queue_message_def kmalloc_k_def split: Option.bind_splits)
  show ?thesis
  proof (cases "qm = NULL")
    case True
    then have "k' = k\<lparr>mach := m\<rparr>" "e = ENOMEM" using run get d km
      by (auto simp: kernel_queue_message_def kmalloc_k_def split: Option.bind_splits)
    then show ?thesis using mail_inv_same [OF inv(2), of k'] heap_inv_mach [OF inv(1) km_live [OF km]] km True by auto
  next
    case False
    note f = km_fresh [OF km False]
    let ?k1 = "\<lambda>bs. k\<lparr>mach := m, messages := (messages k)(qm \<mapsto> message_of_bytes bs)\<rparr>"
    from run get d km False obtain bs k2 q e' where bs: "read_bytes P m message 32 = Some bs"
      "put_queue P (?k1 bs) (p_message_queue d) qm = Some (k2, q, e')" "k' = set_process k2 dest (d\<lparr>p_message_queue := q\<rparr>)" "e = ENONE"
      by (auto simp: kernel_queue_message_def kmalloc_k_def Let_def split: Option.bind_splits prod.splits)
    have wf: "message_wf (message_of_bytes bs)" using read_length [OF bs(1)] by (rule message_of_bytes_wf)
    show ?thesis
    proof (cases "e' = ENONE")
      case True
      from mailbox_append [OF inv(2,1) d(2) _ False _ wf bs(2) [unfolded True]] f obtain n ty' where
        "mail_inv k' (N(dest := N dest @ [(n, qm)]))" "kernel_heap_inv live ty' k' pt qt it"
        "\<forall>p. mailbox k' (N(dest := N dest @ [(n, qm)])) p = (if p = dest then mailbox k N p @ [message_of_bytes bs] else mailbox k N p)"
        unfolding bs(3) [symmetric] by blast
      then show ?thesis using km bs(1,4) by (intro disjI1 exI conjI)
    next
      case False
      have h1: "kernel_heap_inv live (ty(qm := KMessage)) (?k1 bs) pt qt it" by (rule heap_inv_alloc(5) [OF inv(1)]) (use f in auto)
      from put_queue_full [OF h1 bs(2) False] obtain m' where
        k2: "k2 = (?k1 bs)\<lparr>mach := m'\<rparr>" "q = p_message_queue d" "kernel_heap_inv live (ty(qm := KMessage)) k2 pt qt it"
          "km (heap_of P) (mach (?k1 bs)) 8 = Some (m', NULL)" by (elim exE conjE)
      have same: "processes k' = processes k" "queue_nodes_of k' = queue_nodes_of k" "messages k' = (messages k)(qm \<mapsto> message_of_bytes bs)"
        using bs(3) k2(1,2) d(2) by (auto simp: fun_upd_idem)
      have "qm \<notin> dom (messages k)" using inv(1) f by (auto simp: kernel_heap_inv_def objects_def typed_def)
      then have "messages k' x = Some y" if "messages k x = Some y" for x y using same(3) that by auto
      note mail = mail_inv_same [OF inv(2) same(1,2) this]
      have "k' = k2" using bs(3) k2(1,2) d(2) by (simp add: fun_upd_idem)
      then show ?thesis using mail k2(3,4) bs(4) by blast
    qed
  qed
qed

text \<open>A message that is handed straight to a process waiting for one.\<close>

lemma send_direct:
  assumes inv: "kernel_heap_inv live ty k pt qt it" "sched_inv k" "mail_inv k N" "procs_ok k pt"
    and cap: "card {p. runnable k p} < q_capacity (priority_queue k)"
    and d: "pt (key_of r) = Some dest" "processes k dest = Some d" "p_message_buffer d \<noteq> NULL" "p_state d = PROCESS_REQUESTING"
    and run: "kernel_send_message P k r message = Some (k', e)"
  shows "\<exists>a bs m c. e = ENONE \<and> processes k (active_process k) = Some a \<and> read_bytes P (mach k) message 32 = Some bs \<and>
    write_bytes P (paging_load P (mach k) (p_page_table d)) (p_message_buffer d)
      (message_bytes ((message_of_bytes bs)\<lparr>msg_sender := p_pid a\<rparr>)) = Some m \<and>
    mach k' = paging_load P m (p_page_table a) \<and>
    processes k' = (processes k)(dest \<mapsto> d\<lparr>p_message_buffer := NULL, p_state := PROCESS_ACTIVE\<rparr>) \<and>
    contexts k (p_ctx d) = Some c \<and> contexts k' = (contexts k)(p_ctx d \<mapsto> set_context_return c 0) \<and>
    sched_inv k' \<and> kernel_heap_inv live ty k' pt qt it \<and> mail_inv k' N \<and> active_process k' = active_process k"
proof -
  have dn: "dest \<noteq> NULL" using inv(4) d(1) by (auto simp: procs_ok_def)
  have get: "tree_get k (process_table k) r = Some dest" using tables_get(1) inv(1) d(1) by (fastforce simp: kernel_heap_inv_def)
  let ?d = "d\<lparr>p_message_buffer := NULL, p_state := PROCESS_ACTIVE\<rparr>"
  let ?k1 = "\<lambda>m a c. k\<lparr>mach := paging_load P m (p_page_table a), processes := (processes k)(dest \<mapsto> ?d),
    contexts := (contexts k)(p_ctx d \<mapsto> set_context_return c 0)\<rparr>"
  obtain a where a: "deref (processes k) (active_process k) = Some a"
    using run get dn d by (auto simp: kernel_send_message_def split: Option.bind_splits)
  with run get dn d obtain bs m c where s: "read_bytes P (mach k) message 32 = Some bs"
    "write_bytes P (paging_load P (mach k) (p_page_table d)) (p_message_buffer d)
      (message_bytes ((message_of_bytes bs)\<lparr>msg_sender := p_pid a\<rparr>)) = Some m"
    "contexts k (p_ctx d) = Some c" "enqueue (?k1 m a c) dest (p_priority d) = Some k'" "e = ENONE"
    by (auto simp: kernel_send_message_def load_space_def Let_def split: Option.bind_splits)
  have live: "live (paging_load P m (p_page_table a)) = live (mach k)" using write_live [OF s(2)] load_live by simp
  have heap: "kernel_heap_inv live ty (?k1 m a c) pt qt it"
    using inv(1) live d(2) s(3) by (auto simp: kernel_heap_inv_def objects_def insert_absorb domI)
  from enqueue_ok [of "?k1 m a c" dest "p_priority d"] inv(2) sched_room [OF inv(2) cap] s(4) obtain q where
    q: "k' = (?k1 m a c)\<lparr>priority_queue := q\<rparr>" "pq_good q" "entries q = add_mset (dest, p_priority d) (entries (priority_queue k))"
    by (auto simp: sched_inv_def)
  have "sched_inv k'"
    by (rule sched_wake [OF inv(2), where p = dest and x = ?d]) (use dn d q in \<open>auto simp: runnable_def\<close>)
  moreover have "mail_inv k' N"
    by (rule mail_inv_process [OF inv(3) d(2), where x' = ?d]) (use q(1) in simp_all)
  moreover have "kernel_heap_inv live ty k' pt qt it" using heap q(1) by (simp add: kernel_heap_inv_def)
  ultimately show ?thesis using a s q(1) by (intro exI [of _ a] exI [of _ bs] exI [of _ m] exI [of _ c]) simp
qed

section \<open>Receiving\<close>

text \<open>The oldest message leaves the mailbox and is freed. \<open>m\<close> is the machine at that point.\<close>

lemma mailbox_pop:
  assumes inv: "kernel_heap_inv live ty k pt qt it" "mail_inv k N" and x: "processes k p = Some x" and N: "N p = (n, qm) # ns"
  shows "\<exists>k1 q msg. get_queue P k (p_message_queue x) = Some (k1, q, qm) \<and> mach k1 = kf (heap_of P) (mach k) n \<and> same_but_links k k1 \<and>
    qm \<noteq> NULL \<and> messages k1 qm = Some msg \<and> message_wf msg \<and> mailbox k N p = msg # map (\<lambda>e. the (messages k (snd e))) ns \<and>
    (\<forall>m k'. live m = live (mach k1) \<longrightarrow>
      k' = k1\<lparr>mach := kf (heap_of P) m qm, processes := (processes k)(p \<mapsto> x\<lparr>p_message_queue := q\<rparr>), messages := (messages k)(qm := None)\<rparr> \<longrightarrow>
      kernel_heap_inv live ty k' pt qt it \<and> mail_inv k' (N(p := ns)) \<and>
      (\<forall>r. mailbox k' (N(p := ns)) r = (if r = p then tl (mailbox k N p) else mailbox k N r)))"
proof -
  have q: "queue_nodes (queue_nodes_of k) (p_message_queue x) ((n, qm) # ns)" using mail_queue [OF inv(2) x] N by simp
  from get_queue_inv [OF inv(1) q] obtain k1 q' where g: "get_queue P k (p_message_queue x) = Some (k1, q', qm)"
    "queue_nodes (queue_nodes_of k1) q' ns" "queue_nodes_of k1 = (queue_nodes_of k)(n := None)" "mach k1 = kf (heap_of P) (mach k) n"
    "same_but_links k k1" "kernel_heap_inv live ty k1 pt qt it" by (elim exE conjE)
  note k1 = same_but_linksD [OF g(5)]
  have "qm \<in> snd ` set (N p)" using N by simp
  with inv(2) obtain msg where msg: "qm \<noteq> NULL" "messages k qm = Some msg" "message_wf msg" by (rule mail_message)
  have ty: "ty qm = KMessage" "p \<in> dom (processes k)"
    using inv(1) msg(2) x by (auto simp: kernel_heap_inv_def objects_def typed_def)
  have dis: "distinct (map snd ((n, qm) # ns))" "distinct (map fst ((n, qm) # ns))"
    using mail_distinct [OF inv(2), of p] N q by (auto simp: queue_nodes_def)
  have step: "kernel_heap_inv live ty k' pt qt it \<and> mail_inv k' (N(p := ns)) \<and>
      (\<forall>r. mailbox k' (N(p := ns)) r = (if r = p then tl (mailbox k N p) else mailbox k N r))"
    if m: "live m = live (mach k1)" and k': "k' = k1\<lparr>mach := kf (heap_of P) m qm,
      processes := (processes k)(p \<mapsto> x\<lparr>p_message_queue := q'\<rparr>), messages := (messages k)(qm := None)\<rparr>" for m k'
  proof (intro conjI allI)
    have "kernel_heap_inv live ty (k1\<lparr>mach := m\<rparr>) pt qt it" by (rule heap_inv_mach [OF g(6)]) (simp add: m)
    from heap_inv_free(5) [OF this, of qm] ty k1 k' show "kernel_heap_inv live ty k' pt qt it"
      by (auto simp: kfree_k_def kernel_heap_inv_def objects_def insert_absorb)
    have other: "messages k' e = messages k e" if "e \<in> snd ` set (N r)" "r \<noteq> p" for r e
      using mail_disjoint(2) [OF inv(2) that(2)] that(1) N k' by auto
    have own: "messages k' e = messages k e" if "e \<in> snd ` set ns" for e using dis(1) that k' by auto
    show "mail_inv k' (N(p := ns))"
    proof (rule mail_step [OF inv(2) x, where X = "{n}" and x' = "x\<lparr>p_message_queue := q'\<rparr>"])
      fix e
      assume e: "e \<in> snd ` set ns"
      then have "e \<in> snd ` set (N p)" using N by auto
      with inv(2) obtain y where "e \<noteq> NULL" "messages k e = Some y" "message_wf y" by (rule mail_message)
      then show "e \<noteq> NULL \<and> (\<exists>y. messages k' e = Some y \<and> message_wf y)" using own [OF e] by simp
    next
      fix r
      assume "r \<noteq> p"
      from mail_disjoint [OF inv(2) this] N show "fst ` set (N r) \<inter> {n} = {}"
        "fst ` set (N r) \<inter> fst ` set ns = {} \<and> snd ` set (N r) \<inter> snd ` set ns = {}" by auto
    qed (use k' g(2,3) dis other in \<open>auto simp: same_off_def\<close>)
    show "mailbox k' (N(p := ns)) r = (if r = p then tl (mailbox k N p) else mailbox k N r)" for r
      using own other [of _ r] N by (auto simp: mailbox_def)
  qed
  moreover have "mailbox k N p = msg # map (\<lambda>e. the (messages k (snd e))) ns" using N msg(2) by (simp add: mailbox_def)
  ultimately show ?thesis using g(1,4,5) msg k1(9) by (intro exI [of _ k1] exI [of _ q'] exI [of _ msg]) simp
qed

lemma receive_queued:
  assumes inv: "kernel_heap_inv live ty k pt qt it" "mail_inv k N"
    and a: "active_process k \<noteq> NULL" "processes k (active_process k) = Some a" and N: "N (active_process k) = (n, qm) # ns"
    and msg: "mailbox k N (active_process k) = msg # rest"
  shows "receive_message P k buffer flags = None \<and> write_bytes P (kf (heap_of P) (mach k) n) buffer (message_bytes msg) = None \<or>
    (\<exists>k' m. receive_message P k buffer flags = Some (k', Returns ENONE) \<and>
      write_bytes P (kf (heap_of P) (mach k) n) buffer (message_bytes msg) = Some m \<and> mach k' = kf (heap_of P) m qm \<and>
      kernel_heap_inv live ty k' pt qt it \<and> mail_inv k' (N(active_process k := ns)) \<and> active_process k' = active_process k \<and>
      (\<forall>r. mailbox k' (N(active_process k := ns)) r = (if r = active_process k then rest else mailbox k N r)))"
proof -
  let ?p = "active_process k"
  from mailbox_pop [OF inv a(2) N] obtain k1 q msg' where g: "get_queue P k (p_message_queue a) = Some (k1, q, qm)"
    "mach k1 = kf (heap_of P) (mach k) n" "same_but_links k k1" "qm \<noteq> NULL" "messages k1 qm = Some msg'"
    "mailbox k N ?p = msg' # map (\<lambda>e. the (messages k (snd e))) ns" and
    step: "\<forall>m k'. live m = live (mach k1) \<longrightarrow>
      k' = k1\<lparr>mach := kf (heap_of P) m qm, processes := (processes k)(?p \<mapsto> a\<lparr>p_message_queue := q\<rparr>), messages := (messages k)(qm := None)\<rparr> \<longrightarrow>
      kernel_heap_inv live ty k' pt qt it \<and> mail_inv k' (N(?p := ns)) \<and>
      (\<forall>r. mailbox k' (N(?p := ns)) r = (if r = ?p then tl (mailbox k N ?p) else mailbox k N r))" by (elim exE conjE)
  note k1 = same_but_linksD [OF g(3)]
  have "q_count (p_message_queue a) \<noteq> 0" using queue_count_zero [OF mail_queue [OF inv(2) a(2)]] N by simp
  then have c: "0 < q_count (p_message_queue a)" by (simp add: word_neq_0_conv)
  have eq: "msg' = msg" "rest = tl (mailbox k N ?p)" using g(6) msg by simp_all
  show ?thesis
  proof (cases "write_bytes P (mach k1) buffer (message_bytes msg)")
    case None
    then have "receive_message P k buffer flags = None"
      using a c g(1,4,5) k1 eq by (simp add: receive_message_def Let_def)
    then show ?thesis using None g(2) by simp
  next
    case (Some m)
    let ?k = "k1\<lparr>mach := kf (heap_of P) m qm, processes := (processes k)(?p \<mapsto> a\<lparr>p_message_queue := q\<rparr>), messages := (messages k)(qm := None)\<rparr>"
    have "receive_message P k buffer flags = Some (?k, Returns ENONE)"
      using a c g(1,4,5) k1 eq Some by (simp add: receive_message_def Let_def kfree_k_def)
    moreover have "live m = live (mach k1)" using write_live [OF Some] .
    ultimately show ?thesis using step Some g(2) k1 eq by (intro disjI2 exI [of _ ?k] exI [of _ m]) simp
  qed
qed

lemma receive_empty:
  assumes "mail_inv k N" "active_process k \<noteq> NULL" "processes k (active_process k) = Some a" "N (active_process k) = []"
  shows "receive_message P k buffer flags =
    (if flags AND 1 = 1 then Some (k, Returns EDOESNTEXIST)
     else do {
       (k, ctx) \<leftarrow> kernel_advance_scheduler P
         (k\<lparr>processes := (processes k)(active_process k \<mapsto> a\<lparr>p_message_buffer := buffer, p_state := PROCESS_REQUESTING\<rparr>),
            active_process := NULL\<rparr>);
       Some (k, Enters ctx) })"
proof -
  have "q_count (p_message_queue a) = 0" using queue_count_zero [OF mail_queue [OF assms(1,3)]] assms(4) by simp
  then show ?thesis using assms(2,3) by (simp add: receive_message_def Let_def)
qed

end

text \<open>The running process \<open>a\<close> now waits for a message in \<open>b\<close>.\<close>

abbreviation blocked :: "'m kernel_t \<Rightarrow> process_t \<Rightarrow> ptr \<Rightarrow> 'm kernel_t" where
  "blocked k a b \<equiv> k\<lparr>processes := (processes k)(active_process k \<mapsto> a\<lparr>p_message_buffer := b, p_state := PROCESS_REQUESTING\<rparr>),
     active_process := NULL\<rparr>"

lemma block_sched:
  assumes "sched_inv k"
  shows "sched_inv (blocked k a b)"
    and "runnable (blocked k a b) q \<longleftrightarrow> runnable k q \<and> q \<noteq> active_process k"
proof -
  show "sched_inv (blocked k a b)" by (rule sched_block [OF assms]) (auto simp: runnable_def)
  show "runnable (blocked k a b) q \<longleftrightarrow> runnable k q \<and> q \<noteq> active_process k" by (auto simp: runnable_def)
qed

lemma receive_blocks:
  assumes inv: "sched_inv k" "mail_inv k N" and a: "active_process k \<noteq> NULL" "processes k (active_process k) = Some a"
    and e: "N (active_process k) = []" "flags AND 1 \<noteq> 1"
    and other: "runnable k q" "q \<noteq> active_process k" and cap: "card {p. runnable k p} \<le> q_capacity (priority_queue k)"
    and P: "kernel_platform P live"
  shows "\<exists>k' p x. receive_message P k buffer flags = Some (k', Enters (p_ctx x)) \<and> active_process k' = p \<and> p \<noteq> active_process k \<and>
    runnable k p \<and> processes k p = Some x \<and> (\<forall>r. runnable k r \<longrightarrow> r \<noteq> active_process k \<longrightarrow> prio_of k p \<le> prio_of k r) \<and> sched_inv k' \<and>
    processes k' (active_process k) = Some (a\<lparr>p_message_buffer := buffer, p_state := PROCESS_REQUESTING\<rparr>)"
proof -
  let ?k = "blocked k a buffer"
  note b = block_sched [OF inv(1), where a = a and b = buffer]
  have "card {p. runnable ?k p} \<le> card {p. runnable k p}" by (rule card_mono) (auto simp: b(2))
  then have "card {p. runnable ?k p} \<le> q_capacity (priority_queue ?k)" using cap by simp
  from advance_chooses [OF b(1) this, of q P] other b(2) obtain k' p x where
    r: "kernel_advance_scheduler P ?k = Some (k', p_ctx x)" "runnable ?k p" "processes ?k p = Some x"
      "\<forall>r. runnable ?k r \<longrightarrow> prio_of ?k p \<le> prio_of ?k r" "sched_inv k'"
      "k' = ?k\<lparr>mach := paging_load P (mach ?k) (p_page_table x), active_process := p, priority_queue := priority_queue k'\<rparr>" by blast
  have p: "runnable k p" "p \<noteq> active_process k" using r(2) b(2) by auto
  have pr: "prio_of ?k s = prio_of k s" if "s \<noteq> active_process k" for s using that by (simp add: prio_of_def)
  have "active_process k' = p" "processes k' = processes ?k" by (subst r(6), simp)+
  moreover have "receive_message P k buffer flags = Some (k', Enters (p_ctx x))"
    using kernel_platform.receive_empty [OF P inv(2) a e(1)] e(2) r(1) by simp
  moreover have "\<forall>r. runnable k r \<longrightarrow> r \<noteq> active_process k \<longrightarrow> prio_of k p \<le> prio_of k r"
    using r(4) b(2) pr p(2) by auto
  ultimately show ?thesis using p r(3,5) by (intro exI [of _ k'] exI [of _ p] exI [of _ x]) simp
qed

section \<open>Properties\<close>

text \<open>An example: process 7 (at 64) runs and has one message waiting; process 8 (at 192) waits for a message in
  the buffer at 0x500 of its address space.\<close>

definition ex_message :: message_t where
  "ex_message = \<lparr>msg_sender = 3, msg_code = 4, msg_args = replicate 6 0\<rparr>"

definition mail_kernel :: "flat kernel_t" where
  "mail_kernel = one_process\<lparr>mach := flat_init\<lparr>f_brk := 512\<rparr>,
     avl_nodes := [320 \<mapsto> \<lparr>n_height = 1, n_key = 8, n_value = 192, n_left = NULL, n_right = NULL\<rparr>],
     process_table := 320, queue_nodes_of := [384 \<mapsto> \<lparr>qn_ptr = 448, qn_next = NULL\<rparr>], messages := [448 \<mapsto> ex_message],
     processes := [64 \<mapsto> (fresh_process 7 1 0x1000 128)\<lparr>p_message_queue := \<lparr>q_count = 1, q_first = 384, q_last = 384\<rparr>\<rparr>,
       192 \<mapsto> (fresh_process 8 1 0x2000 256)\<lparr>p_message_buffer := 0x500, p_state := PROCESS_REQUESTING\<rparr>],
     contexts := [128 \<mapsto> fresh_context 0 0, 256 \<mapsto> fresh_context 0 0]\<rparr>"

definition mail_nodes :: "ptr \<Rightarrow> (ptr \<times> ptr) list" where
  "mail_nodes p = (if p = 64 then [(384, 448)] else [])"

definition mail_typing :: typing where
  "mail_typing p = (if p = 64 \<or> p = 192 then KProcess else if p = 320 then KNode else if p = 384 then KLink
     else if p = 448 then KMessage else KContext)"

lemma mail_kernel_heap:
  "kernel_heap_inv (\<lambda>m. {p. p < f_brk m}) mail_typing mail_kernel [8 \<mapsto> 192] Map.empty Map.empty"
proof -
  let ?h = "[320 \<mapsto> \<lparr>n_height = 1, n_key = 8, n_value = 192, n_left = NULL, n_right = NULL\<rparr>] :: avl_store"
  have "t_get (Nd 320 1 Tip 8 192 Tip) = [8 \<mapsto> 192]" by (auto simp: fun_eq_iff)
  then have "avl_table ?h 320 [8 \<mapsto> 192] {320}"
    unfolding avl_table_def by (intro exI [of _ "Nd 320 1 Tip 8 192 Tip"]) simp
  then have "forest ?h {p. p < 512 \<and> mail_typing p = KNode} (320, [8 \<mapsto> 192]) (NULL, Map.empty) (NULL, Map.empty)"
    by (intro forestI [where X = "{320}" and Y = "{}" and Z = "{}"]) (simp_all add: table_empty mail_typing_def)
  then show ?thesis
    by (simp add: kernel_heap_inv_def tables_def mail_kernel_def one_process_def objects_def typed_def mail_typing_def)
qed

lemma mail_kernel_mail: "mail_inv mail_kernel mail_nodes"
  by (auto simp: mail_inv_def mail_kernel_def mail_nodes_def one_process_def queue_nodes_def fresh_process_def queue_construct_def
      ex_message_def message_wf_def)

lemma mail_kernel_procs: "procs_ok mail_kernel [8 \<mapsto> 192]"
  by (simp add: procs_ok_def mail_kernel_def fresh_process_def)

lemma mail_kernel_sched: "sched_inv mail_kernel" "{p. runnable mail_kernel p} = {64}"
proof -
  show r: "{p. runnable mail_kernel p} = {64}"
    by (auto simp: runnable_def mail_kernel_def fresh_process_def split: if_splits)
  have a: "active_process mail_kernel = 64" by (simp add: mail_kernel_def one_process_def)
  then have "ready mail_kernel = {}" "runnable mail_kernel 64" using r by (auto simp: ready_def)
  moreover have "entries (priority_queue mail_kernel) = {#}" "pq_good (priority_queue mail_kernel)"
    by (simp_all add: mail_kernel_def one_process_def pq_eval entries_def contents_def)
  ultimately show "sched_inv mail_kernel" using a by (simp add: sched_inv_def ready_entries_def)
qed

text \<open>C9. \<^verbatim>\<open>kernel_send_message\<close> to a process that waits for a message, when it returns: the 32 bytes at the sender's
  pointer are written to the buffer of the recipient in the recipient's address space, with the sender
  field replaced by the identifier of the running process; the address space of the sender is loaded
  again; the recipient is runnable, in the run queue, no longer waiting, and will see 0 as the result of
  its system call. The invariants of scheduler, heap and mailboxes are kept.\<close>

theorem kernel_send_message_direct:
  assumes "kernel_platform P live" "kernel_heap_inv live ty k pt qt it" "sched_inv k" "mail_inv k N" "procs_ok k pt"
    and "card {p. runnable k p} < q_capacity (priority_queue k)"
    and "pt (key_of r) = Some dest" "processes k dest = Some d" "p_message_buffer d \<noteq> NULL" "p_state d = PROCESS_REQUESTING"
    and "kernel_send_message P k r message = Some (k', e)"
  shows "\<exists>a bs m c. e = ENONE \<and> processes k (active_process k) = Some a \<and> read_bytes P (mach k) message 32 = Some bs \<and>
    write_bytes P (paging_load P (mach k) (p_page_table d)) (p_message_buffer d)
      (message_bytes ((message_of_bytes bs)\<lparr>msg_sender := p_pid a\<rparr>)) = Some m \<and>
    mach k' = paging_load P m (p_page_table a) \<and>
    processes k' = (processes k)(dest \<mapsto> d\<lparr>p_message_buffer := NULL, p_state := PROCESS_ACTIVE\<rparr>) \<and>
    contexts k (p_ctx d) = Some c \<and> contexts k' = (contexts k)(p_ctx d \<mapsto> set_context_return c 0) \<and>
    sched_inv k' \<and> kernel_heap_inv live ty k' pt qt it \<and> mail_inv k' N \<and> active_process k' = active_process k"
  using kernel_platform.send_direct [OF assms] .

theorem kernel_send_message_direct_witness:
  "\<exists>k'. kernel_send_message flat_platform mail_kernel 8 0x700 = Some (k', ENONE) \<and> sched_inv k' \<and>
     map_option p_state (processes k' 192) = Some PROCESS_ACTIVE"
proof -
  have get: "tree_get mail_kernel (process_table mail_kernel) 8 = Some 192"
    by (simp add: mail_kernel_def tree_get_def avl_get.simps)
  obtain k' where r: "kernel_send_message flat_platform mail_kernel 8 0x700 = Some (k', ENONE)"
    unfolding kernel_send_message_def get
    by (simp add: mail_kernel_def one_process_def flat_defs load_space_def fresh_process_def Let_def
        enqueue_def priorityqueue_insert_def shift_parents.simps queue_of_def)
  have d: "processes mail_kernel 192 = Some ((fresh_process 8 1 0x2000 256)\<lparr>p_message_buffer := 0x500, p_state := PROCESS_REQUESTING\<rparr>)"
    by (simp add: mail_kernel_def)
  have "card {p. runnable mail_kernel p} < q_capacity (priority_queue mail_kernel)"
    unfolding mail_kernel_sched(2) by (simp add: mail_kernel_def one_process_def queue_of_def)
  from kernel_send_message_direct [OF flat.kernel_platform_axioms mail_kernel_heap mail_kernel_sched(1) mail_kernel_mail mail_kernel_procs this _ d _ _ r]
  have "sched_inv k'" "processes k' 192 = Some ((fresh_process 8 1 0x2000 256)\<lparr>p_message_buffer := NULL, p_state := PROCESS_ACTIVE\<rparr>)" by auto
  with r show ?thesis by simp
qed

text \<open>C10. \<^verbatim>\<open>kernel_queue_message\<close> to an existing process, when it returns: either ENONE, and the mailbox of the
  recipient has gained at its end exactly the message read from the sender's pointer (the sender field
  included, as the sender wrote it), while no other mailbox changed; or an allocation failed and no
  mailbox changed, the answer being ENOMEM, or ENONE when it was the allocation of the queue node.\<close>

theorem kernel_queue_message_spec:
  assumes "kernel_platform P live" "kernel_heap_inv live ty k pt qt it" "mail_inv k N" "procs_ok k pt"
    and "pt (key_of r) = Some dest" "kernel_queue_message P k r message = Some (k', e)"
  shows "(\<exists>m qm bs n ty'. km (heap_of P) (mach k) 32 = Some (m, qm) \<and> read_bytes P m message 32 = Some bs \<and> e = ENONE \<and>
      mail_inv k' (N(dest := N dest @ [(n, qm)])) \<and> kernel_heap_inv live ty' k' pt qt it \<and>
      (\<forall>p. mailbox k' (N(dest := N dest @ [(n, qm)])) p =
         (if p = dest then mailbox k N p @ [message_of_bytes bs] else mailbox k N p))) \<or>
    (e = ENOMEM \<or> e = ENONE) \<and> mail_inv k' N \<and> (\<forall>p. mailbox k' N p = mailbox k N p) \<and>
      (\<exists>ty'. kernel_heap_inv live ty' k' pt qt it) \<and> (\<exists>a a' n. km (heap_of P) a n = Some (a', NULL))"
  using kernel_platform.queue_message_effect [OF assms] .

theorem kernel_queue_message_spec_witness:
  "\<exists>k' N'. kernel_queue_message flat_platform mail_kernel 8 0x700 = Some (k', ENONE) \<and> mail_inv k' N'"
proof -
  have get: "tree_get mail_kernel (process_table mail_kernel) 8 = Some 192"
    by (simp add: mail_kernel_def tree_get_def avl_get.simps)
  obtain k' where r: "kernel_queue_message flat_platform mail_kernel 8 0x700 = Some (k', ENONE)"
    unfolding kernel_queue_message_def get
    by (simp add: mail_kernel_def one_process_def flat_defs fresh_process_def Let_def kmalloc_k_def put_queue_def queue_insert_def queue_construct_def)
  have "([8 \<mapsto> 192] :: int \<rightharpoonup> ptr) (key_of 8) = Some 192" by simp
  from kernel_queue_message_spec [OF flat.kernel_platform_axioms mail_kernel_heap mail_kernel_mail mail_kernel_procs this r] r
  show ?thesis by blast
qed

text \<open>C11. \<^verbatim>\<open>receive_message\<close> with a message in the mailbox of the running process: the oldest message is written to
  the buffer (the call faults exactly if that write does), leaves the mailbox and is freed together with
  its node; the answer is ENONE and no other mailbox changes. It never blocks in this case.\<close>

theorem receive_message_queued:
  assumes "kernel_platform P live" "kernel_heap_inv live ty k pt qt it" "mail_inv k N"
    and "active_process k \<noteq> NULL" "processes k (active_process k) = Some a" "N (active_process k) = (n, qm) # ns"
    and "mailbox k N (active_process k) = msg # rest"
  shows "receive_message P k buffer flags = None \<and> write_bytes P (kf (heap_of P) (mach k) n) buffer (message_bytes msg) = None \<or>
    (\<exists>k' m. receive_message P k buffer flags = Some (k', Returns ENONE) \<and>
      write_bytes P (kf (heap_of P) (mach k) n) buffer (message_bytes msg) = Some m \<and> mach k' = kf (heap_of P) m qm \<and>
      kernel_heap_inv live ty k' pt qt it \<and> mail_inv k' (N(active_process k := ns)) \<and> active_process k' = active_process k \<and>
      (\<forall>r. mailbox k' (N(active_process k := ns)) r = (if r = active_process k then rest else mailbox k N r)))"
  using kernel_platform.receive_queued [OF assms] .

theorem receive_message_queued_witness:
  "\<exists>k'. receive_message flat_platform mail_kernel 0x800 0 = Some (k', Returns ENONE) \<and> mailbox k' (\<lambda>p. []) 64 = []"
proof -
  have a: "active_process mail_kernel \<noteq> NULL" "active_process mail_kernel = 64"
    "processes mail_kernel (active_process mail_kernel) =
      Some ((fresh_process 7 1 0x1000 128)\<lparr>p_message_queue := \<lparr>q_count = 1, q_first = 384, q_last = 384\<rparr>\<rparr>)"
    by (simp_all add: mail_kernel_def one_process_def)
  have n: "mail_nodes (active_process mail_kernel) = (384, 448) # []" "mailbox mail_kernel mail_nodes (active_process mail_kernel) = ex_message # []"
    using a(2) by (simp_all add: mail_nodes_def mailbox_def mail_kernel_def)
  have "write_bytes flat_platform m p bs \<noteq> None" for m p bs by (simp add: flat_defs)
  with receive_message_queued [OF flat.kernel_platform_axioms mail_kernel_heap mail_kernel_mail a(1,3) n, where buffer = "0x800" and flags = 0]
  show ?thesis by (auto simp: mailbox_def)
qed

text \<open>C12. \<^verbatim>\<open>receive_message\<close> on an empty mailbox without IO_ASYNC, while another process is runnable: the running
  process is left waiting with its buffer recorded, and the kernel enters a runnable process of least
  priority value among the others. (The call does not return to the caller.)\<close>

theorem receive_message_blocks:
  assumes "sched_inv k" "mail_inv k N" "active_process k \<noteq> NULL" "processes k (active_process k) = Some a"
    and "N (active_process k) = []" "flags AND 1 \<noteq> 1" "runnable k q" "q \<noteq> active_process k"
    and "card {p. runnable k p} \<le> q_capacity (priority_queue k)" "kernel_platform P live"
  shows "\<exists>k' p x. receive_message P k buffer flags = Some (k', Enters (p_ctx x)) \<and> active_process k' = p \<and> p \<noteq> active_process k \<and>
    runnable k p \<and> processes k p = Some x \<and> (\<forall>r. runnable k r \<longrightarrow> r \<noteq> active_process k \<longrightarrow> prio_of k p \<le> prio_of k r) \<and> sched_inv k' \<and>
    processes k' (active_process k) = Some (a\<lparr>p_message_buffer := buffer, p_state := PROCESS_REQUESTING\<rparr>)"
  using receive_blocks [OF assms] .

theorem receive_message_blocks_witness:
  "\<exists>k' c. receive_message flat_platform two_processes 0x800 0 = Some (k', Enters c) \<and> active_process k' = 192"
proof -
  have m: "mail_inv two_processes (\<lambda>p. [])"
    by (auto simp: mail_inv_def two_processes_def one_process_def fresh_process_def queue_nodes_def queue_construct_def split: if_splits)
  have eq: "{p. runnable two_processes p} = {64, 192}" by (auto simp: two_processes_runnable)
  have a: "active_process two_processes = 64" "q_capacity (priority_queue two_processes) = 4"
    by (simp_all add: two_processes_def one_process_def queue_of_def)
  obtain x where x: "processes two_processes (active_process two_processes) = Some x"
    using two_processes_runnable [of 64] a(1) by (auto simp: runnable_def)
  have "card {p. runnable two_processes p} \<le> q_capacity (priority_queue two_processes)" by (simp add: eq a(2))
  from receive_message_blocks [OF two_processes_sched m _ x _ _ _ _ this flat.kernel_platform_axioms, where flags = 0 and q = 192 and buffer = "0x800"]
  show ?thesis by (auto simp: a two_processes_runnable)
qed

end
