(* ===== verification/Kernel_Syscalls.thy ===== *)
theory Kernel_Syscalls
  imports Kernel_Messages
begin

text \<open>
  The table of system calls in \<^verbatim>\<open>src/kernel.c\<close>: entering a function (\<^verbatim>\<open>set_syscall\<close>) and the dispatcher that the
  assembly entry point calls (\<^verbatim>\<open>do_syscall\<close>). A call through a function pointer is a call of the parameter
  \<open>F\<close> with the address and the arguments.
\<close>

section \<open>The code\<close>

type_synonym 'm dispatch = "ptr \<Rightarrow> u32 list \<Rightarrow> 'm kernel_t \<Rightarrow> ('m kernel_t \<times> u32 outcome) option"

text \<open>Both bounds checks let \<^verbatim>\<open>MAX_SYSCALL_ID\<close> itself pass, one beyond the end of the array.\<close>

definition set_syscall :: "'m kernel_t \<Rightarrow> int \<Rightarrow> int \<Rightarrow> int \<Rightarrow> ptr \<Rightarrow> ('m kernel_t \<times> error_t) option" where
  "set_syscall k i arg_count pid func_ptr =
     (if i < 0 \<or> i > int MAX_SYSCALL_ID then Some (k, EOUTOFBOUNDS)
      else do {
        s \<leftarrow> arr_get (syscall_table k) (nat i);
        if sys_defined s then Some (k, EINVALIDARG)
        else if arg_count < 0 \<or> arg_count > 3 then Some (k, EINVALIDARG)
        else do {
          p \<leftarrow> (if pid \<noteq> 0 then avl_get (avl_nodes k) (process_table k) pid else Some 0);
          if pid \<noteq> 0 \<and> p = NULL then Some (k, EDOESNTEXIST)
          else if func_ptr = NULL then Some (k, ENULLPTR)
          else do {
            t \<leftarrow> arr_set (syscall_table k) (nat i)
              \<lparr>sys_defined = True, sys_arg_count = arg_count, sys_process_id = pid, sys_func_ptr = func_ptr\<rparr>;
            Some (k\<lparr>syscall_table := t\<rparr>, ENONE) } } })"

definition save_registers :: "'m kernel_t \<Rightarrow> ptr \<Rightarrow> ptr \<Rightarrow> u32 \<Rightarrow> 'm kernel_t option" where
  "save_registers k pc stack flags = do {
     a \<leftarrow> deref (processes k) (active_process k);
     c \<leftarrow> deref (contexts k) (p_ctx a);
     let c = set_context_flags (set_context_stack (set_context_pc c pc) stack) flags;
     Some (set_context k (p_ctx a) c)
   }"

definition do_syscall ::
  "'m platform \<Rightarrow> 'm dispatch \<Rightarrow> 'm kernel_t \<Rightarrow> u32 \<Rightarrow> u32 \<Rightarrow> u32 \<Rightarrow> u32 \<Rightarrow> ptr \<Rightarrow> ptr \<Rightarrow> u32 \<Rightarrow> ('m kernel_t \<times> u32 outcome) option" where
  "do_syscall P F k i arg1 arg2 arg3 pc stack flags =
     (if unat i > MAX_SYSCALL_ID then Some (k, Returns (error_code ENOSYSCALL))
      else do {
        s \<leftarrow> arr_get (syscall_table k) (unat i);
        if \<not> sys_defined s then Some (k, Returns (error_code ENOSYSCALL))
        else do {
          callee \<leftarrow> (if sys_process_id s > 0 then avl_get (avl_nodes k) (process_table k) (sys_process_id s) else Some 0);
          if sys_process_id s > 0 \<and> callee = NULL then do {
            t \<leftarrow> arr_set (syscall_table k) (unat i) (s\<lparr>sys_defined := False\<rparr>);
            Some (k\<lparr>syscall_table := t\<rparr>, Returns (error_code ENOSYSCALL)) }
          else do {
            k \<leftarrow> (if sys_process_id s > 0 then do {
                    d \<leftarrow> deref (processes k) callee;
                    Some (load_space P k (p_page_table d)) }
                  else Some k);
            k \<leftarrow> save_registers k pc stack flags;
            (k, out) \<leftarrow> (if sys_arg_count s = 0 then F (sys_func_ptr s) [] k
                         else if sys_arg_count s = 1 then F (sys_func_ptr s) [arg1] k
                         else if sys_arg_count s = 2 then F (sys_func_ptr s) [arg1, arg2] k
                         else if sys_arg_count s = 3 then F (sys_func_ptr s) [arg1, arg2, arg3] k
                         else None);
            case out of
              Enters ctx \<Rightarrow> Some (k, Enters ctx)
            | Returns r \<Rightarrow>
                if sys_process_id s > 0 then do {
                  a \<leftarrow> deref (processes k) (active_process k);
                  Some (load_space P k (p_page_table a), Returns r) }
                else Some (k, Returns r) } } })"

section \<open>Invariant\<close>

text \<open>The table has its full length and every function in it takes at most three arguments, which the switch of
  \<^verbatim>\<open>do_syscall\<close> relies on: any other count leaves its result without a value.\<close>

definition syscalls_ok :: "syscall_t list \<Rightarrow> bool" where
  "syscalls_ok t \<longleftrightarrow> length t = MAX_SYSCALL_ID \<and>
     (\<forall>s\<in>set t. sys_defined s \<longrightarrow> 0 \<le> sys_arg_count s \<and> sys_arg_count s \<le> 3 \<and> sys_func_ptr s \<noteq> NULL)"

lemma syscalls_nth: "syscalls_ok t \<Longrightarrow> i < 256 \<Longrightarrow> arr_get t i = Some (t ! i) \<and> t ! i \<in> set t"
  by (simp add: syscalls_ok_def MAX_SYSCALL_ID_def)

lemma syscalls_upd:
  assumes "syscalls_ok t" "sys_defined s \<Longrightarrow> 0 \<le> sys_arg_count s \<and> sys_arg_count s \<le> 3 \<and> sys_func_ptr s \<noteq> NULL"
  shows "syscalls_ok (t[i := s])"
  using assms set_update_subset_insert [of t i s] unfolding syscalls_ok_def by auto

lemma set_syscall_256: "length (syscall_table k) = MAX_SYSCALL_ID \<Longrightarrow> set_syscall k 256 n pid f = None"
  by (simp add: set_syscall_def arr_get_def MAX_SYSCALL_ID_def)

lemma do_syscall_256: "length (syscall_table k) = MAX_SYSCALL_ID \<Longrightarrow> do_syscall P F k 256 a b c pc st fl = None"
  by (simp add: do_syscall_def arr_get_def MAX_SYSCALL_ID_def)

lemma set_syscall_cases:
  assumes "syscalls_ok (syscall_table k)" "i \<noteq> 256" "tables L ty k pt qt it" "\<And>j p. pt j = Some p \<Longrightarrow> p \<noteq> NULL"
  shows "set_syscall k i n pid f = Some (
    if i < 0 \<or> i \<ge> 256 then (k, EOUTOFBOUNDS)
    else if sys_defined (syscall_table k ! nat i) \<or> n \<notin> {0..3} then (k, EINVALIDARG)
    else if pid \<noteq> 0 \<and> pid \<notin> dom pt then (k, EDOESNTEXIST)
    else if f = NULL then (k, ENULLPTR)
    else (k\<lparr>syscall_table := (syscall_table k)[nat i := \<lparr>sys_defined = True, sys_arg_count = n, sys_process_id = pid, sys_func_ptr = f\<rparr>]\<rparr>, ENONE))"
proof -
  have get: "avl_get (avl_nodes k) (process_table k) pid = Some (case pt pid of None \<Rightarrow> NULL | Some p \<Rightarrow> p)"
    using forest_get(1) [OF assms(3) [unfolded tables_def]] by simp
  have nz: "(case pt pid of None \<Rightarrow> NULL | Some p \<Rightarrow> p) = NULL \<longleftrightarrow> pid \<notin> dom pt"
    using assms(4) by (auto split: option.split)
  show ?thesis
  proof (cases "0 \<le> i \<and> i < 256")
    case True
    then have "nat i < length (syscall_table k)" "nat i < 256" using assms(1) by (auto simp: syscalls_ok_def MAX_SYSCALL_ID_def)
    then show ?thesis using True by (simp add: set_syscall_def get nz MAX_SYSCALL_ID_def)
  next
    case False
    then show ?thesis using assms(2) by (auto simp: set_syscall_def MAX_SYSCALL_ID_def)
  qed
qed

lemma set_syscall_ENONE:
  assumes "set_syscall k i n 0 f = Some (k', ENONE)"
  shows "0 \<le> i \<and> nat i < length (syscall_table k) \<and> 0 \<le> n \<and> n \<le> 3 \<and> f \<noteq> NULL \<and>
    k' = k\<lparr>syscall_table := (syscall_table k)[nat i := \<lparr>sys_defined = True, sys_arg_count = n, sys_process_id = 0, sys_func_ptr = f\<rparr>]\<rparr>"
  using assms by (cases "nat i < length (syscall_table k)") (simp_all add: set_syscall_def arr_get_def split: if_splits)

text \<open>What \<^verbatim>\<open>do_syscall\<close> does with a kernel function.\<close>

lemma do_syscall_kernel:
  assumes "syscalls_ok (syscall_table k)" "unat i < 256" "sys_defined (syscall_table k ! unat i)" "sys_process_id (syscall_table k ! unat i) \<le> 0"
  shows "do_syscall P F k i a b c pc st fl = do {
     k \<leftarrow> save_registers k pc st fl;
     F (sys_func_ptr (syscall_table k ! unat i)) (take (nat (sys_arg_count (syscall_table k ! unat i))) [a, b, c]) k }"
proof -
  let ?s = "syscall_table k ! unat i"
  have "?s \<in> set (syscall_table k)" "arr_get (syscall_table k) (unat i) = Some ?s" using syscalls_nth assms(1,2) by blast+
  moreover from this assms have "sys_arg_count ?s \<in> {0, 1, 2, 3}" by (fastforce simp: syscalls_ok_def)
  moreover have same: "syscall_table k' = syscall_table k" if "save_registers k pc st fl = Some k'" for k'
    using that by (auto simp: save_registers_def Let_def split: Option.bind_splits)
  moreover have ret: "do { (k, out) \<leftarrow> X; case out of Enters ctx \<Rightarrow> Some (k, Enters ctx) | Returns r \<Rightarrow> Some (k, Returns r) } = X"
    for X :: "('a kernel_t \<times> u32 outcome) option"
    by (cases X) (auto split: outcome.split)
  ultimately show ?thesis using assms(2-4)
    by (cases "save_registers k pc st fl") (auto simp: do_syscall_def MAX_SYSCALL_ID_def ret)
qed

section \<open>Properties\<close>

text \<open>C26. \<^verbatim>\<open>set_syscall\<close> on every branch: for every number but 256 it returns, with the error that the first
  failing check calls for and the kernel unchanged, or ENONE and the function entered, and the table stays
  well formed. For 256 the check \<^verbatim>\<open>id > MAX_SYSCALL_ID\<close> passes and the code reads past the end of the array.\<close>

theorem set_syscall_spec:
  assumes "syscalls_ok (syscall_table k)" "tables L ty k pt qt it" "\<And>j p. pt j = Some p \<Longrightarrow> p \<noteq> NULL"
  shows "if i = 256 then set_syscall k i n pid f = None
    else \<exists>k' e. set_syscall k i n pid f = Some (k', e) \<and> syscalls_ok (syscall_table k') \<and>
      (e = ENONE \<longleftrightarrow> 0 \<le> i \<and> i < 256 \<and> \<not> sys_defined (syscall_table k ! nat i) \<and> n \<in> {0..3} \<and> (pid = 0 \<or> pid \<in> dom pt) \<and> f \<noteq> NULL) \<and>
      (e = EOUTOFBOUNDS \<longleftrightarrow> i < 0 \<or> i > 256) \<and>
      k' = (if e = ENONE then k\<lparr>syscall_table := (syscall_table k)[nat i := \<lparr>sys_defined = True, sys_arg_count = n, sys_process_id = pid, sys_func_ptr = f\<rparr>]\<rparr> else k)"
proof (cases "i = 256")
  case True
  then show ?thesis using assms(1) by (simp add: set_syscall_256 syscalls_ok_def)
next
  case False
  note r = set_syscall_cases [OF assms(1) False assms(2,3), where n = n and pid = pid and f = f]
  show ?thesis using False assms(1) by (auto simp: r intro!: syscalls_upd)
qed

text \<open>The running process of the example with an empty table.\<close>

definition empty_syscall :: syscall_t where
  "empty_syscall = \<lparr>sys_defined = False, sys_arg_count = 0, sys_process_id = 0, sys_func_ptr = NULL\<rparr>"

definition syscall_kernel :: "flat kernel_t" where
  "syscall_kernel = one_process\<lparr>syscall_table := replicate MAX_SYSCALL_ID empty_syscall\<rparr>"

lemma syscall_kernel_ok: "syscalls_ok (syscall_table syscall_kernel)"
  by (simp add: syscalls_ok_def syscall_kernel_def empty_syscall_def)

lemma syscall_kernel_tables: "tables UNIV (\<lambda>p. KNode) syscall_kernel Map.empty Map.empty Map.empty"
  by (simp add: tables_def syscall_kernel_def one_process_def forest_empty)

theorem set_syscall_spec_witness:
  "set_syscall syscall_kernel 256 1 0 0x100 = None \<and> (\<exists>k'. set_syscall syscall_kernel 255 1 0 0x100 = Some (k', ENONE)) \<and>
   (\<exists>k'. set_syscall syscall_kernel (- 1) 1 0 0x100 = Some (k', EOUTOFBOUNDS))"
proof -
  note s = set_syscall_spec [OF syscall_kernel_ok syscall_kernel_tables, simplified]
  have u: "\<not> sys_defined (syscall_table syscall_kernel ! 255)" by (simp add: syscall_kernel_def empty_syscall_def MAX_SYSCALL_ID_def)
  show ?thesis using s [of 256 1 0 "0x100"] s [of 255 1 0 "0x100"] s [of "-1" 1 0 "0x100"] u by auto
qed

text \<open>C25. A function of the kernel that was entered with \<^verbatim>\<open>set_syscall\<close> is what \<^verbatim>\<open>do_syscall\<close> calls for its number,
  with exactly the number of arguments it was entered with, after the registers of the caller were saved; all
  other numbers keep their meaning.\<close>

theorem set_syscall_do_syscall:
  assumes "syscalls_ok (syscall_table k)" "set_syscall k i n 0 f = Some (k', ENONE)"
  shows "do_syscall P F k' (of_int i) a b c pc st fl =
      do { k \<leftarrow> save_registers k' pc st fl; F f (take (nat n) [a, b, c]) k } \<and>
    (\<forall>j < 256. int j \<noteq> i \<longrightarrow> syscall_table k' ! j = syscall_table k ! j)"
proof -
  have i: "0 \<le> i" "i < 256" "n \<in> {0..3}" "f \<noteq> NULL"
    "k' = k\<lparr>syscall_table := (syscall_table k)[nat i := \<lparr>sys_defined = True, sys_arg_count = n, sys_process_id = 0, sys_func_ptr = f\<rparr>]\<rparr>"
    using set_syscall_ENONE [OF assms(2)] assms(1) by (auto simp: syscalls_ok_def MAX_SYSCALL_ID_def)
  have u: "unat (of_int i :: u32) = nat i" unfolding unat_eq_nat_uint uint_word_of_int_eq by (subst take_bit_int_eq_self) (use i(1,2) in auto)
  have ok: "syscalls_ok (syscall_table k')" using i assms(1) by (auto intro!: syscalls_upd)
  have l: "nat i < length (syscall_table k)" using assms(1) i(1,2) by (simp add: syscalls_ok_def MAX_SYSCALL_ID_def)
  then have "syscall_table k' ! nat i = \<lparr>sys_defined = True, sys_arg_count = n, sys_process_id = 0, sys_func_ptr = f\<rparr>" using i(5) by simp
  moreover have "syscall_table k1 = syscall_table k'" if "save_registers k' pc st fl = Some k1" for k1
    using that by (auto simp: save_registers_def Let_def split: Option.bind_splits)
  ultimately have "do_syscall P F k' (of_int i) a b c pc st fl = do { k \<leftarrow> save_registers k' pc st fl; F f (take (nat n) [a, b, c]) k }"
    using do_syscall_kernel [OF ok, of "of_int i" P F a b c pc st fl] u i(2)
    by (cases "save_registers k' pc st fl") simp_all
  then show ?thesis using i by (auto simp: nth_list_update)
qed

theorem set_syscall_do_syscall_witness:
  "\<exists>k' k''. set_syscall syscall_kernel 3 2 0 0x100 = Some (k', ENONE) \<and>
     do_syscall flat_platform (\<lambda>f args k. Some (k, Returns (f + sum_list args))) k' 3 10 20 30 0x1111 0x2222 0x202 = Some (k'', Returns 0x11E) \<and>
     map_option c_eip (contexts k'' 128) = Some 0x1111"
proof -
  obtain k' where k': "set_syscall syscall_kernel 3 2 0 0x100 = Some (k', ENONE)" "active_process k' = 64" "processes k' = processes one_process"
    "contexts k' = contexts one_process"
  proof -
    have "\<not> sys_defined (syscall_table syscall_kernel ! 3)" by (simp add: syscall_kernel_def empty_syscall_def MAX_SYSCALL_ID_def)
    then show thesis using that set_syscall_cases [OF syscall_kernel_ok _ syscall_kernel_tables, of 3 2 0 "0x100"]
      by (simp add: syscall_kernel_def one_process_active)
  qed
  obtain k'' where "save_registers k' 0x1111 0x2222 0x202 = Some k''" "map_option c_eip (contexts k'' 128) = Some 0x1111"
    by (simp add: save_registers_def k'(2-4)) (simp add: one_process_def Let_def set_context_flags_def set_context_stack_def set_context_pc_def)
  with set_syscall_do_syscall [OF syscall_kernel_ok k'(1), of flat_platform "\<lambda>f args k. Some (k, Returns (f + sum_list args))" 10 20 30 "0x1111" "0x2222" "0x202"]
  show ?thesis using k'(1) by simp
qed

text \<open>\<^verbatim>\<open>do_syscall\<close> for a function that belongs to a process: if the process is gone the entry is disabled and
  the call fails with ENOSYSCALL; otherwise the function runs in the address space of its process, on the
  saved registers of the caller, and when it returns, the address space of the process that is then running is loaded.\<close>

theorem do_syscall_process:
  assumes "syscalls_ok (syscall_table k)" "tables L ty k pt qt it" "\<And>j p. pt j = Some p \<Longrightarrow> p \<noteq> NULL"
    and "unat i < 256" "syscall_table k ! unat i = s" "sys_defined s" "sys_process_id s > 0"
  shows "do_syscall P F k i a b c pc st fl = (case pt (sys_process_id s) of
      None \<Rightarrow> Some (k\<lparr>syscall_table := (syscall_table k)[unat i := s\<lparr>sys_defined := False\<rparr>]\<rparr>, Returns (error_code ENOSYSCALL))
    | Some p \<Rightarrow> do {
        d \<leftarrow> processes k p;
        k1 \<leftarrow> save_registers (load_space P k (p_page_table d)) pc st fl;
        (k2, out) \<leftarrow> F (sys_func_ptr s) (take (nat (sys_arg_count s)) [a, b, c]) k1;
        case out of Enters ctx \<Rightarrow> Some (k2, Enters ctx)
        | Returns r \<Rightarrow> do { x \<leftarrow> deref (processes k2) (active_process k2); Some (load_space P k2 (p_page_table x), Returns r) } })"
proof -
  have get: "avl_get (avl_nodes k) (process_table k) j = Some (case pt j of None \<Rightarrow> NULL | Some p \<Rightarrow> p)" for j
    using forest_get(1) [OF assms(2) [unfolded tables_def]] by simp
  have s: "arr_get (syscall_table k) (unat i) = Some s" "s \<in> set (syscall_table k)" "unat i < length (syscall_table k)"
    using syscalls_nth assms(1,4,5) by (auto simp: syscalls_ok_def MAX_SYSCALL_ID_def)
  then have n: "sys_arg_count s \<in> {0, 1, 2, 3}" using assms(1,6) by (fastforce simp: syscalls_ok_def)
  show ?thesis
  proof (cases "pt (sys_process_id s)")
    case None
    then show ?thesis using s assms(4,6,7) by (simp add: do_syscall_def MAX_SYSCALL_ID_def get)
  next
    case (Some p)
    then show ?thesis using n s assms(3) [OF Some] assms(4,6,7)
      by (auto simp: do_syscall_def MAX_SYSCALL_ID_def get load_space_def cong: option.case_cong)
  qed
qed

theorem do_syscall_process_witness:
  "\<exists>k'. do_syscall flat_platform (\<lambda>f args k. Some (k, Returns 0))
      (syscall_kernel\<lparr>syscall_table := (syscall_table syscall_kernel)[5 := \<lparr>sys_defined = True, sys_arg_count = 0, sys_process_id = 9, sys_func_ptr = 0x100\<rparr>]\<rparr>)
      5 0 0 0 0x1111 0x2222 0x202 = Some (k', Returns 8) \<and> \<not> sys_defined (syscall_table k' ! 5)"
proof -
  let ?s = "\<lparr>sys_defined = True, sys_arg_count = 0, sys_process_id = 9, sys_func_ptr = 0x100\<rparr>"
  let ?k = "syscall_kernel\<lparr>syscall_table := (syscall_table syscall_kernel)[5 := ?s]\<rparr>"
  have l: "5 < length (syscall_table syscall_kernel)" by (simp add: syscall_kernel_def MAX_SYSCALL_ID_def)
  have ok: "syscalls_ok (syscall_table ?k)" using syscalls_upd [OF syscall_kernel_ok, of ?s 5] by simp
  have t: "tables UNIV (\<lambda>p. KNode) ?k Map.empty Map.empty Map.empty"
    using syscall_kernel_tables by (simp add: tables_def)
  from do_syscall_process [OF ok t, where i = 5 and s = ?s] l show ?thesis by simp
qed

end
