(* ===== verification/Kernel_Machine.thy ===== *)
theory Kernel_Machine
  imports Kernel_Syscalls User_Memory
begin

text \<open>
  The kernel of \<^verbatim>\<open>src/kernel.c\<close> on the machine of \<^verbatim>\<open>src/heap.c\<close>, \<^verbatim>\<open>src/mmgr.c\<close> and \<^verbatim>\<open>src/x86/paging.c\<close>: what was shown for every
  platform holds for this one.
\<close>

lemma create_port_keeps:
  assumes "kernel_create_port P k i = Some (k', e)"
  shows "active_process k' = active_process k" "processes k' = processes k"
  using assms
  by (auto simp: kernel_create_port_def kmalloc_k_def tree_insert_def Let_def split: Option.bind_splits if_splits)

context libmalloc
begin

lemma open_close_port:
  assumes inv: "port_inv (\<lambda>s. used (system_heap s)) k pt qt it"
    and a: "active_process k \<noteq> NULL" "processes k (active_process k) = Some a"
    and run: "open_port (quark_platform L) k i = Some (k1, ENONE)"
  shows "\<exists>k2 qt2. close_port (quark_platform L) k1 i = Some (k2, ENONE) \<and> port_inv (\<lambda>s. used (system_heap s)) k2 pt qt2 it \<and>
    registry k2 qt2 = registry k qt"
proof -
  have run1: "kernel_create_port (quark_platform L) k i = Some (k1, ENONE)" using run by (simp add: open_port_def)
  from quark.create_port_refines [OF inv a(2,1) run1] obtain qt1 where
    q1: "port_inv (\<lambda>s. used (system_heap s)) k1 pt qt1 it" "(registry k1 qt1, ENONE) = registry_open (registry k qt) (p_pid a) i" by blast
  then have r: "registry k1 qt1 = (registry k qt)(i \<mapsto> p_pid a)" "registry k qt i = None"
    by (auto simp: registry_open_def split: if_splits)
  from quark.remove_port_refines [OF q1(1), of a i] a create_port_keeps [OF run1] obtain k2 e qt2 where
    "kernel_remove_port (quark_platform L) k1 i = Some (k2, e)" "port_inv (\<lambda>s. used (system_heap s)) k2 pt qt2 it"
    "(registry k2 qt2, e) = registry_close (registry k1 qt1) (p_pid a) i" by auto
  moreover have "(registry k qt)(i := None) = registry k qt" using r(2) by (rule fun_upd_idem)
  ultimately show ?thesis using r(1) by (auto simp: registry_close_def close_port_def)
qed

end

section \<open>An example\<close>

text \<open>A machine on which the first 4 MB are mapped to themselves, with a heap from page 16 on.\<close>

definition flat_mmu :: mmu where
  "flat_mmu = \<lparr>mem = (\<lambda>f i. if f = 1 then if i = - 1 then 0x1003 else if i = 0 then 0x2003 else 0 else if f = 2 then put_address (ucast i) 3 else 0), cr3 = 0x1000\<rparr>"

definition flat_machine :: "nat \<Rightarrow> nat machine" where
  "flat_machine h = \<lparr>mm = flat_mmu, page_map = 1024, system_heap = h\<rparr>"

lemma flat_mmu_entries: "top flat_mmu = 1" "mem flat_mmu 1 i = (if i = - 1 then 0x1003 else if i = 0 then 0x2003 else 0)"
  "mem flat_mmu 2 i = put_address (ucast i) 3"
  by (simp_all add: flat_mmu_def small_entries)

lemma flat_mmu_ok: "space_ok flat_mmu"
  unfolding space_ok_def self_mapped_def Let_def flat_mmu_entries(1) by (simp add: flat_mmu_entries small_entries)

lemma flat_readable: "dir_of q = 0 \<Longrightarrow> readable flat_mmu q"
  by (simp add: readable_def translate_space flat_mmu_entries small_entries) (simp add: present_def)

lemma flat_kmalloc:
  assumes "h < 1024" "0 < sz" "unat sz \<le> 4096"
  shows "kmalloc count_frames (flat_machine h) sz = Some (flat_machine (h + 1), of_nat (h * 4096))"
proof -
  let ?p = "of_nat (h * 4096) :: u32"
  have p: "unat ?p = h * 4096" using assms(1) by (simp add: unat_of_nat del: of_nat_mult)
  then have "unat (drop_bit 22 ?p) = 0" using assms(1) by (simp add: drop_bit_eq_div unat_div_distrib del: of_nat_mult)
  then have d: "dir_of ?p = 0" unfolding unat_dir by (simp add: word_unat_eq_iff)
  let ?s = "flat_machine (h + 1)"
  have sp: "space_ok (mm ?s)" using flat_mmu_ok by (simp add: flat_machine_def)
  obtain t where t: "page_type ?s ?p = Some t" using page_type_returns [OF sp] by blast
  have "t AND PAGE_PRESENT \<noteq> 0" using page_type_readable [OF sp t] flat_readable [OF d] by (simp add: flat_machine_def)
  moreover have "\<not> page_size < sz" using assms(3) by (simp add: page_size_def word_less_nat_alt)
  ultimately have "map_block count_frames ?s ?p 0 sz = Some (?s, error_code ENONE)"
    using t assms(2) by (simp add: map_block.simps [of _ _ _ 0] map_block.simps [of _ _ _ page_size] del: of_nat_mult)
  moreover have "?p \<noteq> 1" using p by (metis One_nat_def dvd_1_iff_1 dvd_triv_right numeral_eq_one_iff semiring_norm(85) unat_1)
  ultimately show ?thesis using assms(1) by (simp add: kmalloc_def count_frames_def flat_machine_def del: of_nat_mult)
qed

text \<open>A kernel on it with one process, whose structures are in the first page.\<close>

definition machine_kernel :: "nat machine kernel_t" where
  "machine_kernel = \<lparr>mach = flat_machine 16, avl_nodes = Map.empty, queue_nodes_of = Map.empty,
     processes = [64 \<mapsto> \<lparr>p_pid = 7, p_priority = 1, p_page_table = 0x1000, p_state = PROCESS_ACTIVE,
       p_sending_queue = queue_construct, p_message_queue = queue_construct, p_message_buffer = NULL, p_ctx = 128\<rparr>],
     contexts = [128 \<mapsto> \<lparr>gp_registers = replicate 8 0, c_ss = 0, c_cs = 0, c_eip = 0, c_flags = 0\<rparr>],
     ports = Map.empty, actions = Map.empty, messages = Map.empty, syscall_table = [],
     priority_queue = (queue_of (replicate 4 (0, 0)))\<lparr>q_size := 0\<rparr>, interrupt_handlers = NULL, port_table = NULL,
     process_table = NULL, active_process = 64, next_pid = 8\<rparr>"

lemma machine_kernel_ports: "port_inv (\<lambda>s. {a. unat a < system_heap s * 4096}) machine_kernel Map.empty Map.empty Map.empty"
proof -
  have "kernel_heap_inv (\<lambda>s. {a. unat a < system_heap s * 4096}) (\<lambda>p. if p = 64 then KProcess else KContext) machine_kernel Map.empty Map.empty Map.empty"
    by (simp add: machine_kernel_def flat_machine_def kernel_heap_inv_def objects_def typed_def tables_def forest_empty)
  then show ?thesis by (auto simp: port_inv_def ports_ok_def)
qed

lemma machine_open_port: "\<exists>k1. open_port (quark_platform count_frames) machine_kernel 40 = Some (k1, ENONE)"
  using flat_kmalloc [of 16 8] flat_kmalloc [of 17 20]
  by (simp add: open_port_def kernel_create_port_def machine_kernel_def tree_get_def kmalloc_k_def tree_insert_def quark_platform_def
      avl_get.simps avl_insert.simps avl_new_def)

section \<open>Properties\<close>

text \<open>C28. On the kernel's own machine, whatever allocator libmalloc provides: a port that \<^verbatim>\<open>open_port\<close> opened can be closed by
  the same process with \<^verbatim>\<open>close_port\<close>, and the registry of ports is then what it was.\<close>

theorem open_close_port_machine:
  assumes "libmalloc L used block_size" "port_inv (\<lambda>s. used (system_heap s)) k pt qt it"
    and "active_process k \<noteq> NULL" "processes k (active_process k) = Some a" "open_port (quark_platform L) k i = Some (k1, ENONE)"
  shows "\<exists>k2 qt2. close_port (quark_platform L) k1 i = Some (k2, ENONE) \<and> port_inv (\<lambda>s. used (system_heap s)) k2 pt qt2 it \<and>
    registry k2 qt2 = registry k qt"
  using libmalloc.open_close_port [OF assms] .

theorem open_close_port_machine_witness:
  "\<exists>k1 k2. open_port (quark_platform count_frames) machine_kernel 40 = Some (k1, ENONE) \<and>
     close_port (quark_platform count_frames) k1 40 = Some (k2, ENONE)"
proof -
  obtain k1 where k1: "open_port (quark_platform count_frames) machine_kernel 40 = Some (k1, ENONE)" using machine_open_port by blast
  have "active_process machine_kernel \<noteq> NULL" by (simp add: machine_kernel_def)
  moreover obtain a where "processes machine_kernel (active_process machine_kernel) = Some a" by (simp add: machine_kernel_def)
  ultimately show ?thesis using open_close_port_machine [OF count.libmalloc_axioms machine_kernel_ports _ _ k1] k1 by blast
qed

end
