(* ===== verification/Quark_String.thy ===== *)
theory Quark_String
  imports Word_Lemmas
begin

text \<open>
  The memory and string functions of \<^verbatim>\<open>src/string.c\<close>. Memory is a partial function from addresses to bytes:
  where it is undefined an access faults. Address and \<^verbatim>\<open>size_t\<close> arithmetic is that of 32-bit words.
\<close>

section \<open>The code\<close>

type_synonym mem = "ptr \<Rightarrow> u8 option"

definition store :: "mem \<Rightarrow> ptr \<Rightarrow> u8 \<Rightarrow> mem option" where
  "store m p b = (if m p = None then None else Some (m(p \<mapsto> b)))"

function memcpy_loop :: "mem \<Rightarrow> ptr \<Rightarrow> ptr \<Rightarrow> u32 \<Rightarrow> u32 \<Rightarrow> mem option" where
  "memcpy_loop m dest src i num =
     (if i < num then do {
        b \<leftarrow> m (src + i);
        m \<leftarrow> store m (dest + i) b;
        memcpy_loop m dest src (i + 1) num }
      else Some m)"
  by pat_completeness auto
termination by (relation "measure (\<lambda>(_, _, _, i, n). unat n - unat i)") (use step_up in auto)

definition memcpy :: "mem \<Rightarrow> ptr \<Rightarrow> ptr \<Rightarrow> u32 \<Rightarrow> (mem \<times> ptr) option" where
  "memcpy m destination source num =
     (if num > 0 then do { m \<leftarrow> memcpy_loop m destination source 0 num; Some (m, destination) }
      else Some (m, destination))"

text \<open>The loop of \<^verbatim>\<open>memmove\<close> that copies backwards. The index is lowered before it is compared with 0.\<close>

function memmove_loop :: "mem \<Rightarrow> ptr \<Rightarrow> ptr \<Rightarrow> u32 \<Rightarrow> mem option" where
  "memmove_loop m dest src i = do {
     b \<leftarrow> m (src + i);
     m \<leftarrow> store m (dest + i) b;
     if i - 1 \<noteq> 0 then memmove_loop m dest src (i - 1) else Some m }"
  by pat_completeness auto
termination
  by (relation "measure (\<lambda>(_, _, _, i). if i = 0 then 2 ^ 32 else unat i)") (use step_down in auto)

definition memmove :: "mem \<Rightarrow> ptr \<Rightarrow> ptr \<Rightarrow> u32 \<Rightarrow> (mem \<times> ptr) option" where
  "memmove m destination source num =
     (if num > 0 then
        if destination < source \<or> destination \<ge> source + num then memcpy m destination source num
        else if destination \<noteq> source then do { m \<leftarrow> memmove_loop m destination source (num - 1); Some (m, destination) }
        else Some (m, destination)
      else Some (m, destination))"

function memcmp_loop :: "mem \<Rightarrow> ptr \<Rightarrow> ptr \<Rightarrow> u32 \<Rightarrow> u32 \<Rightarrow> int option" where
  "memcmp_loop m a b i num =
     (if i < num then do {
        x \<leftarrow> m (a + i);
        y \<leftarrow> m (b + i);
        if x < y then Some (- 1) else if x > y then Some 1 else memcmp_loop m a b (i + 1) num }
      else Some 0)"
  by pat_completeness auto
termination by (relation "measure (\<lambda>(_, _, _, i, n). unat n - unat i)") (use step_up in auto)

definition memcmp :: "mem \<Rightarrow> ptr \<Rightarrow> ptr \<Rightarrow> u32 \<Rightarrow> int option" where
  "memcmp m ptr1 ptr2 num = memcmp_loop m ptr1 ptr2 0 num"

function memset_loop :: "mem \<Rightarrow> ptr \<Rightarrow> u8 \<Rightarrow> u32 \<Rightarrow> u32 \<Rightarrow> mem option" where
  "memset_loop m dest v i num =
     (if i < num then do { m \<leftarrow> store m (dest + i) v; memset_loop m dest v (i + 1) num } else Some m)"
  by pat_completeness auto
termination by (relation "measure (\<lambda>(_, _, _, i, n). unat n - unat i)") (use step_up in auto)

definition memset :: "mem \<Rightarrow> ptr \<Rightarrow> u32 \<Rightarrow> u32 \<Rightarrow> (mem \<times> ptr) option" where
  "memset m ptr value num = do { m \<leftarrow> memset_loop m ptr (ucast value) 0 num; Some (m, ptr) }"

text \<open>The length is an \<^verbatim>\<open>int\<close>; counting beyond \<open>2 ^ 31 - 1\<close> overflows, which has no defined outcome.\<close>

function strlen_loop :: "mem \<Rightarrow> ptr \<Rightarrow> nat \<Rightarrow> nat option" where
  "strlen_loop m str i = do {
     b \<leftarrow> m (str + of_nat i);
     if b \<noteq> 0 then if i + 1 < 2 ^ 31 then strlen_loop m str (i + 1) else None
     else Some i }"
  by pat_completeness auto
termination by (relation "measure (\<lambda>(_, _, i). 2 ^ 31 - i)") auto

definition strlen :: "mem \<Rightarrow> ptr \<Rightarrow> nat option" where
  "strlen m str = strlen_loop m str 0"

text \<open>The forward loop of \<^verbatim>\<open>strcpy\<close> looks for the terminator in memory that it is changing.\<close>

partial_function (option) strcpy_forward :: "mem \<Rightarrow> ptr \<Rightarrow> ptr \<Rightarrow> mem option" where
  "strcpy_forward m d s = do {
     b \<leftarrow> m s;
     m \<leftarrow> store m d b;
     b \<leftarrow> m s;
     if b = 0 then Some m else strcpy_forward m (d + 1) (s + 1) }"

function strcpy_backward :: "mem \<Rightarrow> ptr \<Rightarrow> ptr \<Rightarrow> ptr \<Rightarrow> mem option" where
  "strcpy_backward m destination d s = do {
     b \<leftarrow> m s;
     m \<leftarrow> store m d b;
     if d - 1 > destination then strcpy_backward m destination (d - 1) (s - 1) else Some m }"
  by pat_completeness auto
termination
  by (relation "measure (\<lambda>(_, _, d, _). if d = 0 then 2 ^ 32 else unat d)") (auto dest: step_down simp: unat_prev unat_gt_0)

definition strcpy :: "mem \<Rightarrow> ptr \<Rightarrow> ptr \<Rightarrow> (mem \<times> ptr) option" where
  "strcpy m destination source = do {
     sourceLen \<leftarrow> strlen m source;
     m \<leftarrow> (if destination \<le> source \<or> destination > source + of_nat sourceLen
           then strcpy_forward m destination source
           else strcpy_backward m destination (destination + of_nat sourceLen) (source + of_nat sourceLen));
     Some (m, destination) }"

declare memcpy_loop.simps [simp del] memmove_loop.simps [simp del] memcmp_loop.simps [simp del] memset_loop.simps [simp del]
declare strlen_loop.simps [simp del] strcpy_backward.simps [simp del]

section \<open>Copying\<close>

text \<open>\<open>accessible m p n\<close>: the \<open>n\<close> bytes from \<open>p\<close>. An address is in that range if its offset is below \<open>n\<close>.\<close>

definition accessible :: "mem \<Rightarrow> ptr \<Rightarrow> u32 \<Rightarrow> bool" where
  "accessible m p n \<longleftrightarrow> (\<forall>i<n. m (p + i) \<noteq> None)"

text \<open>Memory after copying the bytes at offsets in \<open>I\<close> in one go.\<close>

definition copied :: "mem \<Rightarrow> ptr \<Rightarrow> ptr \<Rightarrow> (u32 \<Rightarrow> bool) \<Rightarrow> mem" where
  "copied m d s I = (\<lambda>p. if I (p - d) then m (s + (p - d)) else m p)"

lemma copied_none: "(\<And>i. \<not> I i) \<Longrightarrow> copied m d s I = m"
  by (simp add: copied_def)

text \<open>One more byte: the source byte was not overwritten, and the destination is there.\<close>

lemma copied_step:
  assumes "m (s + i) = Some b" "m (d + i) \<noteq> None" "\<not> I i" "\<And>j. I j \<Longrightarrow> d + j \<noteq> s + i"
  shows "copied m d s I (s + i) = Some b" "store (copied m d s I) (d + i) b = Some (copied m d s (\<lambda>j. I j \<or> j = i))"
proof -
  show "copied m d s I (s + i) = Some b" using assms(1) assms(4) [of "s + i - d"] by (auto simp: copied_def)
  show "store (copied m d s I) (d + i) b = Some (copied m d s (\<lambda>j. I j \<or> j = i))"
    using assms(1-3) by (auto simp: store_def copied_def fun_eq_iff)
qed

lemma memcpy_loop_copies:
  assumes "accessible m s num" "accessible m d num" "\<And>i j. i < j \<Longrightarrow> j < num \<Longrightarrow> d + i \<noteq> s + j" "i \<le> num"
  shows "memcpy_loop (copied m d s (\<lambda>j. j < i)) d s i num = Some (copied m d s (\<lambda>j. j < num))"
  using assms(4)
proof (induction "unat num - unat i" arbitrary: i rule: less_induct)
  case less
  show ?case
  proof (cases "i < num")
    case True
    then obtain b where b: "m (s + i) = Some b" "m (d + i) \<noteq> None" using assms(1,2) by (auto simp: accessible_def)
    note st = copied_step [OF b, of "\<lambda>j. j < i"]
    have "(\<lambda>j. j < i \<or> j = i) = (\<lambda>j. j < i + 1)" using less_next [OF True] by auto
    then show ?thesis
      using st assms(3) [OF _ True] less(1) [OF step_up [OF True] next_le [OF True]] True by (subst memcpy_loop.simps) simp
  next
    case False
    then have "i = num" using less(2) by simp
    then show ?thesis by (subst memcpy_loop.simps) simp
  qed
qed

lemma memcpy_copies:
  assumes "accessible m s num" "accessible m d num" "\<And>i j. i < j \<Longrightarrow> j < num \<Longrightarrow> d + i \<noteq> s + j"
  shows "memcpy m d s num = Some (copied m d s (\<lambda>j. j < num), d)"
  using memcpy_loop_copies [OF assms, of 0] copied_none [of "\<lambda>j. j < 0" m d s] by (auto simp: memcpy_def copied_none word_gt_0)

lemma memmove_loop_copies:
  assumes "accessible m s num" "accessible m d num" "\<And>i j. i < j \<Longrightarrow> j < num \<Longrightarrow> d + j \<noteq> s + i" "0 < i" "i < num"
  shows "memmove_loop (copied m d s (\<lambda>j. i < j \<and> j < num)) d s i = Some (copied m d s (\<lambda>j. 0 < j \<and> j < num))"
  using assms(4,5)
proof (induction "unat i" arbitrary: i rule: less_induct)
  case less
  from less(3) obtain b where b: "m (s + i) = Some b" "m (d + i) \<noteq> None" using assms(1,2) by (auto simp: accessible_def)
  note st = copied_step [OF b, of "\<lambda>j. i < j \<and> j < num"]
  have p: "unat (i - 1) = unat i - 1" "unat i > 0" using less(2) by (simp_all add: unat_prev unat_gt_0)
  have I: "(\<lambda>j. i < j \<and> j < num \<or> j = i) = (\<lambda>j. i - 1 < j \<and> j < num)"
    using p less(3) by (auto simp: word_less_nat_alt word_unat_eq_iff fun_eq_iff)
  show ?case
  proof (cases "i - 1 = 0")
    case True
    then show ?thesis using st assms(3) I by (subst memmove_loop.simps) (auto simp: word_gt_0)
  next
    case False
    have "unat (i - 1) < unat i" "i - 1 < num" using p less(3) by (auto simp: word_less_nat_alt)
    moreover have "0 < i - 1" using False by (simp only: word_gt_0)
    ultimately have "unat (i - 1) < unat i" "0 < i - 1" "i - 1 < num" by simp_all
    from less(1) [OF this] show ?thesis using st assms(3) I False by (subst memmove_loop.simps) auto
  qed
qed

text \<open>Ranges of addresses that do not wrap around.\<close>

lemma offset_add: "unat (a :: u32) + unat n \<le> 2 ^ 32 \<Longrightarrow> i < n \<Longrightarrow> unat (a + i) = unat a + unat i"
  by (rule unat_add_le) (simp add: word_less_nat_alt)

lemma memmove_effect:
  assumes acc: "accessible m s num" "accessible m d num" and nw: "unat s + unat num < 2 ^ 32" "unat d + unat num < 2 ^ 32"
  shows "memmove m d s num = Some (copied m d s (\<lambda>j. j < num \<and> (s < d \<and> d < s + num \<longrightarrow> 0 < j)), d)"
proof -
  have u: "unat (s + num) = unat s + unat num" "\<And>i. i < num \<Longrightarrow> unat (s + i) = unat s + unat i" "\<And>i. i < num \<Longrightarrow> unat (d + i) = unat d + unat i"
    using nw offset_add [of s num] offset_add [of d num] unat_add_le [of s num] by auto
  have less: "i < num" if "i < j" "j < num" for i j using that by (rule less_trans)
  consider (zero) "num = 0" | (same) "d = s" "num > 0" | (forward) "d < s \<or> d \<ge> s + num" "num > 0" | (backward) "s < d" "d < s + num" "num > 0"
    by (cases "num = 0"; cases d s rule: linorder_cases; cases "d < s + num") (auto simp: word_gt_0 not_less)
  then show ?thesis
  proof cases
    case zero
    then show ?thesis by (simp add: memmove_def copied_def)
  next
    case same
    then have "\<not> s + num \<le> s" using u(1) by (simp add: word_le_nat_alt word_less_nat_alt)
    then show ?thesis using same by (auto simp: memmove_def copied_def)
  next
    case forward
    have "d + i \<noteq> s + j" if "i < j" "j < num" for i j
      using forward(1) u(2) [OF that(2)] u(3) [OF less [OF that]] u(1) that by (auto simp: word_unat_eq_iff word_less_nat_alt word_le_nat_alt)
    from memcpy_copies [OF acc this] have "memmove m d s num = Some (copied m d s (\<lambda>j. j < num), d)" using forward by (auto simp: memmove_def)
    moreover have "\<not> (s < d \<and> d < s + num)" using forward(1) by auto
    ultimately show ?thesis by (simp only: simp_thms)
  next
    case backward
    have nz: "d + j \<noteq> s + i" if "i < j" "j < num" for i j
      using backward(1) u(3) [OF that(2)] u(2) [OF less [OF that]] that by (auto simp: word_unat_eq_iff word_less_nat_alt)
    have n: "unat (num - 1) = unat num - 1" "unat num > 1"
      using backward(1,2) u(1) unat_prev [of num] backward(3) by (auto simp: word_gt_0 [symmetric]) (simp add: word_less_nat_alt)
    then have "0 < num - 1" "num - 1 < num" by (auto simp: word_less_nat_alt)
    from memmove_loop_copies [OF acc nz this] have "memmove_loop (copied m d s (\<lambda>j. num - 1 < j \<and> j < num)) d s (num - 1) =
      Some (copied m d s (\<lambda>j. 0 < j \<and> j < num))" .
    moreover have "copied m d s (\<lambda>j. num - 1 < j \<and> j < num) = m"
      by (rule copied_none) (use n in \<open>auto simp: word_less_nat_alt\<close>)
    ultimately show ?thesis using backward by (auto simp: memmove_def conj_commute intro: arg_cong)
  qed
qed

section \<open>Comparing and filling\<close>

definition first_difference :: "mem \<Rightarrow> ptr \<Rightarrow> ptr \<Rightarrow> u32 \<Rightarrow> u32 \<Rightarrow> u8 \<Rightarrow> u8 \<Rightarrow> bool" where
  "first_difference m a b i num x y \<longleftrightarrow> (\<exists>j. i \<le> j \<and> j < num \<and> (\<forall>l. i \<le> l \<longrightarrow> l < j \<longrightarrow> m (a + l) = m (b + l)) \<and>
     m (a + j) = Some x \<and> m (b + j) = Some y)"

lemma first_difference_next:
  assumes "i < num" "m (a + i) = Some z" "m (b + i) = Some z" "x \<noteq> y"
  shows "first_difference m a b i num x y \<longleftrightarrow> first_difference m a b (i + 1) num x y"
proof -
  have le: "i + 1 \<le> j \<longleftrightarrow> i \<le> j \<and> i \<noteq> j" for j using unat_next [OF assms(1)] by (auto simp: word_le_nat_alt word_unat_eq_iff)
  show ?thesis unfolding first_difference_def le using assms by (intro ex_cong1) (metis option.inject)
qed

lemma memcmp_loop_result:
  assumes "accessible m a num" "accessible m b num" "i \<le> num"
  shows "\<exists>r. memcmp_loop m a b i num = Some r \<and> r \<in> {-1, 0, 1} \<and>
    (r = -1 \<longleftrightarrow> (\<exists>x y. first_difference m a b i num x y \<and> x < y)) \<and> (r = 1 \<longleftrightarrow> (\<exists>x y. first_difference m a b i num x y \<and> x > y)) \<and>
    (r = 0 \<longleftrightarrow> (\<forall>j. i \<le> j \<longrightarrow> j < num \<longrightarrow> m (a + j) = m (b + j)))"
  using assms(3)
proof (induction "unat num - unat i" arbitrary: i rule: less_induct)
  case less
  show ?case
  proof (cases "i < num")
    case True
    then obtain x y where xy: "m (a + i) = Some x" "m (b + i) = Some y" using assms(1,2) unfolding accessible_def by (metis not_None_eq)
    show ?thesis
    proof (cases "x = y")
      case eq: True
      have le: "i \<le> j \<longleftrightarrow> i + 1 \<le> j \<or> i = j" for j using unat_next [OF True] by (auto simp: word_le_nat_alt word_unat_eq_iff)
      have fd: "(\<exists>u v. first_difference m a b i num u v \<and> u < v) \<longleftrightarrow> (\<exists>u v. first_difference m a b (i + 1) num u v \<and> u < v)"
        "(\<exists>u v. first_difference m a b i num u v \<and> u > v) \<longleftrightarrow> (\<exists>u v. first_difference m a b (i + 1) num u v \<and> u > v)"
        using first_difference_next [OF True, of m a x b] xy eq by (metis less_irrefl)+
      have z: "(\<forall>j. i \<le> j \<longrightarrow> j < num \<longrightarrow> m (a + j) = m (b + j)) \<longleftrightarrow> (\<forall>j. i + 1 \<le> j \<longrightarrow> j < num \<longrightarrow> m (a + j) = m (b + j))"
        using le xy eq by metis
      have "memcmp_loop m a b i num = memcmp_loop m a b (i + 1) num" using True xy eq by (subst memcmp_loop.simps) simp
      then show ?thesis using less(1) [OF step_up [OF True] next_le [OF True]] by (simp only: fd z)
    next
      case ne: False
      have here: "first_difference m a b i num u v \<longleftrightarrow> u = x \<and> v = y" if "u \<noteq> v" for u v
        using True xy ne that unfolding first_difference_def by (auto intro!: exI [of _ i] dest: leD)
      have "memcmp_loop m a b i num = Some (if x < y then - 1 else 1)" using True xy ne by (subst memcmp_loop.simps) auto
      moreover have "(\<exists>u v. first_difference m a b i num u v \<and> u < v) \<longleftrightarrow> x < y" "(\<exists>u v. first_difference m a b i num u v \<and> u > v) \<longleftrightarrow> y < x"
        using here ne by (metis less_irrefl)+
      moreover have "\<not> (\<forall>j. i \<le> j \<longrightarrow> j < num \<longrightarrow> m (a + j) = m (b + j))" using True xy ne by (intro notI) (auto dest: spec [of _ i])
      ultimately show ?thesis using ne by auto
    qed
  next
    case False
    then show ?thesis by (subst memcmp_loop.simps) (auto simp: first_difference_def)
  qed
qed

definition filled :: "mem \<Rightarrow> ptr \<Rightarrow> u8 \<Rightarrow> u32 \<Rightarrow> mem" where
  "filled m d v n = (\<lambda>p. if p - d < n then Some v else m p)"

lemma filled_step:
  assumes "i < num" "m (d + i) \<noteq> None"
  shows "store (filled m d v i) (d + i) v = Some (filled m d v (i + 1))"
proof -
  have "filled m d v i (d + i) \<noteq> None" using assms(2) by (simp add: filled_def)
  moreover have "(filled m d v i)(d + i \<mapsto> v) = filled m d v (i + 1)"
  proof
    fix p
    show "((filled m d v i)(d + i \<mapsto> v)) p = filled m d v (i + 1) p"
      using less_next [OF assms(1), of "p - d"] offset_eq [of p d i] by (simp add: filled_def)
  qed
  ultimately show ?thesis by (simp add: store_def)
qed

lemma memset_loop_fills:
  assumes "accessible m d num" "i \<le> num"
  shows "memset_loop (filled m d v i) d v i num = Some (filled m d v num)"
  using assms(2)
proof (induction "unat num - unat i" arbitrary: i rule: less_induct)
  case less
  show ?case
  proof (cases "i < num")
    case True
    then have "m (d + i) \<noteq> None" using assms(1) by (auto simp: accessible_def)
    from filled_step [OF True, of m d v, OF this]
    show ?thesis using less(1) [OF step_up [OF True] next_le [OF True]] True by (subst memset_loop.simps) simp
  next
    case False
    then have "i = num" using less(2) by simp
    then show ?thesis by (subst memset_loop.simps) simp
  qed
qed

section \<open>Strings\<close>

text \<open>There is a string of length \<open>n\<close> at \<open>p\<close>.\<close>

definition string_at :: "mem \<Rightarrow> ptr \<Rightarrow> nat \<Rightarrow> bool" where
  "string_at m p n \<longleftrightarrow> n < 2 ^ 31 \<and> m (p + of_nat n) = Some 0 \<and> (\<forall>i<n. \<exists>b. m (p + of_nat i) = Some b \<and> b \<noteq> 0)"

lemma strlen_loop_string: "string_at m p n \<Longrightarrow> i \<le> n \<Longrightarrow> strlen_loop m p i = Some n"
proof (induction "n - i" arbitrary: i)
  case 0
  then show ?case by (subst strlen_loop.simps) (simp add: string_at_def)
next
  case (Suc k)
  then have "i < n" by simp
  with Suc show ?case by (subst strlen_loop.simps) (auto simp: string_at_def)
qed

lemma strlen_loop_only: "strlen_loop m p i = Some n \<Longrightarrow> i < 2 ^ 31 \<Longrightarrow> (\<forall>j<i. \<exists>b. m (p + of_nat j) = Some b \<and> b \<noteq> 0) \<Longrightarrow> string_at m p n"
proof (induction m p i rule: strlen_loop.induct)
  case (1 m p i)
  from 1(2) obtain b where b: "m (p + of_nat i) = Some b" by (auto simp: strlen_loop.simps split: Option.bind_splits)
  show ?case
  proof (cases "b = 0")
    case True
    then have "n = i" using 1(2) b by (simp add: strlen_loop.simps)
    then show ?thesis using True b 1(3,4) by (simp add: string_at_def)
  next
    case False
    then have "i + 1 < 2 ^ 31" "strlen_loop m p (i + 1) = Some n"
      using 1(2) b unfolding strlen_loop.simps [of m p i] by (auto split: if_splits)
    then show ?thesis using 1(1) [OF b False] b False 1(4) by (auto simp: less_Suc_eq)
  qed
qed

lemma unat_of_nat_31: "n < 2 ^ 31 \<Longrightarrow> unat (of_nat n :: u32) = n"
  by (simp add: unat_of_nat)

text \<open>The string that the forward loop still has to copy, with what it has copied.\<close>

lemma strcpy_forward_copies:
  assumes str: "string_at m s n" and acc: "accessible m d (of_nat n + 1)"
    and nc: "\<And>i j. i < j \<Longrightarrow> j \<le> n \<Longrightarrow> d + of_nat i \<noteq> s + of_nat j" and i: "i \<le> n"
  shows "strcpy_forward (copied m d s (\<lambda>j. j < of_nat i)) (d + of_nat i) (s + of_nat i) = Some (copied m d s (\<lambda>j. j \<le> of_nat n))"
  using i
proof (induction "n - i" arbitrary: i rule: less_induct)
  case less
  have n: "n < 2 ^ 31" using str by (simp add: string_at_def)
  have u: "unat (of_nat i :: u32) = i" "unat (of_nat n :: u32) = n" "unat (of_nat n + 1 :: u32) = n + 1"
    using n less(2) unat_of_nat_31 [of i] unat_of_nat_31 [of n] unat_of_nat_31 [of "n + 1"] by (auto simp: unat_word_ariths)
  obtain b where b: "m (s + of_nat i) = Some b" "b = 0 \<longleftrightarrow> i = n"
    using str less(2) unfolding string_at_def by (metis le_less)
  have "m (d + of_nat i) \<noteq> None" using acc u less(2) by (auto simp: accessible_def word_less_nat_alt)
  moreover have ncj: "d + j \<noteq> s + of_nat i" if "j < of_nat i" for j :: u32
    using nc [of "unat j" i] that less(2) u by (simp add: word_less_nat_alt)
  ultimately have st: "copied m d s (\<lambda>j. j < of_nat i) (s + of_nat i) = Some b"
    "store (copied m d s (\<lambda>j. j < of_nat i)) (d + of_nat i) b = Some (copied m d s (\<lambda>j. j < of_nat i \<or> j = of_nat i))"
    using copied_step [of m s "of_nat i" b d "\<lambda>j. j < of_nat i", OF b(1)] by auto
  have I: "(\<lambda>j :: u32. j < of_nat i \<or> j = of_nat i) = (\<lambda>j. j \<le> of_nat i)" by auto
  have again: "copied m d s (\<lambda>j. j \<le> of_nat i) (s + of_nat i) = Some b"
  proof (cases "s + of_nat i - d = of_nat i")
    case True
    then show ?thesis using b(1) by (simp add: copied_def)
  next
    case False
    then show ?thesis using ncj [of "s + of_nat i - d"] b(1) by (auto simp: copied_def le_less)
  qed
  show ?case
  proof (cases "i = n")
    case True
    then show ?thesis using st(1) st(2) [unfolded I] again b(2) by (subst strcpy_forward.simps) simp
  next
    case False
    then have "i < n" using less(2) by simp
    have J: "(\<lambda>j :: u32. j \<le> of_nat i) = (\<lambda>j. j < of_nat (i + 1))"
      using u(1) unat_of_nat_31 [of "i + 1"] n \<open>i < n\<close> by (auto simp: word_le_nat_alt word_less_nat_alt simp del: of_nat_Suc)
    from less(1) [of "i + 1"] \<open>i < n\<close> have "strcpy_forward (copied m d s (\<lambda>j. j < of_nat (i + 1))) (d + of_nat (i + 1)) (s + of_nat (i + 1)) =
      Some (copied m d s (\<lambda>j. j \<le> of_nat n))" by simp
    then show ?thesis using st(1) st(2) [unfolded I J] again [unfolded J] b(2) False by (subst strcpy_forward.simps) (simp add: ac_simps)
  qed
qed

lemma strcpy_backward_memmove:
  assumes "0 < i" "unat d + unat i < 2 ^ 32"
  shows "strcpy_backward m d (d + i) (s + i) = memmove_loop m d s i"
  using assms
proof (induction "unat i" arbitrary: i m rule: less_induct)
  case less
  have p: "unat (i - 1) = unat i - 1" "unat i > 0" using less(2) by (simp_all add: unat_prev unat_gt_0)
  then have "unat (d + (i - 1)) = unat d + (unat i - 1)" using less(3) unat_add_le [of d "i - 1"] by simp
  then have c: "d + i - 1 > d \<longleftrightarrow> i - 1 \<noteq> 0"
    using p by (auto simp: word_less_nat_alt word_unat_eq_iff add_diff_eq)
  show ?case
  proof (cases "i - 1 = 0")
    case True
    then show ?thesis using c by (subst strcpy_backward.simps, subst memmove_loop.simps) simp
  next
    case False
    have "unat (i - 1) < unat i" "unat d + unat (i - 1) < 2 ^ 32" using p less(3) by auto
    moreover have "0 < i - 1" using False by (simp only: word_gt_0)
    ultimately have "strcpy_backward m' d (d + (i - 1)) (s + (i - 1)) = memmove_loop m' d s (i - 1)" for m' using less(1) by blast
    then show ?thesis using c False by (subst strcpy_backward.simps, subst memmove_loop.simps) (simp add: add_diff_eq)
  qed
qed

lemma string_accessible: "string_at m s n \<Longrightarrow> accessible m s (of_nat n + 1)"
proof -
  assume s: "string_at m s n"
  then have n: "n < 2 ^ 31" "unat (of_nat n + 1 :: u32) = n + 1"
    using unat_of_nat_31 [of n] by (auto simp: string_at_def unat_word_ariths)
  show ?thesis unfolding accessible_def
  proof (intro allI impI)
    fix i :: u32
    assume "i < of_nat n + 1"
    then have "unat i \<le> n" using n(2) by (simp add: word_less_nat_alt)
    moreover have "m (s + of_nat j) \<noteq> None" if "j \<le> n" for j using s that unfolding string_at_def by (metis le_less option.distinct(1))
    ultimately have "m (s + of_nat (unat i)) \<noteq> None" by blast
    then show "m (s + i) \<noteq> None" by simp
  qed
qed

lemma strcpy_effect:
  assumes str: "string_at m s n" and acc: "accessible m d (of_nat n + 1)" and nw: "unat s + n < 2 ^ 32" "unat d + n < 2 ^ 32"
  shows "strcpy m d s = Some (copied m d s (\<lambda>j. j \<le> of_nat n \<and> (s < d \<and> d \<le> s + of_nat n \<longrightarrow> 0 < j)), d)"
proof -
  let ?n = "of_nat n :: u32"
  have n: "n < 2 ^ 31" "unat ?n = n" using str unat_of_nat_31 by (auto simp: string_at_def)
  have m: "unat (?n + 1) = n + 1" using n by (simp add: unat_word_ariths)
  have len: "strlen m s = Some n" using strlen_loop_string [OF str] by (simp add: strlen_def)
  have u: "unat (a + of_nat i) = unat a + i" if "i \<le> n" "unat a + n < 2 ^ 32" for i and a :: u32
    using that n unat_of_nat_31 [of i] unat_add_le [of a "of_nat i"] by simp
  show ?thesis
  proof (cases "s < d \<and> d \<le> s + ?n")
    case False
    have "d + of_nat i \<noteq> s + of_nat j" if "i < j" "j \<le> n" for i j
      using False u [of i d] u [of j s] u [of n s] that nw by (auto simp: word_unat_eq_iff word_less_nat_alt word_le_nat_alt)
    from strcpy_forward_copies [OF str acc this, of 0] copied_none [of "\<lambda>j. j < of_nat 0" m d s]
    have "strcpy_forward m d s = Some (copied m d s (\<lambda>j. j \<le> ?n))" by simp
    moreover have "d \<le> s \<or> d > s + ?n" using False by auto
    ultimately have "strcpy m d s = Some (copied m d s (\<lambda>j. j \<le> ?n), d)" using len by (simp add: strcpy_def)
    then show ?thesis using False by (simp only: simp_thms)
  next
    case True
    then have "0 < n" using u [of n s] nw by (cases n) (auto simp: word_less_nat_alt word_le_nat_alt)
    then have i: "0 < ?n" "?n < ?n + 1" using n m by (auto simp: word_less_nat_alt)
    have nc: "d + j \<noteq> s + i" if "i < j" "j < ?n + 1" for i j
      using True that m u [of "unat i" s] u [of "unat j" d] nw by (auto simp: word_unat_eq_iff word_less_nat_alt)
    have J: "(\<lambda>j. 0 < j \<and> j < ?n + 1) = (\<lambda>j. j \<le> ?n \<and> 0 < j)" using m n by (auto simp: word_less_nat_alt word_le_nat_alt fun_eq_iff)
    have "copied m d s (\<lambda>j. ?n < j \<and> j < ?n + 1) = m" by (rule copied_none) (use m n in \<open>auto simp: word_less_nat_alt\<close>)
    with memmove_loop_copies [OF string_accessible [OF str] acc nc i] have "memmove_loop m d s ?n = Some (copied m d s (\<lambda>j. j \<le> ?n \<and> 0 < j))"
      by (simp add: J)
    then have "strcpy_backward m d (d + ?n) (s + ?n) = Some (copied m d s (\<lambda>j. j \<le> ?n \<and> 0 < j))"
      using strcpy_backward_memmove [OF i(1), of d m s] nw n by simp
    moreover have "\<not> (d \<le> s \<or> d > s + ?n)" using True by auto
    ultimately have "strcpy m d s = Some (copied m d s (\<lambda>j. j \<le> ?n \<and> 0 < j), d)" using len by (simp add: strcpy_def)
    then show ?thesis using True by (simp only: simp_thms)
  qed
qed

section \<open>Properties\<close>

text \<open>\<^verbatim>\<open>memmove\<close> on accessible ranges that do not wrap around returns and copies the \<open>num\<close> source bytes as they
  were before the call, whatever the overlap, and changes nothing else; except that when the destination starts
  inside the source range the first byte is not copied (the loop ends when the index reaches 0).\<close>

theorem memmove_spec:
  assumes "accessible m s num" "accessible m d num" "unat s + unat num < 2 ^ 32" "unat d + unat num < 2 ^ 32"
  shows "\<exists>m'. memmove m d s num = Some (m', d) \<and>
    (\<forall>p. m' p = (if p - d < num \<and> \<not> (p = d \<and> s < d \<and> d < s + num) then m (s + (p - d)) else m p))"
  using memmove_effect [OF assms] by (auto simp: copied_def word_gt_0)

theorem memmove_spec_witness:
  "memmove [8 \<mapsto> 1, 9 \<mapsto> 2, 10 \<mapsto> 3] 9 8 2 = Some ([8 \<mapsto> 1, 9 \<mapsto> 2, 10 \<mapsto> 2], 9)"
proof -
  let ?m = "[8 \<mapsto> 1, 9 \<mapsto> 2, 10 \<mapsto> 3] :: mem"
  have a: "accessible ?m 8 2" "accessible ?m 9 2"
    by (auto simp: accessible_def less_two)
  from memmove_spec [OF a] obtain m' where m': "memmove ?m 9 8 2 = Some (m', 9)"
    "\<And>p. m' p = (if p - 9 < 2 \<and> \<not> (p = 9 \<and> (8 :: ptr) < 9 \<and> (9 :: ptr) < 8 + 2) then ?m (8 + (p - 9)) else ?m p)" by auto
  have "m' = [8 \<mapsto> 1, 9 \<mapsto> 2, 10 \<mapsto> 2]"
  proof
    fix p :: ptr
    consider "p = 9" | "p = 10" | "\<not> p - 9 < 2"
      by (auto simp: less_two diff_eq_eq)
    then show "m' p = [8 \<mapsto> 1, 9 \<mapsto> 2, 10 \<mapsto> 2] p" by cases (auto simp: m'(2))
  qed
  then show ?thesis using m'(1) by simp
qed

text \<open>\<^verbatim>\<open>strcpy\<close> of a string of length \<open>n\<close> to an accessible place returns; the copy includes the terminator and
  nothing else is changed, except that when the destination starts inside the source string the first character
  is not copied.\<close>

theorem strcpy_spec:
  assumes "string_at m s n" "accessible m d (of_nat n + 1)" "unat s + n < 2 ^ 32" "unat d + n < 2 ^ 32"
  shows "\<exists>m'. strcpy m d s = Some (m', d) \<and>
    (\<forall>p. m' p = (if p - d \<le> of_nat n \<and> \<not> (p = d \<and> s < d \<and> d \<le> s + of_nat n) then m (s + (p - d)) else m p))"
  using strcpy_effect [OF assms] by (auto simp: copied_def word_gt_0)

theorem strcpy_spec_witness:
  "\<exists>m'. strcpy [8 \<mapsto> 65, 9 \<mapsto> 0, 20 \<mapsto> 1, 21 \<mapsto> 1] 20 8 = Some (m', 20) \<and> m' 20 = Some 65 \<and> m' 21 = Some 0"
proof -
  let ?m = "[8 \<mapsto> 65, 9 \<mapsto> 0, 20 \<mapsto> 1, 21 \<mapsto> 1] :: mem"
  have "string_at ?m 8 1" "accessible ?m 20 (of_nat 1 + 1)" by (auto simp: string_at_def accessible_def less_two)
  from strcpy_spec [OF this] show ?thesis by auto
qed

text \<open>\<^verbatim>\<open>strlen\<close> returns exactly for the strings that end within \<open>2 ^ 31\<close> bytes, with their length.\<close>

theorem strlen_spec: "strlen m p = Some n \<longleftrightarrow> string_at m p n"
  using strlen_loop_string [of m p n 0] strlen_loop_only [of m p 0 n] by (auto simp: strlen_def)

text \<open>\<^verbatim>\<open>memcmp\<close> on accessible ranges returns -1, 0 or 1, as the first differing byte, read as an unsigned number,
  is smaller or larger in the first range, or there is none.\<close>

theorem memcmp_spec:
  assumes "accessible m a num" "accessible m b num"
  shows "\<exists>r. memcmp m a b num = Some r \<and> r \<in> {-1, 0, 1} \<and>
    (r = -1 \<longleftrightarrow> (\<exists>x y. first_difference m a b 0 num x y \<and> x < y)) \<and> (r = 1 \<longleftrightarrow> (\<exists>x y. first_difference m a b 0 num x y \<and> x > y)) \<and>
    (r = 0 \<longleftrightarrow> (\<forall>j < num. m (a + j) = m (b + j)))"
  using memcmp_loop_result [OF assms, of 0] by (simp add: memcmp_def)

theorem memcmp_spec_witness: "memcmp [8 \<mapsto> 1, 9 \<mapsto> 200, 20 \<mapsto> 1, 21 \<mapsto> 100] 8 20 2 = Some 1"
proof -
  let ?m = "[8 \<mapsto> 1, 9 \<mapsto> 200, 20 \<mapsto> 1, 21 \<mapsto> 100] :: mem"
  have a: "accessible ?m 8 2" "accessible ?m 20 2" by (auto simp: accessible_def less_two)
  have "first_difference ?m 8 20 0 2 200 100"
    unfolding first_difference_def by (intro exI [of _ 1]) (auto simp: less_two less_one_word)
  then have "\<exists>x y. first_difference ?m 8 20 0 2 x y \<and> y < x" by (intro exI [of _ 200] exI [of _ 100]) simp
  with memcmp_spec [OF a] show ?thesis by auto
qed

text \<open>\<^verbatim>\<open>memset\<close> stores the low byte of its argument in the whole range.\<close>

lemma memset_fills: "accessible m d num \<Longrightarrow> memset m d v num = Some (filled m d (ucast v) num, d)"
  using memset_loop_fills [of m d num 0 "ucast v"] by (simp add: memset_def) (simp add: filled_def)

end
