(* ===== verification/Page_Map.thy ===== *)
theory Page_Map
  imports Byte_Memory
begin

text \<open>
  \<^verbatim>\<open>initialize_page_map\<close> of \<^verbatim>\<open>src/mmgr.c\<close>: it takes frames from the map of memory that the boot loader gave, maps them for the
  bitmap of the page allocator, marks them as unavailable in that map, and has libmalloc build the allocator from it. The memory map
  is a structure of libmalloc; the kernel reads its array of regions and changes it with \<^verbatim>\<open>memmap_insert_region\<close>.
\<close>

section \<open>The code\<close>

record region_t =
  r_type :: region_type
  r_location :: u32
  r_size :: u32

record 'map memmap =
  region_array :: "'map \<Rightarrow> region_t list"
  insert_region :: "'map map_insert"
  bitmap_size :: "'map \<Rightarrow> u32 \<Rightarrow> u32 \<Rightarrow> u32"

text \<open>The loop over the levels of the tables for one page: its results are whether the page was counted, and whether no call failed.
  A missing table is made from the frame without clearing it, and the page itself is left for the next frame.\<close>

fun map_levels :: "mmu \<Rightarrow> ptr \<Rightarrow> physaddr_t \<Rightarrow> nat list \<Rightarrow> (mmu \<times> bool \<times> bool) option" where
  "map_levels m page location [] = Some (m, False, True)"
| "map_levels m page location (level # levels) = do {
     t \<leftarrow> get_pte_type m page level;
     if t AND PAGE_PRESENT = 0 then do {
       (m, ok) \<leftarrow> set_pte m page level (PAGE_PRESENT OR PAGE_RW) location;
       if \<not> ok then Some (m, False, False) else Some (m, level = page_table_levels - 1, True) }
     else if level = page_table_levels - 1 then Some (m, True, True)
     else map_levels m page location levels }"

partial_function (option) fill_bitmap ::
  "'map memmap \<Rightarrow> ptr \<Rightarrow> u32 \<Rightarrow> u32 \<Rightarrow> 'h machine \<Rightarrow> 'map \<Rightarrow> u32 \<Rightarrow> u32 \<Rightarrow> ('h machine \<times> 'map \<times> u32 \<times> bool) option" where
  "fill_bitmap M base region_end needed s regions location mapped =
     (if location + page_size \<le> region_end \<and> mapped < needed then do {
        (m, counted, ok) \<leftarrow> map_levels (mm s) (base + mapped * page_size) location [0..<page_table_levels];
        let s = s\<lparr>mm := m\<rparr>;
        if \<not> ok then Some (s, regions, mapped, False)
        else fill_bitmap M base region_end needed s (insert_region M regions location page_size M_UNAVAILABLE)
          (location + page_size) (if counted then mapped + 1 else mapped) }
      else Some (s, regions, mapped, True))"

partial_function (option) map_regions ::
  "'map memmap \<Rightarrow> ptr \<Rightarrow> u32 \<Rightarrow> nat \<Rightarrow> 'h machine \<Rightarrow> 'map \<Rightarrow> u32 \<Rightarrow> ('h machine \<times> 'map \<times> bool) option" where
  "map_regions M base needed i s regions mapped =
     (if i < length (region_array M regions) \<and> mapped < needed then
        (let r = region_array M regions ! i in
         if r_type r \<noteq> M_AVAILABLE then map_regions M base needed (i + 1) s regions mapped
         else do {
           (s, regions, mapped, ok) \<leftarrow> fill_bitmap M base (r_location r + r_size r) needed s regions
             ((r_location r + page_size - 1) AND NOT (page_size - 1)) mapped;
           if \<not> ok then Some (s, regions, False) else map_regions M base needed (i + 1) s regions mapped })
      else Some (s, regions, True))"

text \<open>The power of two that \<^verbatim>\<open>memory_size\<close> is rounded to is not used.\<close>

definition initialize_page_map ::
  "'map memmap \<Rightarrow> ('h, 'map) heap_init \<Rightarrow> 'map \<Rightarrow> 'h machine \<Rightarrow> ptr \<Rightarrow> u32 \<Rightarrow> ('h machine \<times> 'map \<times> error_t) option" where
  "initialize_page_map M initialize_heap regions s base block_size =
     (let cfg = \<lparr>cfg_bitmap = base, cfg_cache_capacity = 32, cfg_block_bits = 1, cfg_block_size = block_size, cfg_offset = 0\<rparr>;
          pages_needed = (bitmap_size M regions block_size 1 + page_size - 1) div page_size
      in do {
        (s, regions, ok) \<leftarrow> map_regions M base pages_needed 0 s regions 0;
        if \<not> ok then Some (s, regions, ENOMEM)
        else do {
          (s, h, status) \<leftarrow> initialize_heap cfg regions None s;
          let s = s\<lparr>page_map := h\<rparr>;
          Some (s, regions, if status \<noteq> 0 then ENOMEM else ENONE) } })"

section \<open>One page\<close>

lemma map_levels_cases:
  assumes ok: "space_ok m" and d: "dir_of page \<noteq> - 1"
  shows "map_levels m page location [0..<page_table_levels] =
    (if \<not> present (pde m page) then Some (set_pde m page (new_entry (PAGE_PRESENT OR PAGE_RW) location (pde m page)), False, True)
     else if \<not> present (pte m page) then Some (set_pte_entry m page (new_entry (PAGE_PRESENT OR PAGE_RW) location (pte m page)), True, True)
     else Some (m, True, True))"
  using space_okD(1) [OF ok] space_okD(2) [OF ok d] d
  by (auto simp: get_pte_type_window flags_of_bits set_pte_directory set_pte_table)

text \<open>C39. While it maps the bitmap, \<^verbatim>\<open>initialize_page_map\<close> makes a missing page table from a frame that it does not clear: if the frame
  held data that looks like entries, every address of those four megabytes is translated by that data. The page
  that needed the table is not mapped yet. (\<^verbatim>\<open>map_page\<close>, by contrast, wipes a new table.)\<close>

theorem page_map_stale_table:
  assumes "space_ok m" "dir_of page \<noteq> - 1" "\<not> present (pde m page)" "frame_of location \<noteq> top m"
  shows "\<exists>m'. map_levels m page location [0..<page_table_levels] = Some (m', False, True) \<and>
    (\<forall>q. dir_of q = dir_of page \<longrightarrow> leaf m' q =
       (let e = mem m (frame_of location) (tab_of q) in if present e then Some e else None))"
proof -
  let ?m = "set_pde m page (new_entry (PAGE_PRESENT OR PAGE_RW) location (pde m page))"
  have "leaf ?m q = (let e = mem m (frame_of location) (tab_of q) in if present e then Some e else None)" if "dir_of q = dir_of page" for q
    using that assms(4) by (simp add: leaf_def set_pde_def Let_def)
  then show ?thesis using map_levels_cases [OF assms(1,2)] assms(3) by simp
qed

text \<open>Witness: the frame at 0x7000 holds an entry for frame 9.\<close>

theorem page_map_stale_table_witness:
  "\<exists>m'. map_levels (small_mmu\<lparr>mem := (mem small_mmu)(7 := (\<lambda>i. 0x9003))\<rparr>) 0x400000 0x7000 [0..<page_table_levels] = Some (m', False, True) \<and>
     leaf m' 0x400000 = Some 0x9003"
proof -
  let ?m = "small_mmu\<lparr>mem := (mem small_mmu)(7 := (\<lambda>i. 0x9003))\<rparr>"
  have t: "top ?m = 1" "frame_of 0x7000 = 7" by (simp_all add: small_mmu_def frame_of_def)
  have e: "mem ?m 1 i = (if i = - 1 then 0x1003 else if i = 0 then 0x2003 else 0)" for i by (simp add: small_mmu_def)
  have sp: "space_ok ?m" unfolding space_ok_def self_mapped_def Let_def t by (simp only: e) (simp add: small_entries)
  have d: "dir_of 0x400000 = 1" by (simp add: dir_of_def)
  have p: "\<not> present (pde ?m 0x400000)" unfolding t d by (simp only: e) (simp add: small_entries)
  have "present 0x9003" by (simp add: present_def bit_numeral_rec)
  then show ?thesis
    using page_map_stale_table [OF sp _ p, of "0x7000"] d t by (auto simp: Let_def simp del: map_levels.simps)
qed

end
