(* ===== verification/Multiboot.thy ===== *)
theory Multiboot
  imports Quark_String Page_Map
begin

text \<open>
  Boot information: \<^verbatim>\<open>src/x86/multiboot2.c\<close> reads the table that the boot loader leaves in memory and fills in a
  \<^verbatim>\<open>struct boot_info_t\<close>. Memory is that of the string functions; the strings are copied to buffers whose addresses the structure
  holds. The memory map is libmalloc's; addresses and sizes are passed to it as words of 32 bits.
\<close>

section \<open>Data\<close>

record module_t =
  m_start :: physaddr_t
  m_end :: physaddr_t
  m_str :: ptr

record 'map boot_info_t =
  bootloader :: ptr
  parameters :: ptr
  memory_size :: u32
  memory_map :: 'map
  module_count :: u32
  modules :: "module_t list"

definition module_limit :: u32 where "module_limit = 8"

abbreviation MB_END_TAG :: u32 where "MB_END_TAG \<equiv> 0"
abbreviation MB_BOOT_COMMAND :: u32 where "MB_BOOT_COMMAND \<equiv> 1"
abbreviation MB_BOOTLOADER :: u32 where "MB_BOOTLOADER \<equiv> 2"
abbreviation MB_MODULE :: u32 where "MB_MODULE \<equiv> 3"
abbreviation MB_MEMORY_INFO :: u32 where "MB_MEMORY_INFO \<equiv> 4"
abbreviation MB_MEMORY_MAP :: u32 where "MB_MEMORY_MAP \<equiv> 6"

abbreviation MB_AVAILABLE :: u32 where "MB_AVAILABLE \<equiv> 1"
abbreviation MB_DEFECTIVE :: u32 where "MB_DEFECTIVE \<equiv> 5"

definition get32 :: "mem \<Rightarrow> ptr \<Rightarrow> u32 option" where
  "get32 m p = do { a \<leftarrow> m p; b \<leftarrow> m (p + 1); c \<leftarrow> m (p + 2); d \<leftarrow> m (p + 3); Some (word_of [a, b, c, d]) }"

definition get64 :: "mem \<Rightarrow> ptr \<Rightarrow> 64 word option" where
  "get64 m p = do { lo \<leftarrow> get32 m p; hi \<leftarrow> get32 m (p + 4); Some (ucast lo OR push_bit 32 (ucast hi)) }"

text \<open>The fields of the structures, by their offsets.\<close>

definition module_start :: "mem \<Rightarrow> ptr \<Rightarrow> u32 option" where "module_start m p = get32 m (p + 8)"
definition module_end :: "mem \<Rightarrow> ptr \<Rightarrow> u32 option" where "module_end m p = get32 m (p + 12)"
definition entry_base :: "mem \<Rightarrow> ptr \<Rightarrow> 64 word option" where "entry_base m p = get64 m p"
definition entry_length :: "mem \<Rightarrow> ptr \<Rightarrow> 64 word option" where "entry_length m p = get64 m (p + 8)"
definition entry_type :: "mem \<Rightarrow> ptr \<Rightarrow> u32 option" where "entry_type m p = get32 m (p + 16)"
definition tag_size :: "mem \<Rightarrow> ptr \<Rightarrow> u32 option" where "tag_size m p = get32 m (p + 4)"
definition map_entry_size :: "mem \<Rightarrow> ptr \<Rightarrow> u32 option" where "map_entry_size m p = get32 m (p + 8)"
definition low_memory :: "mem \<Rightarrow> ptr \<Rightarrow> u32 option" where "low_memory m p = get32 m (p + 8)"
definition high_memory :: "mem \<Rightarrow> ptr \<Rightarrow> u32 option" where "high_memory m p = get32 m (p + 12)"

section \<open>The code\<close>

definition region_type_of :: "u32 \<Rightarrow> region_type" where
  "region_type_of ty = (if ty = MB_AVAILABLE then M_AVAILABLE else if ty = MB_DEFECTIVE then M_DEFECTIVE else M_UNAVAILABLE)"

text \<open>The loop over the entries of the memory map counts the size of the tag down to 0, modulo \<open>2 ^ 32\<close>.\<close>

partial_function (option) map_loop :: "'map memmap \<Rightarrow> mem \<Rightarrow> 'map \<Rightarrow> ptr \<Rightarrow> u32 \<Rightarrow> u32 \<Rightarrow> 'map option" where
  "map_loop M m regions entry left entry_size =
     (if left \<noteq> 0 then do {
        ty \<leftarrow> entry_type m entry;
        base \<leftarrow> entry_base m entry;
        len \<leftarrow> entry_length m entry;
        map_loop M m (insert_region M regions (ucast base) (ucast len) (region_type_of ty)) (entry + entry_size) (left - entry_size) entry_size }
      else Some regions)"

definition read_multiboot_table_entry :: "'map memmap \<Rightarrow> 'map boot_info_t \<Rightarrow> mem \<Rightarrow> ptr \<Rightarrow> ('map boot_info_t \<times> mem \<times> ptr) option" where
  "read_multiboot_table_entry M bi m table = do {
     ty \<leftarrow> get32 m table;
     if ty = MB_END_TAG then Some (bi, m, NULL)
     else do {
       (bi, m) \<leftarrow>
         (if ty = MB_MEMORY_INFO then do {
            hi \<leftarrow> high_memory m table;
            lo \<leftarrow> low_memory m table;
            Some (bi\<lparr>memory_size := hi * 1024 + lo * 1024\<rparr>, m) }
          else if ty = MB_MEMORY_MAP then do {
            sz \<leftarrow> tag_size m table;
            entry_size \<leftarrow> map_entry_size m table;
            regions \<leftarrow> map_loop M m (memory_map bi) (table + 16) (sz - 16) entry_size;
            Some (bi\<lparr>memory_map := regions\<rparr>, m) }
          else if ty = MB_MODULE then
            (if module_count bi < module_limit then do {
               x \<leftarrow> arr_get (modules bi) (unat (module_count bi));
               start \<leftarrow> module_start m table;
               finish \<leftarrow> module_end m table;
               ms \<leftarrow> arr_set (modules bi) (unat (module_count bi)) (x\<lparr>m_start := start, m_end := finish\<rparr>);
               let bi = bi\<lparr>modules := ms\<rparr>;
               (m, _) \<leftarrow> strcpy m (m_str x) (table + 16);
               start \<leftarrow> module_start m table;
               finish \<leftarrow> module_end m table;
               let size = (finish - start + 4095) AND NOT 4095;
               let bi = bi\<lparr>memory_map := insert_region M (memory_map bi) start size M_UNAVAILABLE, module_count := module_count bi + 1\<rparr>;
               Some (bi, m) }
             else Some (bi, m))
          else if ty = MB_BOOT_COMMAND then do { (m, _) \<leftarrow> strcpy m (parameters bi) (table + 8); Some (bi, m) }
          else if ty = MB_BOOTLOADER then do { (m, _) \<leftarrow> strcpy m (bootloader bi) (table + 8); Some (bi, m) }
          else Some (bi, m));
       sz \<leftarrow> tag_size m table;
       let size = (sz + 7) - ((sz + 7) mod 8);
       Some (bi, m, table + size) } }"

partial_function (option) table_loop :: "'map memmap \<Rightarrow> 'map boot_info_t \<Rightarrow> mem \<Rightarrow> ptr \<Rightarrow> ('map boot_info_t \<times> mem) option" where
  "table_loop M bi m table =
     (if table \<noteq> NULL then do {
        (bi, m, table) \<leftarrow> read_multiboot_table_entry M bi m table;
        table_loop M bi m table }
      else Some (bi, m))"

definition read_multiboot_table :: "'map memmap \<Rightarrow> 'map boot_info_t \<Rightarrow> mem \<Rightarrow> ptr \<Rightarrow> ('map boot_info_t \<times> mem \<times> ptr) option" where
  "read_multiboot_table M bi m table = do {
     total \<leftarrow> get32 m table;
     (bi, m) \<leftarrow> table_loop M bi m (table + 8);
     Some (bi, m, table + total) }"

section \<open>Tables\<close>

text \<open>What a table says, its bytes (Multiboot2, section 3.4), and what is to be done for it.\<close>

datatype tag = Boot_command "u8 list" | Boot_loader "u8 list" | Boot_module u32 u32 "u8 list" | Memory_info u32 u32
  | Memory_map "(64 word \<times> 64 word \<times> u32) list" | Other_tag u32 "u8 list"

definition wide_bytes :: "64 word \<Rightarrow> u8 list" where
  "wide_bytes w = bytes_of (ucast w) @ bytes_of (ucast (drop_bit 32 w))"

fun entry_bytes :: "64 word \<times> 64 word \<times> u32 \<Rightarrow> u8 list" where
  "entry_bytes (base, len, ty) = wide_bytes base @ wide_bytes len @ bytes_of ty @ bytes_of 0"

fun tag_code :: "tag \<Rightarrow> u32" where
  "tag_code (Boot_command s) = MB_BOOT_COMMAND"
| "tag_code (Boot_loader s) = MB_BOOTLOADER"
| "tag_code (Boot_module a b s) = MB_MODULE"
| "tag_code (Memory_info lo hi) = MB_MEMORY_INFO"
| "tag_code (Memory_map es) = MB_MEMORY_MAP"
| "tag_code (Other_tag ty bs) = ty"

fun tag_body :: "tag \<Rightarrow> u8 list" where
  "tag_body (Boot_command s) = s @ [0]"
| "tag_body (Boot_loader s) = s @ [0]"
| "tag_body (Boot_module a b s) = bytes_of a @ bytes_of b @ s @ [0]"
| "tag_body (Memory_info lo hi) = bytes_of lo @ bytes_of hi"
| "tag_body (Memory_map es) = bytes_of 24 @ bytes_of 0 @ concat (map entry_bytes es)"
| "tag_body (Other_tag ty bs) = bs"

definition padding :: "nat \<Rightarrow> u8 list" where
  "padding n = replicate ((8 - n mod 8) mod 8) 0"

definition tag_bytes :: "tag \<Rightarrow> u8 list" where
  "tag_bytes t = bytes_of (tag_code t) @ bytes_of (of_nat (8 + length (tag_body t))) @ tag_body t @ padding (length (tag_body t))"

definition table_bytes :: "tag list \<Rightarrow> u8 list" where
  "table_bytes ts = (let body = concat (map tag_bytes ts) @ bytes_of MB_END_TAG @ bytes_of 8
     in bytes_of (of_nat (8 + length body)) @ bytes_of 0 @ body)"

definition write_string :: "mem \<Rightarrow> ptr \<Rightarrow> u8 list \<Rightarrow> mem" where
  "write_string m d s = (\<lambda>q. if q - d \<le> of_nat (length s) then Some ((s @ [0]) ! unat (q - d)) else m q)"

fun apply_tag :: "'map memmap \<Rightarrow> tag \<Rightarrow> 'map boot_info_t \<times> mem \<Rightarrow> 'map boot_info_t \<times> mem" where
  "apply_tag M (Boot_command s) (bi, m) = (bi, write_string m (parameters bi) s)"
| "apply_tag M (Boot_loader s) (bi, m) = (bi, write_string m (bootloader bi) s)"
| "apply_tag M (Boot_module a b s) (bi, m) =
     (if module_count bi < module_limit then
        (let i = unat (module_count bi) in
         (bi\<lparr>modules := (modules bi)[i := (modules bi ! i)\<lparr>m_start := a, m_end := b\<rparr>],
             memory_map := insert_region M (memory_map bi) a ((b - a + 4095) AND NOT 4095) M_UNAVAILABLE,
             module_count := module_count bi + 1\<rparr>,
          write_string m (m_str (modules bi ! i)) s))
      else (bi, m))"
| "apply_tag M (Memory_info lo hi) (bi, m) = (bi\<lparr>memory_size := hi * 1024 + lo * 1024\<rparr>, m)"
| "apply_tag M (Memory_map es) (bi, m) =
     (bi\<lparr>memory_map := fold (\<lambda>(base, len, ty) r. insert_region M r (ucast base) (ucast len) (region_type_of ty)) es (memory_map bi)\<rparr>, m)"
| "apply_tag M (Other_tag ty bs) (bi, m) = (bi, m)"

section \<open>Bytes in memory\<close>

definition holds :: "mem \<Rightarrow> ptr \<Rightarrow> u8 list \<Rightarrow> bool" where
  "holds m p bs \<longleftrightarrow> (\<forall>i < length bs. m (p + of_nat i) = Some (bs ! i))"

lemma holds_append: "holds m p (xs @ ys) \<longleftrightarrow> holds m p xs \<and> holds m (p + of_nat (length xs)) ys"
proof (intro iffI conjI)
  assume h: "holds m p (xs @ ys)"
  show "holds m p xs" unfolding holds_def
  proof (intro allI impI)
    fix i assume i: "i < length xs"
    then have "i < length (xs @ ys)" by simp
    from h [unfolded holds_def, rule_format, OF this] i show "m (p + of_nat i) = Some (xs ! i)" by (simp add: nth_append)
  qed
  show "holds m (p + of_nat (length xs)) ys" unfolding holds_def
  proof (intro allI impI)
    fix i assume i: "i < length ys"
    then have "length xs + i < length (xs @ ys)" by simp
    from h [unfolded holds_def, rule_format, OF this] show "m (p + of_nat (length xs) + of_nat i) = Some (ys ! i)"
      by (simp add: add.assoc)
  qed
next
  assume h: "holds m p xs \<and> holds m (p + of_nat (length xs)) ys"
  show "holds m p (xs @ ys)" unfolding holds_def
  proof (intro allI impI)
    fix i assume i: "i < length (xs @ ys)"
    show "m (p + of_nat i) = Some ((xs @ ys) ! i)"
    proof (cases "i < length xs")
      case True
      with h show ?thesis by (simp add: holds_def nth_append)
    next
      case False
      then obtain j where j: "i = length xs + j" using le_Suc_ex not_less by blast
      then show ?thesis using h i by (simp add: holds_def add.assoc)
    qed
  qed
qed

lemma holds_Nil [simp]: "holds m p []" by (simp add: holds_def)

lemma holds_Cons: "holds m p (b # bs) \<longleftrightarrow> m p = Some b \<and> holds m (p + 1) bs"
  using holds_append [of m p "[b]" bs] by (simp add: holds_def)

lemma get32_holds: "holds m p (bytes_of w) \<Longrightarrow> get32 m p = Some w"
proof -
  assume h: "holds m p (bytes_of w)"
  then have "get32 m p = Some (word_of (bytes_of w))" by (simp add: bytes_of_def holds_Cons get32_def add.assoc del: word_of.simps)
  then show ?thesis by simp
qed

lemma wide_join: "ucast (ucast (w :: 64 word) :: u32) OR push_bit 32 (ucast (ucast (drop_bit 32 w) :: u32)) = w"
  by (rule bit_word_eqI) (auto simp: bit_simps)

lemma get64_holds: "holds m p (wide_bytes w) \<Longrightarrow> get64 m p = Some w"
  using get32_holds [of m p "ucast w"] get32_holds [of m "p + 4" "ucast (drop_bit 32 w)"]
  by (simp add: wide_bytes_def holds_append get64_def wide_join)

text \<open>The addresses of \<open>n\<close> bytes; what is written elsewhere does not change them.\<close>

definition span :: "ptr \<Rightarrow> nat \<Rightarrow> ptr set" where
  "span p n = {p + of_nat i | i. i < n}"

lemma holds_outside: "holds m p bs \<Longrightarrow> \<forall>q. q \<notin> W \<longrightarrow> m' q = m q \<Longrightarrow> span p (length bs) \<inter> W = {} \<Longrightarrow> holds m' p bs"
  unfolding holds_def span_def by (metis (mono_tags, lifting) CollectI disjoint_iff)

lemma span_append: "span p (a + b) = span p a \<union> span (p + of_nat a) b"
proof (intro subset_antisym subsetI)
  fix q assume "q \<in> span p (a + b)"
  then obtain i where i: "q = p + of_nat i" "i < a + b" by (auto simp: span_def)
  show "q \<in> span p a \<union> span (p + of_nat a) b"
  proof (cases "i < a")
    case True
    then show ?thesis using i(1) by (auto simp: span_def)
  next
    case False
    then obtain j where j: "i = a + j" using le_Suc_ex not_less by blast
    then have "q = p + of_nat a + of_nat j" "j < b" using i by (simp_all add: add.assoc)
    then show ?thesis by (auto simp: span_def)
  qed
next
  fix q assume "q \<in> span p a \<union> span (p + of_nat a) b"
  then consider i where "q = p + of_nat i" "i < a" | j where "q = p + of_nat a + of_nat j" "j < b" by (auto simp: span_def)
  then show "q \<in> span p (a + b)"
  proof cases
    case 1
    then show ?thesis by (auto simp: span_def intro!: exI [of _ i])
  next
    case 2
    then show ?thesis by (auto simp: span_def add.assoc intro!: exI [of _ "a + j"])
  qed
qed

lemma span_nth: "i < n \<Longrightarrow> p + of_nat i \<in> span p n"
  by (auto simp: span_def)

text \<open>Copying a string of the table to a buffer.\<close>

definition string_ok :: "ptr set \<Rightarrow> ptr \<Rightarrow> u8 list \<Rightarrow> bool" where
  "string_ok W d s \<longleftrightarrow> 0 \<notin> set s \<and> length s < 2 ^ 31 \<and> unat d + length s < 2 ^ 32 \<and> span d (length s + 1) \<subseteq> W"

lemma word_offset: "unat (i :: u32) \<le> n \<Longrightarrow> n < 2 ^ 31 \<Longrightarrow> i = of_nat (unat i)"
  by simp

lemma strcpy_string:
  assumes h: "holds m src (s @ [0])" and ok: "string_ok W d s" and acc: "\<forall>q\<in>W. m q \<noteq> None"
    and dis: "span src (length s + 1) \<inter> W = {}" and nw: "unat src + length s < 2 ^ 32"
  shows "strcpy m d src = Some (write_string m d s, d)" "\<forall>q. q \<notin> W \<longrightarrow> write_string m d s q = m q" "\<forall>q\<in>W. write_string m d s q \<noteq> None"
proof -
  let ?n = "length s"
  have n: "?n < 2 ^ 31" "unat d + ?n < 2 ^ 32" "span d (?n + 1) \<subseteq> W" "0 \<notin> set s" using ok by (auto simp: string_ok_def)
  have u: "unat (of_nat ?n :: u32) = ?n" using n(1) by (rule unat_of_nat_31)
  have bytes: "m (src + i) = Some ((s @ [0]) ! unat i)" if "i \<le> of_nat ?n" for i
  proof -
    have "unat i < length (s @ [0])" using that u by (simp add: word_le_nat_alt)
    with h have "m (src + of_nat (unat i)) = Some ((s @ [0]) ! unat i)" unfolding holds_def by blast
    then show ?thesis by simp
  qed
  have str: "string_at m src ?n"
    unfolding string_at_def
  proof (intro conjI allI impI)
    show "m (src + of_nat ?n) = Some 0" using bytes [of "of_nat ?n"] u by (simp add: nth_append)
    fix j assume j: "j < ?n"
    then have "m (src + of_nat j) = Some (s ! j)" using h by (simp add: holds_def nth_append)
    moreover have "s ! j \<noteq> 0" using j n(4) nth_mem by fastforce
    ultimately show "\<exists>b. m (src + of_nat j) = Some b \<and> b \<noteq> 0" by blast
  qed (use n(1) in simp)
  have inW: "d + i \<in> W" if "i \<le> of_nat ?n" for i
  proof -
    have "unat i < ?n + 1" using that u by (simp add: word_le_nat_alt)
    then have "d + of_nat (unat i) \<in> span d (?n + 1)" by (rule span_nth)
    then show ?thesis using n(3) by auto
  qed
  have "i < of_nat ?n + 1 \<Longrightarrow> i \<le> of_nat ?n" for i :: u32
    using u n(1) by (simp add: word_less_nat_alt word_le_nat_alt unat_word_ariths)
  then have acc': "accessible m d (of_nat ?n + 1)" unfolding accessible_def using inW acc by blast
  have no: "\<not> (src < d \<and> d \<le> src + of_nat ?n)"
  proof
    assume a: "src < d \<and> d \<le> src + of_nat ?n"
    then have "src \<le> d" by auto
    then have "unat (d - src) = unat d - unat src" by (rule unat_sub)
    moreover have "unat (src + of_nat ?n) = unat src + ?n" using nw u by (subst unat_add_le) auto
    ultimately have "unat (d - src) < ?n + 1" using a unfolding word_le_nat_alt word_less_nat_alt by linarith
    then have "src + of_nat (unat (d - src)) \<in> span src (?n + 1)" by (rule span_nth)
    moreover have "d \<in> W" using inW [of 0] by simp
    ultimately show False using dis by auto
  qed
  have "strcpy m d src = Some (copied m d src (\<lambda>j. j \<le> of_nat ?n \<and> (src < d \<and> d \<le> src + of_nat ?n \<longrightarrow> 0 < j)), d)"
    by (rule strcpy_effect [OF str acc' nw n(2)])
  moreover have "copied m d src (\<lambda>j. j \<le> of_nat ?n \<and> (src < d \<and> d \<le> src + of_nat ?n \<longrightarrow> 0 < j)) = write_string m d s"
    using bytes no by (auto simp: copied_def write_string_def fun_eq_iff)
  ultimately show "strcpy m d src = Some (write_string m d s, d)" by simp
  show "\<forall>q. q \<notin> W \<longrightarrow> write_string m d s q = m q"
    using inW by (auto simp: write_string_def) (metis add_diff_cancel_left' diff_add_cancel add.commute)
  show "\<forall>q\<in>W. write_string m d s q \<noteq> None" using acc by (simp add: write_string_def)
qed

section \<open>One tag\<close>

fun tag_ok :: "ptr set \<Rightarrow> 'map boot_info_t \<Rightarrow> tag \<Rightarrow> bool" where
  "tag_ok W bi (Boot_command s) = string_ok W (parameters bi) s"
| "tag_ok W bi (Boot_loader s) = string_ok W (bootloader bi) s"
| "tag_ok W bi (Boot_module a b s) = (\<forall>x\<in>set (modules bi). string_ok W (m_str x) s)"
| "tag_ok W bi (Memory_info lo hi) = True"
| "tag_ok W bi (Memory_map es) = True"
| "tag_ok W bi (Other_tag ty bs) = (ty \<notin> {MB_END_TAG, MB_BOOT_COMMAND, MB_BOOTLOADER, MB_MODULE, MB_MEMORY_INFO, MB_MEMORY_MAP})"

lemma tag_ok_cong: "parameters bi' = parameters bi \<Longrightarrow> bootloader bi' = bootloader bi \<Longrightarrow> modules bi' = modules bi \<Longrightarrow> tag_ok W bi' t = tag_ok W bi t"
  by (cases t) simp_all

text \<open>What stays true while a table is read: the copies of strings stay in \<open>W\<close>, and the buffers are the same.\<close>

definition tag_kept :: "ptr set \<Rightarrow> 'map boot_info_t \<Rightarrow> mem \<Rightarrow> 'map boot_info_t \<Rightarrow> mem \<Rightarrow> bool" where
  "tag_kept W bi m bi' m' \<longleftrightarrow> (\<forall>q. q \<notin> W \<longrightarrow> m' q = m q) \<and> (\<forall>q\<in>W. m' q \<noteq> None) \<and> length (modules bi') = length (modules bi) \<and>
     (\<forall>t. tag_ok W bi t \<longrightarrow> tag_ok W bi' t)"

lemma length_entry_bytes [simp]: "length (entry_bytes e) = 24"
  by (cases e) (simp add: wide_bytes_def)

lemma length_entries: "length (concat (map entry_bytes es)) = 24 * length es"
  by (induction es) simp_all

lemma map_loop_entries:
  assumes "holds m p (concat (map entry_bytes es))" "24 * length es < 2 ^ 32"
  shows "map_loop M m r p (of_nat (24 * length es)) 24 =
    Some (fold (\<lambda>(base, len, ty) r. insert_region M r (ucast base) (ucast len) (region_type_of ty)) es r)"
  using assms
proof (induction es arbitrary: p r)
  case Nil
  then show ?case by (simp add: map_loop.simps)
next
  case (Cons e es)
  obtain base len ty where e: "e = (base, len, ty)" by (cases e)
  have h: "holds m p (wide_bytes base)" "holds m (p + 8) (wide_bytes len)" "holds m (p + 16) (bytes_of ty)"
      "holds m (p + 24) (concat (map entry_bytes es))"
    using Cons.prems(1) by (simp_all add: e holds_append wide_bytes_def add.assoc)
  have "of_nat (24 * length (e # es)) \<noteq> (0 :: u32)"
    using Cons.prems(2) by (simp add: word_unat_eq_iff unat_of_nat del: of_nat_mult of_nat_Suc of_nat_add)
  moreover have "of_nat (24 * length (e # es)) - 24 = (of_nat (24 * length es) :: u32)" by simp
  ultimately show ?case
    using Cons.IH [of "p + 24" "insert_region M r (ucast base) (ucast len) (region_type_of ty)"] h Cons.prems(2)
    by (subst map_loop.simps) (simp add: entry_type_def entry_base_def entry_length_def get32_holds get64_holds e)
qed

lemma round_up_8_nat: "n + 15 - (n + 15) mod 8 = 8 + n + (8 - n mod 8) mod (8 :: nat)"
proof -
  define k r where "k = n div 8" and "r = n mod 8"
  then have n: "n = r + 8 * k" "r < 8" by simp_all
  then have "r = 0 \<or> r = 1 \<or> r = 2 \<or> r = 3 \<or> r = 4 \<or> r = 5 \<or> r = 6 \<or> r = 7" by linarith
  moreover have "(n + 15) mod 8 = (r + 15) mod 8" "n mod 8 = r mod 8" using mod_mult_self2 [of "r + 15" 8 k] by (simp_all add: n(1) add_ac)
  ultimately show ?thesis by (elim disjE) (simp_all add: n(1))
qed

lemma round_up_8:
  assumes "n + 15 < 2 ^ 32"
  shows "(of_nat (8 + n) + 7) - (of_nat (8 + n) + 7) mod 8 = (of_nat (8 + n + (8 - n mod 8) mod 8) :: u32)"
proof -
  have u: "unat (of_nat k :: u32) = k" if "k < 2 ^ 32" for k
    using that by (simp only: unat_of_nat) simp
  have "(n + 15) mod 8 < 8" by simp
  then have l: "(n + 15) mod 8 < 2 ^ 32" by (rule less_trans) simp
  have "unat ((of_nat (n + 15) :: u32) mod 8) = (n + 15) mod 8"
    by (simp only: unat_mod_distrib u [OF assms]) simp
  also have "\<dots> = unat (of_nat ((n + 15) mod 8) :: u32)" by (rule u [OF l, symmetric])
  finally have "unat ((of_nat (n + 15) :: u32) mod 8) = unat (of_nat ((n + 15) mod 8) :: u32)" .
  then have "(of_nat (n + 15) :: u32) mod 8 = of_nat ((n + 15) mod 8)" by (rule unsigned_word_eqI)
  then have "(of_nat (n + 15) :: u32) - of_nat (n + 15) mod 8 = of_nat (n + 15 - (n + 15) mod 8)"
    by (simp add: of_nat_diff)
  moreover have "n + 15 - (n + 15) mod 8 = 8 + n + (8 - n mod 8) mod 8" by (rule round_up_8_nat)
  moreover have e: "of_nat (8 + n) + 7 = (of_nat (n + 15) :: u32)" by simp
  ultimately show ?thesis unfolding e by (simp only:)
qed

lemma length_tag_bytes: "length (tag_bytes t) = 8 + length (tag_body t) + (8 - length (tag_body t) mod 8) mod 8"
  by (simp add: tag_bytes_def padding_def)

lemma tag_fields:
  assumes "holds m p (tag_bytes t)"
  shows "get32 m p = Some (tag_code t)" "tag_size m p = Some (of_nat (8 + length (tag_body t)))" "holds m (p + 8) (tag_body t)"
  using assms by (simp_all add: tag_bytes_def holds_append tag_size_def get32_holds add.assoc)

lemma tag_string:
  assumes h: "holds m p (tag_bytes t)" and nw: "unat p + length (tag_bytes t) < 2 ^ 32"
    and acc: "\<forall>q\<in>W. m q \<noteq> None" and dis: "span p (length (tag_bytes t)) \<inter> W = {}"
    and t: "tag_body t = pre @ s @ [0]" and ok: "string_ok W d s"
  shows "strcpy m d (p + 8 + of_nat (length pre)) = Some (write_string m d s, d)" (is ?copy)
    "\<forall>q. q \<notin> W \<longrightarrow> write_string m d s q = m q" (is ?out) "\<forall>q\<in>W. write_string m d s q \<noteq> None" (is ?acc)
    "holds (write_string m d s) p (tag_bytes t)" (is ?h)
proof -
  let ?k = "8 + length pre" and ?pad = "padding (length (tag_body t))"
  have l: "length (tag_bytes t) = ?k + ((length s + 1) + length ?pad)" by (simp add: tag_bytes_def t)
  have src: "holds m (p + of_nat ?k) (s @ [0])"
    using tag_fields(3) [OF h] unfolding t holds_append [of m "p + 8" pre] by (simp add: add.assoc)
  have "span p (length (tag_bytes t)) = span p ?k \<union> (span (p + of_nat ?k) (length s + 1) \<union> span (p + of_nat ?k + of_nat (length s + 1)) (length ?pad))"
    unfolding l by (simp only: span_append)
  then have d: "span (p + of_nat ?k) (length s + 1) \<inter> W = {}" using dis by auto
  have "?k < 2 ^ 32" using nw l by simp
  then have "unat (of_nat ?k :: u32) = ?k" by (simp only: unat_of_nat) simp
  then have "unat (p + of_nat ?k) = unat p + ?k" using nw l by (subst unat_add_le) simp_all
  then have w: "unat (p + of_nat ?k) + length s < 2 ^ 32" using nw l by simp
  note str = strcpy_string [OF src ok acc d w]
  show ?copy using str(1) by (simp add: add.assoc)
  show ?out ?acc by (rule str)+
  show ?h by (rule holds_outside [OF h str(2) dis])
qed

lemma read_tag:
  assumes h: "holds m p (tag_bytes t)" and ok: "tag_ok W bi t" and p: "8 \<le> unat p" and nw: "unat p + length (tag_bytes t) < 2 ^ 32"
    and acc: "\<forall>q\<in>W. m q \<noteq> None" and dis: "span p (length (tag_bytes t)) \<inter> W = {}" and len: "length (modules bi) = 8"
  shows "read_multiboot_table_entry M bi m p =
      Some (fst (apply_tag M t (bi, m)), snd (apply_tag M t (bi, m)), p + of_nat (length (tag_bytes t))) \<and>
    tag_kept W bi m (fst (apply_tag M t (bi, m))) (snd (apply_tag M t (bi, m)))" (is ?thesis)
proof -
  let ?n = "length (tag_body t)"
  have n: "?n + 15 < 2 ^ 32" using nw p by (simp add: length_tag_bytes)
  note f = tag_fields [OF h]
  define sz :: u32 where "sz = of_nat (8 + ?n)"
  have size: "p + (sz + 7 - (sz + 7) mod 8) = p + of_nat (length (tag_bytes t))"
    using round_up_8 [OF n] by (simp only: length_tag_bytes sz_def)
  have fsz: "tag_size m' p = Some sz" if "holds m' p (tag_bytes t)" for m'
    using tag_fields(2) [OF that] by (simp only: sz_def)
  note str = tag_string [OF h nw acc dis]
  note step = read_multiboot_table_entry_def Let_def size tag_kept_def
  show ?thesis
  proof (cases t)
    case (Boot_command s)
    have "tag_body t = [] @ s @ [0]" "string_ok W (parameters bi) s" using ok by (simp_all add: Boot_command)
    note str = str [OF this]
    from str(1-3) fsz [OF str(4)] show ?thesis using f(1) fsz [OF h] by (simp add: Boot_command step)
  next
    case (Boot_loader s)
    have "tag_body t = [] @ s @ [0]" "string_ok W (bootloader bi) s" using ok by (simp_all add: Boot_loader)
    note str = str [OF this]
    from str(1-3) fsz [OF str(4)] show ?thesis using f(1) fsz [OF h] by (simp add: Boot_loader step)
  next
    case (Boot_module a b s)
    show ?thesis
    proof (cases "module_count bi < module_limit")
      case False
      then show ?thesis using f(1) fsz [OF h] acc by (simp add: Boot_module step)
    next
      case True
      let ?i = "unat (module_count bi)" let ?x = "modules bi ! ?i"
      have i: "?i < length (modules bi)" using True len by (simp add: module_limit_def word_less_nat_alt)
      then have "?x \<in> set (modules bi)" by simp
      then have "tag_body t = (bytes_of a @ bytes_of b) @ s @ [0]" "string_ok W (m_str ?x) s" using ok by (simp_all add: Boot_module)
      note str = str [OF this]
      have fields: "module_start m' p = Some a \<and> module_end m' p = Some b" if "holds m' p (tag_bytes t)" for m'
        using tag_fields(3) [OF that]
        by (simp add: Boot_module holds_append module_start_def module_end_def get32_holds add.assoc)
      have kept: "tag_ok W (bi\<lparr>modules := (modules bi)[?i := ?x\<lparr>m_start := a, m_end := b\<rparr>], memory_map := r, module_count := c\<rparr>) t'"
        if q: "tag_ok W bi t'" for t' r c
        using q i by (cases t') (auto dest!: set_update_subset_insert [THEN subsetD])
      have "strcpy m (m_str ?x) (p + 16) = Some (write_string m (m_str ?x) s, m_str ?x)" using str(1) by (simp add: add.assoc)
      with str(2,3) fsz [OF str(4)] fields [OF str(4)] show ?thesis using f(1) fsz [OF h] i True fields [OF h] kept
        by (simp add: Boot_module step arr_get_def arr_set_def)
    qed
  next
    case (Memory_info lo hi)
    have "low_memory m p = Some lo" "high_memory m p = Some hi"
      using f(3) by (simp_all add: Memory_info holds_append low_memory_def high_memory_def get32_holds add.assoc)
    then show ?thesis using f(1) fsz [OF h] acc by (simp add: Memory_info step tag_ok_cong [of "_\<lparr>memory_size := _\<rparr>" bi])
  next
    case (Memory_map es)
    let ?es = "concat (map entry_bytes es)"
    have e: "map_entry_size m p = Some 24" "holds m (p + 16) ?es"
      using f(3) by (simp_all add: Memory_map holds_append map_entry_size_def get32_holds add.assoc)
    have "24 * length es < 2 ^ 32" using n by (simp add: Memory_map length_entries)
    note loop = map_loop_entries [OF e(2) this, of M "memory_map bi"]
    have "sz - 16 = of_nat (24 * length es)" by (simp add: sz_def Memory_map length_entries)
    with loop f(1) fsz [OF h] acc e show ?thesis by (simp add: Memory_map step tag_ok_cong [of "_\<lparr>memory_map := _\<rparr>" bi])
  next
    case (Other_tag ty bs)
    then show ?thesis using f(1) fsz [OF h] ok acc by (simp add: step)
  qed
qed

section \<open>The table\<close>

lemma table_loop_tags:
  assumes "holds m p (concat (map tag_bytes ts) @ bytes_of MB_END_TAG @ bytes_of 8)" "8 \<le> unat p"
    "unat p + length (concat (map tag_bytes ts)) < 2 ^ 32" "\<forall>t\<in>set ts. tag_ok W bi t" "\<forall>q\<in>W. m q \<noteq> None"
    "span p (length (concat (map tag_bytes ts)) + 8) \<inter> W = {}" "length (modules bi) = 8"
  shows "table_loop M bi m p = Some (fold (apply_tag M) ts (bi, m))"
  using assms
proof (induction ts arbitrary: p bi m)
  case Nil
  then have "get32 m p = Some MB_END_TAG" by (simp add: holds_append get32_holds)
  moreover have "p \<noteq> 0" using Nil by auto
  ultimately show ?case
    by (subst table_loop.simps) (simp add: read_multiboot_table_entry_def table_loop.simps [of _ _ _ 0])
next
  case (Cons t ts)
  let ?l = "length (tag_bytes t)" and ?rest = "concat (map tag_bytes ts)"
  obtain bi' m' where r: "apply_tag M t (bi, m) = (bi', m')" by (cases "apply_tag M t (bi, m)") auto
  have sp: "span p (length (concat (map tag_bytes (t # ts))) + 8) = span p ?l \<union> span (p + of_nat ?l) (length ?rest + 8)"
    using span_append [of p ?l "length ?rest + 8"] by (simp add: add.assoc)
  have h: "holds m p (tag_bytes t)" "holds m (p + of_nat ?l) (?rest @ bytes_of MB_END_TAG @ bytes_of 8)"
    using Cons.prems(1) holds_append [of m p "tag_bytes t"] by simp_all
  have nw: "unat p + ?l < 2 ^ 32" using Cons.prems(3) by simp
  have "span p ?l \<inter> W = {}" and dis: "span (p + of_nat ?l) (length ?rest + 8) \<inter> W = {}" using Cons.prems(6) sp by auto
  note step = read_tag [OF h(1) _ Cons.prems(2) nw Cons.prems(5) this(1) Cons.prems(7), of M, unfolded r fst_conv snd_conv]
  have read: "read_multiboot_table_entry M bi m p = Some (bi', m', p + of_nat ?l)" and kept: "tag_kept W bi m bi' m'"
    using step Cons.prems(4) by simp_all
  have "?l < 2 ^ 32" using nw by simp
  then have "unat (of_nat ?l :: u32) = ?l" by (simp only: unat_of_nat) simp
  then have u: "unat (p + of_nat ?l) = unat p + ?l" using nw by (subst unat_add_le) simp_all
  have "length (?rest @ bytes_of MB_END_TAG @ bytes_of 8) = length ?rest + 8" by simp
  then have "holds m' (p + of_nat ?l) (?rest @ bytes_of MB_END_TAG @ bytes_of 8)"
    using kept dis by (intro holds_outside [OF h(2)]) (auto simp: tag_kept_def)
  moreover have "8 \<le> unat (p + of_nat ?l)" "unat (p + of_nat ?l) + length ?rest < 2 ^ 32"
    using u Cons.prems(2,3) by simp_all
  moreover have "\<forall>t\<in>set ts. tag_ok W bi' t" "\<forall>q\<in>W. m' q \<noteq> None" "length (modules bi') = 8"
    using kept Cons.prems(4,7) by (simp_all add: tag_kept_def)
  ultimately have "table_loop M bi' m' (p + of_nat ?l) = Some (fold (apply_tag M) ts (bi', m'))"
    using dis by (intro Cons.IH) simp_all
  moreover have "p \<noteq> 0" using Cons.prems(2) by auto
  ultimately show ?case by (subst table_loop.simps) (simp add: read r)
qed

text \<open>C24. 
  C0. Reading the boot information: for every list of tags, if memory holds the table that the boot loader writes for them at \<open>tp\<close>, then
  \<^verbatim>\<open>read_multiboot_table\<close> returns, with the address just after the table, and the structure and the memory are what the tags
  say, applied in their order: strings copied, memory size, regions of the memory map, modules (the first eight). This
  supposes that every string fits in its buffer, which the code does not check, and that memory map entries are 24 bytes.
\<close>

theorem read_multiboot_table_spec:
  assumes "holds m tp (table_bytes ts)" and "unat tp + length (table_bytes ts) < 2 ^ 32"
    and "\<forall>t\<in>set ts. tag_ok W bi t" and "\<forall>q\<in>W. m q \<noteq> None" and "span tp (length (table_bytes ts)) \<inter> W = {}"
    and "length (modules bi) = 8"
  shows "\<exists>bi' m'. fold (apply_tag M) ts (bi, m) = (bi', m') \<and>
    read_multiboot_table M bi m tp = Some (bi', m', tp + of_nat (length (table_bytes ts)))"
proof -
  let ?body = "concat (map tag_bytes ts) @ bytes_of MB_END_TAG @ bytes_of 8"
  have l: "length (table_bytes ts) = 8 + (length (concat (map tag_bytes ts)) + 8)" by (simp add: table_bytes_def)
  have h: "get32 m tp = Some (of_nat (length (table_bytes ts)))" "holds m (tp + 8) ?body"
    using assms(1) unfolding l by (simp_all add: table_bytes_def holds_append get32_holds add.assoc)
  have "unat (tp + 8) = unat tp + 8" using assms(2) l by (subst unat_add_le) simp_all
  moreover have "span tp (length (table_bytes ts)) = span tp 8 \<union> span (tp + 8) (length (concat (map tag_bytes ts)) + 8)"
    unfolding l by (simp only: span_append) simp
  ultimately have "table_loop M bi m (tp + 8) = Some (fold (apply_tag M) ts (bi, m))"
    using assms l h by (intro table_loop_tags [of _ _ _ W]) auto
  then show ?thesis using h(1) by (cases "fold (apply_tag M) ts (bi, m)") (simp add: read_multiboot_table_def)
qed

text \<open>Witness: a table at 0x1000 with a loader's name, the sizes of memory, one available region and one module; the buffers are at
  0x9000. The memory map is a list of regions.\<close>

definition list_memmap :: "region_t list memmap" where
  "list_memmap = \<lparr>region_array = (\<lambda>r. r), insert_region = (\<lambda>r p n t. r @ [\<lparr>r_type = t, r_location = p, r_size = n\<rparr>]), bitmap_size = (\<lambda>_ _ _. 0)\<rparr>"

definition image_of :: "mem \<Rightarrow> ptr \<Rightarrow> u8 list \<Rightarrow> mem" where
  "image_of m p bs = (\<lambda>q. if unat (q - p) < length bs then Some (bs ! unat (q - p)) else m q)"

lemma holds_image: "length bs < 2 ^ 32 \<Longrightarrow> holds (image_of m p bs) p bs"
  by (simp add: holds_def image_of_def unat_of_nat)

lemma span_interval:
  assumes "unat p + n < 2 ^ 32"
  shows "span p n \<subseteq> {q. unat p \<le> unat q \<and> unat q < unat p + n}"
proof
  fix q assume "q \<in> span p n"
  then obtain i where i: "q = p + of_nat i" "i < n" by (auto simp: span_def)
  then have "i < 2 ^ 32" using assms by simp
  then have "unat (of_nat i :: u32) = i" by (simp only: unat_of_nat) simp
  then have "unat q = unat p + i" using i assms by (simp add: unat_add_le)
  then show "q \<in> {q. unat p \<le> unat q \<and> unat q < unat p + n}" using i by simp
qed

definition sample_tags :: "tag list" where
  "sample_tags = [Boot_loader [71, 82], Memory_info 640 130048, Memory_map [(0x100000, 0x7F00000, 1)], Boot_module 0x200000 0x203000 [97], Other_tag 9 [1, 2, 3]]"

definition sample_info :: "region_t list boot_info_t" where
  "sample_info = \<lparr>bootloader = 0x9000, parameters = 0x9040, memory_size = 0, memory_map = [], module_count = 0,
     modules = map (\<lambda>i. \<lparr>m_start = 0, m_end = 0, m_str = 0x9080 + 56 * of_nat i\<rparr>) [0..<8]\<rparr>"

theorem read_multiboot_table_spec_witness:
  "\<exists>bi m. read_multiboot_table list_memmap sample_info (image_of (\<lambda>q. Some 0) 0x1000 (table_bytes sample_tags)) 0x1000 = Some (bi, m, 0x1080) \<and>
     memory_size bi = 0x7FA0000 \<and> module_count bi = 1 \<and> length (memory_map bi) = 2 \<and> m 0x9001 = Some 82 \<and> m 0x9080 = Some 97"
proof -
  let ?W = "{q :: ptr. 0x9000 \<le> unat q \<and> unat q < 0xA000}" let ?m = "image_of (\<lambda>q. Some 0) 0x1000 (table_bytes sample_tags)"
  have l: "length (table_bytes sample_tags) = 128"
    by (simp add: table_bytes_def sample_tags_def length_tag_bytes wide_bytes_def Let_def)
  have h: "holds ?m 0x1000 (table_bytes sample_tags)" by (rule holds_image) (simp add: l)
  have buf: "span d n \<subseteq> ?W" if "0x9000 \<le> unat d" "unat d + n \<le> 0xA000" for d n
    using span_interval [of d n] that by auto
  have ok: "\<forall>t\<in>set sample_tags. tag_ok ?W sample_info t"
    by (simp add: sample_tags_def sample_info_def string_ok_def buf upt_rec)
  have dis: "span 0x1000 (length (table_bytes sample_tags)) \<inter> ?W = {}" using span_interval [of "0x1000" 128] unfolding l by auto
  have acc: "\<forall>q\<in>?W. ?m q \<noteq> None" by (simp add: image_of_def)
  have "length (modules sample_info) = 8" by (simp add: sample_info_def)
  from read_multiboot_table_spec [OF h _ ok acc dis this, of list_memmap] l
  obtain bi m where r: "fold (apply_tag list_memmap) sample_tags (sample_info, ?m) = (bi, m)"
      "read_multiboot_table list_memmap sample_info ?m 0x1000 = Some (bi, m, 0x1080)" by auto
  have "memory_size bi = 0x7FA0000 \<and> module_count bi = 1 \<and> length (memory_map bi) = 2 \<and> m 0x9001 = Some 82 \<and> m 0x9080 = Some 97"
    using r(1) by (auto simp: sample_tags_def sample_info_def list_memmap_def module_limit_def write_string_def upt_rec word_le_nat_alt)
  then show ?thesis using r(2) by blast
qed

end
