(* ===== verification/Load_Module.thy ===== *)
theory Load_Module
  imports Elf Startup Kernel_Machine Multiboot
begin

text \<open>
  \<^verbatim>\<open>kernel_load_module\<close> of \<^verbatim>\<open>src/kernel.c\<close>: a module that the boot loader left in physical memory becomes a process. It gets an
  address space of its own, in which the kernel maps the module, lets the program loader copy the segments out of it, unmaps
  it and spawns the process. A panic is a value here: its message.
\<close>

section \<open>The code\<close>

definition load_base :: ptr where "load_base = 0x80000000"

text \<open>The loops over the pages of the module end with \<^term>\<open>None\<close>, or with the message of a panic.\<close>

partial_function (option) map_module ::
  "'h libmalloc \<Rightarrow> 'h machine \<Rightarrow> u32 \<Rightarrow> physaddr_t \<Rightarrow> physaddr_t \<Rightarrow> ('h machine \<times> string option) option" where
  "map_module L s load_offset p finish =
     (if p < finish then do {
        (s, status) \<leftarrow> map_page L s (load_base + load_offset) p PAGE_RW;
        if status = error_code ENOMEM then Some (s, Some ''ran out of memory while mapping module'')
        else if status = error_code EOUTOFBOUNDS then Some (s, Some ''got out-of-bounds error while mapping module'')
        else map_module L s (load_offset + page_size) (p + page_size) finish }
      else Some (s, None))"

partial_function (option) unmap_module ::
  "'h machine \<Rightarrow> u32 \<Rightarrow> physaddr_t \<Rightarrow> physaddr_t \<Rightarrow> ('h machine \<times> string option) option" where
  "unmap_module s load_offset p finish =
     (if p < finish then do {
        (s, status) \<leftarrow> unmap_page s (load_base + load_offset);
        if status = error_code ENOMEM then Some (s, Some ''ran out of memory while unmapping module'')
        else if status = error_code EOUTOFBOUNDS then Some (s, Some ''got out-of-bounds error while unmapping module'')
        else unmap_module s (load_offset + page_size) (p + page_size) finish }
      else Some (s, None))"

definition kernel_load_module ::
  "'h libmalloc \<Rightarrow> ptr \<Rightarrow> 'h machine kernel_t \<Rightarrow> module_t \<Rightarrow> (string + 'h machine kernel_t \<times> u32) option" where
  "kernel_load_module L kernel_start k module = do {
     (s, module_address_space) \<leftarrow> create_address_space L kernel_start (mach k);
     if module_address_space = error_code ENOMEM
     then Some (Inl ''failed to create address space for module: out of memory'')
     else do {
       let s = s\<lparr>mm := paging_load_address_space (mm s) module_address_space\<rparr>;
       let p = m_start module AND NOT (page_size - 1);
       (s, panics) \<leftarrow> map_module L s 0 p (m_end module);
       case panics of Some message \<Rightarrow> Some (Inl message) | None \<Rightarrow> do {
         (s, status) \<leftarrow> load_program L s load_base;
         if status = error_code ENOMEM then Some (Inl ''ran out of memory while reading ELF file'')
         else if status = error_code EOUTOFBOUNDS then Some (Inl ''got out-of-bounds error while reading ELF file'')
         else do {
           module_entry \<leftarrow> elf_entry (mm s) load_base;
           (s, panics) \<leftarrow> unmap_module s 0 p (m_end module);
           case panics of Some message \<Rightarrow> Some (Inl message) | None \<Rightarrow> do {
             space \<leftarrow> current_address_space s;
             (k, pid) \<leftarrow> kernel_spawn_process (quark_platform L) kernel_start (k\<lparr>mach := s\<rparr>) module_entry 1 space;
             Some (Inr (k, if pid > 0 then error_code ENONE else - 1)) } } } } }"

section \<open>Mapping the module\<close>

text \<open>What the loops spare: frames of data that are in use, and every page outside of \<open>Z\<close>.\<close>

definition spares :: "('h \<Rightarrow> u32 set) \<Rightarrow> ('h \<Rightarrow> u32) \<Rightarrow> 'h machine \<Rightarrow> 'h machine \<Rightarrow> ptr set \<Rightarrow> bool" where
  "spares used block_size s s' Z \<longleftrightarrow> frames_ok used block_size s' \<and> used (page_map s) \<subseteq> used (page_map s') \<and> cr3 (mm s') = cr3 (mm s) \<and>
     kernel_tables (mm s') = kernel_tables (mm s) \<and>
     (\<forall>f. f \<notin> table_frames (mm s) \<longrightarrow> addr_of f \<in> used (page_map s) \<longrightarrow> f \<notin> table_frames (mm s') \<and> mem (mm s') f = mem (mm s) f) \<and>
     (\<forall>q. dir_of q \<noteq> - 1 \<longrightarrow> q \<notin> Z \<longrightarrow> leaf (mm s') q = leaf (mm s) q)"

lemma sparesD:
  assumes "spares used block_size s s' Z"
  shows "frames_ok used block_size s'" "used (page_map s) \<subseteq> used (page_map s')" "cr3 (mm s') = cr3 (mm s)"
    "f \<notin> table_frames (mm s) \<Longrightarrow> addr_of f \<in> used (page_map s) \<Longrightarrow> f \<notin> table_frames (mm s') \<and> mem (mm s') f = mem (mm s) f"
    "dir_of q \<noteq> - 1 \<Longrightarrow> q \<notin> Z \<Longrightarrow> leaf (mm s') q = leaf (mm s) q" "kernel_tables (mm s') = kernel_tables (mm s)"
  using assms by (auto simp: spares_def)

lemma spares_refl: "frames_ok used block_size s \<Longrightarrow> spares used block_size s s Z"
  by (simp add: spares_def)

lemma spares_trans: "spares used block_size s s' Z \<Longrightarrow> spares used block_size s' s'' Z' \<Longrightarrow> Z \<subseteq> Y \<Longrightarrow> Z' \<subseteq> Y \<Longrightarrow> spares used block_size s s'' Y"
  unfolding spares_def by (auto 0 4)

lemma spares_keeps:
  assumes "spares used block_size s s' Z" "\<And>q. q \<in> Q \<Longrightarrow> settled used s q \<and> q \<notin> Z"
  shows "keeps used s s' Q"
proof (rule keepsI)
  show "leaf (mm s') q = leaf (mm s) q" if "q \<in> Q" for q
    using assms(2) [OF that] sparesD(5) [OF assms(1)] by (auto simp: settled_def)
qed (use assms sparesD(2,4) [OF assms(1)] in auto)

lemma below_end: "unat p + unat sz \<le> 0xFFFFF000 \<Longrightarrow> unat n < unat sz + 4096 \<Longrightarrow> (p + n < p + sz) = (n < (sz :: u32))"
  by (simp add: word_less_nat_alt unat_add_le)

lemma first_page:
  assumes "d mod page_size = 0" "n mod page_size = 0" "(n :: u32) < sz" "unat sz \<le> 0xFFFFF000"
  shows "{q. on_page (d + n) q} \<subseteq> pages_from d sz n" "pages_from d sz (n + page_size) \<subseteq> pages_from d sz n"
    "on_page (d + n) q \<Longrightarrow> q \<notin> pages_from d sz (n + page_size)"
proof -
  note nx = next_page [OF assms(3,4)]
  then have le: "n \<le> n + page_size" by (simp add: word_le_nat_alt)
  show "{q. on_page (d + n) q} \<subseteq> pages_from d sz n" using assms(3) by (auto simp: pages_from_def)
  show "pages_from d sz (n + page_size) \<subseteq> pages_from d sz n" using le by (auto simp: pages_from_def intro: order_trans)
  assume on: "on_page (d + n) q"
  show "q \<notin> pages_from d sz (n + page_size)"
  proof
    assume "q \<in> pages_from d sz (n + page_size)"
    then obtain k where k: "n + page_size \<le> k" "on_page (d + k) q" by (auto simp: pages_from_def)
    have e: "d + n + (k - n) = d + k" by simp
    have "on_page (d + n) (d + n + (k - n))" unfolding e by (rule on_page_trans [OF on on_page_sym [OF k(2)]])
    moreover have "4096 \<le> unat (k - n)"
      using k(1) nx le by (subst unat_sub) (auto simp: word_le_nat_alt)
    ultimately show False using far_pages [OF aligned_add [OF assms(1,2)]] by blast
  qed
qed

context libmalloc
begin

lemma map_page_spares:
  assumes ok: "frames_ok used block_size s" and d: "dir_of page \<noteq> - 1" and fr: "frame mod page_size = 0"
  obtains s' e where "map_page L s page frame flags = Some (s', e)" "spares used block_size s s' {q. on_page page q}"
    "e = error_code ENONE \<and> (\<exists>x. leaf (mm s') page = Some x \<and> physical_address x = frame_of frame) \<or> e = error_code ENOMEM"
proof (rule map_page_ok [OF ok d fr, where flags = flags], goal_cases)
  case (1 s' e)
  have "leaf (mm s') q = leaf (mm s) q" if "dir_of q \<noteq> - 1" "\<not> on_page page q" for q
    using 1(10) [OF that(1)] that(2) by (simp add: on_page_def)
  then have "spares used block_size s s' {q. on_page page q}"
    using 1(3,4,6,12) map_page_contents [OF ok d fr 1(2)] by (simp add: spares_def)
  with 1(1) [OF 1(2)] 1(7,11) show ?case by blast
qed

lemma map_module_maps:
  assumes "frames_ok used block_size s" "n mod page_size = 0" "p mod page_size = 0" "unat p + unat sz \<le> 0xFFFFF000" "unat n < unat sz + 4096"
    and "\<forall>k. n \<le> k \<longrightarrow> k < sz \<longrightarrow> dir_of (load_base + k) \<noteq> - 1 \<and> frame_of (p + k) \<notin> table_frames (mm s) \<and> addr_of (frame_of (p + k)) \<in> used (page_map s)"
  shows "\<exists>s' r. map_module L s n (p + n) (p + sz) = Some (s', r) \<and> spares used block_size s s' (pages_from load_base sz n) \<and>
    (r = Some ''ran out of memory while mapping module'' \<or>
     r = None \<and> (\<forall>k. n \<le> k \<longrightarrow> k < sz \<longrightarrow> translate (mm s') (load_base + k) False = Some (frame_of (p + k))))"
  using assms(1,2,5,6)
proof (induction "unat sz + 4096 - unat n" arbitrary: s n rule: less_induct)
  case less
  note ok = less.prems(1) and al = less.prems(2) and lim = less.prems(3) and fr = less.prems(4)
  have c: "(p + n < p + sz) = (n < sz)" by (rule below_end [OF assms(4) lim])
  have szl: "unat sz \<le> 0xFFFFF000" using assms(4) by simp
  show ?case
  proof (cases "n < sz")
    case False
    then have "map_module L s n (p + n) (p + sz) = Some (s, None)" using c by (simp add: map_module.simps)
    then show ?thesis using False spares_refl [OF ok] by auto
  next
    case True
    note nx = next_page [OF True szl]
    have lb: "load_base mod page_size = 0" by (simp add: load_base_def page_size_def)
    note fp = first_page [OF lb al True szl]
    have d: "dir_of (load_base + n) \<noteq> - 1" using fr True by blast
    have pal: "(p + n) mod page_size = 0" by (rule aligned_add [OF assms(3) al])
    obtain s1 e where m: "map_page L s (load_base + n) (p + n) PAGE_RW = Some (s1, e)" and sp: "spares used block_size s s1 {q. on_page (load_base + n) q}"
      and e: "e = error_code ENONE \<and> (\<exists>x. leaf (mm s1) (load_base + n) = Some x \<and> physical_address x = frame_of (p + n)) \<or> e = error_code ENOMEM"
      by (rule map_page_spares [OF ok d pal])
    show ?thesis
    proof (cases "e = error_code ENOMEM")
      case True
      then have "map_module L s n (p + n) (p + sz) = Some (s1, Some ''ran out of memory while mapping module'')"
        using m c \<open>n < sz\<close> by (simp add: map_module.simps)
      moreover have "spares used block_size s s1 (pages_from load_base sz n)" by (rule spares_trans [OF spares_refl [OF ok] sp subset_refl fp(1)])
      ultimately show ?thesis by blast
    next
      case False
      with e obtain x where x: "e = error_code ENONE" "leaf (mm s1) (load_base + n) = Some x" "physical_address x = frame_of (p + n)" by blast
      have run: "map_module L s n (p + n) (p + sz) = map_module L s1 (n + page_size) (p + (n + page_size)) (p + sz)"
        using m c True x(1) by (subst map_module.simps) (simp add: add.assoc)
      have lt: "unat sz + 4096 - unat (n + page_size) < unat sz + 4096 - unat n" "unat (n + page_size) < unat sz + 4096"
        using nx lim True by (auto simp: word_less_nat_alt)
      have al2: "(n + page_size) mod page_size = 0" by (rule aligned_add [OF al]) simp
      have le: "n \<le> n + page_size" using nx by (simp add: word_le_nat_alt)
      have fr1: "\<forall>k. n + page_size \<le> k \<longrightarrow> k < sz \<longrightarrow> dir_of (load_base + k) \<noteq> - 1 \<and> frame_of (p + k) \<notin> table_frames (mm s1) \<and> addr_of (frame_of (p + k)) \<in> used (page_map s1)"
        using fr sparesD(2,4) [OF sp] order_trans [OF le] by blast
      from less.hyps [OF lt(1) sparesD(1) [OF sp] al2 lt(2) fr1] obtain s' r where
        ih: "map_module L s1 (n + page_size) (p + (n + page_size)) (p + sz) = Some (s', r)" "spares used block_size s1 s' (pages_from load_base sz (n + page_size))"
          "r = Some ''ran out of memory while mapping module'' \<or>
           r = None \<and> (\<forall>k. n + page_size \<le> k \<longrightarrow> k < sz \<longrightarrow> translate (mm s') (load_base + k) False = Some (frame_of (p + k)))" by blast
      have all: "spares used block_size s s' (pages_from load_base sz n)" by (rule spares_trans [OF sp ih(2) fp(1,2)])
      have "translate (mm s') (load_base + k) False = Some (frame_of (p + k))"
        if k: "n \<le> k" "k < sz" and later: "n + page_size \<le> k \<Longrightarrow> translate (mm s') (load_base + k) False = Some (frame_of (p + k))" for k
      proof (rule split_range [OF True szl k refl])
        fix j assume j: "j < (if n + page_size < sz then page_size else sz - n)" "k = n + j"
        have "sz - n \<le> page_size" if "\<not> n + page_size < sz"
          using that nx True by (simp add: word_less_nat_alt word_le_nat_alt unat_sub page_size_def)
        then have "j < page_size" using j(1) by (auto split: if_splits)
        then have on: "on_page (load_base + n) (load_base + k)" "on_page (p + n) (p + k)"
          using page_offset [OF aligned_add [OF lb al]] page_offset [OF pal] j(2) by (simp_all add: add.assoc)
        then have dk: "dir_of (load_base + k) \<noteq> - 1" using d by (simp add: on_page_def)
        have "leaf (mm s') (load_base + k) = leaf (mm s1) (load_base + k)" by (rule sparesD(5) [OF ih(2) dk fp(3) [OF on(1)]])
        also have "\<dots> = Some x" using x(2) on_page_same(1) [OF on(1)] by simp
        finally show ?thesis using x(3) on_page_frame [OF on(2)] by (simp add: translate_leaf)
      qed (rule later)
      then show ?thesis using ih all unfolding run by blast
    qed
  qed
qed

end

section \<open>Unmapping it\<close>

lemma frame_status:
  assumes "page mod page_size = 0"
  shows "addr_of f OR (page AND 0xFFF) \<noteq> error_code ENOMEM" "addr_of f OR (page AND 0xFFF) \<noteq> error_code EOUTOFBOUNDS"
proof -
  have m: "(0xFFF :: u32) = mask 12" by (simp add: mask_eq_exp_minus_1)
  have "page AND 0xFFF = 0" using assms unfolding m take_bit_eq_mask [symmetric] by (simp add: take_bit_eq_mod page_size_def)
  moreover have "\<not> bit (addr_of f) 2" "\<not> bit (addr_of f) 1" by (simp_all add: addr_of_def bit_push_bit_iff)
  moreover have "bit (4 :: u32) 2" "bit (2 :: u32) 1" by (simp_all add: bit_numeral_rec numeral_2_eq_2)
  ultimately show "addr_of f OR (page AND 0xFFF) \<noteq> error_code ENOMEM" "addr_of f OR (page AND 0xFFF) \<noteq> error_code EOUTOFBOUNDS" by auto
qed

lemma unmap_page_spares:
  assumes ok: "frames_ok used block_size s" and d: "dir_of page \<noteq> - 1" and l: "leaf (mm s) page \<noteq> None"
  shows "\<exists>s' f. unmap_page s page = Some (s', addr_of f OR (page AND 0xFFF)) \<and> spares used block_size s s' {q. on_page page q} \<and>
    leaf (mm s') page = None"
proof -
  have sp: "space_ok (mm s)" using ok by (simp add: frames_ok_def)
  have p: "present (pde (mm s) page)" "present (pte (mm s) page)" using l by (auto simp: leaf_def split: if_splits)
  let ?m = "set_pte_entry (mm s) page (new_entry 0 0 (pte (mm s) page))"
  note se = set_entry_space [OF sp d p(1), where e = "new_entry 0 0 (pte (mm s) page)"]
  have run: "unmap_page s page = Some (s\<lparr>mm := ?m\<rparr>, addr_of (physical_address (pte (mm s) page)) OR (page AND 0xFFF))"
    using unmap_page_effect [OF sp d] p by simp
  have "table_of (mm s) page \<in> table_frames (mm s)" using p(1) unfolding table_frames_def by blast
  then have "mem ?m f = mem (mm s) f" if "f \<notin> table_frames (mm s)" for f
    using that by (auto simp: set_pte_entry_def put_word_def fun_eq_iff)
  then have "spares used block_size s (s\<lparr>mm := ?m\<rparr>) {q. on_page page q}"
    using ok se(1,2,4,5) space_okD(2) [OF sp d p(1)] by (simp add: spares_def frames_ok_def on_page_def)
  moreover have "leaf ?m page = None" using se(4) [OF d] by simp
  ultimately show ?thesis using run by (intro exI [of _ "s\<lparr>mm := ?m\<rparr>"] exI [of _ "physical_address (pte (mm s) page)"]) simp
qed

lemma unmap_module_unmaps:
  assumes "frames_ok used block_size s" "n mod page_size = 0" "unat p + unat sz \<le> 0xFFFFF000" "unat n < unat sz + 4096"
    and "\<forall>k. n \<le> k \<longrightarrow> k < sz \<longrightarrow> dir_of (load_base + k) \<noteq> - 1 \<and> leaf (mm s) (load_base + k) \<noteq> None"
  shows "\<exists>s'. unmap_module s n (p + n) (p + sz) = Some (s', None) \<and> spares used block_size s s' (pages_from load_base sz n) \<and>
    (\<forall>k. n \<le> k \<longrightarrow> k < sz \<longrightarrow> leaf (mm s') (load_base + k) = None)"
  using assms(1,2,4,5)
proof (induction "unat sz + 4096 - unat n" arbitrary: s n rule: less_induct)
  case less
  note ok = less.prems(1) and al = less.prems(2) and lim = less.prems(3) and lf = less.prems(4)
  have c: "(p + n < p + sz) = (n < sz)" by (rule below_end [OF assms(3) lim])
  have szl: "unat sz \<le> 0xFFFFF000" using assms(3) by simp
  show ?case
  proof (cases "n < sz")
    case False
    then have "unmap_module s n (p + n) (p + sz) = Some (s, None)" using c by (simp add: unmap_module.simps)
    then show ?thesis using False spares_refl [OF ok] by auto
  next
    case True
    note nx = next_page [OF True szl]
    have lb: "load_base mod page_size = 0" by (simp add: load_base_def page_size_def)
    note fp = first_page [OF lb al True szl]
    have bal: "(load_base + n) mod page_size = 0" by (rule aligned_add [OF lb al])
    have le: "n \<le> n + page_size" using nx by (simp add: word_le_nat_alt)
    obtain s1 f where m: "unmap_page s (load_base + n) = Some (s1, addr_of f OR ((load_base + n) AND 0xFFF))"
      and sp: "spares used block_size s s1 {q. on_page (load_base + n) q}" and none: "leaf (mm s1) (load_base + n) = None"
      using unmap_page_spares [OF ok, of "load_base + n"] lf True by blast
    have run: "unmap_module s n (p + n) (p + sz) = unmap_module s1 (n + page_size) (p + (n + page_size)) (p + sz)"
      using m c True frame_status [OF bal] by (subst unmap_module.simps) (simp add: add.assoc del: error_code.simps)
    have lt: "unat sz + 4096 - unat (n + page_size) < unat sz + 4096 - unat n" "unat (n + page_size) < unat sz + 4096"
      using nx lim True by (auto simp: word_less_nat_alt)
    have al2: "(n + page_size) mod page_size = 0" by (rule aligned_add [OF al]) simp
    have "dir_of (load_base + k) \<noteq> - 1 \<and> leaf (mm s1) (load_base + k) \<noteq> None" if k: "n + page_size \<le> k" "k < sz" for k
    proof -
      have "load_base + k \<in> pages_from load_base sz (n + page_size)" using k by (auto simp: pages_from_def on_page_def)
      then have "load_base + k \<notin> {q. on_page (load_base + n) q}" using fp(3) by blast
      then show ?thesis using lf k order_trans [OF le] sparesD(5) [OF sp] by metis
    qed
    with less.hyps [OF lt(1) sparesD(1) [OF sp] al2 lt(2)] obtain s' where
      ih: "unmap_module s1 (n + page_size) (p + (n + page_size)) (p + sz) = Some (s', None)" "spares used block_size s1 s' (pages_from load_base sz (n + page_size))"
        "\<forall>k. n + page_size \<le> k \<longrightarrow> k < sz \<longrightarrow> leaf (mm s') (load_base + k) = None" by blast
    have all: "spares used block_size s s' (pages_from load_base sz n)" by (rule spares_trans [OF sp ih(2) fp(1,2)])
    have "leaf (mm s') (load_base + k) = None" if k: "n \<le> k" "k < sz" for k
    proof (rule split_range [OF True szl k refl])
      fix j assume j: "j < (if n + page_size < sz then page_size else sz - n)" "k = n + j"
      have "sz - n \<le> page_size" if "\<not> n + page_size < sz"
        using that nx True by (simp add: word_less_nat_alt word_le_nat_alt unat_sub page_size_def)
      then have "j < page_size" using j(1) by (auto split: if_splits)
      then have on: "on_page (load_base + n) (load_base + k)" using page_offset [OF bal] j(2) by (simp add: add.assoc)
      have dk: "dir_of (load_base + k) \<noteq> - 1" using lf k by blast
      have "leaf (mm s') (load_base + k) = leaf (mm s1) (load_base + k)" by (rule sparesD(5) [OF ih(2) dk fp(3) [OF on]])
      then show ?thesis using none on_page_same(1) [OF on] by simp
    qed (use ih(3) k in blast)
    then show ?thesis using ih all unfolding run by blast
  qed
qed

section \<open>The new address space\<close>

lemma current_space: "self_mapped m \<Longrightarrow> paging_current_address_space m = Some (addr_of (top m))"
proof -
  assume sm: "self_mapped m"
  let ?va = "push_bit 22 1023 :: u32"
  have "page_directory + 4 * 1023 = page_directory + 4 * drop_bit 22 ?va" "dir_of ?va = - 1"
    by (simp_all add: dir_of_def)
  moreover have "physical_address (mem m (top m) (- 1)) = top m" using sm by (simp add: self_mapped_def Let_def)
  ultimately show ?thesis using window_load(1) [OF sm, of ?va] by (simp add: paging_current_address_space_def)
qed

lemma new_space_ok:
  assumes ok: "frames_ok used block_size s" and T: "addr_of (frame_of table) \<notin> used (page_map s)" "addr_of (frame_of table) \<in> used (page_map s')"
    and u: "used (page_map s) \<subseteq> used (page_map s')" "block_size (page_map s') = page_size"
    and m: "mm s' = (mm s)\<lparr>mem := (mem (mm s))(frame_of table := new_top kernel_start (mm s) (frame_of table)), cr3 := table\<rparr>"
  shows "frames_ok used block_size s'" "table_frames (mm s') \<subseteq> insert (frame_of table) (table_frames (mm s))"
    "dir_of q < dir_of kernel_start \<Longrightarrow> leaf (mm s') q = None \<and> dir_of q \<notin> kernel_tables (mm s')"
proof -
  let ?T = "frame_of table" and ?D = "top (mm s)"
  have sp: "space_ok (mm s)" and uf: "addr_of ` table_frames (mm s) \<subseteq> used (page_map s)" using ok by (auto simp: frames_ok_def)
  have nt: "?T \<notin> table_frames (mm s)" using T(1) uf by blast
  have c: "top (mm s') = ?T" "mem (mm s') ?T = new_top kernel_start (mm s) ?T" by (simp_all add: m)
  have e: "present (new_top kernel_start (mm s) ?T i) \<Longrightarrow> i \<noteq> - 1 \<Longrightarrow>
      new_top kernel_start (mm s) ?T i = mem (mm s) ?D i \<and> present (mem (mm s) ?D i)" for i
    by (auto simp: new_top_def present_def split: if_splits)
  have tf: "physical_address (mem (mm s) ?D i) \<in> table_frames (mm s)" if "present (mem (mm s) ?D i)" for i
    using that by (auto simp: table_frames_def)
  have self: "new_top kernel_start (mm s) ?T (- 1) = self_entry ?T" by (simp add: new_top_def)
  have "self_mapped (mm s')" unfolding self_mapped_def Let_def c self by simp
  moreover have "rw (mem (mm s') ?T i) \<and> physical_address (mem (mm s') ?T i) \<noteq> ?T" if "i \<noteq> - 1" "present (mem (mm s') ?T i)" for i
    using e [of i] that space_okD(2) [OF sp that(1)] tf [of i] nt unfolding c by metis
  moreover have "i = j" if "i \<noteq> - 1" "j \<noteq> - 1" "present (mem (mm s') ?T i)" "present (mem (mm s') ?T j)"
    "physical_address (mem (mm s') ?T i) = physical_address (mem (mm s') ?T j)" for i j
    using e [of i] e [of j] that space_okD(3) [OF sp that(1,2)] unfolding c by metis
  ultimately have "space_ok (mm s')" unfolding space_ok_def c by blast
  moreover show sub: "table_frames (mm s') \<subseteq> insert ?T (table_frames (mm s))"
  proof
    fix f assume "f \<in> table_frames (mm s')"
    then obtain i where i: "f = physical_address (new_top kernel_start (mm s) ?T i)" "present (new_top kernel_start (mm s) ?T i)"
      unfolding table_frames_def c by blast
    show "f \<in> insert ?T (table_frames (mm s))"
      using i e [of i] tf [of i] self by (cases "i = - 1") auto
  qed
  ultimately show "frames_ok used block_size s'" using u uf T(2) unfolding frames_ok_def by blast
  have n0: "\<not> present 0" by (simp add: present_def)
  assume d: "dir_of q < dir_of kernel_start"
  then have "dir_of q \<noteq> - 1" using word_order.extremum_strict [of "dir_of kernel_start"] by auto
  moreover from d have "\<not> dir_of kernel_start \<le> dir_of q" by simp
  ultimately have "new_top kernel_start (mm s) ?T (dir_of q) = 0" by (simp only: new_top_def if_False)
  then show "leaf (mm s') q = None \<and> dir_of q \<notin> kernel_tables (mm s')" using n0 by (simp add: leaf_def kernel_tables_def c)
qed

section \<open>ELF files\<close>

text \<open>A file as its bytes by offset, and what its headers say. \<open>shows_file\<close>: the file is mapped at the address that the kernel uses.\<close>

definition word_in :: "(u32 \<Rightarrow> u8) \<Rightarrow> u32 \<Rightarrow> u32" where
  "word_in file p = word_of [file p, file (p + 1), file (p + 2), file (p + 3)]"

definition half_in :: "(u32 \<Rightarrow> u8) \<Rightarrow> u32 \<Rightarrow> u16" where
  "half_in file p = half_of [file p, file (p + 1)]"

definition file_headers :: "(u32 \<Rightarrow> u8) \<Rightarrow> u32 list" where
  "file_headers file = header_list (word_in file 28) (ucast (half_in file 42)) (unat (half_in file 44))"

definition file_segments :: "(u32 \<Rightarrow> u8) \<Rightarrow> (ptr \<times> u32 \<times> u32) list" where
  "file_segments file = map (\<lambda>h. (word_in file (h + 8), word_in file (h + 4), word_in file (h + 20)))
     (filter (\<lambda>h. word_in file h = segment_code ELF_LOAD) (file_headers file))"

definition shows_file :: "mmu \<Rightarrow> (u32 \<Rightarrow> u8) \<Rightarrow> u32 \<Rightarrow> bool" where
  "shows_file m file sz \<longleftrightarrow> (\<forall>k < sz. load8 m (load_base + k) = Some (file k))"

lemma in_file: "unat h + n \<le> unat (sz :: u32) \<Longrightarrow> i < n \<Longrightarrow> h + of_nat i < sz"
  using unat_u32 [of sz] by (simp add: word_less_nat_alt unat_add_le unat_of_nat del: unat_u32)

lemma shows_read:
  assumes "shows_file m file sz" "unat h + n \<le> unat sz"
  shows "read_mem m (load_base + h) n = Some (map (\<lambda>i. file (h + of_nat i)) [0..<n])"
proof -
  have "load8 m (load_base + h + of_nat i) = Some (file (h + of_nat i))" if "i < n" for i
    using assms(1) in_file [OF assms(2) that] by (simp add: shows_file_def add.assoc)
  then have "map (\<lambda>i. load8 m (load_base + h + of_nat i)) [0..<n] = map Some (map (\<lambda>i. file (h + of_nat i)) [0..<n])" by simp
  moreover have "those (map Some xs) = Some xs" for xs :: "u8 list" by (induction xs) simp_all
  ultimately show ?thesis by (simp only: read_mem_def)
qed

lemma shows_fields:
  assumes "shows_file m file sz"
  shows "unat h + 4 \<le> unat sz \<Longrightarrow> read32 m (load_base + h) = Some (word_in file h)"
    "unat h + 2 \<le> unat sz \<Longrightarrow> read16 m (load_base + h) = Some (half_in file h)"
proof -
  show "unat h + 4 \<le> unat sz \<Longrightarrow> read32 m (load_base + h) = Some (word_in file h)"
    using shows_read [OF assms, of h 4] by (simp add: read32_def word_in_def upt_rec)
  show "unat h + 2 \<le> unat sz \<Longrightarrow> read16 m (load_base + h) = Some (half_in file h)"
    using shows_read [OF assms, of h 2] by (simp add: read16_def half_in_def upt_rec)
qed

lemma header_list_shift: "header_list (b + ph) sz n = map ((+) b) (header_list ph sz n)"
  by (induction n arbitrary: ph) (simp_all add: add.assoc)

lemma unat_plus_const: "unat h + unat c < 2 ^ 32 \<Longrightarrow> unat (h + c) = unat h + unat (c :: u32)"
  by (rule unat_add_le)

lemma shows_segments:
  assumes sh: "shows_file m file sz" and len: "46 \<le> unat sz" and hs: "\<forall>h\<in>set (file_headers file). unat h + 24 \<le> unat sz"
  shows "elf_entry m load_base = Some (word_in file 24)" "program_headers m load_base = map ((+) load_base) (file_headers file)"
    "segments m load_base = map (\<lambda>(d, o', n). (d, load_base + o', n)) (file_segments file)"
proof -
  note rd = shows_fields [OF sh]
  show "elf_entry m load_base = Some (word_in file 24)" using rd(1) [of 24] len by (simp add: elf_entry_def)
  show p: "program_headers m load_base = map ((+) load_base) (file_headers file)"
    using rd(1) [of 28] rd(2) [of 42] rd(2) [of 44] len
    by (simp add: program_headers_def elf_phoffset_def elf_phsize_def elf_phcount_def file_headers_def header_list_shift)
  have seg: "segment_at m load_base (load_base + h) = (if word_in file h = segment_code ELF_LOAD
      then Some (word_in file (h + 8), load_base + word_in file (h + 4), word_in file (h + 20)) else None)"
    if h: "unat h + 24 \<le> unat sz" for h
  proof -
    have u: "unat (h + 8) = unat h + 8" "unat (h + 4) = unat h + 4" "unat (h + 20) = unat h + 20"
      using h unat_u32 [of sz] by (subst unat_plus_const; simp del: unat_u32)+
    show ?thesis using rd(1) [of h] rd(1) [of "h + 8"] rd(1) [of "h + 4"] rd(1) [of "h + 20"] h u
      by (simp add: segment_at_def ph_type_def ph_vaddr_def ph_offset_def ph_memsize_def add.assoc)
  qed
  have "List.map_filter (segment_at m load_base) (map ((+) load_base) hs) =
      map (\<lambda>(d, o', n). (d, load_base + o', n)) (map (\<lambda>h. (word_in file (h + 8), word_in file (h + 4), word_in file (h + 20)))
        (filter (\<lambda>h. word_in file h = segment_code ELF_LOAD) hs))" if "\<forall>h\<in>set hs. unat h + 24 \<le> unat sz" for hs
    using that by (induction hs) (simp_all add: seg map_filter_simps)
  from this [OF hs] show "segments m load_base = map (\<lambda>(d, o', n). (d, load_base + o', n)) (file_segments file)"
    by (simp only: segments_def p file_segments_def)
qed

section \<open>The heap of the kernel\<close>

text \<open>Nothing that happens before the process is spawned touches the descriptor of the kernel heap.\<close>

lemma load_segment_heap:
  assumes "load_segment L s ph d src n = Some r"
  shows "system_heap (fst r) = system_heap s"
proof (rule load_segment.raw_induct [where P = "\<lambda>L s ph d src n r. system_heap (fst r) = system_heap s", OF _ assms], goal_cases)
  case (1 load_segment L s ph d src n r)
  obtain s1 f where p: "reserve_page L s = (s1, f)" by (cases "reserve_page L s")
  show ?case using 1(2) p reserve_page_heap [OF p]
    by (auto simp: Let_def simp del: error_code.simps split: Option.bind_splits if_splits dest!: 1(1) map_page_heap)
qed

lemma load_headers_heap: "load_headers L s elf ph n = Some (s', e) \<Longrightarrow> system_heap s' = system_heap s"
proof (induction n arbitrary: s ph)
  case (Suc n)
  then show ?case
    by (auto split: Option.bind_splits if_splits option.splits dest!: load_segment_heap Suc.IH simp: Let_def)
qed simp

lemma load_program_heap: "load_program L s elf = Some (s', e) \<Longrightarrow> system_heap s' = system_heap s"
  by (auto simp: load_program_def split: Option.bind_splits dest: load_headers_heap)

lemma map_module_heap:
  assumes "map_module L s n p finish = Some r"
  shows "system_heap (fst r) = system_heap s"
proof (rule map_module.raw_induct [where P = "\<lambda>L s n p finish r. system_heap (fst r) = system_heap s", OF _ assms], goal_cases)
  case (1 map_module L s n p finish r)
  show ?case using 1(2) by (auto simp del: error_code.simps split: Option.bind_splits if_splits dest!: 1(1) map_page_heap)
qed

lemma unmap_page_heap: "unmap_page s page = Some (s', e) \<Longrightarrow> system_heap s' = system_heap s"
  by (auto simp: unmap_page_def simp del: all_present.simps split: Option.bind_splits if_splits)

lemma unmap_module_heap:
  assumes "unmap_module s n p finish = Some r"
  shows "system_heap (fst r) = system_heap s"
proof (rule unmap_module.raw_induct [where P = "\<lambda>s n p finish r. system_heap (fst r) = system_heap s", OF _ assms], goal_cases)
  case (1 unmap_module s n p finish r)
  show ?case using 1(2) by (auto simp del: error_code.simps split: Option.bind_splits if_splits dest!: 1(1) unmap_page_heap)
qed

text \<open>Nor does loading the program change to another address space.\<close>

lemma update32_cr3: "update32 m p f = Some m' \<Longrightarrow> cr3 m' = cr3 m"
  by (auto simp: update32_def store32_def split: Option.bind_splits)

lemma set_pte_cr3: "set_pte m page level flags a = Some (m', ok) \<Longrightarrow> cr3 m' = cr3 m"
  by (auto simp: set_pte_def set_pte_address_def set_pte_type_def split: Option.bind_splits if_splits dest!: update32_cr3)

lemma wipe_loop_cr3: "wipe_loop m t is = Some m' \<Longrightarrow> cr3 m' = cr3 m"
  by (induction "is" arbitrary: m) (auto split: Option.bind_splits dest!: update32_cr3)

lemma wipe_page_table_cr3: "wipe_page_table m page level = Some m' \<Longrightarrow> cr3 m' = cr3 m"
  by (auto simp: wipe_page_table_def split: Option.bind_splits if_splits dest: wipe_loop_cr3)

lemma reserve_page_mm: "reserve_page L s = (s', a) \<Longrightarrow> mm s' = mm s"
  by (auto simp: reserve_page_def split: prod.splits)

lemma map_tables_cr3: "map_tables L s page ls = Some (s', e) \<Longrightarrow> cr3 (mm s') = cr3 (mm s)"
proof (induction L s page ls rule: map_tables.induct)
  case (2 L s page level levels)
  obtain s1 t where r: "reserve_page L s = (s1, t)" by (cases "reserve_page L s")
  show ?case using 2 r reserve_page_mm [OF r]
    by (fastforce split: Option.bind_splits if_splits dest: wipe_page_table_cr3 set_pte_cr3)
qed simp

lemma map_page_cr3: "map_page L s page f fl = Some (s', e) \<Longrightarrow> cr3 (mm s') = cr3 (mm s)"
  by (auto simp: map_page_def simp del: map_tables.simps split: Option.bind_splits if_splits dest!: map_tables_cr3 set_pte_cr3)

lemma memcpy_bytes_cr3: "memcpy_bytes m d src i n = Some m' \<Longrightarrow> cr3 m' = cr3 m"
proof (induction m d src i n rule: memcpy_bytes.induct)
  case (1 m d src i n)
  have st: "store8 m a b = Some m1 \<Longrightarrow> cr3 m1 = cr3 m" for a b m1 by (auto simp: store8_def split: Option.bind_splits)
  show ?case using 1(2) by (subst (asm) memcpy_bytes.simps) (auto split: if_splits Option.bind_splits simp: st dest!: 1(1))
qed

lemma memcpy_machine_cr3: "memcpy_machine m d src n = Some m' \<Longrightarrow> cr3 m' = cr3 m"
  by (auto simp: memcpy_machine_def split: if_splits dest: memcpy_bytes_cr3)

lemma load_segment_cr3:
  assumes "load_segment L s ph d src n = Some r"
  shows "cr3 (mm (fst r)) = cr3 (mm s)"
proof (rule load_segment.raw_induct [where P = "\<lambda>L s ph d src n r. cr3 (mm (fst r)) = cr3 (mm s)", OF _ assms], goal_cases)
  case (1 load_segment L s ph d src n r)
  obtain s1 f where p: "reserve_page L s = (s1, f)" by (cases "reserve_page L s")
  show ?case using 1(2) p reserve_page_mm [OF p]
    by (auto simp: Let_def simp del: error_code.simps split: Option.bind_splits if_splits dest!: 1(1) map_page_cr3 memcpy_machine_cr3)
qed

lemma load_headers_cr3: "load_headers L s elf ph n = Some (s', e) \<Longrightarrow> cr3 (mm s') = cr3 (mm s)"
proof (induction n arbitrary: s ph)
  case (Suc n)
  then show ?case
    by (auto split: Option.bind_splits if_splits option.splits dest!: load_segment_cr3 Suc.IH simp: Let_def)
qed simp

lemma load_program_cr3: "load_program L s elf = Some (s', e) \<Longrightarrow> cr3 (mm s') = cr3 (mm s)"
  by (auto simp: load_program_def split: Option.bind_splits dest: load_headers_cr3)

section \<open>Loading a module\<close>

definition phys_byte :: "mmu \<Rightarrow> physaddr_t \<Rightarrow> u8" where
  "phys_byte m a = byte_in (mem m) (frame_of a) (word_at a) (byte_shift a)"

definition module_file :: "'h machine \<Rightarrow> module_t \<Rightarrow> u32 \<Rightarrow> u8" where
  "module_file s x k = phys_byte (mm s) (m_start x + k)"

definition module_size :: "module_t \<Rightarrow> u32" where "module_size x = m_end x - m_start x"

text \<open>A module that can be mapped: page aligned, in frames that the allocator counts as used and that hold no tables.\<close>

definition module_ok :: "('h \<Rightarrow> u32 set) \<Rightarrow> 'h machine \<Rightarrow> module_t \<Rightarrow> bool" where
  "module_ok used s x \<longleftrightarrow> m_start x mod page_size = 0 \<and> m_start x \<le> m_end x \<and> unat (m_end x) \<le> 0xFFFFF000 \<and> unat (module_size x) \<le> 0x7FC00000 \<and>
     (\<forall>k < module_size x. frame_of (m_start x + k) \<notin> table_frames (mm s) \<and> addr_of (frame_of (m_start x + k)) \<in> used (page_map s))"

text \<open>A file of \<open>sz\<close> bytes whose headers and segments lie in it; the segments are aligned, on pages of their own, and off the
  pages where the kernel maps the module.\<close>

definition file_ok :: "(u32 \<Rightarrow> u8) \<Rightarrow> u32 \<Rightarrow> bool" where
  "file_ok file sz \<longleftrightarrow> 46 \<le> unat sz \<and> (\<forall>h\<in>set (file_headers file). unat h + 24 \<le> unat sz) \<and>
     (\<forall>(d, o', n)\<in>set (file_segments file). d mod page_size = 0 \<and> unat o' + unat n \<le> unat sz \<and> (\<forall>k < n. dir_of (d + k) \<noteq> - 1) \<and>
        pages_from d n 0 \<inter> {load_base + k | k. k < sz} = {}) \<and>
     pages_apart (file_segments file)"

text \<open>A segment as the process finds it: the bytes of the file, writable in user mode below the addresses of the kernel. (A table of the
  kernel's part of the address space is shared with the kernel: the loader does not open it.)\<close>

fun segment_in :: "ptr \<Rightarrow> 'h machine \<Rightarrow> (u32 \<Rightarrow> u8) \<Rightarrow> ptr \<times> u32 \<times> u32 \<Rightarrow> bool" where
  "segment_in kernel_start s file (d, o', n) = (\<forall>k < n. load8 (mm s) (d + k) = Some (file (o' + k)) \<and> user_entry (mm s) (d + k) \<and>
     (dir_of (d + k) < dir_of kernel_start \<longrightarrow> user_page (mm s) (d + k)))"

lemma low_bits:
  assumes "a mod page_size = 0" "b mod page_size = 0"
  shows "word_at (a + k) = word_at (b + k)" "byte_shift (a + k) = byte_shift (b + k)"
proof -
  have low: "unat (c + k) mod 4096 = unat k mod 4096" if c: "c mod page_size = 0" for c :: u32
  proof -
    obtain j where j: "unat c = 4096 * j" using c unfolding aligned_unat by (auto elim: dvdE)
    have "unat (c + k) mod 4096 = (unat c + unat k) mod 4096" by (simp add: unat_word_ariths mod_mod_cancel)
    then show ?thesis by (simp add: j)
  qed
  have tb: "take_bit 12 (unat (a + k)) = take_bit 12 (unat (b + k))"
    using low [OF assms(1)] low [OF assms(2)] by (simp add: take_bit_eq_mod)
  have b: "bit (a + k) n = bit (b + k) n" if "n < 12" for n
  proof -
    have "bit (unat (a + k)) n = bit (unat (b + k)) n" using arg_cong [OF tb, of "\<lambda>x. bit x n"] that by (simp add: bit_take_bit_iff)
    then show ?thesis by (simp add: bit_unsigned_iff)
  qed
  show "word_at (a + k) = word_at (b + k)"
    by (rule bit_word_eqI) (simp add: word_at_def bit_unsigned_iff bit_drop_bit_eq b)
  have "(a + k) AND 3 = (b + k) AND 3"
  proof (rule bit_word_eqI)
    fix n assume "n < LENGTH(32)"
    have m: "(3 :: u32) = mask 2" by (simp add: mask_eq_exp_minus_1)
    show "bit ((a + k) AND 3) n = bit ((b + k) AND 3) n" unfolding m by (auto simp: bit_and_iff bit_mask_iff b)
  qed
  then show "byte_shift (a + k) = byte_shift (b + k)" by (simp only: byte_shift_def)
qed

lemma align_noop: "p mod page_size = 0 \<Longrightarrow> p AND NOT (page_size - 1) = p"
proof -
  assume "p mod page_size = 0"
  then have t: "take_bit 12 p = 0" by (simp add: take_bit_eq_mod page_size_def)
  have m: "page_size - 1 = (mask 12 :: u32)" by (simp add: page_size_def mask_eq_exp_minus_1)
  show ?thesis unfolding m
  proof (rule bit_word_eqI)
    fix n assume "n < LENGTH(32)"
    moreover have "\<not> bit p n" if "n < 12" using t that by (metis bit_take_bit_iff bit_0_eq bot_apply bot_bool_def)
    ultimately show "bit (p AND NOT (mask 12)) n = bit p n" by (auto simp: bit_and_iff bit_not_iff bit_mask_iff)
  qed
qed

lemma window_dir:
  assumes "unat k < 0x7FC00000"
  shows "dir_of (load_base + k) \<noteq> - 1"
proof
  assume a: "dir_of (load_base + k) = - 1"
  have "unat (load_base + k) = 0x80000000 + unat k" using assms by (subst unat_add_le) (simp_all add: load_base_def)
  moreover have "unat (drop_bit 22 (load_base + k)) = 1023" using a by (simp add: unat_dir unsigned_minus_1_eq_mask mask_eq_exp_minus_1)
  ultimately have "(0x80000000 + unat k) div 4194304 = 1023" by (simp add: drop_bit_eq_div unat_div_distrib)
  then show False using assms by linarith
qed

text \<open>The messages of the panics that running out of memory leads to.\<close>

definition out_of_memory :: "string set" where
  "out_of_memory = {''failed to create address space for module: out of memory'', ''ran out of memory while mapping module'',
     ''ran out of memory while reading ELF file''}"

definition spawn_module :: "'h libmalloc \<Rightarrow> ptr \<Rightarrow> 'h machine kernel_t \<Rightarrow> ptr \<Rightarrow> physaddr_t \<Rightarrow> (string + 'h machine kernel_t \<times> u32) option" where
  "spawn_module L kernel_start k module_entry space = do {
     (k, pid) \<leftarrow> kernel_spawn_process (quark_platform L) kernel_start k module_entry 1 space;
     Some (Inr (k, if pid > 0 then error_code ENONE else - 1)) }"

text \<open>The machine when the process is spawned: the new address space is current and holds the segments, and the module is unmapped.\<close>

definition module_loaded :: "ptr \<Rightarrow> ('h \<Rightarrow> u32 set) \<Rightarrow> ('h \<Rightarrow> u32) \<Rightarrow> 'h machine \<Rightarrow> module_t \<Rightarrow> 'h machine \<Rightarrow> physaddr_t \<Rightarrow> bool" where
  "module_loaded kernel_start used block_size s x s' space \<longleftrightarrow> frames_ok used block_size s' \<and> system_heap s' = system_heap s \<and>
     current_address_space s' = Some space \<and> space \<notin> used (page_map s) \<and>
     (\<forall>g\<in>set (file_segments (module_file s x)). segment_in kernel_start s' (module_file s x) g) \<and>
     (\<forall>k < module_size x. leaf (mm s') (load_base + k) = None)"

lemma mapped_file:
  assumes x: "module_ok used s x" and m: "\<forall>k. 0 \<le> k \<longrightarrow> k < module_size x \<longrightarrow> translate (mm s3) (load_base + k) False = Some (frame_of (m_start x + k))"
    and kept: "\<forall>f. f \<notin> table_frames (mm s) \<longrightarrow> addr_of f \<in> used (page_map s) \<longrightarrow> mem (mm s3) f = mem (mm s) f"
  shows "shows_file (mm s3) (module_file s x) (module_size x)"
proof -
  have "load8 (mm s3) (load_base + k) = Some (module_file s x k)" if k: "k < module_size x" for k
  proof -
    have "frame_of (m_start x + k) \<notin> table_frames (mm s)" "addr_of (frame_of (m_start x + k)) \<in> used (page_map s)"
      and al: "m_start x mod page_size = 0" using x k by (auto simp: module_ok_def)
    then have "mem (mm s3) (frame_of (m_start x + k)) = mem (mm s) (frame_of (m_start x + k))" using kept by blast
    moreover have "load_base mod page_size = 0" by (simp add: load_base_def page_size_def)
    ultimately show ?thesis using m k low_bits [OF al, of load_base k]
      by (simp add: load8_byte module_file_def phys_byte_def byte_in_def)
  qed
  then show ?thesis by (simp add: shows_file_def)
qed

lemma pages_window:
  assumes "pages_from d n 0 \<inter> {load_base + k | k. k < sz} = {}"
  shows "pages_from d n 0 \<inter> pages_from load_base sz 0 = {}"
proof -
  have False if "k < n" "on_page (d + k) q" "j < sz" "on_page (load_base + j) q" for k j q
  proof -
    have "on_page (d + k) (load_base + j)" by (rule on_page_trans [OF that(2) on_page_sym [OF that(4)]])
    then have "load_base + j \<in> pages_from d n 0" using that(1) by (auto simp: pages_from_def)
    then show False using assms that(3) by blast
  qed
  then show ?thesis by (auto simp: pages_from_def)
qed

lemma pages_apart_map: "pages_apart (map (\<lambda>(d, o', n). (d, b + o', n)) gs) = pages_apart gs"
proof (induction gs)
  case (Cons g gs)
  have "segment_pages ((\<lambda>(d, o', n). (d, b + o', n)) h) = segment_pages h" for h by (cases h) simp
  then show ?case using Cons.IH by simp
qed simp

context libmalloc
begin

lemma load_mapped_module:
  assumes ok: "frames_ok used block_size s3" and set: "\<forall>k < sz. settled used s3 (load_base + k)"
    and sh: "shows_file (mm s3) file sz" and f: "file_ok file sz" and sz: "unat sz \<le> 0x7FC00000"
  shows "\<exists>s' e. load_program L s3 load_base = Some (s', e) \<and> frames_ok used block_size s' \<and> kernel_tables (mm s') = kernel_tables (mm s3) \<and> (e = error_code ENOMEM \<or>
    e = error_code ENONE \<and> elf_entry (mm s') load_base = Some (word_in file 24) \<and> (\<forall>k < sz. leaf (mm s') (load_base + k) \<noteq> None) \<and>
    (\<forall>(d, o', n)\<in>set (file_segments file). segment_loaded used s3 s' (d, load_base + o', n)))"
proof -
  let ?W = "{load_base + k | k. k < sz}"
  have hs: "46 \<le> unat sz" "\<forall>h\<in>set (file_headers file). unat h + 24 \<le> unat sz" using f by (auto simp: file_ok_def)
  note segs = shows_segments [OF sh hs]
  have inW: "load_base + h + of_nat i \<in> ?W" if "unat h + n \<le> unat sz" "i < n" for h n i
    using in_file [OF that] by (auto simp: add.assoc)
  have a4: "\<forall>i\<in>{28..<46}. load_base + of_nat i \<in> ?W"
    using inW [of 0 46] hs(1) by auto
  have a5: "\<forall>h\<in>set (program_headers (mm s3) load_base). \<forall>i<24. h + of_nat i \<in> ?W"
    using inW hs(2) unfolding segs(2) by fastforce
  have a6: "\<forall>g\<in>set (segments (mm s3) load_base). segment_ok ?W g"
  proof
    fix g assume "g \<in> set (segments (mm s3) load_base)"
    then obtain d o' n where g: "g = (d, load_base + o', n)" "(d, o', n) \<in> set (file_segments file)" unfolding segs(3) by auto
    then have q: "d mod page_size = 0" "unat o' + unat n \<le> unat sz" "\<forall>k < n. dir_of (d + k) \<noteq> - 1" "pages_from d n 0 \<inter> ?W = {}"
      using bspec [OF conjunct1 [OF conjunct2 [OF conjunct2 [OF f [unfolded file_ok_def]]]] g(2)] by simp_all
    have "load_base + o' + k \<in> ?W" if "k < n" for k
      using inW [OF q(2), of "unat k"] that by (simp add: word_less_nat_alt)
    then show "segment_ok ?W g" using q sz by (simp add: g(1))
  qed
  have a7: "pages_apart (segments (mm s3) load_base)" using f unfolding segs(3) pages_apart_map by (simp add: file_ok_def)
  have "\<forall>q\<in>?W. settled used s3 q" using set by blast
  from load_program_loads [OF libmalloc_axioms ok this a4 a5 a6 a7] obtain s' e where
    r: "load_program L s3 load_base = Some (s', e)" "frames_ok used block_size s'" "kernel_tables (mm s') = kernel_tables (mm s3)"
      "e = error_code ENOMEM \<or> e = error_code ENONE \<and> keeps used s3 s' ?W \<and> (\<forall>g\<in>set (segments (mm s3) load_base). segment_loaded used s3 s' g)" by blast
  have "elf_entry (mm s') load_base = Some (word_in file 24) \<and> (\<forall>k < sz. leaf (mm s') (load_base + k) \<noteq> None)" if kp: "keeps used s3 s' ?W"
  proof -
    have "\<forall>k < sz. leaf (mm s') (load_base + k) \<noteq> None" using keepsD(1) [OF kp] by (auto simp: settled_def)
    moreover have "elf_entry (mm s') load_base = elf_entry (mm s3) load_base"
      unfolding elf_entry_def using inW [of 24 4] hs(1) by (intro keeps_read32 [OF kp]) auto
    ultimately show ?thesis using segs(1) by simp
  qed
  moreover have "\<forall>(d, o', n)\<in>set (file_segments file). segment_loaded used s3 s' (d, load_base + o', n)"
    if "\<forall>g\<in>set (segments (mm s3) load_base). segment_loaded used s3 s' g" using that unfolding segs(3) by force
  ultimately show ?thesis using r by blast
qed

lemma load_module_runs:
  assumes ok: "frames_ok used block_size (mach k)" and e0: "present (mem (mm (mach k)) (top (mm (mach k))) 0)" and ks: "dir_of kernel_start \<noteq> 0"
    and x: "module_ok used (mach k) x" and f: "file_ok (module_file (mach k) x) (module_size x)"
  shows "(\<exists>message\<in>out_of_memory. kernel_load_module L kernel_start k x = Some (Inl message)) \<or>
    (\<exists>s' space. module_loaded kernel_start used block_size (mach k) x s' space \<and>
       kernel_load_module L kernel_start k x = spawn_module L kernel_start (k\<lparr>mach := s'\<rparr>) (word_in (module_file (mach k) x) 24) space)"
proof -
  let ?s = "mach k" and ?sz = "module_size x" and ?p = "m_start x" and ?file = "module_file (mach k) x"
  have sp: "space_ok (mm ?s)" using ok by (simp add: frames_ok_def)
  have xs: "?p mod page_size = 0" "?p \<le> m_end x" "unat (m_end x) \<le> 0xFFFFF000" "unat ?sz \<le> 0x7FC00000"
    and xf: "\<forall>k < ?sz. frame_of (?p + k) \<notin> table_frames (mm ?s) \<and> addr_of (frame_of (?p + k)) \<in> used (page_map ?s)"
    using x by (auto simp: module_ok_def)
  have fin: "?p + ?sz = m_end x" by (simp add: module_size_def)
  have lim: "unat ?p + unat ?sz \<le> 0xFFFFF000" using xs(2,3) by (simp add: module_size_def unat_sub word_le_nat_alt)
  note pg = align_noop [OF xs(1)]
  obtain s1 table where r: "reserve_page L ?s = (s1, table)" by (cases "reserve_page L ?s")
  note re = reserve_page_effect [OF r ok]
  show ?thesis
  proof (cases "table = error_code ENOMEM")
    case True
    then have "kernel_load_module L kernel_start k x = Some (Inl ''failed to create address space for module: out of memory'')"
      using r by (simp add: kernel_load_module_def create_address_space_def)
    then show ?thesis by (auto simp: out_of_memory_def)
  next
    case False
    note tb = re(4) [OF False]
    have nt: "frame_of table \<notin> table_frames (mm ?s)" using tb ok unfolding frames_ok_def by (metis image_eqI subsetD)
    then have "frame_of table \<noteq> top (mm ?s)" using top_table [OF space_okD(1) [OF sp]] by metis
    note c = create_space_effect [OF space_okD(1) [OF sp] ks r False this]
    let ?m1 = "(mm ?s)\<lparr>mem := (mem (mm ?s))(frame_of table := new_top kernel_start (mm ?s) (frame_of table))\<rparr>"
    have create: "create_address_space L kernel_start ?s = Some (s1\<lparr>mm := ?m1\<rparr>, table)"
      using c e0 space_okD(2) [OF sp, of 0] by simp
    let ?s2 = "s1\<lparr>mm := paging_load_address_space ?m1 table\<rparr>"
    have n2: "frames_ok used block_size ?s2" "table_frames (mm ?s2) \<subseteq> insert (frame_of table) (table_frames (mm ?s))"
      using new_space_ok(1,2) [OF ok, of table ?s2 kernel_start] tb re(2,3)
      by (auto simp: paging_load_address_space_def frames_ok_def)
    have low2: "dir_of q \<notin> kernel_tables (mm ?s2)" if "dir_of q < dir_of kernel_start" for q
      using new_space_ok(3) [OF ok, of table ?s2 kernel_start q] tb re(2,3) that
      by (auto simp: paging_load_address_space_def frames_ok_def)
    have same2: "mem (mm ?s2) g = mem (mm ?s) g \<and> g \<notin> table_frames (mm ?s2) \<and> addr_of g \<in> used (page_map ?s2)"
      if "g \<notin> table_frames (mm ?s)" "addr_of g \<in> used (page_map ?s)" for g
      using that tb n2(2) re(3) by (auto simp: paging_load_address_space_def)
    have fr: "\<forall>k. 0 \<le> k \<longrightarrow> k < ?sz \<longrightarrow> dir_of (load_base + k) \<noteq> - 1 \<and> frame_of (?p + k) \<notin> table_frames (mm ?s2) \<and> addr_of (frame_of (?p + k)) \<in> used (page_map ?s2)"
    proof (intro allI impI)
      fix k assume k: "k < ?sz"
      then have "unat k < 0x7FC00000" using xs(4) by (simp add: word_less_nat_alt)
      then show "dir_of (load_base + k) \<noteq> - 1 \<and> frame_of (?p + k) \<notin> table_frames (mm ?s2) \<and> addr_of (frame_of (?p + k)) \<in> used (page_map ?s2)"
        using window_dir same2 xf k by blast
    qed
    have n0: "unat (0 :: u32) < unat ?sz + 4096" by simp
    obtain s3 pa where m3: "map_module L ?s2 0 ?p (m_end x) = Some (s3, pa)" "spares used block_size ?s2 s3 (pages_from load_base ?sz 0)"
      "pa = Some ''ran out of memory while mapping module'' \<or>
       pa = None \<and> (\<forall>k. 0 \<le> k \<longrightarrow> k < ?sz \<longrightarrow> translate (mm s3) (load_base + k) False = Some (frame_of (?p + k)))"
      using map_module_maps [OF n2(1) _ xs(1) lim n0 fr] by (auto simp: fin)
    have heap3: "system_heap s3 = system_heap ?s" using map_module_heap [OF m3(1)] reserve_page_heap [OF r] by simp
    show ?thesis
    proof (cases pa)
      case (Some msg)
      then have "kernel_load_module L kernel_start k x = Some (Inl msg)"
        using create m3(1) pg False by (simp add: kernel_load_module_def Let_def)
      then show ?thesis using m3(3) Some by (auto simp: out_of_memory_def)
    next
      case None
      then have tr: "\<forall>k. 0 \<le> k \<longrightarrow> k < ?sz \<longrightarrow> translate (mm s3) (load_base + k) False = Some (frame_of (?p + k))" using m3(3) by auto
      have kept: "mem (mm s3) g = mem (mm ?s) g \<and> g \<notin> table_frames (mm s3) \<and> addr_of g \<in> used (page_map s3)"
        if "g \<notin> table_frames (mm ?s)" "addr_of g \<in> used (page_map ?s)" for g
        using same2 [OF that] sparesD(2,4) [OF m3(2)] by auto
      have sh: "shows_file (mm s3) ?file ?sz" by (rule mapped_file [OF x tr]) (use kept in blast)
      have set: "\<forall>k < ?sz. settled used s3 (load_base + k)"
        using fr tr kept xf by (fastforce simp: settled_def translate_leaf)
      from load_mapped_module [OF sparesD(1) [OF m3(2)] set sh f xs(4)] obtain s4 e where
        l: "load_program L s3 load_base = Some (s4, e)" "frames_ok used block_size s4" "kernel_tables (mm s4) = kernel_tables (mm s3)" "e = error_code ENOMEM \<or>
          e = error_code ENONE \<and> elf_entry (mm s4) load_base = Some (word_in ?file 24) \<and> (\<forall>k < ?sz. leaf (mm s4) (load_base + k) \<noteq> None) \<and>
          (\<forall>(d, o', n)\<in>set (file_segments ?file). segment_loaded used s3 s4 (d, load_base + o', n))" by blast
      note run3 = create m3(1) pg False None l(1)
      show ?thesis
      proof (cases "e = error_code ENOMEM")
        case True
        then have "kernel_load_module L kernel_start k x = Some (Inl ''ran out of memory while reading ELF file'')"
          using run3 by (simp add: kernel_load_module_def Let_def)
        then show ?thesis by (auto simp: out_of_memory_def)
      next
        case e: False
        with l(4) have l4: "e = error_code ENONE" "elf_entry (mm s4) load_base = Some (word_in ?file 24)" "\<forall>k < ?sz. leaf (mm s4) (load_base + k) \<noteq> None"
          "\<forall>(d, o', n)\<in>set (file_segments ?file). segment_loaded used s3 s4 (d, load_base + o', n)" by blast+
        obtain s5 where u: "unmap_module s4 0 ?p (m_end x) = Some (s5, None)" "spares used block_size s4 s5 (pages_from load_base ?sz 0)"
          "\<forall>k < ?sz. leaf (mm s5) (load_base + k) = None"
          using unmap_module_unmaps [OF l(2) _ lim n0] l4(3) fr by (auto simp: fin)
        have ok5: "frames_ok used block_size s5" by (rule sparesD(1) [OF u(2)])
        have "cr3 (mm s5) = table"
          using sparesD(3) [OF u(2)] load_program_cr3 [OF l(1)] sparesD(3) [OF m3(2)] by (simp add: paging_load_address_space_def)
        then have cur: "current_address_space s5 = Some table"
          using current_space [OF space_okD(1), of "mm s5"] ok5 tb by (simp add: current_address_space_def frames_ok_def)
        have tables5: "kernel_tables (mm s5) = kernel_tables (mm ?s2)"
          using sparesD(6) [OF u(2)] sparesD(6) [OF m3(2)] l(3) by simp
        have seg: "segment_in kernel_start s5 ?file g" if g: "g \<in> set (file_segments ?file)" for g
        proof -
          obtain d o' n where dn: "g = (d, o', n)" by (cases g)
          have ld: "segment_loaded used s3 s4 (d, load_base + o', n)" using l4(4) g dn by blast
          have q: "unat o' + unat n \<le> unat ?sz" "pages_from d n 0 \<inter> {load_base + k | k. k < ?sz} = {}"
            using bspec [OF conjunct1 [OF conjunct2 [OF conjunct2 [OF f [unfolded file_ok_def]]]] g] dn by simp_all
          have "keeps used s4 s5 (segment_pages (d, load_base + o', n))"
            using ld pages_window [OF q(2)] by (intro spares_keeps [OF u(2)]) (auto simp: loaded_def)
          note ld5 = loaded_keeps [OF ld this]
          have "load8 (mm s5) (d + k) = Some (?file (o' + k)) \<and> user_entry (mm s5) (d + k) \<and>
            (dir_of (d + k) < dir_of kernel_start \<longrightarrow> user_page (mm s5) (d + k))" if k: "k < n" for k
          proof -
            have "o' + k < ?sz" using in_file [OF q(1), of "unat k"] k by (simp add: word_less_nat_alt)
            then have "load8 (mm s3) (load_base + o' + k) = Some (?file (o' + k))" using sh by (simp add: shows_file_def add.assoc)
            moreover have q: "d + k \<in> pages_from d n 0" using k by (auto simp: pages_from_def on_page_def)
            moreover have "space_ok (mm s5)" using ok5 by (simp add: frames_ok_def)
            from segment_user [OF this ld5] q have "user_page (mm s5) (d + k) \<longleftrightarrow> dir_of (d + k) \<notin> kernel_tables (mm s5)" by simp
            ultimately show ?thesis using ld5 k low2 tables5 by (auto simp: loaded_def)
          qed
          then show ?thesis by (simp add: dn)
        qed
        have "system_heap s5 = system_heap ?s"
          using unmap_module_heap [OF u(1)] load_program_heap [OF l(1)] heap3 by simp
        then have "module_loaded kernel_start used block_size ?s x s5 table"
          using ok5 cur seg u(3) tb by (simp add: module_loaded_def)
        moreover have "kernel_load_module L kernel_start k x = spawn_module L kernel_start (k\<lparr>mach := s5\<rparr>) (word_in ?file 24) table"
          using run3 l4(1,2) u(1) cur by (simp add: kernel_load_module_def spawn_module_def Let_def)
        ultimately show ?thesis by blast
      qed
    qed
  qed
qed

end

section \<open>Properties\<close>

text \<open>C17. \<^verbatim>\<open>kernel_load_module\<close>, in a well-formed address space whose first 4 MB have a page table, for a module in reserved frames that is a
  proper ELF file: either it panics for lack of memory, or it comes to \<^verbatim>\<open>kernel_spawn_process\<close> with the file's entry point and a fresh
  address space, current and well formed, in which every byte of every segment is the byte of the file, the process can write
  every page of a segment below the kernel's addresses (the processor translates its access in user mode), and from which the module is unmapped.
  What follows is up to \<^verbatim>\<open>kernel_spawn_process\<close>. When that answers an identifier, the result is ENONE and the kernel has one more
  process, ready to run, with this address space and the registers of a new program; the invariants of scheduler and heap hold.
  When it answers none, the result is -1 and the kernel is as before, but for the memory that was taken. When it does not return
  (its table insertion writes through a null pointer if there is no memory left), neither does this function.\<close>

theorem kernel_load_module_spec:
  assumes "libmalloc L used block_size" "frames_ok used block_size (mach k)" "present (mem (mm (mach k)) (top (mm (mach k))) 0)" "dir_of kernel_start \<noteq> 0"
    and "module_ok used (mach k) x" "file_ok (module_file (mach k) x) (module_size x)"
    and "kernel_heap_inv (\<lambda>s. used (system_heap s)) ty k pt qt it" "sched_inv k" "key_of (next_pid k) \<notin> dom pt" "next_pid k \<noteq> 0"
    and "card {p. runnable k p} < q_capacity (priority_queue k)"
  shows "(\<exists>message\<in>out_of_memory. kernel_load_module L kernel_start k x = Some (Inl message)) \<or>
    (\<exists>s' space. module_loaded kernel_start used block_size (mach k) x s' space \<and>
       kernel_load_module L kernel_start k x = spawn_module L kernel_start (k\<lparr>mach := s'\<rparr>) (word_in (module_file (mach k) x) 24) space \<and>
       (\<forall>k' status. kernel_load_module L kernel_start k x = Some (Inr (k', status)) \<longrightarrow>
          status = - 1 \<and> (\<exists>m. k' = k\<lparr>mach := m\<rparr>) \<and> kernel_heap_inv (\<lambda>s. used (system_heap s)) ty k' pt qt it \<or>
          status = error_code ENONE \<and>
          (\<exists>p c ty'. spawned (k\<lparr>mach := s'\<rparr>) k' p c (fresh_process (next_pid k) 1 space c) (fresh_context kernel_start (word_in (module_file (mach k) x) 24)) \<and>
             sched_inv k' \<and> kernel_heap_inv (\<lambda>s. used (system_heap s)) ty' k' (pt(key_of (next_pid k) \<mapsto> p)) qt it)))"
proof -
  from libmalloc.load_module_runs [OF assms(1-6)] consider
    (oom) "\<exists>message\<in>out_of_memory. kernel_load_module L kernel_start k x = Some (Inl message)"
  | (loaded) s' space where "module_loaded kernel_start used block_size (mach k) x s' space"
      "kernel_load_module L kernel_start k x = spawn_module L kernel_start (k\<lparr>mach := s'\<rparr>) (word_in (module_file (mach k) x) 24) space" by blast
  then show ?thesis
  proof cases
    case oom
    then show ?thesis ..
  next
    case loaded
    let ?k = "k\<lparr>mach := s'\<rparr>" and ?e = "word_in (module_file (mach k) x) 24" and ?live = "\<lambda>s :: 'a machine. used (system_heap s)"
    have "system_heap s' = system_heap (mach k)" using loaded(1) by (simp add: module_loaded_def)
    then have inv: "kernel_heap_inv ?live ty ?k pt qt it"
      using assms(7) by (simp add: kernel_heap_inv_def objects_def tables_def)
    have rn: "runnable ?k = runnable k" by (simp add: runnable_def fun_eq_iff)
    then have sch: "sched_inv ?k" using assms(8) by (simp add: sched_inv_def ready_def ready_entries_def prio_of_def)
    note P = libmalloc.quark_axioms [OF assms(1)]
    note spawn = kernel_platform.spawn_ok [OF P inv sch, of kernel_start ?e 1 space]
    have "status = - 1 \<and> (\<exists>m. k' = k\<lparr>mach := m\<rparr>) \<and> kernel_heap_inv ?live ty k' pt qt it \<or> status = error_code ENONE \<and>
      (\<exists>p c ty'. spawned ?k k' p c (fresh_process (next_pid k) 1 space c) (fresh_context kernel_start ?e) \<and>
         sched_inv k' \<and> kernel_heap_inv ?live ty' k' (pt(key_of (next_pid k) \<mapsto> p)) qt it)"
      if "kernel_load_module L kernel_start k x = Some (Inr (k', status))" for k' status
    proof -
      from that loaded(2) obtain pid where s: "kernel_spawn_process (quark_platform L) kernel_start ?k ?e 1 space = Some (k', pid)"
        "status = (if pid > 0 then error_code ENONE else - 1)"
        by (auto simp: spawn_module_def split: Option.bind_splits)
      show ?thesis
      proof (cases "pid = 0")
        case False
        with spawn [OF _ _ s(1)] assms(9,11) rn s(2) show ?thesis by (auto simp: word_neq_0_conv)
      next
        case True
        have np: "next_pid ?k \<noteq> 0" using assms(10) by simp
        obtain m where m: "k' = ?k\<lparr>mach := m\<rparr>" "?live (mach ?k) \<subseteq> ?live m"
          by (rule kernel_platform.spawn_failed [OF P s(1) [unfolded True] np])
        then have "kernel_heap_inv ?live ty k' pt qt it" using heap_inv_mach [OF inv, of m] by simp
        then show ?thesis using m(1) s(2) True by auto
      qed
    qed
    then show ?thesis using loaded by blast
  qed
qed

text \<open>Witness: the file of 512 bytes in frame 3, which is not mapped anywhere.\<close>

definition module_mmu :: mmu where
  "module_mmu = \<lparr>mem = (\<lambda>f i. if f = 1 then if i = - 1 then 0x1003 else if i = 0 then 0x2003 else 0 else if f = 3 then file_word i else 0), cr3 = 0x1000\<rparr>"

definition module_machine :: "nat machine" where
  "module_machine = \<lparr>mm = module_mmu, page_map = 4, system_heap = 16\<rparr>"

definition module_in_3 :: module_t where
  "module_in_3 = \<lparr>m_start = 0x3000, m_end = 0x3200, m_str = NULL\<rparr>"

lemma module_machine_ok:
  "frames_ok (\<lambda>h. {a. unat a < h * 4096}) (\<lambda>h. page_size) module_machine" "table_frames module_mmu = {1, 2}"
  "present (mem module_mmu (top module_mmu) 0)"
proof -
  have t: "top module_mmu = 1" by (simp add: module_mmu_def small_entries)
  have e: "mem module_mmu 1 i = (if i = - 1 then 0x1003 else if i = 0 then 0x2003 else 0)" for i by (simp add: module_mmu_def)
  have "space_ok module_mmu" unfolding space_ok_def self_mapped_def Let_def t by (simp add: e small_entries)
  moreover show tf: "table_frames module_mmu = {1, 2}"
    unfolding table_frames_def t using small_entries e [of "- 1"] e [of 0] by (auto simp: e split: if_splits) (rule exI [of _ "- 1"], simp)
  ultimately show "frames_ok (\<lambda>h. {a. unat a < h * 4096}) (\<lambda>h. page_size) module_machine"
    by (simp add: frames_ok_def module_machine_def addr_of_def)
  show "present (mem module_mmu (top module_mmu) 0)" unfolding t by (simp add: e small_entries)
qed

lemma module_in_3_frames: "k < 512 \<Longrightarrow> frame_of (0x3000 + k) = 3"
proof -
  assume "k < 512"
  then have "k < page_size" by (simp add: page_size_def word_less_nat_alt)
  from on_page_frame [OF page_offset [OF _ this, of "0x3000"]] show ?thesis by (simp add: page_size_def frame_of_def)
qed

lemma module_in_3_ok: "module_ok (\<lambda>h. {a. unat a < h * 4096}) module_machine module_in_3"
  using module_in_3_frames by (simp add: module_ok_def module_in_3_def module_size_def module_machine_def module_machine_ok(2) page_size_def addr_of_def)

lemma module_in_3_file:
  "file_headers (module_file module_machine module_in_3) = [52]"
  "file_segments (module_file module_machine module_in_3) = [(0x400000, 256, 4)]"
  "word_in (module_file module_machine module_in_3) 24 = 0x400000" "module_file module_machine module_in_3 258 = 0xAD"
  by code_simp+

lemma module_in_3_file_ok: "file_ok (module_file module_machine module_in_3) (module_size module_in_3)"
proof -
  have w: "unat (drop_bit 22 (load_base + j)) = 512" if "j < 512" for j
  proof -
    have j: "unat j < 512" using that by (simp add: word_less_nat_alt)
    then have "unat (load_base + j) = 0x80000000 + unat j" by (subst unat_add_le) (simp_all add: load_base_def)
    then show ?thesis using j by (simp add: drop_bit_eq_div unat_div_distrib)
  qed
  have d: "dir_of (0x400000 + k) = 1" if "k < 4" for k
  proof -
    have "k = 0 \<or> k = 1 \<or> k = 2 \<or> k = 3" using that by (auto simp: word_less_nat_alt word_unat_eq_iff)
    then show ?thesis by (auto simp: dir_of_def)
  qed
  have "\<not> on_page (0x400000 + k) (load_base + j)" if "k < 4" "j < 512" for k j
    using d [OF that(1)] w [OF that(2)] by (auto simp: on_page_def unat_dir)
  then have "pages_from 0x400000 4 0 \<inter> {load_base + k | k. k < 512} = {}" by (auto simp: pages_from_def)
  then show ?thesis using d by (simp add: file_ok_def module_in_3_file module_size_def[of module_in_3]) (simp add: module_in_3_def page_size_def)
qed

lemma machine_kernel_inv:
  "kernel_heap_inv (\<lambda>s. {a. unat a < system_heap s * 4096}) (\<lambda>p. if p = 64 then KProcess else KContext) (machine_kernel\<lparr>mach := module_machine\<rparr>)
     Map.empty Map.empty Map.empty" "sched_inv (machine_kernel\<lparr>mach := module_machine\<rparr>)" "{p. runnable (machine_kernel\<lparr>mach := module_machine\<rparr>) p} = {64}"
proof -
  let ?k = "machine_kernel\<lparr>mach := module_machine\<rparr>"
  show "kernel_heap_inv (\<lambda>s. {a. unat a < system_heap s * 4096}) (\<lambda>p. if p = 64 then KProcess else KContext) ?k Map.empty Map.empty Map.empty"
    by (simp add: machine_kernel_def module_machine_def kernel_heap_inv_def objects_def typed_def tables_def forest_empty)
  show r: "{p. runnable ?k p} = {64}" by (auto simp: runnable_def machine_kernel_def split: if_splits)
  have a: "active_process ?k = 64" by (simp add: machine_kernel_def)
  then have "ready ?k = {}" "runnable ?k 64" using r by (auto simp: ready_def)
  moreover have "entries (priority_queue ?k) = {#}" "pq_good (priority_queue ?k)"
    by (simp_all add: machine_kernel_def pq_eval entries_def contents_def)
  ultimately show "sched_inv ?k" using a by (simp add: sched_inv_def ready_entries_def)
qed

theorem kernel_load_module_spec_witness:
  "(\<exists>message\<in>out_of_memory. kernel_load_module count_frames 0xC0000000 (machine_kernel\<lparr>mach := module_machine\<rparr>) module_in_3 = Some (Inl message)) \<or>
   (\<exists>s' space. kernel_load_module count_frames 0xC0000000 (machine_kernel\<lparr>mach := module_machine\<rparr>) module_in_3 =
      spawn_module count_frames 0xC0000000 (machine_kernel\<lparr>mach := s'\<rparr>) 0x400000 space \<and> user_page (mm s') 0x400002 \<and> load8 (mm s') 0x400002 = Some 0xAD)"
proof -
  let ?k = "machine_kernel\<lparr>mach := module_machine\<rparr>"
  have m: "mach ?k = module_machine" "mm module_machine = module_mmu" "dir_of 0xC0000000 \<noteq> 0" by (simp_all add: module_machine_def dir_of_def)
  have c: "card {p. runnable ?k p} < q_capacity (priority_queue ?k)" unfolding machine_kernel_inv(3) by (simp add: machine_kernel_def queue_of_def)
  have n: "key_of (next_pid ?k) \<notin> dom Map.empty" "next_pid ?k \<noteq> 0" by (simp_all add: machine_kernel_def)
  note t = kernel_load_module_spec [of count_frames _ _ ?k, unfolded m(1,2), OF count.libmalloc_axioms module_machine_ok(1,3) m(3) module_in_3_ok
      module_in_3_file_ok machine_kernel_inv(1,2) n c, unfolded module_in_3_file]
  have "(2 :: u32) < 4" "dir_of 0x400002 < dir_of 0xC0000000" by (simp_all add: dir_of_def word_less_nat_alt)
  then have "segment_in 0xC0000000 s' (module_file module_machine module_in_3) (0x400000, 256, 4) \<Longrightarrow> user_page (mm s') 0x400002 \<and> load8 (mm s') 0x400002 = Some 0xAD" for s' :: "nat machine"
    using spec [where P = "\<lambda>k. k < 4 \<longrightarrow> load8 (mm s') (0x400000 + k) = Some (module_file module_machine module_in_3 (256 + k)) \<and> user_entry (mm s') (0x400000 + k) \<and>
        (dir_of (0x400000 + k) < dir_of 0xC0000000 \<longrightarrow> user_page (mm s') (0x400000 + k))", of 2] module_in_3_file(4) by simp
  then show ?thesis using t unfolding module_loaded_def module_in_3_file by auto
qed

end
