(* ===== verification/Console.thy ===== *)
theory Console
  imports Word_Lemmas
begin

text \<open>
  Output: the screen and serial port of \<^verbatim>\<open>src/x86/putc.c\<close> and the formatting of \<^verbatim>\<open>src/stdio.c\<close>. Characters are
  bytes. A string in memory is the list of the bytes from its address on; reading beyond the list faults.
\<close>

section \<open>The code\<close>

record cell_t =
  ch :: u8
  fg :: nat
  bg :: nat

text \<open>\<open>uart_ready\<close> is bit 5 of the line status register, which \<^verbatim>\<open>putchar\<close> polls; \<open>com1\<close> lists the bytes sent,
  latest first.\<close>

record console_t =
  screen :: "cell_t list"
  cursor :: u32
  uart_ready :: bool
  com1 :: "u8 list"

abbreviation tab_width :: u32 where "tab_width \<equiv> 4"
abbreviation line_width :: u32 where "line_width \<equiv> 80"
abbreviation line_count :: u32 where "line_count \<equiv> 25"

definition outb_com1 :: "console_t \<Rightarrow> u8 \<Rightarrow> console_t" where
  "outb_com1 con c = con\<lparr>com1 := c # com1 con\<rparr>"

function scroll :: "nat \<Rightarrow> cell_t list \<Rightarrow> cell_t list option" where
  "scroll i s =
     (if i < 25 * 80 then do {
        x \<leftarrow> (if i < (25 - 1) * 80 then arr_get s (i + 80) else do { x \<leftarrow> arr_get s i; Some (x\<lparr>ch := 32\<rparr>) });
        s \<leftarrow> arr_set s i x;
        scroll (i + 1) s }
      else Some s)"
  by pat_completeness auto
termination by (relation "measure (\<lambda>(i, _). 25 * 80 - i)") auto

declare scroll.simps [simp del]

definition putchar :: "console_t \<Rightarrow> u8 \<Rightarrow> console_t option" where
  "putchar con c = (if \<not> uart_ready con then None else do {
     let con = outb_com1 con c;
     con \<leftarrow>
       (if c = 10 then
          (let n = cursor con + line_width in Some (outb_com1 (con\<lparr>cursor := n - n mod line_width\<rparr>) 13))
        else if c = 9 then
          (let n = cursor con + tab_width in Some (con\<lparr>cursor := n - n mod tab_width\<rparr>))
        else if c = 13 then
          (let n = cursor con - (line_width - 1) in Some (con\<lparr>cursor := n + (line_width - n mod line_width)\<rparr>))
        else do {
          x \<leftarrow> arr_get (screen con) (unat (cursor con));
          s \<leftarrow> arr_set (screen con) (unat (cursor con)) (x\<lparr>ch := c\<rparr>);
          Some (con\<lparr>screen := s, cursor := cursor con + 1\<rparr>) });
     if cursor con \<ge> line_count * line_width then do {
       s \<leftarrow> scroll 0 (screen con);
       Some (con\<lparr>screen := s, cursor := cursor con - line_width\<rparr>) }
     else Some con })"

fun puts :: "console_t \<Rightarrow> u8 list \<Rightarrow> console_t option" where
  "puts con [] = None"
| "puts con (c # str) = (if c \<noteq> 0 then do { con \<leftarrow> putchar con c; puts con str } else Some con)"

definition digits :: "u8 list" where
  "digits = [48, 49, 50, 51, 52, 53, 54, 55, 56, 57, 97, 98, 99, 100, 101, 102]"

lemma length_digits: "length digits = 16"
  by (simp add: digits_def)

text \<open>The loop of \<^verbatim>\<open>itoa\<close>; \<open>s\<close> is what the buffer holds from \<^verbatim>\<open>s\<close> up to the terminator at index 64. The 65th
  character would be written in front of the buffer.\<close>

function itoa_loop :: "u32 \<Rightarrow> u32 \<Rightarrow> u32 \<Rightarrow> u8 list \<Rightarrow> u8 list option" where
  "itoa_loop n base width s =
     (if length s < 64 then do {
        d \<leftarrow> arr_get digits (unat (n mod base));
        let s = d # s;
        if of_nat (length s) < width \<or> n div base \<noteq> 0 then itoa_loop (n div base) base width s else Some s }
      else None)"
  by pat_completeness auto
termination by (relation "measure (\<lambda>(_, _, _, s). 64 - length s)") auto

declare itoa_loop.simps [simp del]

text \<open>The result is the string with its terminator; \<^term>\<open>Some []\<close> stands for the NULL pointer.\<close>

definition itoa :: "u32 \<Rightarrow> u32 \<Rightarrow> u32 \<Rightarrow> u8 list option" where
  "itoa n base width = (if base < 2 \<or> base > 16 then Some []
     else do { s \<leftarrow> itoa_loop n base width []; Some (s @ [0]) })"

fun read_width :: "u32 \<Rightarrow> u8 list \<Rightarrow> (u32 \<times> u8 list) option" where
  "read_width w [] = None"
| "read_width w (c # f) = (if c \<ge> 48 \<and> c \<le> 57 then read_width (w * 10 + ucast c - 48) f else Some (w, c # f))"

text \<open>The arguments of \<^verbatim>\<open>printf\<close>: words, and strings given by their bytes.\<close>

datatype va_arg = Word u32 | Text "u8 list"

fun va_word :: "va_arg list \<Rightarrow> (u32 \<times> va_arg list) option" where
  "va_word (Word w # as) = Some (w, as)"
| "va_word _ = None"

fun va_text :: "va_arg list \<Rightarrow> (u8 list \<times> va_arg list) option" where
  "va_text (Text s # as) = Some (s, as)"
| "va_text _ = None"

definition put_number :: "console_t \<Rightarrow> va_arg list \<Rightarrow> u32 \<Rightarrow> u32 \<Rightarrow> (console_t \<times> va_arg list) option" where
  "put_number con as base width = do {
     (n, as) \<leftarrow> va_word as;
     s \<leftarrow> itoa n base width;
     con \<leftarrow> puts con s;
     Some (con, as) }"

text \<open>The switch on the conversion character. Negating the least \<^verbatim>\<open>int\<close> overflows. The case of \<^verbatim>\<open>%o\<close> runs into the
  next one.\<close>

definition convert :: "console_t \<Rightarrow> va_arg list \<Rightarrow> u8 \<Rightarrow> u32 \<Rightarrow> (console_t \<times> va_arg list) option" where
  "convert con as c width =
     (if c = 105 then do {
        (n, as) \<leftarrow> va_word as;
        (con, n) \<leftarrow> (if sint n < 0 then if n = 0x80000000 then None
                     else do { con \<leftarrow> putchar con 45; Some (con, - n) } else Some (con, n));
        s \<leftarrow> itoa n 10 width;
        con \<leftarrow> puts con s;
        Some (con, as) }
      else if c = 117 then put_number con as 10 width
      else if c = 111 then do { (con, as) \<leftarrow> put_number con as 8 width; put_number con as 16 width }
      else if c = 120 then put_number con as 16 width
      else if c = 115 then do { (s, as) \<leftarrow> va_text as; con \<leftarrow> puts con s; Some (con, as) }
      else if c = 37 then do { con \<leftarrow> putchar con 37; Some (con, as) }
      else Some (con, as))"

lemma read_width_length: "read_width w f = Some (w', f') \<Longrightarrow> length f' \<le> length f"
  by (induction w f rule: read_width.induct) (auto split: if_splits)

definition skip_padding :: "u8 list \<Rightarrow> u8 list option" where
  "skip_padding f = (case f of [] \<Rightarrow> None | c # f' \<Rightarrow> Some (if c = 48 then f' else f))"

lemma skip_padding_length: "skip_padding f = Some f' \<Longrightarrow> length f' \<le> length f"
  by (auto simp: skip_padding_def split: list.splits if_splits)

function printf :: "console_t \<Rightarrow> u8 list \<Rightarrow> va_arg list \<Rightarrow> console_t option" where
  "printf con [] as = None"
| "printf con (c # f) as =
     (if c = 0 then Some con
      else if c = 37 then
        (case skip_padding f of None \<Rightarrow> None | Some f1 \<Rightarrow>
         case read_width 0 f1 of None \<Rightarrow> None | Some (width, f2) \<Rightarrow>
         case f2 of [] \<Rightarrow> None | x # f3 \<Rightarrow>
         case convert con as x width of None \<Rightarrow> None | Some (con', as') \<Rightarrow> printf con' f3 as')
      else (case putchar con c of None \<Rightarrow> None | Some con' \<Rightarrow> printf con' f as))"
  by pat_completeness auto
termination
  by (relation "measure (\<lambda>(_, f, _). length f)") (auto dest!: read_width_length skip_padding_length)

declare printf.simps [simp del]

text \<open>\<^verbatim>\<open>test_syscall\<close> of \<^verbatim>\<open>src/syscalls.c\<close> prints the string of its caller.\<close>

definition test_syscall :: "console_t \<Rightarrow> u8 list \<Rightarrow> (console_t \<times> u32) option" where
  "test_syscall con str = do { con \<leftarrow> printf con [37, 115, 0] [Text str]; Some (con, 17) }"

section \<open>Numbers\<close>

text \<open>The reference: the digits of a number, most significant first, padded with zeros.\<close>

fun base_digits :: "nat \<Rightarrow> nat \<Rightarrow> nat list" where
  "base_digits b n = (if n < b \<or> b < 2 then [n] else base_digits b (n div b) @ [n mod b])"

declare base_digits.simps [simp del]

definition numeral_text :: "nat \<Rightarrow> nat \<Rightarrow> nat \<Rightarrow> u8 list" where
  "numeral_text b w n = (let ds = base_digits b n in map ((!) digits) (replicate (w - length ds) 0 @ ds))"

lemma base_digits_value: "b \<ge> 2 \<Longrightarrow> foldl (\<lambda>a d. a * b + d) 0 (base_digits b n) = n"
  by (induction b n rule: base_digits.induct) (auto simp: base_digits.simps [of _ n for n])

lemma base_digits_less: "b \<ge> 2 \<Longrightarrow> d \<in> set (base_digits b n) \<Longrightarrow> d < b"
proof (induction b n rule: base_digits.induct)
  case (1 b n)
  then show ?case by (subst (asm) (2) base_digits.simps) (auto split: if_splits)
qed

lemma base_digits_not_Nil [simp]: "base_digits b n \<noteq> []"
  by (subst base_digits.simps) simp

text \<open>A number below \<open>2 ^ k\<close> leaves room in what is left of the buffer.\<close>

lemma itoa_loop_text:
  assumes "2 \<le> unat base" "unat base \<le> 16" "unat width \<le> 64" "length s < 64" "unat n < 2 ^ (64 - length s)"
  shows "itoa_loop n base width s =
    Some (map ((!) digits) (replicate (unat width - length s - length (base_digits (unat base) (unat n))) 0 @ base_digits (unat base) (unat n)) @ s)"
  using assms
proof (induction n base width s rule: itoa_loop.induct)
  case (1 n base width s)
  let ?b = "unat base" and ?d = "digits ! (unat n mod unat base)"
  have l: "unat (of_nat (Suc (length s)) :: u32) = Suc (length s)" using 1(5) by (simp add: unat_of_nat del: of_nat_Suc)
  have d: "arr_get digits (unat (n mod base)) = Some ?d"
  proof -
    have "unat n mod ?b < 16" using 1(2,3) by (intro less_le_trans [OF mod_less_divisor]) auto
    then show ?thesis by (simp add: arr_get_def unat_mod_distrib) (simp add: digits_def)
  qed
  have div: "unat (n div base) = unat n div ?b" by (simp add: unat_div_distrib)
  have small: "unat n div ?b < 2 ^ (64 - length (?d # s))"
  proof -
    have "unat n div ?b \<le> unat n div 2" using 1(2) by (rule div_le_mono2 [rotated]) simp
    also have "\<dots> < 2 ^ (63 - length s)" using 1(5,6) by (simp add: Suc_diff_le [symmetric] less_mult_imp_div_less Suc_diff_Suc flip: power_Suc2)
    finally show ?thesis by simp
  qed
  have step: "itoa_loop n base width s = (if Suc (length s) < unat width \<or> unat n div ?b \<noteq> 0
      then itoa_loop (n div base) base width (?d # s) else Some (?d # s))"
    using 1(5) d l div unfolding itoa_loop.simps [of n base width s] by (simp add: word_less_nat_alt word_unat_eq_iff del: of_nat_Suc)
  show ?case
  proof (cases "Suc (length s) < unat width \<or> unat n div ?b \<noteq> 0")
    case False
    then have "unat n < ?b" "unat width - length s - 1 = 0" using 1(2) by (auto simp: div_eq_0_iff)
    then show ?thesis using step False by (simp add: base_digits.simps)
  next
    case True
    have "length (?d # s) < 64"
    proof (rule ccontr)
      assume "\<not> length (?d # s) < 64"
      then have "length s = 63" using 1(5) by simp
      then show False using True small 1(4) by simp
    qed
    moreover have "of_nat (length (?d # s)) < width \<or> n div base \<noteq> 0" using True l div by (auto simp: word_less_nat_alt word_unat_eq_iff)
    ultimately have "itoa_loop (n div base) base width (?d # s) =
      Some (map ((!) digits) (replicate (unat width - length (?d # s) - length (base_digits ?b (unat n div ?b))) 0 @ base_digits ?b (unat n div ?b)) @ ?d # s)"
      using 1(1) [OF 1(5) d refl] 1(2-4) small div by simp
    moreover have "base_digits ?b (unat n) = (if unat n < ?b then [unat n] else base_digits ?b (unat n div ?b) @ [unat n mod ?b])"
      using 1(2) by (subst base_digits.simps) auto
    moreover have "replicate (unat width - length s - 2) (digits ! 0) @ [digits ! 0] = replicate (unat width - length s - 1) (digits ! 0)" if "unat n < ?b"
      using True that by (simp add: replicate_append_same Suc_diff_le flip: replicate_Suc)
    ultimately show ?thesis using step True by (auto simp: base_digits.simps [of ?b 0])
  qed
qed

lemma itoa_text:
  assumes "2 \<le> unat base" "unat base \<le> 16" "unat width \<le> 64"
  shows "itoa n base width = Some (numeral_text (unat base) (unat width) (unat n) @ [0])"
proof -
  have "unat n < 2 ^ 64" by (rule less_trans [OF unat_u32]) simp
  then show ?thesis using assms itoa_loop_text [OF assms, of "[]" n]
    by (simp add: itoa_def numeral_text_def word_less_nat_alt Let_def)
qed

lemma numeral_text_chars:
  assumes "2 \<le> b" "b \<le> 16" "c \<in> set (numeral_text b w n)"
  shows "c \<in> set digits"
proof -
  from assms(3) obtain d where d: "d = 0 \<or> d \<in> set (base_digits b n)" "c = digits ! d"
    by (auto simp: numeral_text_def Let_def split: if_splits)
  then have "d < 16" using base_digits_less [OF assms(1)] assms(2) by fastforce
  then show ?thesis using d(2) nth_mem [of d digits] by (simp add: length_digits)
qed

section \<open>The screen\<close>

text \<open>The screen page has 2048 cells, of which the cursor stays in the first 2000.\<close>

definition console_ok :: "console_t \<Rightarrow> bool" where
  "console_ok con \<longleftrightarrow> length (screen con) = 2048 \<and> unat (cursor con) < 2000 \<and> uart_ready con"

lemma scroll_from:
  assumes "length s = 2048" "i \<le> 2000"
  shows "\<exists>s'. scroll i s = Some s' \<and> length s' = 2048 \<and> (\<forall>j<2048. s' ! j =
    (if i \<le> j \<and> j < 1920 then s ! (j + 80) else if i \<le> j \<and> j < 2000 then (s ! j)\<lparr>ch := 32\<rparr> else s ! j))"
  using assms
proof (induction i s rule: scroll.induct)
  case (1 i s)
  show ?case
  proof (cases "i < 2000")
    case True
    let ?x = "if i < 1920 then s ! (i + 80) else (s ! i)\<lparr>ch := 32\<rparr>"
    have x: "(if i < 1920 then arr_get s (i + 80) else do { x \<leftarrow> arr_get s i; Some (x\<lparr>ch := 32\<rparr>) }) = Some ?x"
      using True 1(2) by simp
    have st: "scroll i s = scroll (i + 1) (s[i := ?x])"
      unfolding scroll.simps [of i s] using True 1(2) x by simp
    from 1(1) [of ?x "s[i := ?x]"] True x 1(2) obtain s' where s': "scroll (i + 1) (s[i := ?x]) = Some s'" "length s' = 2048"
      "\<forall>j<2048. s' ! j = (if i + 1 \<le> j \<and> j < 1920 then s[i := ?x] ! (j + 80) else if i + 1 \<le> j \<and> j < 2000 then (s[i := ?x] ! j)\<lparr>ch := 32\<rparr> else s[i := ?x] ! j)"
      by auto
    show ?thesis
    proof (intro exI [of _ s'] conjI allI impI)
      fix j :: nat
      assume "j < 2048"
      then show "s' ! j = (if i \<le> j \<and> j < 1920 then s ! (j + 80) else if i \<le> j \<and> j < 2000 then (s ! j)\<lparr>ch := 32\<rparr> else s ! j)"
        using s'(3) True 1(2) by (cases "j = i") (auto simp: nth_list_update)
    qed (use st s' in auto)
  next
    case False
    then show ?thesis using 1(2,3) by (subst scroll.simps) auto
  qed
qed

text \<open>Where the cursor goes after a character, before the screen scrolls.\<close>

definition advance :: "u8 \<Rightarrow> nat \<Rightarrow> nat" where
  "advance c n = (if c = 10 then (n + 80) div 80 * 80 else if c = 9 then (n + 4) div 4 * 4 else n + 1)"

lemma round_down:
  assumes "unat (n :: u32) + unat w < 2 ^ 32"
  shows "n + w - (n + w) mod w = of_nat ((unat n + unat w) div unat w * unat w)"
proof -
  have u: "unat (n + w) = unat n + unat w" using unat_add_le [OF assms] .
  have "unat (n + w - (n + w) mod w) = unat (n + w) - unat (n + w) mod unat w"
    by (subst unat_sub) (simp_all only: word_le_nat_alt unat_mod_distrib mod_less_eq_dividend)
  then have "unat (n + w - (n + w) mod w) = (unat n + unat w) div unat w * unat w" by (simp only: u minus_mod_eq_div_mult)
  then have "of_nat (unat (n + w - (n + w) mod w)) = (of_nat ((unat n + unat w) div unat w * unat w) :: u32)" by (rule arg_cong)
  then show ?thesis by simp
qed

lemma advance_le: "n < 2000 \<Longrightarrow> advance c n \<le> 2079"
  using div_times_less_eq_dividend [of "n + 80" 80] div_times_less_eq_dividend [of "n + 4" 4] by (auto simp: advance_def)

lemma putchar_cases:
  assumes ok: "console_ok con" and c: "c \<noteq> 13"
  shows "\<exists>s. putchar con c = Some (con\<lparr>com1 := (if c = 10 then [13, 10] else [c]) @ com1 con, screen := s,
      cursor := of_nat (if advance c (unat (cursor con)) < 2000 then advance c (unat (cursor con)) else advance c (unat (cursor con)) - 80)\<rparr>) \<and>
    length s = 2048"
proof -
  let ?n = "unat (cursor con)"
  let ?a = "advance c ?n"
  have n: "?n < 2000" "uart_ready con" "length (screen con) = 2048" using ok by (auto simp: console_ok_def)
  define s1 where "s1 = (if c = 10 \<or> c = 9 then screen con else (screen con)[?n := (screen con ! ?n)\<lparr>ch := c\<rparr>])"
  define con1 where "con1 = con\<lparr>com1 := (if c = 10 then [13, 10] else [c]) @ com1 con, screen := s1, cursor := of_nat ?a\<rparr>"
  have l1: "length s1 = 2048" using n by (simp add: s1_def)
  have cur: "cursor con + 80 - (cursor con + 80) mod 80 = of_nat ((?n + 80) div 80 * 80)"
    "cursor con + 4 - (cursor con + 4) mod 4 = of_nat ((?n + 4) div 4 * 4)" "cursor con + 1 = of_nat (?n + 1)"
    using round_down [of "cursor con" 80] round_down [of "cursor con" 4] n(1) by simp_all
  have a: "unat (of_nat ?a :: u32) = ?a" using advance_le [OF n(1), of c] by (simp add: unat_of_nat)
  have "putchar con c = (if (of_nat ?a :: u32) \<ge> line_count * line_width then do {
       s \<leftarrow> scroll 0 (screen con1);
       Some (con1\<lparr>screen := s, cursor := of_nat ?a - line_width\<rparr>) }
     else Some con1)"
    using n c by (simp add: putchar_def con1_def s1_def outb_com1_def Let_def cur advance_def)
  moreover have "(of_nat ?a :: u32) \<ge> line_count * line_width \<longleftrightarrow> \<not> ?a < 2000" using a by (simp add: word_le_nat_alt not_less)
  moreover obtain s2 where "scroll 0 s1 = Some s2" "length s2 = 2048" using scroll_from [OF l1, of 0] by auto
  moreover have "of_nat ?a - line_width = (of_nat (?a - 80) :: u32)" if "\<not> ?a < 2000" using that by (simp add: of_nat_diff)
  ultimately show ?thesis using l1 by (auto simp: con1_def)
qed

lemma putchar_ok:
  assumes "console_ok con" "c \<noteq> 13"
  obtains con' where "putchar con c = Some con'" "console_ok con'" "com1 con' = (if c = 10 then [13, 10] else [c]) @ com1 con"
proof -
  from putchar_cases [OF assms] obtain s where s: "length s = 2048"
    "putchar con c = Some (con\<lparr>com1 := (if c = 10 then [13, 10] else [c]) @ com1 con, screen := s,
      cursor := of_nat (if advance c (unat (cursor con)) < 2000 then advance c (unat (cursor con)) else advance c (unat (cursor con)) - 80)\<rparr>)" by blast
  have "unat (cursor con) < 2000" "uart_ready con" using assms(1) by (auto simp: console_ok_def)
  then have "(if advance c (unat (cursor con)) < 2000 then advance c (unat (cursor con)) else advance c (unat (cursor con)) - 80) < 2000"
    using advance_le [of "unat (cursor con)" c] by auto
  then show thesis using that [OF s(2)] s(1) \<open>uart_ready con\<close> by (simp add: console_ok_def unat_of_nat)
qed

text \<open>What the serial line carries for a text, latest byte first.\<close>

definition wire :: "u8 list \<Rightarrow> u8 list" where
  "wire s = rev (concat (map (\<lambda>c. if c = 10 then [10, 13] else [c]) s))"

lemma wire_simps [simp]: "wire [] = []" "wire (s @ t) = wire t @ wire s" "wire (c # s) = wire s @ (if c = 10 then [13, 10] else [c])"
  by (simp_all add: wire_def)

definition plain :: "u8 list \<Rightarrow> bool" where
  "plain s \<longleftrightarrow> (\<forall>c\<in>set s. c \<noteq> 0 \<and> c \<noteq> 13)"

lemma puts_ok:
  assumes "console_ok con" "plain s"
  obtains con' where "puts con (s @ 0 # t) = Some con'" "console_ok con'" "com1 con' = wire s @ com1 con"
  using assms
proof (induction s arbitrary: con thesis)
  case Nil
  then show ?case by simp
next
  case (Cons c s)
  then have "c \<noteq> 13" "c \<noteq> 0" "plain s" by (auto simp: plain_def)
  from Cons.prems(2) \<open>c \<noteq> 13\<close> obtain con1 where c1: "putchar con c = Some con1" "console_ok con1" "com1 con1 = (if c = 10 then [13, 10] else [c]) @ com1 con"
    by (rule putchar_ok)
  from Cons.IH [OF _ c1(2) \<open>plain s\<close>] obtain con2 where "puts con1 (s @ 0 # t) = Some con2" "console_ok con2" "com1 con2 = wire s @ com1 con1" by blast
  then show ?case using Cons.prems(1) c1 \<open>c \<noteq> 0\<close> by simp
qed

lemma plain_digits: assumes "2 \<le> b" "b \<le> 16" shows "plain (numeral_text b w n)"
proof -
  have "\<forall>c\<in>set digits. c \<noteq> 0 \<and> c \<noteq> 13" by (simp add: digits_def)
  then show ?thesis using numeral_text_chars [OF assms] by (auto simp: plain_def)
qed

lemma put_number_ok:
  assumes "console_ok con" "2 \<le> unat base" "unat base \<le> 16" "unat width \<le> 64"
  obtains con' where "put_number con (Word n # as) base width = Some (con', as)" "console_ok con'"
    "com1 con' = wire (numeral_text (unat base) (unat width) (unat n)) @ com1 con"
proof -
  obtain con' where "puts con (numeral_text (unat base) (unat width) (unat n) @ [0]) = Some con'" "console_ok con'"
    "com1 con' = wire (numeral_text (unat base) (unat width) (unat n)) @ com1 con"
    using puts_ok [OF assms(1) plain_digits [OF assms(2,3)]] by blast
  then show thesis using that itoa_text [OF assms(2-4), of n] by (simp add: put_number_def)
qed

section \<open>Formats\<close>

text \<open>A format as a list of its parts, each with the argument it uses. The width is given by its digits.\<close>

datatype piece = Lit u8 | Signed "u8 list" u32 | Unsigned "u8 list" u32 | Hex "u8 list" u32 | Str "u8 list" | Percent

fun format_of :: "piece \<Rightarrow> u8 list" where
  "format_of (Lit c) = [c]"
| "format_of (Signed w n) = 37 # w @ [105]"
| "format_of (Unsigned w n) = 37 # w @ [117]"
| "format_of (Hex w n) = 37 # w @ [120]"
| "format_of (Str s) = [37, 115]"
| "format_of Percent = [37, 37]"

fun args_of :: "piece \<Rightarrow> va_arg list" where
  "args_of (Signed w n) = [Word n]"
| "args_of (Unsigned w n) = [Word n]"
| "args_of (Hex w n) = [Word n]"
| "args_of (Str s) = [Text (s @ [0])]"
| "args_of _ = []"

definition width_of :: "u8 list \<Rightarrow> nat" where
  "width_of w = foldl (\<lambda>a c. a * 10 + (unat c - 48)) 0 w"

fun text_of :: "piece \<Rightarrow> u8 list" where
  "text_of (Lit c) = [c]"
| "text_of (Signed w n) = (if sint n < 0 then 45 # numeral_text 10 (width_of w) (nat (- sint n)) else numeral_text 10 (width_of w) (nat (sint n)))"
| "text_of (Unsigned w n) = numeral_text 10 (width_of w) (unat n)"
| "text_of (Hex w n) = numeral_text 16 (width_of w) (unat n)"
| "text_of (Str s) = s"
| "text_of Percent = [37]"

definition width_ok :: "u8 list \<Rightarrow> bool" where
  "width_ok w \<longleftrightarrow> length w \<le> 2 \<and> (\<forall>c\<in>set w. 48 \<le> c \<and> c \<le> 57) \<and> width_of w \<le> 64"

fun piece_ok :: "piece \<Rightarrow> bool" where
  "piece_ok (Lit c) = (c \<noteq> 0 \<and> c \<noteq> 13 \<and> c \<noteq> 37)"
| "piece_ok (Signed w n) = (width_ok w \<and> n \<noteq> 0x80000000)"
| "piece_ok (Unsigned w n) = width_ok w"
| "piece_ok (Hex w n) = width_ok w"
| "piece_ok (Str s) = plain s"
| "piece_ok Percent = True"

lemma sint_unat: "0 \<le> sint (n :: u32) \<Longrightarrow> unat n = nat (sint n)" "sint (n :: u32) < 0 \<Longrightarrow> unat (- n) = nat (- sint n)"
proof -
  have b: "- (2 ^ 31) \<le> sint n" "sint n < 2 ^ 31" using sint_greater_eq [of n] sint_less [of n] by simp_all
  have u: "unat (of_int k :: u32) = nat k" if "0 \<le> k" "k < 2 ^ 32" for k
    unfolding unat_eq_nat_uint uint_word_of_int_eq by (subst take_bit_int_eq_self) (use that in auto)
  show "0 \<le> sint n \<Longrightarrow> unat n = nat (sint n)" using u [of "sint n"] b by simp
  show "sint n < 0 \<Longrightarrow> unat (- n) = nat (- sint n)" using u [of "- sint n"] b by simp
qed

lemma read_width_digits:
  assumes "\<forall>c\<in>set w. 48 \<le> c \<and> c \<le> 57" "\<not> (48 \<le> x \<and> x \<le> 57)"
  shows "read_width (of_nat a) (w @ x # f) = Some (of_nat (foldl (\<lambda>a c. a * 10 + (unat c - 48)) a w), x # f)"
  using assms(1)
proof (induction w arbitrary: a)
  case Nil
  then show ?case using assms(2) by auto
next
  case (Cons c w)
  have "(ucast c :: u32) = of_nat (unat c)" by simp
  moreover have "48 \<le> unat c" using Cons.prems by (simp add: word_le_nat_alt)
  ultimately have e: "of_nat a * 10 + ucast c - 48 = (of_nat (a * 10 + (unat c - 48)) :: u32)" by (simp add: of_nat_diff)
  have "read_width (of_nat a) ((c # w) @ x # f) = read_width (of_nat (a * 10 + (unat c - 48))) (w @ x # f)"
    by (subst e [symmetric]) (use Cons.prems in simp)
  moreover have "\<forall>c\<in>set w. 48 \<le> c \<and> c \<le> 57" using Cons.prems by simp
  ultimately show ?case using Cons.IH [of "a * 10 + (unat c - 48)"] by (simp only: foldl_Cons simp_thms)
qed

lemma read_format_width:
  assumes "width_ok w" "\<not> (48 \<le> x \<and> x \<le> 57)"
  obtains f1 where "skip_padding (w @ x # f) = Some f1" "read_width 0 f1 = Some (of_nat (width_of w), x # f)"
    "unat (of_nat (width_of w) :: u32) = width_of w" "width_of w \<le> 64"
proof -
  have d: "\<forall>c\<in>set w. 48 \<le> c \<and> c \<le> 57" "width_of w \<le> 64" using assms(1) by (auto simp: width_ok_def)
  then have u: "unat (of_nat (width_of w) :: u32) = width_of w" by (simp add: unat_of_nat)
  show thesis
  proof (cases "\<exists>w'. w = 48 # w'")
    case True
    then obtain w' where "w = 48 # w'" by blast
    then show thesis using that read_width_digits [of w' x 0 f] d u assms(2) by (simp add: skip_padding_def width_of_def)
  next
    case False
    then have "skip_padding (w @ x # f) = Some (w @ x # f)" using assms(2) by (cases w) (auto simp: skip_padding_def)
    then show thesis using that read_width_digits [OF d(1) assms(2), of 0 f] d u by (simp add: width_of_def)
  qed
qed

text \<open>A conversion with a width: what \<^verbatim>\<open>printf\<close> does when it meets one.\<close>

lemma printf_conversion:
  assumes "width_ok w" "\<not> (48 \<le> x \<and> x \<le> 57)" "convert con as x (of_nat (width_of w)) = Some (con', as')"
  shows "printf con (37 # w @ x # f) as = printf con' f as'"
proof -
  obtain f1 where "skip_padding (w @ x # f) = Some f1" "read_width 0 f1 = Some (of_nat (width_of w), x # f)"
    using read_format_width [OF assms(1,2)] by blast
  then show ?thesis using assms(3) by (simp add: printf.simps(2) [of con 37])
qed

lemma width_ok_Nil [simp]: "width_ok []" "width_of [] = 0"
  by (simp_all add: width_ok_def width_of_def)

lemma width_unat: "width_ok w \<Longrightarrow> unat (of_nat (width_of w) :: u32) = width_of w \<and> width_of w \<le> 64"
  by (simp add: width_ok_def unat_of_nat)

lemma convert_signed:
  assumes ok: "console_ok con" and w: "width_ok w" and n: "n \<noteq> 0x80000000"
  obtains con' where "convert con (Word n # as) 105 (of_nat (width_of w)) = Some (con', as)" "console_ok con'"
    "com1 con' = wire (text_of (Signed w n)) @ com1 con"
proof (cases "sint n < 0")
  case True
  obtain con1 where c1: "putchar con 45 = Some con1" "console_ok con1" "com1 con1 = 45 # com1 con"
    using putchar_ok [OF ok, of 45] by auto
  from put_number_ok [OF c1(2), of 10 "of_nat (width_of w)" "- n" as] width_unat [OF w] obtain con' where
    "put_number con1 (Word (- n) # as) 10 (of_nat (width_of w)) = Some (con', as)" "console_ok con'"
    "com1 con' = wire (numeral_text 10 (width_of w) (unat (- n))) @ com1 con1" by auto
  then show thesis using that True n c1 sint_unat(2) [OF True] by (auto simp: convert_def put_number_def split: Option.bind_splits)
next
  case False
  from put_number_ok [OF ok, of 10 "of_nat (width_of w)" n as] width_unat [OF w] obtain con' where
    "put_number con (Word n # as) 10 (of_nat (width_of w)) = Some (con', as)" "console_ok con'"
    "com1 con' = wire (numeral_text 10 (width_of w) (unat n)) @ com1 con" by auto
  then show thesis using that False sint_unat(1) [of n] by (auto simp: convert_def put_number_def split: Option.bind_splits)
qed

lemma printf_piece:
  assumes ok: "console_ok con" "piece_ok p"
  obtains con' where "printf con (format_of p @ f) (args_of p @ as) = printf con' f as" "console_ok con'"
    "com1 con' = wire (text_of p) @ com1 con"
proof (cases p)
  case (Lit c)
  then have "c \<noteq> 0" "c \<noteq> 13" "c \<noteq> 37" using ok(2) by simp_all
  moreover obtain con' where "putchar con c = Some con'" "console_ok con'" "com1 con' = (if c = 10 then [13, 10] else [c]) @ com1 con"
    using putchar_ok [OF ok(1) \<open>c \<noteq> 13\<close>] by blast
  ultimately show thesis using that [of con'] Lit by (simp add: printf.simps(2) [of con c])
next
  case (Signed w n)
  with ok obtain con' where c: "convert con (Word n # as) 105 (of_nat (width_of w)) = Some (con', as)" "console_ok con'"
    "com1 con' = wire (text_of (Signed w n)) @ com1 con" using convert_signed [OF ok(1)] by (metis piece_ok.simps(2))
  with printf_conversion [of w 105 con _ con' as f] that Signed ok(2) show thesis by auto
next
  case (Unsigned w n)
  with put_number_ok [OF ok(1), of 10 "of_nat (width_of w)" n as] width_unat [of w] ok(2) obtain con' where
    c: "put_number con (Word n # as) 10 (of_nat (width_of w)) = Some (con', as)" "console_ok con'"
    "com1 con' = wire (numeral_text 10 (width_of w) (unat n)) @ com1 con" by auto
  with printf_conversion [of w 117 con _ con' as f] that Unsigned ok(2) show thesis by (auto simp: convert_def)
next
  case (Hex w n)
  with put_number_ok [OF ok(1), of 16 "of_nat (width_of w)" n as] width_unat [of w] ok(2) obtain con' where
    c: "put_number con (Word n # as) 16 (of_nat (width_of w)) = Some (con', as)" "console_ok con'"
    "com1 con' = wire (numeral_text 16 (width_of w) (unat n)) @ com1 con" by auto
  with printf_conversion [of w 120 con _ con' as f] that Hex ok(2) show thesis by (auto simp: convert_def)
next
  case (Str s)
  then have "plain s" using ok(2) by simp
  with puts_ok [OF ok(1)] obtain con' where "puts con (s @ [0]) = Some con'" "console_ok con'" "com1 con' = wire s @ com1 con" by blast
  with printf_conversion [of "[]" 115 con "Text (s @ [0]) # as" con' as f] that Str show thesis by (auto simp: convert_def)
next
  case Percent
  obtain con' where "putchar con 37 = Some con'" "console_ok con'" "com1 con' = 37 # com1 con" using putchar_ok [OF ok(1), of 37] by auto
  with printf_conversion [of "[]" 37 con as con' as f] that Percent show thesis by (auto simp: convert_def)
qed

section \<open>Properties\<close>

text \<open>\<^verbatim>\<open>itoa\<close> for every base it accepts and every width up to 64 (the size of its buffer): the digits of the number,
  without superfluous zeros except as padding to the width, and the buffer is not exceeded. In other
  bases it returns NULL.\<close>

theorem itoa_spec:
  assumes "unat width \<le> 64"
  shows "itoa n base width = Some (if 2 \<le> unat base \<and> unat base \<le> 16 then numeral_text (unat base) (unat width) (unat n) @ [0] else [])"
  using itoa_text [OF _ _ assms] by (auto simp: itoa_def word_less_nat_alt)

theorem itoa_spec_witness: "itoa 1234 10 6 = Some [48, 48, 49, 50, 51, 52, 0]"
proof -
  have "numeral_text 10 6 1234 = [48, 48, 49, 50, 51, 52]"
  proof -
    have "base_digits 10 1234 = [1, 2, 3, 4]"
      by (simp add: base_digits.simps [of 10 1234] base_digits.simps [of 10 123] base_digits.simps [of 10 12] base_digits.simps [of 10 "Suc 0"])
    then show ?thesis by (simp add: numeral_text_def digits_def) (simp add: eval_nat_numeral)
  qed
  with itoa_spec [of 6 1234 10] show ?thesis by simp
qed

lemma printf_pieces:
  assumes "console_ok con" "\<forall>p\<in>set ps. piece_ok p"
  shows "\<exists>con'. printf con (concat (map format_of ps) @ [0]) (concat (map args_of ps)) = Some con' \<and> console_ok con' \<and>
    com1 con' = wire (concat (map text_of ps)) @ com1 con"
  using assms
proof (induction ps arbitrary: con)
  case Nil
  then show ?case by (simp add: printf.simps)
next
  case (Cons p ps)
  then obtain con1 where c: "printf con (format_of p @ concat (map format_of ps) @ [0]) (args_of p @ concat (map args_of ps)) =
      printf con1 (concat (map format_of ps) @ [0]) (concat (map args_of ps))" "console_ok con1" "com1 con1 = wire (text_of p) @ com1 con"
    using printf_piece [OF Cons.prems(1), of p] by (metis list.set_intros(1))
  with Cons.IH [OF c(2)] Cons.prems(2) show ?case by auto
qed

text \<open>C37. \<^verbatim>\<open>printf\<close> returns for every format of literal characters and conversions \<open>%i %u %x %s %%\<close>, with widths up to 64
  and fitting arguments, as long as no carriage return is printed: the serial line gets the formatted text
  (each newline followed by a carriage return) and the cursor stays on the screen.\<close>

theorem printf_spec:
  assumes "console_ok con" "\<forall>p\<in>set ps. piece_ok p"
  shows "\<exists>con'. printf con (concat (map format_of ps) @ [0]) (concat (map args_of ps)) = Some con' \<and> console_ok con' \<and>
    com1 con' = wire (concat (map text_of ps)) @ com1 con"
  using printf_pieces [OF assms] .

definition blank_console :: console_t where
  "blank_console = \<lparr>screen = replicate 2048 \<lparr>ch = 32, fg = 7, bg = 0\<rparr>, cursor = 0, uart_ready = True, com1 = []\<rparr>"

theorem printf_spec_witness:
  "\<exists>con'. printf blank_console [65, 37, 48, 56, 120, 10, 0] [Word 0xBEEF] = Some con' \<and> console_ok con' \<and>
     rev (com1 con') = [65, 48, 48, 48, 48, 98, 101, 101, 102, 10, 13]"
proof -
  have "console_ok blank_console" by (simp add: console_ok_def blank_console_def)
  moreover have "\<forall>p\<in>set [Lit 65, Hex [48, 56] 0xBEEF, Lit 10]. piece_ok p" by (simp add: width_ok_def width_of_def)
  moreover have "numeral_text 16 8 48879 = [48, 48, 48, 48, 98, 101, 101, 102]"
  proof -
    have "base_digits 16 48879 = [11, 14, 14, 15]"
      by (simp add: base_digits.simps [of 16 48879] base_digits.simps [of 16 3054] base_digits.simps [of 16 190] base_digits.simps [of 16 11])
    then show ?thesis by (simp add: numeral_text_def digits_def) (simp add: eval_nat_numeral)
  qed
  ultimately show ?thesis using printf_spec [of blank_console "[Lit 65, Hex [48, 56] 0xBEEF, Lit 10]"]
    by (auto simp: width_of_def blank_console_def)
qed

text \<open>\<^verbatim>\<open>putchar\<close> keeps the cursor on the screen for every character but the carriage return; a carriage return on
  the first line sends it out of the screen, and the next character is stored outside of the array.\<close>

theorem putchar_cursor:
  assumes a: "console_ok con" "c \<noteq> 13"
  shows "\<exists>con'. putchar con c = Some con' \<and> console_ok con' \<and> com1 con' = (if c = 10 then [13, 10] else [c]) @ com1 con \<and>
     unat (cursor con') = (let a = advance c (unat (cursor con)) in if a < 2000 then a else a - 80)"
proof -
  from putchar_cases [OF a] obtain s where s: "putchar con c = Some (con\<lparr>com1 := (if c = 10 then [13, 10] else [c]) @ com1 con, screen := s,
      cursor := of_nat (if advance c (unat (cursor con)) < 2000 then advance c (unat (cursor con)) else advance c (unat (cursor con)) - 80)\<rparr>)" by blast
  obtain con' where c: "putchar con c = Some con'" "console_ok con'" "com1 con' = (if c = 10 then [13, 10] else [c]) @ com1 con"
    using putchar_ok [OF a] by blast
  have "advance c (unat (cursor con)) \<le> 2079" using a(1) advance_le by (simp add: console_ok_def)
  then have "unat (cursor con') = (let a = advance c (unat (cursor con)) in if a < 2000 then a else a - 80)"
    using s c(1) by (auto simp: unat_of_nat Let_def)
  with c show ?thesis by blast
qed

theorem putchar_cursor_witness:
  "\<exists>con'. putchar (blank_console\<lparr>cursor := 1999\<rparr>) 65 = Some con' \<and> console_ok con' \<and> unat (cursor con') = 1920"
proof -
  have "console_ok (blank_console\<lparr>cursor := 1999\<rparr>)" by (simp add: console_ok_def blank_console_def)
  from putchar_cursor [OF this, of 65] show ?thesis by (auto simp: advance_def)
qed

text \<open>A process can do this with \<^verbatim>\<open>test_syscall\<close>.\<close>

lemma test_syscall_carriage_return:
  assumes "console_ok con" "cursor con = 0"
  shows "test_syscall con [13, 65, 0] = None"
proof -
  have l: "length (screen con) = 2048" "uart_ready con" using assms(1) by (auto simp: console_ok_def)
  obtain s where s: "scroll 0 (screen con) = Some s" "length s = 2048" using scroll_from [OF l(1), of 0] by auto
  have "(0 :: u32) - (line_width - 1) + (line_width - (0 - (line_width - 1)) mod line_width) = 0xFFFFFFF0" by simp
  then have "puts con [13, 65, 0] = None" using assms l s by (simp add: putchar_def outb_com1_def Let_def arr_get_def)
  then show ?thesis by (simp add: test_syscall_def printf.simps skip_padding_def convert_def)
qed

text \<open>A carriage return on the first line takes the cursor to \<^verbatim>\<open>0xFFFFFFA0\<close>: the subtraction in \<^verbatim>\<open>putchar\<close> wraps
  around, and the next printable character is stored outside of the screen.\<close>

theorem putchar_carriage_return:
  assumes "console_ok con" "cursor con = 0"
  shows "\<exists>con'. putchar con 13 = Some con' \<and> cursor con' = 0xFFFFFFA0 \<and> putchar con' 65 = None"
proof -
  have l: "length (screen con) = 2048" "uart_ready con" using assms(1) by (auto simp: console_ok_def)
  obtain s where s: "scroll 0 (screen con) = Some s" "length s = 2048" using scroll_from [OF l(1), of 0] by auto
  have "(0 :: u32) - (line_width - 1) + (line_width - (0 - (line_width - 1)) mod line_width) = 0xFFFFFFF0" by simp
  then show ?thesis using assms l s by (simp add: putchar_def outb_com1_def Let_def arr_get_def)
qed

theorem putchar_carriage_return_witness: "\<exists>con'. putchar blank_console 13 = Some con' \<and> putchar con' 65 = None"
proof -
  have "console_ok blank_console" "cursor blank_console = 0" by (simp_all add: console_ok_def blank_console_def)
  from putchar_carriage_return [OF this] show ?thesis by blast
qed

end
