(* ===== verification/Apic.thy ===== *)
theory Apic
  imports Byte_Memory
begin

text \<open>
  Interrupt hardware: \<^verbatim>\<open>src/x86/apic.c\<close>, \<^verbatim>\<open>src/x86/msr.c\<close> and \<^verbatim>\<open>src/x86/interrupts.c\<close>. The two 8259 controllers and the local APIC are
  modelled as far as the code drives them: the initialisation sequence of a controller, and the registers of the local
  APIC, in which writing the low command word sends an interrupt. The registers are memory: the accesses go through the page tables.
\<close>

section \<open>Hardware\<close>

text \<open>A controller takes its initialisation words after a command with bit 4 set; other data is the mask.\<close>

record pic =
  pic_step :: nat
  pic_vector :: u8
  pic_cascade :: u8
  pic_mode :: u8
  pic_mask :: u8

definition pic_command :: "pic \<Rightarrow> u8 \<Rightarrow> pic" where
  "pic_command p v = (if bit v 4 then p\<lparr>pic_step := 1, pic_mask := 0\<rparr> else p)"

definition pic_data :: "pic \<Rightarrow> u8 \<Rightarrow> pic" where
  "pic_data p v = (if pic_step p = 1 then p\<lparr>pic_step := 2, pic_vector := v\<rparr>
     else if pic_step p = 2 then p\<lparr>pic_step := 3, pic_cascade := v\<rparr>
     else if pic_step p = 3 then p\<lparr>pic_step := 0, pic_mode := v\<rparr>
     else p\<lparr>pic_mask := v\<rparr>)"

text \<open>\<open>lapic\<close> are the registers by index (16 bytes each), \<open>ipis\<close> the interrupts sent: high and low command word, latest first.\<close>

record 'h board =
  core :: "'h machine"
  msrs :: "u32 \<Rightarrow> 64 word"
  master :: pic
  slave :: pic
  lapic :: "nat \<Rightarrow> u32"
  ipis :: "(u32 \<times> u32) list"
  irq_on :: bool

definition outb_pic :: "'h board \<Rightarrow> nat \<Rightarrow> u8 \<Rightarrow> 'h board" where
  "outb_pic b port v =
     (if port = 0x20 then b\<lparr>master := pic_command (master b) v\<rparr>
      else if port = 0x21 then b\<lparr>master := pic_data (master b) v\<rparr>
      else if port = 0xA0 then b\<lparr>slave := pic_command (slave b) v\<rparr>
      else if port = 0xA1 then b\<lparr>slave := pic_data (slave b) v\<rparr> else b)"

section \<open>Data\<close>

text \<open>\<^verbatim>\<open>struct apic_registers_t\<close>: the indices of the registers in use. \<^verbatim>\<open>struct apic_icr_t\<close> takes up two.\<close>

abbreviation REG_EOI :: nat where "REG_EOI \<equiv> 11"
abbreviation REG_DESTINATION_FORMAT :: nat where "REG_DESTINATION_FORMAT \<equiv> 14"
abbreviation REG_SPURIOUS_IV :: nat where "REG_SPURIOUS_IV \<equiv> 15"
abbreviation REG_COMMAND :: nat where "REG_COMMAND \<equiv> 48"

datatype apic_delivery_mode_t = DELIVERY_FIXED | DELIVERY_LOWEST_PRIORITY | DELIVERY_SMI | DELIVERY_NMI | DELIVERY_INIT | DELIVERY_SIPI | DELIVERY_EXTINIT

fun delivery_code :: "apic_delivery_mode_t \<Rightarrow> u32" where
  "delivery_code DELIVERY_FIXED = 0"
| "delivery_code DELIVERY_LOWEST_PRIORITY = 1"
| "delivery_code DELIVERY_SMI = 2"
| "delivery_code DELIVERY_NMI = 4"
| "delivery_code DELIVERY_INIT = 5"
| "delivery_code DELIVERY_SIPI = 6"
| "delivery_code DELIVERY_EXTINIT = 7"

datatype apic_destination_mode_t = DESTINATION_PHYSICAL | DESTINATION_LOGICAL
datatype apic_level_t = LEVEL_DEASSERT | LEVEL_ASSERT
datatype apic_trigger_mode_t = TRIGGER_EDGE | TRIGGER_LEVEL
datatype apic_destination_shorthand_t = SHORTHAND_NONE | SHORTHAND_SELF | SHORTHAND_ALL | SHORTHAND_OTHERS

fun shorthand_code :: "apic_destination_shorthand_t \<Rightarrow> u32" where
  "shorthand_code SHORTHAND_NONE = 0"
| "shorthand_code SHORTHAND_SELF = 1"
| "shorthand_code SHORTHAND_ALL = 2"
| "shorthand_code SHORTHAND_OTHERS = 3"

text \<open>\<^verbatim>\<open>struct apic_icr_t\<close>: its bit-fields, as the compiler packs them into the first and the fifth word.\<close>

definition icr_low :: "u32 \<Rightarrow> apic_delivery_mode_t \<Rightarrow> apic_destination_mode_t \<Rightarrow> apic_level_t \<Rightarrow> apic_trigger_mode_t \<Rightarrow> apic_destination_shorthand_t \<Rightarrow> u32" where
  "icr_low vector delivery dest level trigger shorthand =
     take_bit 8 vector OR push_bit 8 (take_bit 3 (delivery_code delivery)) OR push_bit 11 (of_bool (dest = DESTINATION_LOGICAL)) OR
     push_bit 14 (of_bool (level = LEVEL_ASSERT)) OR push_bit 15 (of_bool (trigger = TRIGGER_LEVEL)) OR
     push_bit 18 (take_bit 2 (shorthand_code shorthand))"

definition icr_high :: "u32 \<Rightarrow> u32" where
  "icr_high destination = push_bit 24 (take_bit 8 destination)"

text \<open>\<^verbatim>\<open>struct msr_apic_base_t\<close>: the field \<^verbatim>\<open>apic_base\<close> is the upper 52 bits.\<close>

abbreviation MSR_APIC_BASE :: u32 where "MSR_APIC_BASE \<equiv> 0x1B"

definition apic_base :: "64 word \<Rightarrow> 52 word" where
  "apic_base v = ucast (drop_bit 12 v)"

section \<open>The code\<close>

definition read_msr :: "'h board \<Rightarrow> u32 \<Rightarrow> 64 word" where
  "read_msr b msr_addr = msrs b msr_addr"

definition write_msr :: "'h board \<Rightarrow> u32 \<Rightarrow> 64 word \<Rightarrow> 'h board" where
  "write_msr b msr_addr v = b\<lparr>msrs := (msrs b)(msr_addr := v)\<rparr>"

text \<open>\<open>regs\<close> is the address of \<^verbatim>\<open>apic_registers\<close>. An access faults, or does not reach the device, unless the page is mapped to the
  frame that the device is at. Writing the low command word sends the interrupt that both words describe.\<close>

definition device_frame :: "'h board \<Rightarrow> frame" where
  "device_frame b = ucast (apic_base (msrs b MSR_APIC_BASE))"

definition apic_read :: "ptr \<Rightarrow> 'h board \<Rightarrow> nat \<Rightarrow> u32 option" where
  "apic_read regs b i =
     (if translate (mm (core b)) (regs + of_nat (16 * i)) False = Some (device_frame b) then Some (lapic b i) else None)"

definition apic_write :: "ptr \<Rightarrow> 'h board \<Rightarrow> nat \<Rightarrow> u32 \<Rightarrow> 'h board option" where
  "apic_write regs b i v =
     (if translate (mm (core b)) (regs + of_nat (16 * i)) True = Some (device_frame b)
      then Some (b\<lparr>lapic := (lapic b)(i := v), ipis := if i = REG_COMMAND then (lapic b (REG_COMMAND + 1), v) # ipis b else ipis b\<rparr>)
      else None)"

definition mask_pics :: "'h board \<Rightarrow> 'h board" where
  "mask_pics b = foldl (\<lambda>b (port, v). outb_pic b port v) b
     [(0x20, 0x11), (0xA0, 0x11), (0x21, 0x20), (0xA1, 0x28), (0x21, 4), (0xA1, 2), (0x21, 1), (0xA1, 1), (0xA1, 0xFF), (0x21, 0xFF)]"

text \<open>The status of \<^verbatim>\<open>map_page\<close> is ignored.\<close>

definition apic_enable :: "'h libmalloc \<Rightarrow> ptr \<Rightarrow> 'h board \<Rightarrow> 'h board option" where
  "apic_enable L regs b =
     (let b = mask_pics b;
          msr = read_msr b MSR_APIC_BASE
      in do {
        (s, _) \<leftarrow> map_page L (core b) regs (ucast (push_bit 12 (apic_base msr))) PAGE_RW;
        let b = b\<lparr>core := s\<rparr>;
        v \<leftarrow> apic_read regs b REG_SPURIOUS_IV;
        b \<leftarrow> apic_write regs b REG_SPURIOUS_IV (v OR 0x1FF);
        apic_write regs b REG_DESTINATION_FORMAT 0xFFFFFFFF })"

definition apic_eoi :: "ptr \<Rightarrow> 'h board \<Rightarrow> 'h board option" where
  "apic_eoi regs b = apic_write regs b REG_EOI 0"

definition apic_send_ipi ::
  "ptr \<Rightarrow> 'h board \<Rightarrow> u32 \<Rightarrow> apic_delivery_mode_t \<Rightarrow> apic_destination_mode_t \<Rightarrow> apic_level_t \<Rightarrow> apic_trigger_mode_t \<Rightarrow>
   apic_destination_shorthand_t \<Rightarrow> u32 \<Rightarrow> 'h board option" where
  "apic_send_ipi regs b vector delivery dest level trigger shorthand destination = do {
     b \<leftarrow> apic_write regs b (REG_COMMAND + 1) (icr_high destination);
     apic_write regs b REG_COMMAND (icr_low vector delivery dest level trigger shorthand) }"

definition irq_enable :: "'h board \<Rightarrow> 'h board" where "irq_enable b = b\<lparr>irq_on := True\<rparr>"
definition irq_disable :: "'h board \<Rightarrow> 'h board" where "irq_disable b = b\<lparr>irq_on := False\<rparr>"

definition initialize_interrupts :: "'h libmalloc \<Rightarrow> ptr \<Rightarrow> 'h board \<Rightarrow> ('h board \<times> u32) option" where
  "initialize_interrupts L regs b = do { b \<leftarrow> apic_enable L regs b; Some (b, 0) }"

section \<open>Interrupts between processors\<close>

text \<open>What the receiving side reads from the command words (Intel SDM, volume 3A, figure 10-12).\<close>

definition ipi_vector :: "u32 \<times> u32 \<Rightarrow> u8" where "ipi_vector c = ucast (snd c)"
definition ipi_delivery :: "u32 \<times> u32 \<Rightarrow> 3 word" where "ipi_delivery c = ucast (drop_bit 8 (snd c))"
definition ipi_logical :: "u32 \<times> u32 \<Rightarrow> bool" where "ipi_logical c = bit (snd c) 11"
definition ipi_assert :: "u32 \<times> u32 \<Rightarrow> bool" where "ipi_assert c = bit (snd c) 14"
definition ipi_level :: "u32 \<times> u32 \<Rightarrow> bool" where "ipi_level c = bit (snd c) 15"
definition ipi_shorthand :: "u32 \<times> u32 \<Rightarrow> 2 word" where "ipi_shorthand c = ucast (drop_bit 18 (snd c))"
definition ipi_destination :: "u32 \<times> u32 \<Rightarrow> u8" where "ipi_destination c = ucast (drop_bit 24 (fst c))"

lemmas ipi_defs = ipi_vector_def ipi_delivery_def ipi_logical_def ipi_assert_def ipi_level_def ipi_shorthand_def ipi_destination_def

lemma bit_icr_low:
  "bit (icr_low v d m l t s) n \<longleftrightarrow> n < 8 \<and> bit v n \<or> 8 \<le> n \<and> n < 11 \<and> bit (delivery_code d) (n - 8) \<or> n = 11 \<and> m = DESTINATION_LOGICAL
     \<or> n = 14 \<and> l = LEVEL_ASSERT \<or> n = 15 \<and> t = TRIGGER_LEVEL \<or> 18 \<le> n \<and> n < 20 \<and> bit (shorthand_code s) (n - 18)"
  unfolding icr_low_def bit_or_iff bit_push_bit_iff bit_take_bit_iff bit_of_bool_iff disj_assoc
  by (intro arg_cong2 [where f = "(\<or>)"]) auto

lemma bit_icr_high: "bit (icr_high d) n \<longleftrightarrow> 24 \<le> n \<and> n < 32 \<and> bit d (n - 24)"
  unfolding icr_high_def bit_push_bit_iff bit_take_bit_iff by auto

lemma icr_fields:
  "ipi_vector (h, icr_low v d m l t s) = ucast v" "ipi_delivery (h, icr_low v d m l t s) = ucast (delivery_code d)"
  "ipi_logical (h, icr_low v d m l t s) = (m = DESTINATION_LOGICAL)" "ipi_assert (h, icr_low v d m l t s) = (l = LEVEL_ASSERT)"
  "ipi_level (h, icr_low v d m l t s) = (t = TRIGGER_LEVEL)" "ipi_shorthand (h, icr_low v d m l t s) = ucast (shorthand_code s)"
  "ipi_destination (icr_high dst, w) = ucast dst"
proof -
  show "ipi_vector (h, icr_low v d m l t s) = ucast v" "ipi_delivery (h, icr_low v d m l t s) = ucast (delivery_code d)"
    "ipi_shorthand (h, icr_low v d m l t s) = ucast (shorthand_code s)" "ipi_destination (icr_high dst, w) = ucast dst"
    by (rule bit_word_eqI; simp add: ipi_defs bit_unsigned_iff bit_drop_bit_eq bit_icr_low bit_icr_high; arith?)+
qed (simp_all add: ipi_defs bit_icr_low)

text \<open>Writes to a register reach the device.\<close>

definition reaches :: "ptr \<Rightarrow> 'h board \<Rightarrow> nat \<Rightarrow> bool" where
  "reaches regs b i \<longleftrightarrow> translate (mm (core b)) (regs + of_nat (16 * i)) True = Some (device_frame b)"

text \<open>C38. \<^verbatim>\<open>apic_send_ipi\<close> with the registers mapped sends exactly one interrupt, and the receiving side reads from the command words what the
  caller passed: the low 8 bits of vector and destination, the modes, the level and the shorthand. The destination is in place when
  the low word is written, which is what sends the interrupt. Unmapped registers fault.\<close>

theorem apic_send_ipi_spec:
  "if reaches regs b REG_COMMAND \<and> reaches regs b (REG_COMMAND + 1)
   then \<exists>b' c. apic_send_ipi regs b vector delivery dest level trigger shorthand destination = Some b' \<and> ipis b' = c # ipis b \<and>
     core b' = core b \<and> ipi_vector c = ucast vector \<and> ipi_destination c = ucast destination \<and> ipi_delivery c = ucast (delivery_code delivery) \<and>
     ipi_logical c = (dest = DESTINATION_LOGICAL) \<and> ipi_assert c = (level = LEVEL_ASSERT) \<and> ipi_level c = (trigger = TRIGGER_LEVEL) \<and>
     ipi_shorthand c = ucast (shorthand_code shorthand)
   else apic_send_ipi regs b vector delivery dest level trigger shorthand destination = None"
  by (auto simp: apic_send_ipi_def apic_write_def device_frame_def icr_fields reaches_def)

section \<open>Turning interrupts on\<close>

lemma mask_pics_masked:
  "master (mask_pics b) = \<lparr>pic_step = 0, pic_vector = 0x20, pic_cascade = 4, pic_mode = 1, pic_mask = 0xFF\<rparr>"
  "slave (mask_pics b) = \<lparr>pic_step = 0, pic_vector = 0x28, pic_cascade = 2, pic_mode = 1, pic_mask = 0xFF\<rparr>"
  "core (mask_pics b) = core b" "msrs (mask_pics b) = msrs b" "lapic (mask_pics b) = lapic b"
  by (simp_all add: mask_pics_def outb_pic_def pic_command_def pic_data_def bit_numeral_rec numeral_eq_Suc)

lemma device_address: "frame_of (ucast (push_bit 12 (apic_base v))) = ucast (apic_base v)" "ucast (push_bit 12 (apic_base v)) mod page_size = 0"
proof -
  show "frame_of (ucast (push_bit 12 (apic_base v))) = ucast (apic_base v)"
    by (rule bit_word_eqI) (auto simp: frame_of_def apic_base_def bit_unsigned_iff bit_drop_bit_eq bit_push_bit_iff)
  have "take_bit 12 (ucast (push_bit 12 (apic_base v)) :: u32) = 0"
    by (rule bit_word_eqI) (auto simp: bit_unsigned_iff bit_take_bit_iff bit_push_bit_iff)
  then show "ucast (push_bit 12 (apic_base v)) mod page_size = 0" by (simp add: take_bit_eq_mod page_size_def)
qed

text \<open>\<^verbatim>\<open>initialize_interrupts\<close> in a well-formed address space with a free frame: it returns 0; both 8259 controllers are initialised, deliver
  from interrupts 0x20 and 0x28 on and have every input masked; and the local APIC's registers are mapped and can be written, with
  the APIC enabled and all else in the address space as before.\<close>

theorem initialize_interrupts_spec:
  assumes "libmalloc_count L used block_size avail" "frames_ok used block_size (core b)" "0 < avail (page_map (core b))"
    and "dir_of regs \<noteq> - 1" "regs mod page_size = 0"
  shows "\<exists>b'. initialize_interrupts L regs b = Some (b', 0) \<and> frames_ok used block_size (core b') \<and>
    master b' = \<lparr>pic_step = 0, pic_vector = 0x20, pic_cascade = 4, pic_mode = 1, pic_mask = 0xFF\<rparr> \<and>
    slave b' = \<lparr>pic_step = 0, pic_vector = 0x28, pic_cascade = 2, pic_mode = 1, pic_mask = 0xFF\<rparr> \<and>
    (\<forall>i<256. reaches regs b' i) \<and> lapic b' REG_SPURIOUS_IV = lapic b REG_SPURIOUS_IV OR 0x1FF \<and> bit (lapic b' REG_SPURIOUS_IV) 8 \<and>
    (\<forall>q w. dir_of q \<noteq> - 1 \<longrightarrow> \<not> on_page regs q \<longrightarrow> translate (mm (core b')) q w = translate (mm (core b)) q w)"
proof -
  let ?b = "mask_pics b" and ?f = "ucast (push_bit 12 (apic_base (msrs b MSR_APIC_BASE))) :: u32"
  note al = device_address(2) [of "msrs b MSR_APIC_BASE"]
  have lm: "libmalloc L used block_size" using assms(1) by (simp add: libmalloc_count_def)
  obtain s' where s': "map_page L (core b) regs ?f PAGE_RW = Some (s', error_code ENONE)"
    using libmalloc_count.map_page_avail [OF assms(1-4) al] by blast
  have m: "frames_ok used block_size s' \<and> (\<forall>q w. dir_of q \<noteq> - 1 \<longrightarrow> translate (mm s') q w =
    (if dir_of q = dir_of regs \<and> tab_of q = tab_of regs then Some (frame_of ?f) else translate (mm (core b)) q w))"
  proof (rule libmalloc.map_page_ok [OF lm assms(2,4) al, where flags = PAGE_RW], goal_cases)
    case (1 s1 e)
    then have eq: "s1 = s'" "e = error_code ENONE" using s' by auto
    have f: "(PAGE_RW :: u32) AND PAGE_RW \<noteq> 0" by simp
    show ?case using 1(2) 1(8) [OF eq(2)] f unfolding eq by presburger
  qed
  let ?c = "?b\<lparr>core := s'\<rparr>"
  have dev: "device_frame b' = frame_of ?f" if "msrs b' = msrs b" for b'
    by (simp only: device_frame_def that device_address(1))
  have r: "translate (mm s') (regs + of_nat (16 * i)) w = Some (frame_of ?f)" if "i < 256" for i w
  proof -
    have "of_nat (16 * i) < page_size" using that by (simp add: page_size_def word_less_nat_alt unat_of_nat del: of_nat_mult)
    from page_offset [OF assms(5) this] have "on_page regs (regs + of_nat (16 * i))" .
    then show ?thesis using m assms(4) on_page_same(3) [of regs] by auto
  qed
  define b1 where "b1 = ?c\<lparr>lapic := (lapic b)(REG_SPURIOUS_IV := lapic b REG_SPURIOUS_IV OR 0x1FF)\<rparr>"
  define b2 where "b2 = b1\<lparr>lapic := (lapic b1)(REG_DESTINATION_FORMAT := 0xFFFFFFFF)\<rparr>"
  have run: "initialize_interrupts L regs b = Some (b2, 0)"
    using s' r [of 14] r [of 15] dev [of ?c] dev [of b1]
    by (simp add: initialize_interrupts_def apic_enable_def read_msr_def mask_pics_masked apic_read_def apic_write_def b1_def b2_def)
  have "bit (0x1FF :: u32) 8" by (simp add: bit_numeral_rec)
  moreover have "\<forall>i<256. reaches regs b2 i"
    using r dev [of b2] by (simp add: reaches_def b2_def b1_def mask_pics_masked)
  ultimately show ?thesis using run m
    by (intro exI [of _ b2]) (auto simp: b2_def b1_def mask_pics_masked on_page_def bit_or_iff)
qed

text \<open>Witness: the APIC at its usual address, its registers to be at 0x400000.\<close>

definition small_board :: "nat board" where
  "small_board = \<lparr>core = small_machine, msrs = (\<lambda>i. 0xFEE00900), master = \<lparr>pic_step = 0, pic_vector = 8, pic_cascade = 4, pic_mode = 1, pic_mask = 0\<rparr>,
     slave = \<lparr>pic_step = 0, pic_vector = 0x70, pic_cascade = 2, pic_mode = 1, pic_mask = 0\<rparr>, lapic = (\<lambda>i. 0), ipis = [], irq_on = False\<rparr>"

theorem initialize_interrupts_spec_witness:
  "\<exists>b'. initialize_interrupts count_frames 0x400000 small_board = Some (b', 0) \<and> pic_mask (master b') = 0xFF \<and> lapic b' REG_SPURIOUS_IV = 0x1FF"
proof -
  have a: "frames_ok (\<lambda>h. {a. unat a < h * 4096}) (\<lambda>h. page_size) (core small_board)" using small_machine_ok by (simp add: small_board_def)
  have b: "dir_of 0x400000 \<noteq> - 1" "(0x400000 :: u32) mod page_size = 0" by (simp_all add: dir_of_def page_size_def)
  from initialize_interrupts_spec [OF count_avail.libmalloc_count_axioms a _ b] show ?thesis
    by (auto simp: small_board_def small_machine_def)
qed

end
