(* ===== verification/Descriptors.thy ===== *)
theory Descriptors
  imports Platform
begin

text \<open>
  The segment and interrupt descriptor tables of \<^verbatim>\<open>src/x86/idt.c\<close>: the bit-field structures, the functions that
  fill them in, and what the processor reads from the bytes (the layouts of the i386 manuals). A table is the list of
  its entries; the registers that the privileged instructions load are a record.
\<close>

unbundle bit_operations_syntax

section \<open>Data\<close>

text \<open>Fields of one bit are booleans; the others are words of their width, so assignments truncate.\<close>

record gdt_entry_t =
  limit_low :: u16
  base_low :: "24 word"
  accessed :: bool
  read_write :: bool
  conforming_expand_down :: bool
  seg_code :: bool
  code_data_segment :: bool
  seg_dpl :: "2 word"
  seg_present :: bool
  limit_high :: "4 word"
  available :: bool
  long_mode :: bool
  big :: bool
  granularity :: bool
  base_high :: u8

record tss_entry_t =
  prev_tss :: u32
  esp0 :: u32
  ss0 :: u32
  esp1 :: u32
  ss1 :: u32
  esp2 :: u32
  ss2 :: u32
  tss_cr3 :: u32
  tss_eip :: u32
  tss_eflags :: u32
  tss_eax :: u32
  tss_ecx :: u32
  tss_edx :: u32
  tss_ebx :: u32
  tss_esp :: u32
  tss_ebp :: u32
  tss_esi :: u32
  tss_edi :: u32
  tss_es :: u32
  tss_cs :: u32
  tss_ss :: u32
  tss_ds :: u32
  tss_fs :: u32
  tss_gs :: u32
  tss_ldt :: u32
  tss_trap :: u16
  iomap_base :: u16

record interrupt_descriptor_t =
  offset_1 :: u16
  gate_selector :: u16
  gate_zero :: u8
  gate_type :: "4 word"
  gate_storage :: bool
  gate_dpl :: "2 word"
  gate_present :: bool
  offset_2 :: u16

datatype segment_type_t = SEGMENT_KERNEL_CODE | SEGMENT_KERNEL_DATA | SEGMENT_USER_CODE | SEGMENT_USER_DATA | SEGMENT_TSS

datatype isr_type_t = INTERRUPT_TASK32 | INTERRUPT_TRAP32 | INTERRUPT_INT32 | INTERRUPT_TRAP16 | INTERRUPT_INT16

fun isr_type_code :: "isr_type_t \<Rightarrow> 4 word" where
  "isr_type_code INTERRUPT_TASK32 = 5"
| "isr_type_code INTERRUPT_TRAP32 = 15"
| "isr_type_code INTERRUPT_INT32 = 14"
| "isr_type_code INTERRUPT_TRAP16 = 7"
| "isr_type_code INTERRUPT_INT16 = 6"

text \<open>The interrupt numbers.\<close>

datatype interrupt_code_t =
    EXCEPTION_DIV_BY_0 | EXCEPTION_DEBUG | EXCEPTION_NMI | EXCEPTION_BREAKPOINT
  | EXCEPTION_OVERFLOW | EXCEPTION_OUT_OF_BOUNDS | EXCEPTION_INVALID_OPCODE | EXCEPTION_DEVICE_NOT_AVAILABLE
  | EXCEPTION_DOUBLE_FAULT | EXCEPTION_INVALID_TSS | EXCEPTION_SEGMENT_NOT_PRESENT | EXCEPTION_STACK_SEGMENT_FAULT
  | EXCEPTION_GPF | EXCEPTION_PAGE_FAULT | EXCEPTION_x87_FLOATING_POINT | EXCEPTION_ALIGNMENT_CHECK
  | EXCEPTION_MACHINE_CHECK | EXCEPTION_SIMD_FLOATING_POINT | EXCEPTION_VIRTUALIZATION | EXCEPTION_SECURITY
  | ISR_APIC_TIMER | ISR_PREEMPT | ISR_AP_START | ISR_SYSCALL

fun vector_of :: "interrupt_code_t \<Rightarrow> nat" where
  "vector_of EXCEPTION_DIV_BY_0 = 0"
| "vector_of EXCEPTION_DEBUG = 1"
| "vector_of EXCEPTION_NMI = 2"
| "vector_of EXCEPTION_BREAKPOINT = 3"
| "vector_of EXCEPTION_OVERFLOW = 4"
| "vector_of EXCEPTION_OUT_OF_BOUNDS = 5"
| "vector_of EXCEPTION_INVALID_OPCODE = 6"
| "vector_of EXCEPTION_DEVICE_NOT_AVAILABLE = 7"
| "vector_of EXCEPTION_DOUBLE_FAULT = 8"
| "vector_of EXCEPTION_INVALID_TSS = 10"
| "vector_of EXCEPTION_SEGMENT_NOT_PRESENT = 11"
| "vector_of EXCEPTION_STACK_SEGMENT_FAULT = 12"
| "vector_of EXCEPTION_GPF = 13"
| "vector_of EXCEPTION_PAGE_FAULT = 14"
| "vector_of EXCEPTION_x87_FLOATING_POINT = 16"
| "vector_of EXCEPTION_ALIGNMENT_CHECK = 17"
| "vector_of EXCEPTION_MACHINE_CHECK = 18"
| "vector_of EXCEPTION_SIMD_FLOATING_POINT = 19"
| "vector_of EXCEPTION_VIRTUALIZATION = 20"
| "vector_of EXCEPTION_SECURITY = 30"
| "vector_of ISR_APIC_TIMER = 64"
| "vector_of ISR_PREEMPT = 65"
| "vector_of ISR_AP_START = 127"
| "vector_of ISR_SYSCALL = 128"

definition gdt_zero :: gdt_entry_t where
  "gdt_zero = \<lparr>limit_low = 0, base_low = 0, accessed = False, read_write = False, conforming_expand_down = False, seg_code = False,
     code_data_segment = False, seg_dpl = 0, seg_present = False, limit_high = 0, available = False, long_mode = False, big = False,
     granularity = False, base_high = 0\<rparr>"

definition gate_null :: interrupt_descriptor_t where
  "gate_null = \<lparr>offset_1 = 0, gate_selector = 0, gate_zero = 0, gate_type = 0, gate_storage = False, gate_dpl = 0, gate_present = False, offset_2 = 0\<rparr>"

definition tss_zero :: tss_entry_t where
  "tss_zero = \<lparr>prev_tss = 0, esp0 = 0, ss0 = 0, esp1 = 0, ss1 = 0, esp2 = 0, ss2 = 0, tss_cr3 = 0, tss_eip = 0, tss_eflags = 0,
     tss_eax = 0, tss_ecx = 0, tss_edx = 0, tss_ebx = 0, tss_esp = 0, tss_ebp = 0, tss_esi = 0, tss_edi = 0, tss_es = 0, tss_cs = 0,
     tss_ss = 0, tss_ds = 0, tss_fs = 0, tss_gs = 0, tss_ldt = 0, tss_trap = 0, iomap_base = 0\<rparr>"

text \<open>The registers: table registers with limit and address, the task register and the segment registers.\<close>

record cpu =
  gdtr :: "u16 \<times> ptr"
  idtr :: "u16 \<times> ptr"
  tr :: u16
  cs :: u16
  data_segments :: u16

text \<open>What the linker provides: the addresses of the static tables, of the symbols and of the handlers.\<close>

datatype handler = ISR_generic | ISR_division_by_zero | ISR_segment_not_present | ISR_gp_fault | ISR_page_fault | ISR_double_fault
  | ISR_preempt_entry | ISR_timer | ISR_syscall_entry

record linkage =
  gdt_at :: ptr
  idt_at :: ptr
  tss_at :: ptr
  double_fault_tss_at :: ptr
  stack_top :: ptr
  default_page_dir :: ptr
  l_kernel_start :: ptr
  l_kernel_pstart :: ptr
  handler_at :: "handler \<Rightarrow> ptr"

record tables =
  gdt :: "gdt_entry_t list"
  tss :: tss_entry_t
  double_fault_tss :: tss_entry_t
  idt :: "interrupt_descriptor_t list"
  processor :: cpu

section \<open>The code\<close>

abbreviation gdt_size :: nat where "gdt_size \<equiv> 7"
abbreviation idt_size :: nat where "idt_size \<equiv> 256"
abbreviation sizeof_tss :: u32 where "sizeof_tss \<equiv> 104"

definition load_gdt :: "ptr \<Rightarrow> cpu \<Rightarrow> cpu" where
  "load_gdt table c = c\<lparr>gdtr := (8 * 7 - 1, table), cs := 8, data_segments := 16\<rparr>"

definition load_idt :: "ptr \<Rightarrow> cpu \<Rightarrow> cpu" where
  "load_idt table c = c\<lparr>idtr := (8 * 256 - 1, table)\<rparr>"

definition load_tr :: "u16 \<Rightarrow> cpu \<Rightarrow> cpu" where
  "load_tr gdt_offset c = c\<lparr>tr := gdt_offset OR 3\<rparr>"

definition create_interrupt_descriptor :: "interrupt_descriptor_t \<Rightarrow> ptr \<Rightarrow> isr_type_t \<Rightarrow> u32 \<Rightarrow> u32 \<Rightarrow> interrupt_descriptor_t" where
  "create_interrupt_descriptor d isr ty privilage selector =
     (let d = if ty \<noteq> INTERRUPT_TASK32
              then d\<lparr>offset_1 := ucast (isr AND 0xFFFF), offset_2 := ucast (drop_bit 16 isr)\<rparr> else d
      in d\<lparr>gate_selector := ucast selector, gate_zero := 0, gate_type := isr_type_code ty, gate_storage := False,
           gate_dpl := ucast privilage, gate_present := True\<rparr>)"

definition create_segment_descriptor :: "gdt_entry_t \<Rightarrow> u32 \<Rightarrow> u32 \<Rightarrow> segment_type_t \<Rightarrow> gdt_entry_t" where
  "create_segment_descriptor d base limit ty =
     (let d = d\<lparr>limit_low := ucast limit, limit_high := ucast (drop_bit 16 (limit AND push_bit 16 0xF)),
                base_low := ucast base, base_high := ucast (drop_bit 24 (base AND push_bit 24 0xFF)), seg_present := True\<rparr>
      in case ty of
        SEGMENT_KERNEL_CODE \<Rightarrow> d\<lparr>accessed := False, read_write := True, conforming_expand_down := False, seg_code := True,
          code_data_segment := True, seg_dpl := 0, available := False, long_mode := False, big := True, granularity := True\<rparr>
      | SEGMENT_KERNEL_DATA \<Rightarrow> d\<lparr>accessed := False, read_write := True, conforming_expand_down := False, seg_code := False,
          code_data_segment := True, seg_dpl := 0, available := False, long_mode := False, big := True, granularity := True\<rparr>
      | SEGMENT_USER_CODE \<Rightarrow> d\<lparr>accessed := False, read_write := True, conforming_expand_down := False, seg_code := True,
          code_data_segment := True, seg_dpl := 3, available := False, long_mode := False, big := True, granularity := True\<rparr>
      | SEGMENT_USER_DATA \<Rightarrow> d\<lparr>accessed := False, read_write := True, conforming_expand_down := False, seg_code := False,
          code_data_segment := True, seg_dpl := 3, available := False, long_mode := False, big := True, granularity := True\<rparr>
      | SEGMENT_TSS \<Rightarrow> d\<lparr>accessed := True, read_write := False, conforming_expand_down := False, seg_code := True,
          code_data_segment := False, seg_dpl := 3, available := False, long_mode := False, big := False, granularity := False\<rparr>)"

definition set_segment :: "gdt_entry_t list \<Rightarrow> nat \<Rightarrow> u32 \<Rightarrow> u32 \<Rightarrow> segment_type_t \<Rightarrow> gdt_entry_t list" where
  "set_segment t i base limit ty = t[i := create_segment_descriptor (t ! i) base limit ty]"

definition initialize_gdt :: "linkage \<Rightarrow> tables \<Rightarrow> tables" where
  "initialize_gdt l t =
     (let g = replicate gdt_size gdt_zero;
          g = set_segment g 1 0 0xFFFFF SEGMENT_KERNEL_CODE;
          g = set_segment g 2 0 0xFFFFF SEGMENT_KERNEL_DATA;
          g = set_segment g 3 0 0xFFFFF SEGMENT_USER_CODE;
          g = set_segment g 4 0 0xFFFFF SEGMENT_USER_DATA;
          g = set_segment g 5 (tss_at l) (sizeof_tss - 1) SEGMENT_TSS;
          g = set_segment g 6 (double_fault_tss_at l) (sizeof_tss - 1) SEGMENT_TSS
      in t\<lparr>gdt := g,
           tss := tss_zero\<lparr>esp0 := stack_top l, ss0 := 0x10\<rparr>,
           double_fault_tss := tss_zero\<lparr>esp0 := stack_top l, ss0 := 0x10, tss_esp := stack_top l, tss_cs := 0x08, tss_ds := 0x10,
             tss_ss := 0x10, tss_fs := 0x10, tss_gs := 0x10,
             tss_cr3 := default_page_dir l - l_kernel_start l + l_kernel_pstart l, tss_eip := handler_at l ISR_double_fault\<rparr>,
           processor := load_tr (5 * 8) (load_gdt (gdt_at l) (processor t))\<rparr>)"

definition set_gate :: "interrupt_descriptor_t list \<Rightarrow> nat \<Rightarrow> ptr \<Rightarrow> isr_type_t \<Rightarrow> u32 \<Rightarrow> u32 \<Rightarrow> interrupt_descriptor_t list" where
  "set_gate t i isr ty privilage selector = t[i := create_interrupt_descriptor (t ! i) isr ty privilage selector]"

definition initialize_idt :: "linkage \<Rightarrow> tables \<Rightarrow> tables" where
  "initialize_idt l t =
     (let d = replicate idt_size gate_null;
          d = foldl (\<lambda>d i. set_gate d i (handler_at l ISR_generic) INTERRUPT_INT32 0 8) d [0..<idt_size];
          d = set_gate d (vector_of EXCEPTION_DIV_BY_0) (handler_at l ISR_division_by_zero) INTERRUPT_INT32 0 8;
          d = set_gate d (vector_of EXCEPTION_SEGMENT_NOT_PRESENT) (handler_at l ISR_segment_not_present) INTERRUPT_TRAP32 0 8;
          d = set_gate d (vector_of EXCEPTION_GPF) (handler_at l ISR_gp_fault) INTERRUPT_TRAP32 0 8;
          d = set_gate d (vector_of EXCEPTION_PAGE_FAULT) (handler_at l ISR_page_fault) INTERRUPT_TRAP32 0 8;
          d = set_gate d (vector_of EXCEPTION_DOUBLE_FAULT) NULL INTERRUPT_TASK32 0 (8 * 6);
          d = set_gate d (vector_of ISR_PREEMPT) (handler_at l ISR_preempt_entry) INTERRUPT_INT32 3 8;
          d = set_gate d (vector_of ISR_APIC_TIMER) (handler_at l ISR_timer) INTERRUPT_INT32 0 8;
          d = set_gate d (vector_of ISR_SYSCALL) (handler_at l ISR_syscall_entry) INTERRUPT_INT32 3 8
      in t\<lparr>idt := d, processor := load_idt (idt_at l) (processor t)\<rparr>)"

section \<open>What the processor reads\<close>

text \<open>The compiler packs the fields from the low bits up; a descriptor is one 64-bit word in memory.\<close>

definition gdt_word :: "gdt_entry_t \<Rightarrow> 64 word" where
  "gdt_word d = ucast (limit_low d) OR push_bit 16 (ucast (base_low d)) OR push_bit 40 (of_bool (accessed d)) OR
     push_bit 41 (of_bool (read_write d)) OR push_bit 42 (of_bool (conforming_expand_down d)) OR push_bit 43 (of_bool (seg_code d)) OR
     push_bit 44 (of_bool (code_data_segment d)) OR push_bit 45 (ucast (seg_dpl d)) OR push_bit 47 (of_bool (seg_present d)) OR
     push_bit 48 (ucast (limit_high d)) OR push_bit 52 (of_bool (available d)) OR push_bit 53 (of_bool (long_mode d)) OR
     push_bit 54 (of_bool (big d)) OR push_bit 55 (of_bool (granularity d)) OR push_bit 56 (ucast (base_high d))"

definition gate_word :: "interrupt_descriptor_t \<Rightarrow> 64 word" where
  "gate_word d = ucast (offset_1 d) OR push_bit 16 (ucast (gate_selector d)) OR push_bit 32 (ucast (gate_zero d)) OR
     push_bit 40 (ucast (gate_type d)) OR push_bit 44 (of_bool (gate_storage d)) OR push_bit 45 (ucast (gate_dpl d)) OR
     push_bit 47 (of_bool (gate_present d)) OR push_bit 48 (ucast (offset_2 d))"

text \<open>The segment that a descriptor word describes (Intel SDM, volume 3A, 3.4.5): base in bits 16 to 39 and 56 to 63, limit in bits 0 to 15
  and 48 to 51, type in bits 40 to 43, S in bit 44, privilege level in bits 45 and 46, P in bit 47, D/B and G in bits 54 and 55.\<close>

definition segment_base :: "64 word \<Rightarrow> u32" where
  "segment_base w = ucast (take_bit 24 (drop_bit 16 w)) OR push_bit 24 (ucast (take_bit 8 (drop_bit 56 w)))"

definition segment_limit :: "64 word \<Rightarrow> u32" where
  "segment_limit w = ucast (take_bit 16 w) OR push_bit 16 (ucast (take_bit 4 (drop_bit 48 w)))"

definition segment_type :: "64 word \<Rightarrow> 4 word" where "segment_type w = ucast (drop_bit 40 w)"
definition segment_level :: "64 word \<Rightarrow> 2 word" where "segment_level w = ucast (drop_bit 45 w)"

definition page_granular :: "64 word \<Rightarrow> bool" where "page_granular w = bit w 55"
definition descriptor_present :: "64 word \<Rightarrow> bool" where "descriptor_present w = bit w 47"
definition is_code_or_data :: "64 word \<Rightarrow> bool" where "is_code_or_data w = bit w 44"

text \<open>The gate that a descriptor word describes (Intel SDM, volume 3A, 6.11); type, level and P are where segments have them.\<close>

definition gate_offset :: "64 word \<Rightarrow> u32" where
  "gate_offset w = ucast (take_bit 16 w) OR push_bit 16 (ucast (take_bit 16 (drop_bit 48 w)))"

definition gate_segment :: "64 word \<Rightarrow> u16" where "gate_segment w = ucast (drop_bit 16 w)"


lemma bit_beyond: "LENGTH('a) \<le> n \<Longrightarrow> \<not> bit (w :: 'a :: len word) n"
  using bit_imp_le_length [of w n] by auto

lemma bit_gdt_word:
  "bit (gdt_word d) n =
     (if n < 16 then bit (limit_low d) n else if n < 40 then bit (base_low d) (n - 16) else if n = 40 then accessed d
      else if n = 41 then read_write d else if n = 42 then conforming_expand_down d else if n = 43 then seg_code d
      else if n = 44 then code_data_segment d else if n < 47 then bit (seg_dpl d) (n - 45) else if n = 47 then seg_present d
      else if n < 52 then bit (limit_high d) (n - 48) else if n = 52 then available d else if n = 53 then long_mode d
      else if n = 54 then big d else if n = 55 then granularity d else bit (base_high d) (n - 56))"
proof (cases "n < 64")
  case False
  then show ?thesis by (simp add: bit_beyond)
next
  case True
  have w: "bit (gdt_word d) n \<longleftrightarrow> n < 16 \<and> bit (limit_low d) n \<or> 16 \<le> n \<and> n < 40 \<and> bit (base_low d) (n - 16) \<or> n = 40 \<and> accessed d
      \<or> n = 41 \<and> read_write d \<or> n = 42 \<and> conforming_expand_down d \<or> n = 43 \<and> seg_code d \<or> n = 44 \<and> code_data_segment d
      \<or> 45 \<le> n \<and> n < 47 \<and> bit (seg_dpl d) (n - 45) \<or> n = 47 \<and> seg_present d \<or> 48 \<le> n \<and> n < 52 \<and> bit (limit_high d) (n - 48)
      \<or> n = 52 \<and> available d \<or> n = 53 \<and> long_mode d \<or> n = 54 \<and> big d \<or> n = 55 \<and> granularity d \<or> 56 \<le> n \<and> bit (base_high d) (n - 56)"
    unfolding gdt_word_def bit_or_iff disj_assoc
    by (intro arg_cong2 [where f = "(\<or>)"]; simp add: bit_push_bit_iff bit_unsigned_iff bit_of_bool_iff True; use True in \<open>fastforce dest: bit_imp_le_length\<close>)
  have "n = 40 \<or> n = 41 \<or> n = 42 \<or> n = 43 \<or> n = 44" if "40 \<le> n" "n < 45" using that by linarith
  moreover have "n = 52 \<or> n = 53 \<or> n = 54 \<or> n = 55" if "52 \<le> n" "n < 56" using that by linarith
  moreover have "n < 16 \<or> 16 \<le> n \<and> n < 40 \<or> 40 \<le> n \<and> n < 45 \<or> 45 \<le> n \<and> n < 47 \<or> n = 47 \<or> 48 \<le> n \<and> n < 52
      \<or> 52 \<le> n \<and> n < 56 \<or> 56 \<le> n" by linarith
  ultimately show ?thesis unfolding w by (elim disjE conjE; (elim disjE)?; simp)
qed

lemma bit_gate_word:
  "bit (gate_word d) n =
     (if n < 16 then bit (offset_1 d) n else if n < 32 then bit (gate_selector d) (n - 16) else if n < 40 then bit (gate_zero d) (n - 32)
      else if n < 44 then bit (gate_type d) (n - 40) else if n = 44 then gate_storage d else if n < 47 then bit (gate_dpl d) (n - 45)
      else if n = 47 then gate_present d else bit (offset_2 d) (n - 48))"
proof (cases "n < 64")
  case False
  then show ?thesis by (simp add: bit_beyond)
next
  case True
  consider "n < 16" | "16 \<le> n" "n < 32" | "32 \<le> n" "n < 40" | "40 \<le> n" "n < 44" | "n = 44" | "45 \<le> n" "n < 47" | "n = 47" | "48 \<le> n"
    using True by fastforce
  then show ?thesis
    using True by cases (auto simp: gate_word_def bit_or_iff bit_push_bit_iff bit_unsigned_iff bit_of_bool_iff bit_beyond)
qed

lemmas descriptor_bits = bit_gdt_word bit_gate_word bit_or_iff bit_push_bit_iff bit_unsigned_iff bit_take_bit_iff bit_drop_bit_eq

lemma gdt_word_fields:
  "segment_base (gdt_word d) = ucast (base_low d) OR push_bit 24 (ucast (base_high d))"
  "segment_limit (gdt_word d) = ucast (limit_low d) OR push_bit 16 (ucast (limit_high d))"
  "segment_level (gdt_word d) = seg_dpl d"
  by (rule bit_word_eqI; auto simp: segment_base_def segment_limit_def segment_level_def descriptor_bits bit_beyond)+

lemma segment_type_fields:
  "segment_type (gdt_word d) = of_bool (accessed d) OR push_bit 1 (of_bool (read_write d)) OR push_bit 2 (of_bool (conforming_expand_down d))
     OR push_bit 3 (of_bool (seg_code d))"
  by (rule bit_word_eqI; auto simp: segment_type_def descriptor_bits bit_of_bool_iff less_Suc_eq numeral_eq_Suc)

lemma gdt_word_bits:
  "page_granular (gdt_word d) = granularity d" "descriptor_present (gdt_word d) = seg_present d"
  "is_code_or_data (gdt_word d) = code_data_segment d"
  by (simp_all add: page_granular_def descriptor_present_def is_code_or_data_def bit_gdt_word)

lemma gate_word_fields:
  "gate_offset (gate_word d) = ucast (offset_1 d) OR push_bit 16 (ucast (offset_2 d))"
  "gate_segment (gate_word d) = gate_selector d" "segment_type (gate_word d) = gate_type d" "segment_level (gate_word d) = gate_dpl d"
  by (rule bit_word_eqI; auto simp: gate_offset_def gate_segment_def segment_type_def segment_level_def descriptor_bits bit_beyond)+

lemma gate_word_bits: "descriptor_present (gate_word d) = gate_present d" "is_code_or_data (gate_word d) = gate_storage d"
  by (simp_all add: descriptor_present_def is_code_or_data_def bit_gate_word)

section \<open>Segments and gates\<close>

fun segment_type_code :: "segment_type_t \<Rightarrow> 4 word" where
  "segment_type_code SEGMENT_TSS = 9"
| "segment_type_code SEGMENT_KERNEL_CODE = 10"
| "segment_type_code SEGMENT_USER_CODE = 10"
| "segment_type_code _ = 2"

lemma byte_masks: "(0xF :: u32) = mask 4" "(0xFF :: u32) = mask 8" "(0xFFFF :: u32) = mask 16"
  by (simp_all add: mask_eq_exp_minus_1)

lemma base_split: "ucast (ucast (base :: u32) :: 24 word) OR push_bit 24 (ucast (ucast (drop_bit 24 (base AND push_bit 24 0xFF)) :: u8)) = base"
  unfolding byte_masks by (rule bit_word_eqI) (auto simp: bit_simps)

lemma limit_split: "ucast (ucast (limit :: u32) :: u16) OR push_bit 16 (ucast (ucast (drop_bit 16 (limit AND push_bit 16 0xF)) :: 4 word)) = take_bit 20 limit"
  unfolding byte_masks by (rule bit_word_eqI) (auto simp: bit_simps)

lemma offset_split: "ucast (ucast ((isr :: u32) AND 0xFFFF) :: u16) OR push_bit 16 (ucast (ucast (drop_bit 16 isr) :: u16)) = isr"
  unfolding byte_masks by (rule bit_word_eqI) (auto simp: bit_simps)

lemma create_segment_fields:
  "base_low (create_segment_descriptor d base limit ty) = ucast base"
  "base_high (create_segment_descriptor d base limit ty) = ucast (drop_bit 24 (base AND push_bit 24 0xFF))"
  "limit_low (create_segment_descriptor d base limit ty) = ucast limit"
  "limit_high (create_segment_descriptor d base limit ty) = ucast (drop_bit 16 (limit AND push_bit 16 0xF))"
  "seg_dpl (create_segment_descriptor d base limit ty) = (if ty \<in> {SEGMENT_KERNEL_CODE, SEGMENT_KERNEL_DATA} then 0 else 3)"
  "seg_present (create_segment_descriptor d base limit ty)"
  "accessed (create_segment_descriptor d base limit ty) = (ty = SEGMENT_TSS)"
  "read_write (create_segment_descriptor d base limit ty) = (ty \<noteq> SEGMENT_TSS)"
  "conforming_expand_down (create_segment_descriptor d base limit ty) = False"
  "seg_code (create_segment_descriptor d base limit ty) = (ty \<notin> {SEGMENT_KERNEL_DATA, SEGMENT_USER_DATA})"
  "code_data_segment (create_segment_descriptor d base limit ty) = (ty \<noteq> SEGMENT_TSS)"
  "granularity (create_segment_descriptor d base limit ty) = (ty \<noteq> SEGMENT_TSS)"
  by (cases ty; simp add: create_segment_descriptor_def Let_def)+

lemma segment_word:
  assumes "w = gdt_word (create_segment_descriptor d base limit ty)"
  shows "segment_base w = base" "segment_limit w = take_bit 20 limit" "segment_type w = segment_type_code ty"
    "segment_level w = (if ty \<in> {SEGMENT_KERNEL_CODE, SEGMENT_KERNEL_DATA} then 0 else 3)" "descriptor_present w"
    "is_code_or_data w = (ty \<noteq> SEGMENT_TSS)" "page_granular w = (ty \<noteq> SEGMENT_TSS)"
proof -
  show "segment_base w = base" unfolding assms gdt_word_fields create_segment_fields by (rule base_split)
  show "segment_limit w = take_bit 20 limit" unfolding assms gdt_word_fields create_segment_fields by (rule limit_split)
  show "segment_type w = segment_type_code ty" unfolding assms segment_type_fields create_segment_fields by (cases ty) simp_all
qed (simp_all add: assms gdt_word_fields gdt_word_bits create_segment_fields)

lemma gate_word_created:
  assumes "w = gate_word (create_interrupt_descriptor d isr ty privilage selector)"
  shows "gate_offset w = (if ty = INTERRUPT_TASK32 then gate_offset (gate_word d) else isr)" "gate_segment w = ucast selector"
    "segment_type w = isr_type_code ty" "segment_level w = ucast privilage" "descriptor_present w" "\<not> is_code_or_data w"
proof -
  show "gate_offset w = (if ty = INTERRUPT_TASK32 then gate_offset (gate_word d) else isr)"
    unfolding assms gate_word_fields using offset_split [of isr] by (simp add: create_interrupt_descriptor_def Let_def)
qed (simp_all add: assms create_interrupt_descriptor_def Let_def gate_word_fields gate_word_bits)

text \<open>The segment that the processor finds in a descriptor made by \<^verbatim>\<open>create_segment_descriptor\<close> has the base that was given and the low 20
  bits of the limit, is present, has the type and the privilege level of its kind, and counts its limit in pages unless it is a task
  state segment. What the descriptor held before has no influence.\<close>

theorem create_segment_descriptor_spec:
  "let w = gdt_word (create_segment_descriptor d base limit ty) in
   segment_base w = base \<and> segment_limit w = take_bit 20 limit \<and> descriptor_present w \<and> segment_type w = segment_type_code ty
   \<and> segment_level w = (if ty \<in> {SEGMENT_KERNEL_CODE, SEGMENT_KERNEL_DATA} then 0 else 3)
   \<and> is_code_or_data w = (ty \<noteq> SEGMENT_TSS) \<and> page_granular w = (ty \<noteq> SEGMENT_TSS)"
  by (simp add: segment_word Let_def)

section \<open>The tables\<close>

text \<open>The handler that each interrupt is meant to reach.\<close>

definition handler_of :: "nat \<Rightarrow> handler" where
  "handler_of v = (if v = vector_of EXCEPTION_DIV_BY_0 then ISR_division_by_zero
     else if v = vector_of EXCEPTION_SEGMENT_NOT_PRESENT then ISR_segment_not_present
     else if v = vector_of EXCEPTION_GPF then ISR_gp_fault
     else if v = vector_of EXCEPTION_PAGE_FAULT then ISR_page_fault
     else if v = vector_of EXCEPTION_DOUBLE_FAULT then ISR_double_fault
     else if v = vector_of ISR_PREEMPT then ISR_preempt_entry
     else if v = vector_of ISR_APIC_TIMER then ISR_timer
     else if v = vector_of ISR_SYSCALL then ISR_syscall_entry
     else ISR_generic)"

text \<open>The segment that a selector selects.\<close>

definition selected :: "tables \<Rightarrow> u16 \<Rightarrow> 64 word option" where
  "selected t sel = (let i = unat (drop_bit 3 sel) in if i < length (gdt t) then Some (gdt_word (gdt t ! i)) else None)"

text \<open>Gates have to lead to segments of their type: interrupt and trap gates to a present code segment, whose level
  the handler runs at, and task gates to a present, available task state segment.\<close>

definition gate_target_ok :: "tables \<Rightarrow> 64 word \<Rightarrow> bool" where
  "gate_target_ok t w = (case selected t (gate_segment w) of None \<Rightarrow> False
     | Some s \<Rightarrow> descriptor_present s \<and>
         (if segment_type w = isr_type_code INTERRUPT_TASK32 then \<not> is_code_or_data s \<and> segment_type s = 9
          else segment_type w \<in> {isr_type_code INTERRUPT_INT32, isr_type_code INTERRUPT_TRAP32} \<and> is_code_or_data s \<and> bit (segment_type s) 3 \<and> segment_level s = 0))"

text \<open>Where the processor goes: the address in the gate, or the instruction pointer in the task state.\<close>

definition gate_entry :: "linkage \<Rightarrow> tables \<Rightarrow> 64 word \<Rightarrow> ptr option" where
  "gate_entry l t w = (if segment_type w = isr_type_code INTERRUPT_TASK32
     then case selected t (gate_segment w) of None \<Rightarrow> None
       | Some s \<Rightarrow> if segment_base s = double_fault_tss_at l then Some (tss_eip (double_fault_tss t))
           else if segment_base s = tss_at l then Some (tss_eip (tss t)) else None
     else Some (gate_offset w))"

lemma foldl_update: "k \<le> length d \<Longrightarrow> foldl (\<lambda>d i. d[i := f (d ! i)]) d [0..<k] = map f (take k d) @ drop k d"
proof (induction k)
  case (Suc k)
  then show ?case
    by (simp add: nth_append list_update_append take_Suc_conv_app_nth Cons_nth_drop_Suc [symmetric])
qed simp

lemma initialize_idt_entries:
  assumes "v < 256"
  shows "length (idt (initialize_idt l t)) = 256"
    "\<exists>d. idt (initialize_idt l t) ! v =
      (if v = 8 then create_interrupt_descriptor d NULL INTERRUPT_TASK32 0 48
       else create_interrupt_descriptor d (handler_at l (handler_of v)) (if v \<in> {11, 13, 14} then INTERRUPT_TRAP32 else INTERRUPT_INT32)
         (if v \<in> {65, 128} then 3 else 0) 8)"
proof -
  have loop: "foldl (\<lambda>d i. set_gate d i (handler_at l ISR_generic) INTERRUPT_INT32 0 8) (replicate 256 gate_null) [0..<256]
      = replicate 256 (create_interrupt_descriptor gate_null (handler_at l ISR_generic) INTERRUPT_INT32 0 8)"
    unfolding set_gate_def by (subst foldl_update) simp_all
  show "length (idt (initialize_idt l t)) = 256" by (simp add: initialize_idt_def Let_def set_gate_def del: upt.simps, subst loop [unfolded set_gate_def]) simp
  show "\<exists>d. idt (initialize_idt l t) ! v =
      (if v = 8 then create_interrupt_descriptor d NULL INTERRUPT_TASK32 0 48
       else create_interrupt_descriptor d (handler_at l (handler_of v)) (if v \<in> {11, 13, 14} then INTERRUPT_TRAP32 else INTERRUPT_INT32)
         (if v \<in> {65, 128} then 3 else 0) 8)"
    unfolding initialize_idt_def Let_def loop using assms
    by (auto simp: set_gate_def handler_of_def nth_list_update simp del: upt.simps replicate.simps)
qed

lemma initialize_gdt_entries:
  "length (gdt (initialize_gdt l t)) = 7" "gdt (initialize_gdt l t) ! 0 = gdt_zero"
  "gdt (initialize_gdt l t) ! Suc 0 = create_segment_descriptor gdt_zero 0 0xFFFFF SEGMENT_KERNEL_CODE"
  "gdt (initialize_gdt l t) ! 2 = create_segment_descriptor gdt_zero 0 0xFFFFF SEGMENT_KERNEL_DATA"
  "gdt (initialize_gdt l t) ! 3 = create_segment_descriptor gdt_zero 0 0xFFFFF SEGMENT_USER_CODE"
  "gdt (initialize_gdt l t) ! 4 = create_segment_descriptor gdt_zero 0 0xFFFFF SEGMENT_USER_DATA"
  "gdt (initialize_gdt l t) ! 5 = create_segment_descriptor gdt_zero (tss_at l) 103 SEGMENT_TSS"
  "gdt (initialize_gdt l t) ! 6 = create_segment_descriptor gdt_zero (double_fault_tss_at l) 103 SEGMENT_TSS"
  by (simp_all add: initialize_gdt_def Let_def set_segment_def)

text \<open>C22. After \<^verbatim>\<open>initialize_gdt\<close> and \<^verbatim>\<open>initialize_idt\<close> the tables are well typed: every gate is present, leads to a segment of the type it needs,
  which runs at level 0, and from there to the handler of its interrupt (that of a double fault through the task state segment made for it).
  Programs may raise only the interrupts for preemption and for system calls. The table registers cover exactly the tables, and the
  task register selects the task state segment whose ring-0 stack is the kernel's.\<close>

theorem initialize_idt_spec:
  assumes "v < 256" and t': "t' = initialize_idt l (initialize_gdt l t)" and w: "w = gate_word (idt t' ! v)"
  shows "descriptor_present w \<and> gate_target_ok t' w \<and> gate_entry l t' w = Some (handler_at l (handler_of v))
    \<and> segment_level w = (if v \<in> {65, 128} then 3 else 0)
    \<and> idtr (processor t') = (of_nat (8 * length (idt t') - 1), idt_at l) \<and> gdtr (processor t') = (of_nat (8 * length (gdt t') - 1), gdt_at l)
    \<and> map_option segment_base (selected t' (tr (processor t'))) = Some (tss_at l) \<and> esp0 (tss t') = stack_top l"
proof -
  have g: "gdt t' = gdt (initialize_gdt l t)" "double_fault_tss t' = double_fault_tss (initialize_gdt l t)" "tss t' = tss (initialize_gdt l t)"
    by (simp_all add: t' initialize_idt_def Let_def)
  have sel: "selected t' 8 = Some (gdt_word (create_segment_descriptor gdt_zero 0 0xFFFFF SEGMENT_KERNEL_CODE))"
    "selected t' 48 = Some (gdt_word (create_segment_descriptor gdt_zero (double_fault_tss_at l) 103 SEGMENT_TSS))"
    "selected t' 43 = Some (gdt_word (create_segment_descriptor gdt_zero (tss_at l) 103 SEGMENT_TSS))"
    by (simp_all add: selected_def g initialize_gdt_entries)
  have eip: "tss_eip (double_fault_tss t') = handler_at l ISR_double_fault" "esp0 (tss t') = stack_top l"
    by (simp_all add: g initialize_gdt_def Let_def)
  have regs: "idtr (processor t') = (2047, idt_at l)" "gdtr (processor t') = (55, gdt_at l)" "tr (processor t') = 43"
    by (simp_all add: t' initialize_idt_def initialize_gdt_def load_idt_def load_gdt_def load_tr_def Let_def)
  have len: "length (idt t') = 256" "length (gdt t') = 7"
    using initialize_idt_entries(1) [OF assms(1)] by (simp_all add: t' g initialize_gdt_entries) (simp add: g initialize_gdt_entries flip: t')
  obtain d where d: "idt t' ! v = (if v = 8 then create_interrupt_descriptor d NULL INTERRUPT_TASK32 0 48
       else create_interrupt_descriptor d (handler_at l (handler_of v)) (if v \<in> {11, 13, 14} then INTERRUPT_TRAP32 else INTERRUPT_INT32)
         (if v \<in> {65, 128} then 3 else 0) 8)"
    using initialize_idt_entries(2) [OF assms(1)] unfolding t' by blast
  have gate: "descriptor_present w \<and> gate_target_ok t' w \<and> gate_entry l t' w = Some (handler_at l (handler_of v)) \<and> segment_level w = (if v \<in> {65, 128} then 3 else 0)"
  proof (cases "v = 8")
    case True
    note g = gate_word_created [OF w [unfolded d if_P [OF True]]]
    show ?thesis using True
      by (simp add: g gate_target_ok_def gate_entry_def sel segment_word [OF refl] eip handler_of_def)
  next
    case False
    note g = gate_word_created [OF w [unfolded d if_not_P [OF False]]]
    show ?thesis using False
      by (auto simp: g gate_target_ok_def gate_entry_def sel segment_word [OF refl])
  qed
  then show ?thesis by (simp add: regs len sel segment_word [OF refl] eip)
qed

text \<open>A linkage for examples.\<close>

definition flat_linkage :: linkage where
  "flat_linkage = \<lparr>gdt_at = 0xC0001000, idt_at = 0xC0002000, tss_at = 0xC0003000, double_fault_tss_at = 0xC0003100, stack_top = 0xC0008000,
     default_page_dir = 0xC0009000, l_kernel_start = 0xC0000000, l_kernel_pstart = 0x100000,
     handler_at = (\<lambda>h. if h = ISR_syscall_entry then 0xC0000400 else 0xC0000200)\<rparr>"

definition no_tables :: tables where
  "no_tables = \<lparr>gdt = [], tss = tss_zero, double_fault_tss = tss_zero, idt = [], processor = \<lparr>gdtr = (0, 0), idtr = (0, 0), tr = 0, cs = 0, data_segments = 0\<rparr>\<rparr>"

theorem initialize_idt_spec_witness:
  "gate_entry flat_linkage (initialize_idt flat_linkage (initialize_gdt flat_linkage no_tables))
     (gate_word (idt (initialize_idt flat_linkage (initialize_gdt flat_linkage no_tables)) ! 128)) = Some 0xC0000400"
  using initialize_idt_spec [OF _ refl refl, of 128 flat_linkage no_tables] by (simp add: flat_linkage_def handler_of_def)

text \<open>The task state segments are open to programs: both descriptors have privilege level 3, so the processor lets a program jump
  to selector 0x33, which makes it load the state set up for double faults: the kernel's code, stack and page directory.\<close>

theorem double_fault_task_open:
  "let t' = initialize_gdt l t in
   (\<exists>w. selected t' 0x33 = Some w \<and> descriptor_present w \<and> segment_level w = 3 \<and> segment_type w = 9 \<and> segment_base w = double_fault_tss_at l)
   \<and> tss_cs (double_fault_tss t') = 8 \<and> tss_eip (double_fault_tss t') = handler_at l ISR_double_fault \<and> tss_esp (double_fault_tss t') = stack_top l
   \<and> tss_cr3 (double_fault_tss t') = default_page_dir l - l_kernel_start l + l_kernel_pstart l"
proof -
  have "selected (initialize_gdt l t) 0x33 = Some (gdt_word (create_segment_descriptor gdt_zero (double_fault_tss_at l) 103 SEGMENT_TSS))"
    by (simp add: selected_def initialize_gdt_entries)
  then show ?thesis
    by (simp add: segment_word [OF refl] Let_def) (simp add: initialize_gdt_def Let_def)
qed

end
