(* ===== verification/Processor.thy ===== *)
theory Processor
  imports Word_Lemmas "HOL-Library.Type_Length"
begin

text \<open>
  The processor as the assembly and the interrupt handlers see it: registers, a stack, the instructions that \<^verbatim>\<open>src/x86/*.S\<close> use, the way it
  enters an interrupt handler and comes back with \<^verbatim>\<open>iret\<close>.
\<close>

unbundle bit_operations_syntax

section \<open>The processor\<close>

datatype reg = EAX | EBX | ECX | EDX | ESI | EDI | EBP | ESP

datatype half_reg = AX | CX

datatype segment_reg = CS | SS | DS | ES | FS | GS

record cpu =
  regs :: "reg \<Rightarrow> u32"
  segs :: "segment_reg \<Rightarrow> u16"
  eip :: ptr
  eflags :: u32
  words :: "ptr \<Rightarrow> u32"

text \<open>The stack is a memory of words at multiples of 4. An object of the kernel that a routine reads through a pointer is not part of it: it is
  seen through a view.\<close>

type_synonym view = "ptr \<Rightarrow> u32 option"

definition aligned :: "ptr \<Rightarrow> bool" where "aligned a \<longleftrightarrow> a AND 3 = 0"

definition load :: "view \<Rightarrow> cpu \<Rightarrow> ptr \<Rightarrow> u32 option" where
  "load v c a = (case v a of Some w \<Rightarrow> Some w | None \<Rightarrow> if aligned a then Some (words c a) else None)"

definition store :: "view \<Rightarrow> cpu \<Rightarrow> ptr \<Rightarrow> u32 \<Rightarrow> cpu option" where
  "store v c a w = (if v a = None \<and> aligned a then Some (c\<lparr>words := (words c)(a := w)\<rparr>) else None)"

definition set_reg :: "reg \<Rightarrow> u32 \<Rightarrow> cpu \<Rightarrow> cpu" where "set_reg r w c = c\<lparr>regs := (regs c)(r := w)\<rparr>"

fun whole :: "half_reg \<Rightarrow> reg" where
  "whole AX = EAX"
| "whole CX = ECX"

definition set_half :: "half_reg \<Rightarrow> u16 \<Rightarrow> cpu \<Rightarrow> cpu" where
  "set_half h w c = set_reg (whole h) ((regs c (whole h) AND 0xFFFF0000) OR ucast w) c"

definition push_word :: "view \<Rightarrow> u32 \<Rightarrow> cpu \<Rightarrow> cpu option" where
  "push_word v w c = store v (set_reg ESP (regs c ESP - 4) c) (regs c ESP - 4) w"

datatype instr =
    Cli
  | Mov reg reg
  | Mov_imm u32 reg
  | Mov_half_imm u16 half_reg
  | Mov_load u32 reg reg
  | Mov_half_load u32 reg half_reg
  | Mov_segment half_reg segment_reg
  | Push reg
  | Push_load u32 reg
  | Pop reg
  | Add_imm u32 reg
  | Sub_imm u32 reg
  | Add reg reg

text \<open>Flags other than the interrupt flag are not tracked: arithmetic leaves them, and the code tests none that it has set here.\<close>

fun exec :: "view \<Rightarrow> instr \<Rightarrow> cpu \<Rightarrow> cpu option" where
  "exec v Cli c = Some (c\<lparr>eflags := eflags c AND NOT 0x200\<rparr>)"
| "exec v (Mov s d) c = Some (set_reg d (regs c s) c)"
| "exec v (Mov_imm w d) c = Some (set_reg d w c)"
| "exec v (Mov_half_imm w d) c = Some (set_half d w c)"
| "exec v (Mov_load n s d) c = do { w \<leftarrow> load v c (regs c s + n); Some (set_reg d w c) }"
| "exec v (Mov_half_load n s d) c = do { w \<leftarrow> load v c (regs c s + n); Some (set_half d (ucast w) c) }"
| "exec v (Mov_segment s d) c = Some (c\<lparr>segs := (segs c)(d := ucast (regs c (whole s)))\<rparr>)"
| "exec v (Push s) c = push_word v (regs c s) c"
| "exec v (Push_load n s) c = do { w \<leftarrow> load v c (regs c s + n); push_word v w c }"
| "exec v (Pop d) c = do { w \<leftarrow> load v c (regs c ESP); Some (set_reg d w (set_reg ESP (regs c ESP + 4) c)) }"
| "exec v (Add_imm w d) c = Some (set_reg d (regs c d + w) c)"
| "exec v (Sub_imm w d) c = Some (set_reg d (regs c d - w) c)"
| "exec v (Add s d) c = Some (set_reg d (regs c d + regs c s) c)"

fun exec_all :: "view \<Rightarrow> instr list \<Rightarrow> cpu \<Rightarrow> cpu option" where
  "exec_all v [] c = Some c"
| "exec_all v (i # is) c = do { c \<leftarrow> exec v i c; exec_all v is c }"

text \<open>The processor enters a handler from user mode through an interrupt gate of \<^verbatim>\<open>idt.c\<close>: it switches to the stack of the task state segment
  and saves five words. \<^verbatim>\<open>iret\<close> takes them back; it changes the stack only when it goes to another privilege level.\<close>

definition interrupt_enter :: "ptr \<Rightarrow> u16 \<Rightarrow> ptr \<Rightarrow> cpu \<Rightarrow> cpu option" where
  "interrupt_enter stack0 segment0 handler u = do {
     let c = set_reg ESP stack0 u;
     c \<leftarrow> push_word Map.empty (ucast (segs u SS)) c;
     c \<leftarrow> push_word Map.empty (regs u ESP) c;
     c \<leftarrow> push_word Map.empty (eflags u) c;
     c \<leftarrow> push_word Map.empty (ucast (segs u CS)) c;
     c \<leftarrow> push_word Map.empty (eip u) c;
     Some (c\<lparr>segs := (segs c)(CS := 0x08, SS := segment0), eip := handler, eflags := eflags c AND NOT 0x200\<rparr>) }"

definition iret :: "cpu \<Rightarrow> cpu option" where
  "iret c = do {
     new_eip \<leftarrow> load Map.empty c (regs c ESP);
     new_cs \<leftarrow> load Map.empty c (regs c ESP + 4);
     new_flags \<leftarrow> load Map.empty c (regs c ESP + 8);
     if new_cs AND 3 = ucast (segs c CS AND 3) then
       Some ((set_reg ESP (regs c ESP + 12) c)\<lparr>eip := new_eip, segs := (segs c)(CS := ucast new_cs), eflags := new_flags\<rparr>)
     else do {
       new_esp \<leftarrow> load Map.empty c (regs c ESP + 12);
       new_ss \<leftarrow> load Map.empty c (regs c ESP + 16);
       Some ((set_reg ESP new_esp c)\<lparr>eip := new_eip, segs := (segs c)(CS := ucast new_cs, SS := ucast new_ss), eflags := new_flags\<rparr>) } }"

text \<open>An exception, from user mode or within the kernel, through an interrupt gate or a trap gate, which leaves interrupts on. In the kernel
  the stack stays the same and its pointer is not saved. For some exceptions the processor pushes an error code as well; \<^verbatim>\<open>iret\<close>
  knows nothing of it, so the handler has to remove it before.\<close>

definition exception_enter :: "ptr \<Rightarrow> u16 \<Rightarrow> ptr \<Rightarrow> bool \<Rightarrow> u32 option \<Rightarrow> cpu \<Rightarrow> cpu option" where
  "exception_enter stack0 segment0 handler trap code u = do {
     c \<leftarrow> (if segs u CS AND 3 = 0 then Some u
          else do {
            c \<leftarrow> push_word Map.empty (ucast (segs u SS)) (set_reg ESP stack0 u);
            c \<leftarrow> push_word Map.empty (regs u ESP) c;
            Some (c\<lparr>segs := (segs c)(SS := segment0)\<rparr>) });
     c \<leftarrow> push_word Map.empty (eflags u) c;
     c \<leftarrow> push_word Map.empty (ucast (segs u CS)) c;
     c \<leftarrow> push_word Map.empty (eip u) c;
     c \<leftarrow> (case code of None \<Rightarrow> Some c | Some e \<Rightarrow> push_word Map.empty e c);
     Some (c\<lparr>segs := (segs c)(CS := 0x08), eip := handler, eflags := (if trap then eflags c else eflags c AND NOT 0x200)\<rparr>) }"

section \<open>Evaluation\<close>

lemma aligned_mod: "aligned a \<longleftrightarrow> unat a mod 4 = 0"
proof -
  have "unat (a AND 3) = take_bit 2 (unat a)"
    using unsigned_and_eq [of a 3] by (simp add: take_bit_eq_mask mask_eq_exp_minus_1)
  then show ?thesis unfolding aligned_def by (simp add: word_unat_eq_iff take_bit_eq_mod)
qed

lemma aligned_add4 [simp]: "n AND 3 = 0 \<Longrightarrow> aligned (s + n) = aligned s"
proof -
  assume "n AND 3 = 0"
  then have n: "unat n mod 4 = 0" using aligned_mod [of n] by (simp add: aligned_def)
  have "unat (s + n) mod 4 = (unat s + unat n) mod 4" by (simp add: unat_word_ariths mod_mod_cancel)
  also have "\<dots> = unat s mod 4" using n by presburger
  finally show ?thesis by (simp add: aligned_mod)
qed

lemma aligned_diff [simp]: "n AND 3 = 0 \<Longrightarrow> aligned (s - n) = aligned s"
  using aligned_add4 [of n "s - n"] by simp

lemma half_word [simp]: "ucast ((w AND 0xFFFF0000) OR ucast (h :: u16) :: u32) = h"
proof (rule bit_word_eqI)
  fix n assume "n < LENGTH(16)"
  then have n: "n < 16" by simp
  have "(0xFFFF0000 :: u32) = push_bit 16 (mask 16)" by (simp add: mask_eq_exp_minus_1)
  then show "bit (ucast ((w AND 0xFFFF0000) OR ucast h :: u32) :: u16) n = bit h n"
    using n by (simp only: bit_ucast_iff bit_or_iff bit_and_iff bit_push_bit_iff) simp
qed

lemma half_selector: "ucast ((w AND 0xFFFF0000) OR 0x23 :: u32) = (0x23 :: u16)"
  using half_word [of w "0x23"] by (simp del: half_word)

lemma word_half [simp]: "ucast (ucast (h :: u16) :: u32) = h"
  by (rule bit_word_eqI) (simp add: bit_ucast_iff)

lemmas instr_simps = set_reg_def set_half_def push_word_def store_def load_def

text \<open>The state in which a handler starts that interrupts a user program.\<close>

definition handler_state :: "ptr \<Rightarrow> u16 \<Rightarrow> ptr \<Rightarrow> cpu \<Rightarrow> cpu" where
  "handler_state s ss0 handler u = \<lparr>regs = (regs u)(ESP := s - 20), segs = (segs u)(CS := 0x08, SS := ss0), eip = handler,
     eflags = eflags u AND NOT 0x200,
     words = (words u)(s - 4 := ucast (segs u SS), s - 8 := regs u ESP, s - 12 := eflags u, s - 16 := ucast (segs u CS), s - 20 := eip u)\<rparr>"

lemma interrupt_enters: "aligned s \<Longrightarrow> interrupt_enter s ss0 handler u = Some (handler_state s ss0 handler u)"
  by (cases u) (simp add: interrupt_enter_def handler_state_def instr_simps)

section \<open>Interrupt frames\<close>

text \<open>The frame of the interrupted program \<open>u\<close> lies on the stack at \<open>p\<close> (\<^verbatim>\<open>struct interrupt_frame_t\<close>; the last two words only for user mode).\<close>

definition frame_at :: "cpu \<Rightarrow> cpu \<Rightarrow> ptr \<Rightarrow> bool" where
  "frame_at u c p \<longleftrightarrow> aligned p \<and> words c p = eip u \<and> words c (p + 4) = ucast (segs u CS) \<and> words c (p + 8) = eflags u \<and>
     (if segs u CS AND 3 = 0 then p + 12 = regs u ESP else words c (p + 12) = regs u ESP \<and> words c (p + 16) = ucast (segs u SS))"

lemma selector_level [simp]: "(ucast (h :: u16) :: u32) AND 3 = 0 \<longleftrightarrow> h AND 3 = 0"
proof -
  have "(ucast h :: u32) AND 3 = ucast (h AND 3)" unfolding unsigned_and_eq by simp
  moreover have "(ucast (h AND 3) :: u32) = 0 \<longleftrightarrow> h AND 3 = 0"
    using word_half [of "h AND 3"] by (metis unsigned_0)
  ultimately show ?thesis by simp
qed

text \<open>The state in which the handler starts.\<close>

definition handler_stack :: "ptr \<Rightarrow> cpu \<Rightarrow> ptr" where
  "handler_stack stack0 u = (if segs u CS AND 3 = 0 then regs u ESP else stack0)"

lemma exception_enters:
  assumes "aligned (handler_stack s u)"
  obtains c p where "exception_enter s ss0 handler trap code u = Some c" "frame_at u c p" "eip c = handler"
    "eflags c = (if trap then eflags u else eflags u AND NOT 0x200)"
    "segs c = (segs u)(CS := 0x08, SS := (if segs u CS AND 3 = 0 then segs u SS else ss0))"
    "case code of None \<Rightarrow> regs c = (regs u)(ESP := p) | Some e \<Rightarrow> regs c = (regs u)(ESP := p - 4) \<and> words c (p - 4) = e"
proof (cases "segs u CS AND 3 = 0")
  case True
  with assms have "aligned (regs u ESP)" by (simp add: handler_stack_def)
  with True show thesis
    by (cases u; cases code) (auto simp: exception_enter_def instr_simps frame_at_def intro!: that [of _ "regs u ESP - 12"])
next
  case False
  with assms have "aligned s" by (simp add: handler_stack_def)
  with False show thesis
    by (cases u; cases code) (auto simp: exception_enter_def instr_simps frame_at_def fun_eq_iff intro!: that [of _ "s - 20"])
qed

text \<open>An interrupt gate enters from user mode as the assembly handlers are entered.\<close>

lemma exception_interrupt: "segs u CS AND 3 \<noteq> 0 \<Longrightarrow> exception_enter s ss0 handler False None u = interrupt_enter s ss0 handler u"
  by (cases "aligned s") (auto simp: exception_enter_def interrupt_enter_def instr_simps fun_upd_twist)

text \<open>\<^verbatim>\<open>iret\<close> on the frame goes back to the interrupted program; one word below it takes that word for the address.\<close>

lemma iret_frame:
  assumes "frame_at u c (regs c ESP)" "segs c CS = 0x08" "\<And>r. r \<noteq> ESP \<Longrightarrow> regs c r = regs u r" "segs u CS AND 3 = 0 \<Longrightarrow> segs c SS = segs u SS"
  obtains c' where "iret c = Some c'" "regs c' = regs u" "eip c' = eip u" "eflags c' = eflags u" "segs c' = (segs c)(CS := segs u CS, SS := segs u SS)"
  using assms by (auto simp: iret_def frame_at_def load_def set_reg_def fun_eq_iff split: if_splits intro!: that)

lemma iret_shifted:
  assumes "frame_at u c p" "regs c ESP = p - 4" "words c (p - 4) = e"
  obtains c' where "iret c = Some c'" "eip c' = e" "segs c' CS = ucast (eip u)" "eflags c' = ucast (segs u CS)"
proof -
  have a: "aligned p" "words c p = eip u" "words c (p + 4) = ucast (segs u CS)" using assms(1) by (auto simp: frame_at_def)
  have e: "p - 4 + 4 = p" "p - 4 + 8 = p + 4" "p - 4 + 12 = p + 8" "p - 4 + 16 = p + 12" by simp_all
  have l: "load Map.empty c (p - 4) = Some e" "load Map.empty c p = Some (eip u)" "load Map.empty c (p + 4) = Some (ucast (segs u CS))"
    "load Map.empty c (p + 8) = Some (words c (p + 8))" "load Map.empty c (p + 12) = Some (words c (p + 12))"
    using a assms(3) by (simp_all add: load_def)
  show thesis
    by (rule that [of "the (iret c)"]) (simp_all only: iret_def assms(2) e l, simp_all add: set_reg_def)
qed

end
