(* ===== verification/Exceptions.thy ===== *)
theory Exceptions
  imports Console Apic Descriptors Processor
begin

text \<open>
  The handlers of \<^verbatim>\<open>src/x86/isr.c\<close> and \<^verbatim>\<open>initialize_screen\<close> of \<^verbatim>\<open>src/x86/putc.c\<close>: what they print, where they go back to and whether they
  go back at all, and how the serial port is set up.
\<close>

section \<open>Messages\<close>

definition ascii :: "string \<Rightarrow> u8 list" where
  "ascii s = map of_char s"

text \<open>\<^verbatim>\<open>hlt\<close>: an interrupt wakes the processor up again if interrupts are on; otherwise it stops for good.\<close>

datatype hlt_end = Waits | Stops

definition hlt :: "'h board \<Rightarrow> hlt_end" where
  "hlt b = (if irq_on b then Waits else Stops)"

section \<open>The handlers\<close>

text \<open>
  The handlers are functions with the attribute \<^verbatim>\<open>interrupt\<close>, for which the compiler generates the way out: it restores the general registers,
  removes the error code from the stack if (and only if) the function is declared with a second parameter for it, and ends with \<^verbatim>\<open>iret\<close>. The
  result has the state of the interrupted program, or \<^term>\<open>None\<close> when the processor has stopped for good.
\<close>

definition leave :: "nat \<Rightarrow> 'h board \<Rightarrow> Processor.cpu \<Rightarrow> ('h board \<times> Processor.cpu option) option" where
  "leave n b c = do {
     c \<leftarrow> exec Map.empty (Add_imm (4 * of_nat n) ESP) c;
     c \<leftarrow> iret c;
     Some (b\<lparr>irq_on := bit (eflags c) 9\<rparr>, Some c) }"

text \<open>\<^verbatim>\<open>hlt\<close> at the end of a handler with an error code. The handler of the interrupt that wakes the processor up comes back here.\<close>

definition hlt_and_leave :: "'h board \<Rightarrow> Processor.cpu \<Rightarrow> ('h board \<times> Processor.cpu option) option" where
  "hlt_and_leave b c = (case hlt b of Stops \<Rightarrow> Some (b, None) | Waits \<Rightarrow> leave 1 b c)"

definition kernel_segments :: "instr list" where
  "kernel_segments = [Mov_half_imm 0x10 AX, Mov_segment AX DS, Mov_segment AX ES, Mov_segment AX FS, Mov_segment AX GS]"

text \<open>The inline assembly names \<^verbatim>\<open>ax\<close> as overwritten, so \<^verbatim>\<open>eax\<close> is restored on the way out; the segment registers are not.\<close>

definition load_kernel_segments :: "Processor.cpu \<Rightarrow> Processor.cpu option" where
  "load_kernel_segments c = do { c' \<leftarrow> exec_all Map.empty kernel_segments c; Some (c'\<lparr>regs := regs c\<rparr>) }"

definition isr_generic :: "console_t \<Rightarrow> 'h board \<Rightarrow> Processor.cpu \<Rightarrow> (console_t \<times> 'h board \<times> Processor.cpu option) option" where
  "isr_generic con b c = do {
     con \<leftarrow> printf con (ascii ''Generic interrupt.'' @ [10, 0]) [];
     r \<leftarrow> leave 0 b c;
     Some (con, r) }"

definition isr_division_by_zero :: "console_t \<Rightarrow> 'h board \<Rightarrow> Processor.cpu \<Rightarrow> (console_t \<times> 'h board \<times> Processor.cpu option) option" where
  "isr_division_by_zero con b c = do {
     con \<leftarrow> printf con (ascii ''Exception: Division by zero'' @ [10, 0]) [];
     r \<leftarrow> leave 0 b c;
     Some (con, r) }"

text \<open>\<open>error\<close> is the word on top of the stack when the handler starts, \<open>addr\<close> the contents of \<^verbatim>\<open>cr2\<close>.\<close>

definition isr_segment_not_present :: "console_t \<Rightarrow> 'h board \<Rightarrow> Processor.cpu \<Rightarrow> (console_t \<times> 'h board \<times> Processor.cpu option) option" where
  "isr_segment_not_present con b c = do {
     error \<leftarrow> load Map.empty c (regs c ESP);
     let b = irq_disable b;
     con \<leftarrow> printf con (ascii ''Exception: NP fault, code %08x'' @ [10, 0]) [Word error];
     r \<leftarrow> hlt_and_leave b c;
     Some (con, r) }"

definition isr_gp_fault :: "console_t \<Rightarrow> 'h board \<Rightarrow> Processor.cpu \<Rightarrow> (console_t \<times> 'h board \<times> Processor.cpu option) option" where
  "isr_gp_fault con b c = do {
     error \<leftarrow> load Map.empty c (regs c ESP);
     let b = irq_disable b;
     c \<leftarrow> load_kernel_segments c;
     con \<leftarrow> printf con (ascii ''Exception: GP fault, code %08x'' @ [10, 0]) [Word error];
     r \<leftarrow> hlt_and_leave b c;
     Some (con, r) }"

definition isr_page_fault :: "console_t \<Rightarrow> 'h board \<Rightarrow> u32 \<Rightarrow> Processor.cpu \<Rightarrow> (console_t \<times> 'h board \<times> Processor.cpu option) option" where
  "isr_page_fault con b addr c = do {
     error \<leftarrow> load Map.empty c (regs c ESP);
     c \<leftarrow> load_kernel_segments c;
     con \<leftarrow> printf con (ascii ''Exception: Page fault, code %08x, linear address %08x'' @ [10, 0]) [Word error, Word addr];
     r \<leftarrow> hlt_and_leave b c;
     Some (con, r) }"

definition isr_double_fault :: "console_t \<Rightarrow> 'h board \<Rightarrow> Processor.cpu \<Rightarrow> (console_t \<times> 'h board \<times> Processor.cpu option) option" where
  "isr_double_fault con b c = do {
     error \<leftarrow> load Map.empty c (regs c ESP);
     let b = irq_disable b;
     con \<leftarrow> printf con (ascii ''Exception: Double fault (!!), code %08x'' @ [10, 0]) [Word error];
     r \<leftarrow> hlt_and_leave b c;
     Some (con, r) }"

definition isr_timer :: "ptr \<Rightarrow> console_t \<Rightarrow> 'h board \<Rightarrow> Processor.cpu \<Rightarrow> (console_t \<times> 'h board \<times> Processor.cpu option) option" where
  "isr_timer apic con b c = do {
     con \<leftarrow> printf con (ascii ''Timer tick.'' @ [10, 0]) [];
     b \<leftarrow> apic_eoi apic b;
     r \<leftarrow> leave 0 b c;
     Some (con, r) }"

section \<open>The serial port\<close>

text \<open>The registers of a 16550: while bit 7 of the line control register is set, the first two addresses are the divisor.\<close>

record uart =
  divisor_low :: u8
  divisor_high :: u8
  interrupt_enable :: u8
  fifo_control :: u8
  line_control :: u8
  modem_control :: u8

definition uart_out :: "uart \<Rightarrow> nat \<Rightarrow> u8 \<Rightarrow> uart" where
  "uart_out u port v =
     (if port = 0 then (if bit (line_control u) 7 then u\<lparr>divisor_low := v\<rparr> else u)
      else if port = 1 then (if bit (line_control u) 7 then u\<lparr>divisor_high := v\<rparr> else u\<lparr>interrupt_enable := v\<rparr>)
      else if port = 2 then u\<lparr>fifo_control := v\<rparr>
      else if port = 3 then u\<lparr>line_control := v\<rparr>
      else if port = 4 then u\<lparr>modem_control := v\<rparr> else u)"

definition initialize_screen :: "'h libmalloc \<Rightarrow> ptr \<Rightarrow> 'h machine \<Rightarrow> uart \<Rightarrow> ('h machine \<times> uart \<times> u32) option" where
  "initialize_screen L screen_page s u = do {
     (s, status) \<leftarrow> map_page L s screen_page 0xB8000 PAGE_RW;
     if status \<noteq> error_code ENONE then Some (s, u, status)
     else Some (s, foldl (\<lambda>u (port, v). uart_out u port v) u
       [(1, 0), (3, 0x80), (0, 3), (1, 0), (3, 3), (2, 0xC7), (4, 0x0B), (4, 0x0F)], status) }"

section \<open>What is printed\<close>

text \<open>The messages are formats that \<^verbatim>\<open>printf\<close> handles.\<close>

definition literal :: "string \<Rightarrow> piece list" where
  "literal s = map (\<lambda>c. Lit (of_char c)) s"

lemma literal_format: "concat (map format_of (literal s)) = ascii s" "concat (map args_of (literal s)) = []" "concat (map text_of (literal s)) = ascii s"
  by (induction s) (simp_all add: literal_def ascii_def)

lemma literal_ok: "(\<And>c. c \<in> set s \<Longrightarrow> (of_char c :: u8) \<notin> {0, 13, 37}) \<Longrightarrow> \<forall>p\<in>set (literal s). piece_ok p"
  by (auto simp: literal_def)

text \<open>The console still works, and the serial line got a line of text.\<close>

definition says :: "console_t \<Rightarrow> console_t \<Rightarrow> u8 list \<Rightarrow> bool" where
  "says con con' line \<longleftrightarrow> console_ok con' \<and> com1 con' = wire (line @ [10]) @ com1 con"

definition hex8 :: "u32 \<Rightarrow> u8 list" where
  "hex8 n = numeral_text 16 8 (unat n)"

lemma print_pieces:
  assumes "console_ok con" "\<forall>p\<in>set ps. piece_ok p" "fmt = concat (map format_of ps) @ [0]" "args = concat (map args_of ps)"
    and "concat (map text_of ps) = line @ [10]"
  obtains con' where "printf con fmt args = Some con'" "says con con' line"
  using printf_pieces [OF assms(1,2)] assms(3-5) by (auto simp: says_def)

lemma eight_digits: "piece_ok (Hex [48, 56] n)" "format_of (Hex [48, 56] n) = ascii ''%08x''" "text_of (Hex [48, 56] n) = hex8 n"
  by (simp_all add: width_ok_def width_of_def ascii_def hex8_def)

text \<open>One message with at most two numbers.\<close>

lemma print_message:
  assumes "console_ok con" "\<And>c. c \<in> set (s @ t) \<Longrightarrow> (of_char c :: u8) \<notin> {0, 13, 37}"
  shows "\<exists>con'. printf con (ascii s @ [10, 0]) [] = Some con' \<and> says con con' (ascii s)"
    "\<exists>con'. printf con (ascii (s @ ''%08x'') @ [10, 0]) [Word n] = Some con' \<and> says con con' (ascii s @ hex8 n)"
    "\<exists>con'. printf con (ascii (s @ ''%08x'' @ t @ ''%08x'') @ [10, 0]) [Word n, Word k] = Some con' \<and>
       says con con' (ascii s @ hex8 n @ ascii t @ hex8 k)"
proof -
  have s: "\<forall>p\<in>set (literal s). piece_ok p" "\<forall>p\<in>set (literal t). piece_ok p" using assms(2) by (auto intro!: literal_ok)
  have nl: "piece_ok (Lit 10)" by simp
  note fmt = literal_format eight_digits(2)
  show "\<exists>con'. printf con (ascii s @ [10, 0]) [] = Some con' \<and> says con con' (ascii s)"
    by (rule print_pieces [OF assms(1), of "literal s @ [Lit 10]"]) (use s in \<open>auto simp: fmt\<close>)
  show "\<exists>con'. printf con (ascii (s @ ''%08x'') @ [10, 0]) [Word n] = Some con' \<and> says con con' (ascii s @ hex8 n)"
    by (rule print_pieces [OF assms(1), of "literal s @ [Hex [48, 56] n, Lit 10]"])
      (use s eight_digits nl in \<open>auto simp: literal_format ascii_def simp del: piece_ok.simps text_of.simps(4)\<close>)
  show "\<exists>con'. printf con (ascii (s @ ''%08x'' @ t @ ''%08x'') @ [10, 0]) [Word n, Word k] = Some con' \<and>
       says con con' (ascii s @ hex8 n @ ascii t @ hex8 k)"
    by (rule print_pieces [OF assms(1), of "literal s @ [Hex [48, 56] n] @ literal t @ [Hex [48, 56] k, Lit 10]"])
      (use s eight_digits nl in \<open>auto simp: literal_format ascii_def simp del: piece_ok.simps text_of.simps(4)\<close>)
qed

section \<open>Coming in and going back\<close>

text \<open>The exceptions for which an i386 processor pushes an error code (Intel SDM, volume 3A, 6.3; later processors have more).\<close>

definition pushes_error :: "nat \<Rightarrow> bool" where
  "pushes_error v \<longleftrightarrow> v \<in> {8, 10, 11, 12, 13, 14, 17}"

text \<open>The processor takes exception \<open>v\<close> as the gate in the table tells; a task gate is not an entry of this kind.\<close>

definition take_exception :: "linkage \<Rightarrow> tables \<Rightarrow> nat \<Rightarrow> u32 \<Rightarrow> Processor.cpu \<Rightarrow> Processor.cpu option" where
  "take_exception l t v code u = (let w = gate_word (idt t ! v) in
     if segment_type w = isr_type_code INTERRUPT_TASK32 then None
     else do {
       entry \<leftarrow> gate_entry l t w;
       exception_enter (esp0 (tss t)) (ucast (ss0 (tss t))) entry (segment_type w = isr_type_code INTERRUPT_TRAP32)
         (if pushes_error v then Some code else None) u })"

lemma take_exception_gate:
  assumes "v < 256" "v \<noteq> 8"
  shows "take_exception l (initialize_idt l (initialize_gdt l t)) v code u =
    exception_enter (stack_top l) 0x10 (handler_at l (handler_of v)) (v \<in> {11, 13, 14}) (if pushes_error v then Some code else None) u"
proof -
  let ?t = "initialize_idt l (initialize_gdt l t)"
  obtain d where d: "idt ?t ! v = create_interrupt_descriptor d (handler_at l (handler_of v))
      (if v \<in> {11, 13, 14} then INTERRUPT_TRAP32 else INTERRUPT_INT32) (if v \<in> {65, 128} then 3 else 0) 8"
    using initialize_idt_entries(2) [OF assms(1), of l "initialize_gdt l t"] assms(2) by auto
  note w = gate_word_created [OF refl, of d "handler_at l (handler_of v)" "if v \<in> {11, 13, 14} then INTERRUPT_TRAP32 else INTERRUPT_INT32"
      "if v \<in> {65, 128} then 3 else 0" 8]
  have "tss ?t = tss (initialize_gdt l t)" by (simp add: initialize_idt_def Let_def)
  then have "esp0 (tss ?t) = stack_top l" "ss0 (tss ?t) = 0x10" by (simp_all add: initialize_gdt_def Let_def)
  then show ?thesis unfolding take_exception_def d Let_def w gate_entry_def by auto
qed

definition goes_back :: "Processor.cpu \<Rightarrow> Processor.cpu \<Rightarrow> bool" where
  "goes_back u c \<longleftrightarrow> regs c = regs u \<and> eip c = eip u \<and> eflags c = eflags u \<and> segs c CS = segs u CS \<and> segs c SS = segs u SS"

definition data_segments_are :: "(segment_reg \<Rightarrow> u16) \<Rightarrow> Processor.cpu \<Rightarrow> bool" where
  "data_segments_are f c \<longleftrightarrow> (\<forall>d\<in>{DS, ES, FS, GS}. segs c d = f d)"

text \<open>What the handlers start from: the frame, below it the error code if there is one.\<close>

definition entered :: "nat \<Rightarrow> Processor.cpu \<Rightarrow> Processor.cpu \<Rightarrow> bool" where
  "entered n u c \<longleftrightarrow> (\<exists>p. frame_at u c p \<and> regs c = (regs u)(ESP := p - 4 * of_nat n) \<and> segs c CS = 0x08 \<and>
     (segs u CS AND 3 = 0 \<longrightarrow> segs c SS = segs u SS))"

lemma leave_goes_back:
  assumes "entered n u c"
  shows "\<exists>c'. leave n b c = Some (b\<lparr>irq_on := bit (eflags u) 9\<rparr>, Some c') \<and> goes_back u c' \<and> data_segments_are (segs c) c'"
proof -
  from assms obtain p where f: "frame_at u c p" "regs c = (regs u)(ESP := p - 4 * of_nat n)" "segs c CS = 0x08"
    "segs u CS AND 3 = 0 \<longrightarrow> segs c SS = segs u SS" by (auto simp: entered_def)
  let ?c = "set_reg ESP p c"
  have e: "exec Map.empty (Add_imm (4 * of_nat n) ESP) c = Some ?c" using f(2) by simp
  have fr: "frame_at u ?c (regs ?c ESP)" using f(1) by (simp add: frame_at_def set_reg_def)
  have sg: "segs ?c CS = 0x08" "segs u CS AND 3 = 0 \<Longrightarrow> segs ?c SS = segs u SS" using f by (simp_all add: set_reg_def)
  have rg: "regs ?c r = regs u r" if "r \<noteq> ESP" for r using that f(2) by (simp add: set_reg_def)
  obtain c' where "iret ?c = Some c'" "regs c' = regs u" "eip c' = eip u" "eflags c' = eflags u"
    "segs c' = (segs ?c)(CS := segs u CS, SS := segs u SS)" by (rule iret_frame [OF fr sg(1) rg sg(2)])
  then show ?thesis using e by (simp add: leave_def goes_back_def data_segments_are_def set_reg_def del: exec.simps)
qed

lemma kernel_segments_loaded:
  "\<exists>c'. load_kernel_segments c = Some c' \<and> (entered n u c \<longrightarrow> entered n u c') \<and> data_segments_are (\<lambda>_. 0x10) c'"
  using half_word [of "regs c EAX" "0x10"]
  by (cases c) (auto simp: load_kernel_segments_def kernel_segments_def set_half_def set_reg_def entered_def frame_at_def data_segments_are_def)

section \<open>Each handler\<close>

lemma generic_prints:
  assumes "console_ok con"
  shows "\<exists>con'. printf con (ascii ''Generic interrupt.'' @ [10, 0]) [] = Some con' \<and> says con con' (ascii ''Generic interrupt.'')"
  by (rule print_message(1) [OF assms, where t = "[]"]) auto

lemma generic_leaves:
  assumes "console_ok con" and lv: "\<And>b :: 'h board. \<exists>c'. leave 0 b c = Some (b\<lparr>irq_on := i\<rparr>, Some c') \<and> Q c'"
  shows "\<exists>con' c'. isr_generic con (b :: 'h board) c = Some (con', b\<lparr>irq_on := i\<rparr>, Some c') \<and> says con con' (ascii ''Generic interrupt.'') \<and> Q c'"
  using generic_prints [OF assms(1)] lv [of b] by (auto simp: isr_generic_def)

lemma division_leaves:
  assumes "console_ok con" and lv: "\<And>b :: 'h board. \<exists>c'. leave 0 b c = Some (b\<lparr>irq_on := i\<rparr>, Some c') \<and> Q c'"
  shows "\<exists>con' c'. isr_division_by_zero con (b :: 'h board) c = Some (con', b\<lparr>irq_on := i\<rparr>, Some c') \<and>
    says con con' (ascii ''Exception: Division by zero'') \<and> Q c'"
proof -
  have "\<exists>con'. printf con (ascii ''Exception: Division by zero'' @ [10, 0]) [] = Some con' \<and> says con con' (ascii ''Exception: Division by zero'')"
    by (rule print_message(1) [OF assms(1), where t = "[]"]) auto
  then show ?thesis using lv [of b] by (auto simp: isr_division_by_zero_def)
qed

lemma timer_leaves:
  assumes "console_ok con" and lv: "\<And>b :: 'h board. \<exists>c'. leave 0 b c = Some (b\<lparr>irq_on := i\<rparr>, Some c') \<and> Q c'"
  shows "reaches apic (b :: 'h board) REG_EOI \<longrightarrow> (\<exists>con' b' c'. isr_timer apic con b c = Some (con', b', Some c') \<and>
    says con con' (ascii ''Timer tick.'') \<and> lapic b' REG_EOI = 0 \<and> irq_on b' = i \<and> Q c')"
proof
  assume "reaches apic b REG_EOI"
  then obtain b1 where b1: "apic_eoi apic b = Some b1" "lapic b1 REG_EOI = 0" by (auto simp: reaches_def apic_eoi_def apic_write_def)
  have "\<exists>con'. printf con (ascii ''Timer tick.'' @ [10, 0]) [] = Some con' \<and> says con con' (ascii ''Timer tick.'')"
    by (rule print_message(1) [OF assms(1), where t = "[]"]) auto
  then show "\<exists>con' b' c'. isr_timer apic con b c = Some (con', b', Some c') \<and>
    says con con' (ascii ''Timer tick.'') \<and> lapic b' REG_EOI = 0 \<and> irq_on b' = i \<and> Q c'"
    using b1 lv [of b1] by (auto simp: isr_timer_def)
qed

lemma stops:
  assumes "console_ok con" "load Map.empty c (regs c ESP) = Some code"
  shows "\<exists>con'. isr_segment_not_present con b c = Some (con', b\<lparr>irq_on := False\<rparr>, None) \<and> says con con' (ascii ''Exception: NP fault, code '' @ hex8 code)"
    "\<exists>con'. isr_gp_fault con b c = Some (con', b\<lparr>irq_on := False\<rparr>, None) \<and> says con con' (ascii ''Exception: GP fault, code '' @ hex8 code)"
    "\<exists>con'. isr_double_fault con b c = Some (con', b\<lparr>irq_on := False\<rparr>, None) \<and> says con con' (ascii ''Exception: Double fault (!!), code '' @ hex8 code)"
proof -
  note p = print_message(2) [OF assms(1), where t = "[]" and n = code]
  have 1: "\<exists>con'. printf con (ascii (''Exception: NP fault, code '' @ ''%08x'') @ [10, 0]) [Word code] = Some con' \<and> says con con' (ascii ''Exception: NP fault, code '' @ hex8 code)"
    by (rule p) auto
  have 2: "\<exists>con'. printf con (ascii (''Exception: GP fault, code '' @ ''%08x'') @ [10, 0]) [Word code] = Some con' \<and> says con con' (ascii ''Exception: GP fault, code '' @ hex8 code)"
    by (rule p) auto
  have 3: "\<exists>con'. printf con (ascii (''Exception: Double fault (!!), code '' @ ''%08x'') @ [10, 0]) [Word code] = Some con' \<and>
    says con con' (ascii ''Exception: Double fault (!!), code '' @ hex8 code)" by (rule p) auto
  obtain c' where k: "load_kernel_segments c = Some c'" using kernel_segments_loaded [of c] by blast
  note defs = irq_disable_def hlt_and_leave_def hlt_def
  show "\<exists>con'. isr_segment_not_present con b c = Some (con', b\<lparr>irq_on := False\<rparr>, None) \<and> says con con' (ascii ''Exception: NP fault, code '' @ hex8 code)"
    using 1 assms(2) by (auto simp: isr_segment_not_present_def defs)
  show "\<exists>con'. isr_gp_fault con b c = Some (con', b\<lparr>irq_on := False\<rparr>, None) \<and> says con con' (ascii ''Exception: GP fault, code '' @ hex8 code)"
    using 2 assms(2) k by (auto simp: isr_gp_fault_def defs)
  show "\<exists>con'. isr_double_fault con b c = Some (con', b\<lparr>irq_on := False\<rparr>, None) \<and> says con con' (ascii ''Exception: Double fault (!!), code '' @ hex8 code)"
    using 3 assms(2) by (auto simp: isr_double_fault_def defs)
qed

lemma page_fault_leaves:
  assumes "console_ok con" "load Map.empty c (regs c ESP) = Some code" "entered 1 u c" "irq_on b = bit (eflags u) 9"
  shows "\<exists>con' c'. isr_page_fault con b addr c = Some (con', b, if bit (eflags u) 9 then Some c' else None) \<and>
    says con con' (ascii ''Exception: Page fault, code '' @ hex8 code @ ascii '', linear address '' @ hex8 addr) \<and>
    goes_back u c' \<and> data_segments_are (\<lambda>_. 0x10) c'"
proof -
  have p: "\<exists>con'. printf con (ascii (''Exception: Page fault, code '' @ ''%08x'' @ '', linear address '' @ ''%08x'') @ [10, 0]) [Word code, Word addr] = Some con' \<and>
    says con con' (ascii ''Exception: Page fault, code '' @ hex8 code @ ascii '', linear address '' @ hex8 addr)"
    by (rule print_message(3) [OF assms(1)]) auto
  obtain c1 where k: "load_kernel_segments c = Some c1" "entered 1 u c1" "data_segments_are (\<lambda>_. 0x10) c1" using kernel_segments_loaded [of c 1 u] assms(3) by blast
  from leave_goes_back [OF k(2), of b] obtain c' where l: "leave 1 b c1 = Some (b\<lparr>irq_on := bit (eflags u) 9\<rparr>, Some c')" "goes_back u c'" "data_segments_are (segs c1) c'" by blast
  have d: "data_segments_are (\<lambda>_. 0x10) c'" using l(3) k(3) by (simp add: data_segments_are_def)
  have "b\<lparr>irq_on := bit (eflags u) 9\<rparr> = b" using assms(4) by simp
  then show ?thesis using p k(1) l(1,2) d assms(2,4)
    by (cases "bit (eflags u) 9") (auto simp: isr_page_fault_def hlt_and_leave_def hlt_def)
qed

section \<open>Properties\<close>


text \<open>Witness: a program at 0x400010 in user mode touches memory that it does not have, with interrupts on; and it loads a bad stack segment.\<close>

definition faulting :: Processor.cpu where
  "faulting = \<lparr>regs = (\<lambda>r. if r = ESP then 0x500000 else 7), segs = (\<lambda>r. if r = CS then 0x1B else 0x23), eip = 0x400010, eflags = 0x202, words = (\<lambda>_. 0)\<rparr>"

definition flat_tables :: tables where
  "flat_tables = initialize_idt flat_linkage (initialize_gdt flat_linkage no_tables)"


text \<open>\<^verbatim>\<open>initialize_screen\<close> in a well-formed address space with a free frame: it returns ENONE, the screen's page is mapped to the video memory
  and can be written, and the serial port runs at 38400 baud (divisor 3) with 8 data bits, no parity and one stop bit,
  without interrupts.\<close>

theorem initialize_screen_spec:
  assumes "libmalloc_count L used block_size avail" "frames_ok used block_size s" "0 < avail (page_map s)"
    and "dir_of page \<noteq> - 1" "page mod page_size = 0"
  shows "\<exists>s' u'. initialize_screen L page s u = Some (s', u', error_code ENONE) \<and> frames_ok used block_size s' \<and>
    (\<forall>j<page_size. translate (mm s') (page + j) True = Some 0xB8) \<and>
    divisor_low u' = 3 \<and> divisor_high u' = 0 \<and> line_control u' = 3 \<and> (\<not> bit (line_control u) 7 \<longrightarrow> interrupt_enable u' = 0)"
proof -
  have al: "(0xB8000 :: u32) mod page_size = 0" "frame_of 0xB8000 = 0xB8" "(PAGE_RW :: u32) AND PAGE_RW \<noteq> 0" by (simp_all add: page_size_def frame_of_def)
  have lm: "libmalloc L used block_size" using assms(1) by (simp add: libmalloc_count_def)
  obtain s' where s': "map_page L s page 0xB8000 PAGE_RW = Some (s', error_code ENONE)"
    using libmalloc_count.map_page_avail [OF assms(1-4) al(1)] by blast
  have m: "frames_ok used block_size s' \<and> (\<forall>w. translate (mm s') page w = Some 0xB8)"
  proof (rule libmalloc.map_page_ok [OF lm assms(2,4) al(1), where flags = PAGE_RW], goal_cases)
    case (1 s1 e)
    then have eq: "s1 = s'" "e = error_code ENONE" using s' by auto
    show ?case using 1(2) 1(8) [OF eq(2) assms(4)] al unfolding eq by simp
  qed
  have "translate (mm s') (page + j) True = Some 0xB8" if "j < page_size" for j
    using m on_page_same(3) [OF page_offset [OF assms(5) that]] by simp
  moreover have "bit (0x80 :: u8) 7" "\<not> bit (3 :: u8) 7" by (simp_all add: bit_numeral_rec)
  ultimately show ?thesis using s' m by (simp add: initialize_screen_def uart_out_def)
qed

theorem initialize_screen_spec_witness:
  "\<exists>s' u'. initialize_screen count_frames 0x400000 small_machine
     \<lparr>divisor_low = 12, divisor_high = 0, interrupt_enable = 1, fifo_control = 0, line_control = 0, modem_control = 0\<rparr> = Some (s', u', error_code ENONE) \<and>
     divisor_low u' = 3 \<and> interrupt_enable u' = 0"
proof -
  have b: "dir_of 0x400000 \<noteq> - 1" "(0x400000 :: u32) mod page_size = 0" by (simp_all add: dir_of_def page_size_def)
  from initialize_screen_spec [OF count_avail.libmalloc_count_axioms small_machine_ok _ b,
      where u = "\<lparr>divisor_low = 12, divisor_high = 0, interrupt_enable = 1, fifo_control = 0, line_control = 0, modem_control = 0\<rparr>"]
  show ?thesis by (auto simp: small_machine_def)
qed

end
