(* ===== verification/Kernel_Terminate.thy ===== *)
theory Kernel_Terminate
  imports Kernel_Messages
begin

text \<open>
  The end of a process: \<^verbatim>\<open>kernel_terminate_process\<close> of \<^verbatim>\<open>src/kernel.c\<close> takes a process out of the
  table and the run queue, frees its messages, wakes the processes waiting to send to it, and frees its context and
  control block. The two loops are proved one after the other: the loop over the mailbox does not look at the
  queue of senders, so the lemma for a process without senders carries over to one that has some.
\<close>

section \<open>Freeing the mailbox\<close>

definition same_but_mail :: "'m kernel_t \<Rightarrow> 'm kernel_t \<Rightarrow> bool" where
  "same_but_mail k k' \<longleftrightarrow>
     k' = k\<lparr>mach := mach k', queue_nodes_of := queue_nodes_of k', processes := processes k', messages := messages k'\<rparr>"

lemma same_but_mailD:
  assumes "same_but_mail k k'"
  shows "process_table k' = process_table k" "port_table k' = port_table k" "interrupt_handlers k' = interrupt_handlers k"
    "avl_nodes k' = avl_nodes k" "contexts k' = contexts k" "ports k' = ports k" "actions k' = actions k"
    "syscall_table k' = syscall_table k" "priority_queue k' = priority_queue k" "active_process k' = active_process k"
    "next_pid k' = next_pid k"
  by (subst assms [unfolded same_but_mail_def], simp)+

context kernel_platform
begin

lemma drain_all:
  assumes "kernel_heap_inv live ty k pt qt it" "mail_inv k N" "p \<noteq> NULL" "processes k p = Some x"
  shows "\<exists>k' q. drain_messages P k p = Some k' \<and> kernel_heap_inv live ty k' pt qt it \<and> mail_inv k' (N(p := [])) \<and>
    processes k' = (processes k)(p \<mapsto> x\<lparr>p_message_queue := q\<rparr>) \<and> same_but_mail k k' \<and>
    same_off (fst ` set (N p)) (queue_nodes_of k) (queue_nodes_of k')"
  using assms
proof (induction "length (N p)" arbitrary: k N x)
  case 0
  then have e: "N p = []" by simp
  have "queue_nodes (queue_nodes_of k) (p_message_queue x) []" using mail_queue [OF "0.prems"(2,4)] e by simp
  from queue_get_next_none [OF this, of "heap_of P" "(mach k, queue_nodes_of k)"] have "drain_messages P k p = Some k"
    using "0.prems"(3,4) by (subst drain_messages.simps) (simp add: get_queue_def fun_upd_idem Let_def)
  moreover have "N(p := []) = N" using e by (simp add: fun_upd_idem)
  ultimately show ?case using "0.prems"
    by (intro exI [of _ k] exI [of _ "p_message_queue x"]) (simp add: same_but_mail_def fun_upd_idem)
next
  case (Suc l)
  from Suc.hyps(2) obtain n qm ns where N: "N p = (n, qm) # ns" "length ns = l" by (cases "N p") auto
  have nodes: "queue_nodes (queue_nodes_of k) (p_message_queue x) ((n, qm) # ns)" using mail_queue [OF Suc.prems(2,4)] N(1) by simp
  from mailbox_pop [OF Suc.prems(1,2,4) N(1)] obtain k1 q msg where
    g: "get_queue P k (p_message_queue x) = Some (k1, q, qm)" "same_but_links k k1" "qm \<noteq> NULL" and
    step: "\<forall>m k'. live m = live (mach k1) \<longrightarrow>
      k' = k1\<lparr>mach := kf (heap_of P) m qm, processes := (processes k)(p \<mapsto> x\<lparr>p_message_queue := q\<rparr>), messages := (messages k)(qm := None)\<rparr> \<longrightarrow>
      kernel_heap_inv live ty k' pt qt it \<and> mail_inv k' (N(p := ns)) \<and>
      (\<forall>r. mailbox k' (N(p := ns)) r = (if r = p then tl (mailbox k N p) else mailbox k N r))" by (elim exE conjE)
  have off: "same_off {n} (queue_nodes_of k) (queue_nodes_of k1)"
    using get_queue_inv [OF Suc.prems(1) nodes] g(1) by (auto simp: same_off_def)
  note k1 = same_but_linksD [OF g(2)]
  let ?k = "k1\<lparr>mach := kf (heap_of P) (mach k1) qm, processes := (processes k)(p \<mapsto> x\<lparr>p_message_queue := q\<rparr>), messages := (messages k)(qm := None)\<rparr>"
  from step have s: "kernel_heap_inv live ty ?k pt qt it" "mail_inv ?k (N(p := ns))" by blast+
  have "drain_messages P k p = drain_messages P ?k p"
    using Suc.prems(3,4) g(1,3) k1
    by (subst drain_messages.simps, simp add: Let_def kfree_k_def, intro arg_cong [where f = "\<lambda>k. drain_messages P k p"], simp)
  moreover from Suc.hyps(1) [OF _ s Suc.prems(3)] N(2) obtain k' q' where
    "drain_messages P ?k p = Some k'" "kernel_heap_inv live ty k' pt qt it" "mail_inv k' (N(p := []))"
    "processes k' = (processes k)(p \<mapsto> x\<lparr>p_message_queue := q'\<rparr>)" "same_but_mail ?k k'"
    "same_off (fst ` set ns) (queue_nodes_of k1) (queue_nodes_of k')" by auto
  moreover from this(5) have "same_but_mail k k'"
    unfolding same_but_mail_def by (rule ssubst) (subst g(2) [unfolded same_but_links_def], simp)
  moreover have "same_off (fst ` set (N p)) (queue_nodes_of k) (queue_nodes_of k')"
    using off \<open>same_off (fst ` set ns) (queue_nodes_of k1) (queue_nodes_of k')\<close> N(1) by (simp add: same_off_def)
  ultimately show ?case by (intro exI [of _ k'] exI [of _ q']) simp
qed

end

text \<open>The loop over the mailbox does not look at the queue of senders. \<open>with_senders s p k\<close> is \<open>k\<close> with the queue of
  senders of \<open>p\<close> replaced.\<close>

definition with_senders :: "queue_t \<Rightarrow> ptr \<Rightarrow> 'm kernel_t \<Rightarrow> 'm kernel_t" where
  "with_senders s p k = k\<lparr>processes := (processes k)(p := map_option (\<lambda>x. x\<lparr>p_sending_queue := s\<rparr>) (processes k p))\<rparr>"

lemma with_senders_simps [simp]:
  "mach (with_senders s p k) = mach k" "queue_nodes_of (with_senders s p k) = queue_nodes_of k" "messages (with_senders s p k) = messages k"
  "dom (processes (with_senders s p k)) = dom (processes k)"
  by (auto simp: with_senders_def domIff)

lemma with_senders_heap: "kernel_heap_inv live ty (with_senders s p k) pt qt it \<longleftrightarrow> kernel_heap_inv live ty k pt qt it"
proof -
  have "objects L ty (with_senders s p k) = objects L ty k" for L
    unfolding objects_def with_senders_simps by (simp add: with_senders_def)
  moreover have "tables L ty (with_senders s p k) pt qt it = tables L ty k pt qt it" for L
    by (simp add: tables_def with_senders_def)
  ultimately show ?thesis by (simp add: kernel_heap_inv_def)
qed

lemma get_queue_with_senders:
  "get_queue P k q = Some (k', q', v) \<Longrightarrow> get_queue P (with_senders s p k) q = Some (with_senders s p k', q', v)"
  by (auto simp: get_queue_def with_senders_def split: Option.bind_splits)

lemma free_with_senders:
  "with_senders s p ((kfree_k P k m)\<lparr>messages := M\<rparr>) = (kfree_k P (with_senders s p k) m)\<lparr>messages := M\<rparr>"
  by (simp add: with_senders_def kfree_k_def)

lemma set_process_with_senders:
  "with_senders s p (set_process k p (x\<lparr>p_message_queue := q\<rparr>)) = set_process (with_senders s p k) p (x\<lparr>p_sending_queue := s\<rparr>\<lparr>p_message_queue := q\<rparr>)"
  by (cases x) (simp add: with_senders_def)

lemma drain_with_senders:
  assumes "drain_messages P k p = Some k'"
  shows "drain_messages P (with_senders s p k) p = Some (with_senders s p k')"
proof -
  have "(\<lambda>((P, k), p) k'. drain_messages P (with_senders s p k) p = Some (with_senders s p k')) ((P, k), p) k'"
  proof (rule drain_messages.raw_induct [OF _ assms], goal_cases)
    case (1 f P k p r)
    from 1(2) obtain x k1 q msg where r: "processes k p = Some x" "p \<noteq> NULL" "get_queue P k (p_message_queue x) = Some (k1, q, msg)"
      "if msg \<noteq> NULL then f P ((kfree_k P (set_process k1 p (x\<lparr>p_message_queue := q\<rparr>)) msg)\<lparr>messages := (messages k1)(msg := None)\<rparr>) p = Some r
       else r = set_process k1 p (x\<lparr>p_message_queue := q\<rparr>)"
      by (auto simp: Let_def deref_def split: Option.bind_splits if_splits)
    let ?k = "set_process k1 p (x\<lparr>p_message_queue := q\<rparr>)"
    have "deref (processes (with_senders s p k)) p = Some (x\<lparr>p_sending_queue := s\<rparr>)" using r(1,2) by (simp add: with_senders_def deref_def)
    then have "drain_messages P (with_senders s p k) p =
      (if msg \<noteq> NULL then drain_messages P (with_senders s p ((kfree_k P ?k msg)\<lparr>messages := (messages k1)(msg := None)\<rparr>)) p
       else Some (with_senders s p ?k))"
      unfolding free_with_senders set_process_with_senders
      using get_queue_with_senders [OF r(3), of s p] by (subst drain_messages.simps) (simp add: Let_def)
    then show ?case using r(4) 1(1) by auto
  qed
  then show ?thesis by simp
qed

section \<open>Leaving the run queue\<close>

lemma remove_ready:
  assumes "sched_inv k"
  shows "\<exists>q e. priorityqueue_remove (priority_queue k) p = Some (q, e) \<and> pq_inv q \<and> q_capacity q = q_capacity (priority_queue k) \<and>
    entries q = ready_entries k (ready k - {p}) \<and> (p \<notin> ready k \<longrightarrow> q = priority_queue k)"
proof -
  let ?q = "priority_queue k"
  have i: "pq_inv ?q" and e: "entries ?q = ready_entries k (ready k)" using assms by (auto simp: sched_inv_def pq_good_def)
  note r = remove_correct [OF i, of p]
  show ?thesis
  proof (cases "\<exists>x. x \<in># contents ?q \<and> pq_value x = p")
    case True
    with r obtain q x where q: "priorityqueue_remove ?q p = Some (q, ENONE)" "pq_inv q" "q_capacity q = q_capacity ?q"
      "x \<in># contents ?q" "pq_value x = p" "contents q = contents ?q - {#x#}" by auto
    from q(4) have "entry x \<in># entries ?q" by (simp add: entries_def)
    then have p: "p \<in> ready k" "entry x = (p, prio_of k p)" using e q(5) by (auto simp: entry_def)
    have "entries q = entries ?q - {#entry x#}" using entries_drop [OF q(4)] q(6) by (simp add: entries_def)
    then have "entries q = ready_entries k (ready k - {p})" using e p by (simp add: ready_entries_remove)
    then show ?thesis using q p(1) by blast
  next
    case False
    have "p \<notin> ready k"
    proof
      assume "p \<in> ready k"
      then have "(p, prio_of k p) \<in># entries ?q" using e by simp
      then show False using False by (auto simp: entries_def entry_def)
    qed
    then show ?thesis using r False i e by simp
  qed
qed

lemma ready_entries_union: "A \<inter> B = {} \<Longrightarrow> ready_entries k (A \<union> B) = ready_entries k A + ready_entries k B"
  by (simp add: ready_entries_def mset_set_Union)

text \<open>The process \<open>p\<close> leaves and the waiting processes of \<open>W\<close> become runnable.\<close>

lemma sched_leave:
  assumes inv: "sched_inv k" and W: "\<And>s. s \<in> W \<Longrightarrow> s \<noteq> NULL \<and> s \<noteq> p \<and> \<not> runnable k s \<and> runnable k' s"
    and gone: "\<not> runnable k' p" and same: "\<And>q. q \<notin> W \<Longrightarrow> q \<noteq> p \<Longrightarrow> processes k' q = processes k q"
      "\<And>s. s \<in> W \<Longrightarrow> prio_of k' s = prio_of k s"
    and k': "active_process k' = (if active_process k = p then NULL else active_process k)"
    and q: "pq_inv (priority_queue k')" "entries (priority_queue k') = ready_entries k (ready k - {p}) + ready_entries k W"
  shows "entries (priority_queue k') = ready_entries k' (ready k')" "pq_ordered (priority_queue k') \<Longrightarrow> sched_inv k'"
proof -
  have run: "runnable k' r \<longleftrightarrow> r \<noteq> p \<and> (r \<in> W \<or> runnable k r)" for r
    using W [of r] gone same(1) [of r] by (cases "r = p"; cases "r \<in> W") (auto simp: runnable_def)
  have act: "active_process k \<notin> W" using W inv by (auto simp: sched_inv_def)
  have "ready k' = (ready k - {p}) \<union> W"
  proof (rule set_eqI)
    fix r
    have "runnable k r \<Longrightarrow> r \<noteq> NULL" by (simp add: runnable_def)
    then show "r \<in> ready k' \<longleftrightarrow> r \<in> (ready k - {p}) \<union> W"
      using W [of r] act k' by (auto simp: ready_def run split: if_splits)
  qed
  moreover have "(ready k - {p}) \<inter> W = {}" using W by (auto simp: ready_def)
  moreover have "ready_entries k' W = ready_entries k W" by (rule ready_entries_cong) (rule same(2))
  moreover have "ready_entries k' (ready k - {p}) = ready_entries k (ready k - {p})"
  proof (rule ready_entries_cong)
    fix r
    assume "r \<in> ready k - {p}"
    then have "r \<notin> W" "r \<noteq> p" using W by (auto simp: ready_def)
    then show "prio_of k' r = prio_of k r" using same(1) by (simp add: prio_of_def)
  qed
  ultimately show e: "entries (priority_queue k') = ready_entries k' (ready k')" using q(2) by (simp add: ready_entries_union)
  have "active_process k' \<noteq> NULL \<Longrightarrow> runnable k' (active_process k')" using inv k' run by (auto simp: sched_inv_def split: if_splits)
  then show "sched_inv k'" if "pq_ordered (priority_queue k')" using e q(1) that by (simp add: sched_inv_def pq_good_def)
qed

section \<open>Waking the waiting senders\<close>

text \<open>The processes in \<open>W\<close> become active, and the contexts in \<open>C\<close> get the status EEXITED as their result.\<close>

definition woken :: "ptr set \<Rightarrow> process_t store \<Rightarrow> process_t store" where
  "woken W f = (\<lambda>r. if r \<in> W then map_option (\<lambda>y. y\<lparr>p_state := PROCESS_ACTIVE\<rparr>) (f r) else f r)"

definition told :: "ptr set \<Rightarrow> process_context_t store \<Rightarrow> process_context_t store" where
  "told C f = (\<lambda>c. if c \<in> C then map_option (\<lambda>r. set_context_return r (error_code EEXITED)) (f c) else f c)"

lemma woken_empty [simp]: "woken {} f = f" and told_empty [simp]: "told {} g = g"
  by (simp_all add: woken_def told_def)

lemma told_again: "told C (f(c \<mapsto> set_context_return r (error_code EEXITED))) = told (insert c C) (f(c \<mapsto> r))"
  by (auto simp: told_def fun_eq_iff set_context_return_def)

lemma woken_again: "woken W (f(s \<mapsto> y\<lparr>p_state := PROCESS_ACTIVE\<rparr>)) = woken (insert s W) (f(s \<mapsto> y))"
  by (auto simp: woken_def fun_eq_iff)

lemma woken_other: "p \<notin> W \<Longrightarrow> woken W (f(p := v)) = (woken W f)(p := v)"
  by (auto simp: woken_def fun_eq_iff)

definition contexts_of :: "'m kernel_t \<Rightarrow> ptr set \<Rightarrow> ptr set" where
  "contexts_of k W = (\<lambda>s. p_ctx (the (processes k s))) ` W"

lemma heap_inv_written:
  assumes "kernel_heap_inv live ty k pt qt it" "dom (processes k') = dom (processes k)" "dom (contexts k') = dom (contexts k)"
    and "k' = k\<lparr>processes := processes k', contexts := contexts k', priority_queue := q\<rparr>"
  shows "kernel_heap_inv live ty k' pt qt it"
proof -
  have e: "mach k' = mach k" "queue_nodes_of k' = queue_nodes_of k" "ports k' = ports k" "actions k' = actions k" "messages k' = messages k"
    "avl_nodes k' = avl_nodes k" "process_table k' = process_table k" "port_table k' = port_table k" "interrupt_handlers k' = interrupt_handlers k"
    by (subst assms(4), simp)+
  show ?thesis using assms(1-3) by (simp add: kernel_heap_inv_def objects_def tables_def e)
qed

definition same_but_senders :: "'m kernel_t \<Rightarrow> 'm kernel_t \<Rightarrow> bool" where
  "same_but_senders k k' \<longleftrightarrow> k' = k\<lparr>mach := mach k', queue_nodes_of := queue_nodes_of k', processes := processes k',
     contexts := contexts k', priority_queue := priority_queue k'\<rparr>"

lemma same_but_sendersD:
  assumes "same_but_senders k k'"
  shows "process_table k' = process_table k" "port_table k' = port_table k" "interrupt_handlers k' = interrupt_handlers k"
    "avl_nodes k' = avl_nodes k" "ports k' = ports k" "actions k' = actions k" "messages k' = messages k"
    "syscall_table k' = syscall_table k" "active_process k' = active_process k" "next_pid k' = next_pid k"
  by (subst assms [unfolded same_but_senders_def], simp)+

lemma same_but_senders_trans: "same_but_senders k k1 \<Longrightarrow> same_but_senders k1 k2 \<Longrightarrow> same_but_senders k k2"
  unfolding same_but_senders_def by (erule ssubst [of k2], erule ssubst [of k1]) simp

text \<open>What a process that waits to send needs to be woken.\<close>

definition wakeable :: "'m kernel_t \<Rightarrow> ptr \<Rightarrow> ptr \<Rightarrow> bool" where
  "wakeable k p s \<longleftrightarrow> s \<noteq> NULL \<and> s \<noteq> p \<and> (\<exists>y. processes k s = Some y \<and> p_state y \<noteq> PROCESS_ACTIVE \<and> p_ctx y \<noteq> NULL \<and> p_ctx y \<in> dom (contexts k))"

lemma wakeable_kept:
  "wakeable k p r \<Longrightarrow> processes k' r = processes k r \<Longrightarrow> dom (contexts k) \<subseteq> dom (contexts k') \<Longrightarrow> wakeable k' p r"
  unfolding wakeable_def by (metis subsetD)

context kernel_platform
begin

lemma wake_all:
  assumes "kernel_heap_inv live ty k pt qt it" "processes k p = Some x" "queue_nodes (queue_nodes_of k) (p_sending_queue x) S"
    and "distinct (map snd S)" "\<forall>s \<in> snd ` set S. wakeable k p s"
    and "pq_inv (priority_queue k)" "q_size (priority_queue k) + length S \<le> q_capacity (priority_queue k)" "p \<noteq> NULL"
  shows "\<exists>k' q. wake_senders P k p = Some k' \<and> kernel_heap_inv live ty k' pt qt it \<and>
    processes k' = (woken (snd ` set S) (processes k))(p \<mapsto> x\<lparr>p_sending_queue := q\<rparr>) \<and>
    contexts k' = told (contexts_of k (snd ` set S)) (contexts k) \<and> same_off (fst ` set S) (queue_nodes_of k) (queue_nodes_of k') \<and>
    pq_inv (priority_queue k') \<and> q_capacity (priority_queue k') = q_capacity (priority_queue k) \<and>
    entries (priority_queue k') = entries (priority_queue k) + ready_entries k (snd ` set S) \<and>
    (pq_ordered (priority_queue k) \<longrightarrow> pq_ordered (priority_queue k')) \<and> same_but_senders k k' \<and>
    (S = [] \<longrightarrow> priority_queue k' = priority_queue k)"
  using assms
proof (induction S arbitrary: k x)
  case Nil
  from queue_get_next_none [OF Nil.prems(3), of "heap_of P" "(mach k, queue_nodes_of k)"] have "wake_senders P k p = Some k"
    using Nil.prems(2,8) by (subst wake_senders.simps) (simp add: get_queue_def fun_upd_idem Let_def)
  then show ?case using Nil.prems
    by (intro exI [of _ k] exI [of _ "p_sending_queue x"])
      (simp add: same_but_senders_def fun_upd_idem contexts_of_def ready_entries_def)
next
  case (Cons e S)
  obtain n s where e: "e = (n, s)" by (cases e)
  from Cons.prems(5) e obtain y where y: "s \<noteq> NULL" "s \<noteq> p" "processes k s = Some y" "p_ctx y \<in> dom (contexts k)" "p_ctx y \<noteq> NULL"
    by (auto simp: wakeable_def)
  then obtain c where c: "contexts k (p_ctx y) = Some c" by blast
  have sS: "s \<notin> snd ` set S" "distinct (map snd S)" using Cons.prems(4) e by auto
  from get_queue_inv [OF Cons.prems(1) Cons.prems(3) [unfolded e]] obtain k1 q where
    g: "get_queue P k (p_sending_queue x) = Some (k1, q, s)" "queue_nodes (queue_nodes_of k1) q S"
      "queue_nodes_of k1 = (queue_nodes_of k)(n := None)" "same_but_links k k1" "kernel_heap_inv live ty k1 pt qt it" by (elim exE conjE)
  note k1 = same_but_linksD [OF g(4)]
  have "q_size (priority_queue k) < q_capacity (priority_queue k)" using Cons.prems(7) by simp
  from insert_correct [OF Cons.prems(6) this, of s "p_priority y"] obtain pq where
    pq: "priorityqueue_insert (priority_queue k) s (p_priority y) = Some (pq, ENONE)" "pq_inv pq"
      "q_capacity pq = q_capacity (priority_queue k)"
      "contents pq = add_mset \<lparr>pq_value = s, pq_priority = p_priority y\<rparr> (contents (priority_queue k))"
      "pq_ordered (priority_queue k) \<longrightarrow> pq_ordered pq" by (elim exE conjE)
  let ?x = "x\<lparr>p_sending_queue := q\<rparr>"
  let ?k = "k1\<lparr>processes := (processes k)(p \<mapsto> ?x, s \<mapsto> y\<lparr>p_state := PROCESS_ACTIVE\<rparr>),
    contexts := (contexts k)(p_ctx y \<mapsto> set_context_return c (error_code EEXITED)), priority_queue := pq\<rparr>"
  have run: "wake_senders P k p = wake_senders P ?k p"
    using Cons.prems(2,8) g(1) k1 y c pq(1) by (subst wake_senders.simps) (simp add: Let_def enqueue_def)
  have h: "kernel_heap_inv live ty ?k pt qt it"
    by (rule heap_inv_written [OF g(5), where q = pq]) (use k1 y c Cons.prems(2) in \<open>auto simp: insert_absorb\<close>)
  have "q_size pq = Suc (q_size (priority_queue k))"
    using size_contents [OF pq(2)] size_contents [OF Cons.prems(6)] pq(4) by simp
  then have room: "q_size (priority_queue ?k) + length S \<le> q_capacity (priority_queue ?k)" using Cons.prems(7) pq(3) by simp
  have pS: "p \<notin> snd ` set S" using Cons.prems(5) by (auto simp: wakeable_def)
  have same: "processes ?k r = processes k r" if "r \<in> snd ` set S" for r using that pS sS(1) by auto
  have "dom (contexts k) \<subseteq> dom (contexts ?k)" by auto
  then have w: "\<forall>r \<in> snd ` set S. wakeable ?k p r" 
    using wakeable_kept [OF _ same] Cons.prems(5) by simp
  have "processes ?k p = Some ?x" "queue_nodes (queue_nodes_of ?k) (p_sending_queue ?x) S" "pq_inv (priority_queue ?k)"
    using y(2) g(2) pq(2) by simp_all
  from Cons.IH [OF h this(1,2) sS(2) w this(3) room Cons.prems(8)] obtain k' q' where
    k': "wake_senders P ?k p = Some k'" "kernel_heap_inv live ty k' pt qt it"
      "processes k' = (woken (snd ` set S) (processes ?k))(p \<mapsto> ?x\<lparr>p_sending_queue := q'\<rparr>)"
      "contexts k' = told (contexts_of ?k (snd ` set S)) (contexts ?k)" "same_off (fst ` set S) (queue_nodes_of ?k) (queue_nodes_of k')"
      "pq_inv (priority_queue k')" "q_capacity (priority_queue k') = q_capacity (priority_queue ?k)"
      "entries (priority_queue k') = entries (priority_queue ?k) + ready_entries ?k (snd ` set S)"
      "pq_ordered (priority_queue ?k) \<longrightarrow> pq_ordered (priority_queue k')" "same_but_senders ?k k'"
      "S = [] \<longrightarrow> priority_queue k' = priority_queue ?k" by (elim exE conjE)
  have "processes k' = (woken (snd ` set (e # S)) (processes k))(p \<mapsto> x\<lparr>p_sending_queue := q'\<rparr>)"
    using k'(3) y(2,3) pS by (auto simp: e woken_def fun_eq_iff)
  moreover have "contexts k' = told (contexts_of k (snd ` set (e # S))) (contexts k)"
  proof -
    have "contexts_of ?k (snd ` set S) = contexts_of k (snd ` set S)" unfolding contexts_of_def using same by (intro image_cong) simp_all
    moreover have "contexts_of k (snd ` set (e # S)) = insert (p_ctx y) (contexts_of k (snd ` set S))" using y(3) by (simp add: e contexts_of_def)
    ultimately show ?thesis using k'(4) told_again [of _ "contexts k" "p_ctx y" c] c by (simp add: fun_upd_idem)
  qed
  moreover have "entries (priority_queue k') = entries (priority_queue k) + ready_entries k (snd ` set (e # S))"
  proof -
    have "ready_entries ?k (snd ` set S) = ready_entries k (snd ` set S)" by (rule ready_entries_cong) (simp only: prio_of_def same)
    moreover have "ready_entries k (snd ` set (e # S)) = add_mset (s, p_priority y) (ready_entries k (snd ` set S))"
      using ready_entries_insert [OF sS(1), of k] y(3) by (simp add: e prio_of_def)
    ultimately show ?thesis using k'(8) pq(4) by (simp add: entries_def entry_def)
  qed
  moreover have "same_off (fst ` set (e # S)) (queue_nodes_of k) (queue_nodes_of k')"
    using k'(5) g(3) by (simp add: e same_off_def)
  moreover have "same_but_senders k k'"
  proof (rule same_but_senders_trans [OF _ k'(10)])
    show "same_but_senders k ?k"
      unfolding same_but_senders_def by (subst g(4) [unfolded same_but_links_def]) simp
  qed
  ultimately show ?case using run k'(1,2,6,7,9) pq(3,5)
    by (intro exI [of _ k'] exI [of _ q']) simp
qed

end

section \<open>Terminating\<close>

lemma no_senders: "mail_inv k N \<Longrightarrow> processes k p = Some x \<Longrightarrow> p_sending_queue x = queue_construct"
  by (simp add: mail_inv_def)

lemma with_no_senders: "mail_inv k N \<Longrightarrow> with_senders queue_construct p k = k"
  by (cases "processes k p") (simp_all add: with_senders_def no_senders fun_upd_idem)

lemma mail_inv_left:
  assumes inv: "mail_inv k N" "N p = []"
    and k': "dom (processes k) \<subseteq> insert p (dom (processes k'))"
      "\<And>r y. processes k' r = Some y \<Longrightarrow> \<exists>z. processes k r = Some z \<and> p_message_queue y = p_message_queue z \<and> p_sending_queue y = p_sending_queue z"
      "messages k' = messages k" "same_off X (queue_nodes_of k) (queue_nodes_of k')" "\<And>q. fst ` set (N q) \<inter> X = {}"
  shows "mail_inv k' N"
  unfolding mail_inv_def
proof (intro conjI allI impI)
  fix r y
  assume "processes k' r = Some y"
  from k'(2) [OF this] obtain z where z: "processes k r = Some z" "p_message_queue y = p_message_queue z" "p_sending_queue y = p_sending_queue z"
    by blast
  show "queue_nodes (queue_nodes_of k') (p_message_queue y) (N r)"
    using queue_nodes_frame [OF mail_queue [OF inv(1) z(1)] k'(4,5)] z(2) by simp
  show "p_sending_queue y = queue_construct" using no_senders [OF inv(1) z(1)] z(3) by simp
next
  fix r
  assume "r \<notin> dom (processes k')"
  then have "r = p \<or> r \<notin> dom (processes k)" using k'(1) by blast
  then show "N r = []" using inv by (auto simp: mail_inv_def)
next
  fix r
  show "distinct (map snd (N r))" by (rule mail_distinct [OF inv(1)])
  show "\<forall>m \<in> snd ` set (N r). m \<noteq> NULL \<and> (\<exists>x. messages k' m = Some x \<and> message_wf x)"
    using mail_refs [OF inv(1), of r] k'(3) by simp
next
  fix q r :: ptr
  assume "q \<noteq> r"
  from mail_sep [OF inv(1) this] show "fst ` set (N q) \<inter> fst ` set (N r) = {}" "snd ` set (N q) \<inter> snd ` set (N r) = {}" by blast+
qed

lemma with_senders_back: "processes k p = Some x \<Longrightarrow> with_senders (p_sending_queue x) p (with_senders s p k) = k"
  by (simp add: with_senders_def fun_upd_idem)

context kernel_platform
begin

text \<open>The two loops one after the other.\<close>

lemma drain_and_wake:
  assumes inv: "kernel_heap_inv live ty k pt qt it" "mail_inv (with_senders queue_construct p k) N"
    and p: "p \<noteq> NULL" "processes k p = Some x"
    and S: "queue_nodes (queue_nodes_of k) (p_sending_queue x) S" "distinct (map snd S)" "\<forall>s \<in> snd ` set S. wakeable k p s"
      "\<forall>q. fst ` set (N q) \<inter> fst ` set S = {}"
    and pq: "pq_inv (priority_queue k)" "q_size (priority_queue k) + length S \<le> q_capacity (priority_queue k)"
  shows "\<exists>k1 k' y (k0 :: 'm kernel_t). drain_messages P k p = Some k1 \<and> wake_senders P k1 p = Some k' \<and> kernel_heap_inv live ty k' pt qt it \<and>
    processes k' = (woken (snd ` set S) (processes k))(p \<mapsto> y) \<and> p_ctx y = p_ctx x \<and>
    contexts k' = told (contexts_of k (snd ` set S)) (contexts k) \<and>
    pq_inv (priority_queue k') \<and> q_capacity (priority_queue k') = q_capacity (priority_queue k) \<and>
    entries (priority_queue k') = entries (priority_queue k) + ready_entries k (snd ` set S) \<and>
    (pq_ordered (priority_queue k) \<longrightarrow> pq_ordered (priority_queue k')) \<and> (S = [] \<longrightarrow> priority_queue k' = priority_queue k) \<and>
    mail_inv k0 (N(p := [])) \<and> dom (processes k0) = dom (processes k) \<and> (\<forall>r. r \<noteq> p \<longrightarrow> processes k0 r = processes k r) \<and>
    messages k' = messages k0 \<and> same_off (fst ` set S) (queue_nodes_of k0) (queue_nodes_of k') \<and>
    ports k' = ports k \<and> actions k' = actions k \<and> next_pid k' = next_pid k \<and> syscall_table k' = syscall_table k \<and>
    active_process k' = active_process k"
proof -
  let ?W = "snd ` set S" and ?k = "with_senders queue_construct p k" and ?sq = "p_sending_queue x"
  have h: "kernel_heap_inv live ty ?k pt qt it" using inv(1) by (simp add: with_senders_heap)
  have x: "processes ?k p = Some (x\<lparr>p_sending_queue := queue_construct\<rparr>)" using p(2) by (simp add: with_senders_def)
  from drain_all [OF h inv(2) p(1) x] obtain k0 q where
    k0: "drain_messages P ?k p = Some k0" "kernel_heap_inv live ty k0 pt qt it" "mail_inv k0 (N(p := []))"
      "processes k0 = (processes ?k)(p \<mapsto> x\<lparr>p_sending_queue := queue_construct\<rparr>\<lparr>p_message_queue := q\<rparr>)" "same_but_mail ?k k0"
      "same_off (fst ` set (N p)) (queue_nodes_of ?k) (queue_nodes_of k0)" by (elim exE conjE)
  let ?k1 = "with_senders ?sq p k0" and ?x = "x\<lparr>p_message_queue := q\<rparr>"
  have d: "drain_messages P k p = Some ?k1" using drain_with_senders [OF k0(1), of ?sq] with_senders_back [of k p, OF p(2)] by simp
  have x1: "processes ?k1 p = Some ?x" using k0(4) by (cases x) (simp add: with_senders_def)
  have other: "processes k0 r = processes k r" "processes ?k1 r = processes k r" if "r \<noteq> p" for r
    using k0(4) that by (simp_all add: with_senders_def)
  note d0 = same_but_mailD [OF k0(5)]
  have fields: "contexts ?k1 = contexts k" "priority_queue ?k1 = priority_queue k" "ports ?k1 = ports k" "actions ?k1 = actions k"
    "next_pid ?k1 = next_pid k" "syscall_table ?k1 = syscall_table k" "active_process ?k1 = active_process k"
    using d0 by (simp_all add: with_senders_def)
  have pW: "p \<notin> ?W" using S(3) by (auto simp: wakeable_def)
  have "queue_nodes (queue_nodes_of k0) ?sq S" using queue_nodes_frame [OF S(1), of "fst ` set (N p)"] k0(6) S(4) by (simp add: Int_commute)
  then have n: "queue_nodes (queue_nodes_of ?k1) (p_sending_queue ?x) S" by simp
  have same: "processes ?k1 r = processes k r" if "r \<in> ?W" for r using other(2) [of r] pW that by fastforce
  have w: "\<forall>s \<in> ?W. wakeable ?k1 p s"
  proof
    fix s
    assume s: "s \<in> ?W"
    show "wakeable ?k1 p s" by (rule wakeable_kept [OF S(3) [rule_format, OF s] same [OF s]]) (simp only: fields(1) subset_refl)
  qed
  have h1: "kernel_heap_inv live ty ?k1 pt qt it" using k0(2) by (simp add: with_senders_heap)
  from wake_all [OF h1 x1 n S(2) w, unfolded fields, OF pq p(1)] obtain k' q' where
    k': "wake_senders P ?k1 p = Some k'" "kernel_heap_inv live ty k' pt qt it"
      "processes k' = (woken ?W (processes ?k1))(p \<mapsto> ?x\<lparr>p_sending_queue := q'\<rparr>)" "contexts k' = told (contexts_of ?k1 ?W) (contexts k)"
      "same_off (fst ` set S) (queue_nodes_of ?k1) (queue_nodes_of k')" "pq_inv (priority_queue k')"
      "q_capacity (priority_queue k') = q_capacity (priority_queue k)" "entries (priority_queue k') = entries (priority_queue k) + ready_entries ?k1 ?W"
      "pq_ordered (priority_queue k) \<longrightarrow> pq_ordered (priority_queue k')" "same_but_senders ?k1 k'" "S = [] \<longrightarrow> priority_queue k' = priority_queue k"
    by (elim exE conjE)
  note d1 = same_but_sendersD [OF k'(10)]
  have procs: "processes k' = (woken ?W (processes k))(p \<mapsto> ?x\<lparr>p_sending_queue := q'\<rparr>)"
    using k'(3) other(2) by (auto simp: woken_def fun_eq_iff)
  have "contexts_of ?k1 ?W = contexts_of k ?W" unfolding contexts_of_def by (rule image_cong) (simp_all only: same)
  note ctxs = k'(4) [unfolded this]
  have "ready_entries ?k1 ?W = ready_entries k ?W" by (rule ready_entries_cong) (simp only: prio_of_def same)
  note ents = k'(8) [unfolded this]
  have dom: "dom (processes k0) = dom (processes k)" using k0(4) p(2) by (auto simp: domIff with_senders_def)
  have "p_ctx (?x\<lparr>p_sending_queue := q'\<rparr>) = p_ctx x" "messages k' = messages k0"
    "same_off (fst ` set S) (queue_nodes_of k0) (queue_nodes_of k')" using d1(7) k'(5) by simp_all
  note rest = this d1(5,6,8-10) [unfolded fields]
  show ?thesis
    by (rule exI [of _ ?k1], rule exI [of _ k'], rule exI [of _ "?x\<lparr>p_sending_queue := q'\<rparr>"], rule exI [of _ k0])
      (intro conjI allI impI d k'(1,2,6,7) procs ctxs ents k'(9,11) [THEN mp] k0(3) dom other(1) rest, assumption+)
qed

end

text \<open>What is left of a process at the end is freed.\<close>

definition release :: "'m platform \<Rightarrow> 'm kernel_t \<Rightarrow> ptr \<Rightarrow> ptr \<Rightarrow> 'm kernel_t" where
  "release P k p c = (let k = (kfree_k P k c)\<lparr>contexts := (contexts k)(c := None)\<rparr> in
     (kfree_k P k p)\<lparr>processes := (processes k)(p := None)\<rparr>)"

lemma release_simps [simp]:
  "processes (release P k p c) = (processes k)(p := None)" "contexts (release P k p c) = (contexts k)(c := None)"
  "ports (release P k p c) = ports k" "actions (release P k p c) = actions k" "next_pid (release P k p c) = next_pid k"
  "syscall_table (release P k p c) = syscall_table k" "priority_queue (release P k p c) = priority_queue k"
  "active_process (release P k p c) = active_process k" "messages (release P k p c) = messages k"
  "queue_nodes_of (release P k p c) = queue_nodes_of k"
  by (simp_all add: release_def kfree_k_def Let_def)

context kernel_platform
begin

lemma release_heap:
  assumes "kernel_heap_inv live ty k pt qt it" "ty c = KContext" "ty p = KProcess"
  shows "kernel_heap_inv live ty (release P k p c) pt qt it"
  using heap_inv_free(2) [OF heap_inv_free(3) [OF assms(1)], of c p] assms(2,3) by (simp add: release_def Let_def)

lemma terminate_stages:
  assumes inv: "kernel_heap_inv live ty k pt qt it" "mail_inv (with_senders queue_construct p k) N" "procs_ok k pt" "sched_inv k"
    and p: "pt (key_of pid) = Some p" "processes k p = Some x" "p_ctx x \<in> dom (contexts k)"
    and S: "queue_nodes (queue_nodes_of k) (p_sending_queue x) S" "distinct (map snd S)" "\<forall>s \<in> snd ` set S. wakeable k p s"
      "\<forall>q. fst ` set (N q) \<inter> fst ` set S = {}"
    and room: "card (ready k - {p}) + length S \<le> q_capacity (priority_queue k)"
  shows "\<exists>k4 y (m0 :: 'm kernel_t). kernel_terminate_process P k pid = Some (release P k4 p (p_ctx y), ENONE) \<and>
    kernel_heap_inv live ty k4 (pt(key_of pid := None)) qt it \<and>
    processes k4 = (woken (snd ` set S) (processes k))(p \<mapsto> y) \<and> p_ctx y = p_ctx x \<and>
    contexts k4 = told (contexts_of k (snd ` set S)) (contexts k) \<and>
    pq_inv (priority_queue k4) \<and> q_capacity (priority_queue k4) = q_capacity (priority_queue k) \<and>
    entries (priority_queue k4) = ready_entries k (ready k - {p}) + ready_entries k (snd ` set S) \<and>
    (p \<notin> ready k \<longrightarrow> pq_ordered (priority_queue k4)) \<and>
    mail_inv m0 (N(p := [])) \<and> dom (processes m0) = dom (processes k) \<and> (\<forall>r. r \<noteq> p \<longrightarrow> processes m0 r = processes k r) \<and>
    messages k4 = messages m0 \<and> same_off (fst ` set S) (queue_nodes_of m0) (queue_nodes_of k4) \<and>
    ports k4 = ports k \<and> actions k4 = actions k \<and> next_pid k4 = next_pid k \<and> syscall_table k4 = syscall_table k \<and>
    active_process k4 = (if active_process k = p then NULL else active_process k)"
proof -
  let ?W = "snd ` set S"
  have pn: "p \<noteq> NULL" using inv(3) p(1) by (auto simp: procs_ok_def)
  have get: "tree_get k (process_table k) pid = Some p" using tables_get(1) inv(1) p(1) by (fastforce simp: kernel_heap_inv_def)
  let ?k0 = "k\<lparr>active_process := (if active_process k = p then NULL else active_process k)\<rparr>"
  have h0: "kernel_heap_inv live ty ?k0 pt qt it" using inv(1) by (simp add: kernel_heap_inv_def)
  from remove_process_inv [OF h0, of pid] obtain k1 r where
    k1: "tree_remove P ?k0 (process_table ?k0) pid = Some (k1, r)" "kernel_heap_inv live ty (k1\<lparr>process_table := r\<rparr>) (pt(key_of pid := None)) qt it"
      "same_but_tree ?k0 k1" by (elim exE conjE)
  note d1 = same_but_treeD [OF k1(3), simplified]
  from remove_ready [OF inv(4), of p] obtain pq e where
    pq: "priorityqueue_remove (priority_queue k) p = Some (pq, e)" "pq_inv pq" "q_capacity pq = q_capacity (priority_queue k)"
      "entries pq = ready_entries k (ready k - {p})" "p \<notin> ready k \<longrightarrow> pq = priority_queue k" by (elim exE conjE)
  let ?k2 = "k1\<lparr>process_table := r, priority_queue := pq\<rparr>"
  have h2: "kernel_heap_inv live ty ?k2 (pt(key_of pid := None)) qt it"
    using k1(2) by (simp add: kernel_heap_inv_def objects_def tables_def)
  have x2: "processes ?k2 p = Some x" using d1 p(2) by simp
  have m2: "mail_inv (with_senders queue_construct p ?k2) N"
    by (rule mail_inv_same(1) [OF inv(2)]) (use d1 in \<open>simp_all add: with_senders_def\<close>)
  have S2: "queue_nodes (queue_nodes_of ?k2) (p_sending_queue x) S" "\<forall>s \<in> ?W. wakeable ?k2 p s"
    using S(1,3) d1 by (simp_all add: wakeable_def)
  have "q_size pq = card (ready k - {p})" using size_contents [OF pq(2)] pq(4) by (simp add: entries_def)
      (metis entries_def size_image_mset size_ready_entries)
  then have r2: "pq_inv (priority_queue ?k2)" "q_size (priority_queue ?k2) + length S \<le> q_capacity (priority_queue ?k2)"
    using pq(2,3) room by simp_all
  from drain_and_wake [OF h2 m2 pn x2 S2(1) S(2) S2(2) S(4) r2] obtain k3 k4 y and m0 :: "'m kernel_t" where
    k4: "drain_messages P ?k2 p = Some k3" "wake_senders P k3 p = Some k4" "kernel_heap_inv live ty k4 (pt(key_of pid := None)) qt it"
      "processes k4 = (woken ?W (processes ?k2))(p \<mapsto> y)" "p_ctx y = p_ctx x" "contexts k4 = told (contexts_of ?k2 ?W) (contexts ?k2)"
      "pq_inv (priority_queue k4)" "q_capacity (priority_queue k4) = q_capacity (priority_queue ?k2)"
      "entries (priority_queue k4) = entries (priority_queue ?k2) + ready_entries ?k2 ?W"
      "pq_ordered (priority_queue ?k2) \<longrightarrow> pq_ordered (priority_queue k4)" "S = [] \<longrightarrow> priority_queue k4 = priority_queue ?k2"
      "mail_inv m0 (N(p := []))" "dom (processes m0) = dom (processes ?k2)" "\<forall>r. r \<noteq> p \<longrightarrow> processes m0 r = processes ?k2 r"
      "messages k4 = messages m0" "same_off (fst ` set S) (queue_nodes_of m0) (queue_nodes_of k4)"
      "ports k4 = ports ?k2" "actions k4 = actions ?k2" "next_pid k4 = next_pid ?k2" "syscall_table k4 = syscall_table ?k2"
      "active_process k4 = active_process ?k2" by (elim exE conjE)
  have x4: "processes k4 p = Some y" using k4(4) by simp
  have re: "ready_entries ?k2 A = ready_entries k A" for A by (rule ready_entries_cong) (simp add: prio_of_def d1)
  have "kernel_terminate_process P k pid = Some (release P k4 p (p_ctx y), ENONE)"
  proof -
    have e0: "(if active_process k = p then k\<lparr>active_process := NULL\<rparr> else k) = ?k0" by simp
    show ?thesis using pn k1(1) pq(1) d1 x4 unfolding kernel_terminate_process_def get
      by (simp add: Let_def e0 k4(1,2) release_def split del: if_split)
  qed
  moreover have "processes k4 = (woken ?W (processes k))(p \<mapsto> y)" "contexts k4 = told (contexts_of k ?W) (contexts k)"
    "dom (processes m0) = dom (processes k)" "\<forall>r. r \<noteq> p \<longrightarrow> processes m0 r = processes k r"
    using k4(4,6,13,14) d1 by (simp_all add: contexts_of_def)
  moreover have "entries (priority_queue k4) = ready_entries k (ready k - {p}) + ready_entries k ?W" using k4(9) pq(4) re by simp
  moreover have "p \<notin> ready k \<longrightarrow> pq_ordered (priority_queue k4)" using inv(4) pq(5) k4(10) by (auto simp: sched_inv_def pq_good_def)
  moreover have "q_capacity (priority_queue k4) = q_capacity (priority_queue k)" using k4(8) pq(3) by simp
  moreover have "ports k4 = ports k" "actions k4 = actions k" "next_pid k4 = next_pid k" "syscall_table k4 = syscall_table k"
    "active_process k4 = (if active_process k = p then NULL else active_process k)" using k4(17-21) d1 by simp_all
  ultimately show ?thesis using k4(3,5,7,12,15,16) by blast
qed

lemma terminate_all:
  assumes inv: "kernel_heap_inv live ty k pt qt it" "mail_inv (with_senders queue_construct p k) N" "procs_ok k pt" "sched_inv k"
    and p: "pt (key_of pid) = Some p" "processes k p = Some x" "p_ctx x \<in> dom (contexts k)"
    and S: "queue_nodes (queue_nodes_of k) (p_sending_queue x) S" "distinct (map snd S)" "\<forall>s \<in> snd ` set S. wakeable k p s"
      "\<forall>q. fst ` set (N q) \<inter> fst ` set S = {}"
    and room: "card (ready k - {p}) + length S \<le> q_capacity (priority_queue k)"
  shows "\<exists>k'. kernel_terminate_process P k pid = Some (k', ENONE) \<and>
    processes k' = (woken (snd ` set S) (processes k))(p := None) \<and>
    contexts k' = (told (contexts_of k (snd ` set S)) (contexts k))(p_ctx x := None) \<and> ports k' = ports k \<and>
    active_process k' = (if active_process k = p then NULL else active_process k) \<and>
    kernel_heap_inv live ty k' (pt(key_of pid := None)) qt it \<and> mail_inv k' (N(p := [])) \<and>
    entries (priority_queue k') = ready_entries k' (ready k') \<and> pq_inv (priority_queue k') \<and>
    q_capacity (priority_queue k') = q_capacity (priority_queue k) \<and> (p \<notin> ready k \<longrightarrow> sched_inv k') \<and>
    actions k' = actions k \<and> next_pid k' = next_pid k \<and> syscall_table k' = syscall_table k"
proof -
  let ?W = "snd ` set S"
  from terminate_stages [OF assms] obtain k4 y and m0 :: "'m kernel_t" where
    k4: "kernel_terminate_process P k pid = Some (release P k4 p (p_ctx y), ENONE)"
      "kernel_heap_inv live ty k4 (pt(key_of pid := None)) qt it"
      "processes k4 = (woken ?W (processes k))(p \<mapsto> y)" "p_ctx y = p_ctx x" "contexts k4 = told (contexts_of k ?W) (contexts k)"
      "pq_inv (priority_queue k4)" "q_capacity (priority_queue k4) = q_capacity (priority_queue k)"
      "entries (priority_queue k4) = ready_entries k (ready k - {p}) + ready_entries k ?W" "p \<notin> ready k \<longrightarrow> pq_ordered (priority_queue k4)"
      "mail_inv m0 (N(p := []))" "dom (processes m0) = dom (processes k)" "\<forall>r. r \<noteq> p \<longrightarrow> processes m0 r = processes k r"
      "messages k4 = messages m0" "same_off (fst ` set S) (queue_nodes_of m0) (queue_nodes_of k4)"
      "ports k4 = ports k" "actions k4 = actions k" "next_pid k4 = next_pid k" "syscall_table k4 = syscall_table k"
      "active_process k4 = (if active_process k = p then NULL else active_process k)" by (elim exE conjE)
  let ?k = "release P k4 p (p_ctx y)"
  have "ty (p_ctx y) = KContext" "ty p = KProcess"
    using inv(1) p(2,3) k4(4) by (auto simp: kernel_heap_inv_def objects_def typed_def)
  then have h: "kernel_heap_inv live ty ?k (pt(key_of pid := None)) qt it" by (rule release_heap [OF k4(2)])
  have ps: "processes ?k = (woken ?W (processes k))(p := None)" using k4(3) by simp
  have W: "s \<noteq> NULL \<and> s \<noteq> p \<and> \<not> runnable k s \<and> runnable ?k s" if s: "s \<in> ?W" for s
  proof -
    from S(3) s obtain z where "s \<noteq> NULL" "s \<noteq> p" "processes k s = Some z" "p_state z \<noteq> PROCESS_ACTIVE"
      unfolding wakeable_def by blast
    moreover from this have "processes ?k s = Some (z\<lparr>p_state := PROCESS_ACTIVE\<rparr>)" unfolding ps using s by (simp add: woken_def)
    ultimately show ?thesis by (simp add: runnable_def del: release_simps fun_upd_apply)
  qed
  have gone: "\<not> runnable ?k p" unfolding runnable_def ps by simp
  have same: "processes ?k r = processes k r" if "r \<notin> ?W" "r \<noteq> p" for r unfolding ps using that by (simp add: woken_def)
  have pr: "prio_of ?k s = prio_of k s" if s: "s \<in> ?W" for s
    using S(3) s unfolding prio_of_def ps wakeable_def by (auto simp: woken_def)
  have q: "pq_inv (priority_queue ?k)" "entries (priority_queue ?k) = ready_entries k (ready k - {p}) + ready_entries k ?W"
    "active_process ?k = (if active_process k = p then NULL else active_process k)" using k4(6,8,19) by simp_all
  have leave: "entries (priority_queue ?k) = ready_entries ?k (ready ?k)"
    by (rule sched_leave(1) [OF inv(4) _ gone _ _ q(3,1,2)]) (fact W same pr)+
  have sched: "sched_inv ?k" if "pq_ordered (priority_queue ?k)"
    by (rule sched_leave(2) [OF inv(4) _ gone _ _ q(3,1,2) that]) (fact W same pr)+
  have mail: "mail_inv ?k (N(p := []))"
  proof (rule mail_inv_left [OF k4(10), where X = "fst ` set S"])
    show "dom (processes m0) \<subseteq> insert p (dom (processes ?k))"
      using k4(11) unfolding ps by (auto simp: woken_def domIff)
    fix r z
    assume z: "processes ?k r = Some z"
    then have "r \<noteq> p" unfolding ps by auto
    with z k4(12) show "\<exists>v. processes m0 r = Some v \<and> p_message_queue z = p_message_queue v \<and> p_sending_queue z = p_sending_queue v"
      unfolding ps by (auto simp: woken_def split: if_splits)
  qed (use k4(13,14) S(4) in simp_all)
  show ?thesis
    by (rule exI [of _ ?k], intro conjI k4(1) ps h mail leave q(1,3)) (use k4 sched in simp_all)
qed

text \<open>A process that is not waiting in the run queue, and to which nobody waits to send.\<close>

lemma terminate_effect:
  assumes inv: "kernel_heap_inv live ty k pt qt it" "mail_inv k N" "procs_ok k pt" "sched_inv k"
    and p: "pt (key_of pid) = Some p" "processes k p = Some x" "p_ctx x \<in> dom (contexts k)" "p \<notin> ready k"
  shows "\<exists>k'. kernel_terminate_process P k pid = Some (k', ENONE) \<and> processes k' = (processes k)(p := None) \<and>
    contexts k' = (contexts k)(p_ctx x := None) \<and> ports k' = ports k \<and> sched_inv k' \<and>
    kernel_heap_inv live ty k' (pt(key_of pid := None)) qt it \<and> mail_inv k' (N(p := [])) \<and>
    actions k' = actions k \<and> next_pid k' = next_pid k \<and> syscall_table k' = syscall_table k \<and>
    q_capacity (priority_queue k') = q_capacity (priority_queue k)"
proof -
  have m: "mail_inv (with_senders queue_construct p k) N" using inv(2) by (simp add: with_no_senders [OF inv(2)])
  have q: "queue_nodes (queue_nodes_of k) (p_sending_queue x) []"
    using no_senders [OF inv(2) p(2)] by (simp add: queue_nodes_def queue_construct_def)
  have "card (ready k) \<le> q_capacity (priority_queue k)"
    using inv(4) room_entries [of "priority_queue k"] by (simp add: sched_inv_def)
  then have r: "card (ready k - {p}) + length ([] :: (ptr \<times> ptr) list) \<le> q_capacity (priority_queue k)" using p(4) by simp
  from terminate_all [OF inv(1) m inv(3,4) p(1-3) q _ _ _ r] p(4) show ?thesis by (auto simp: contexts_of_def)
qed

end

section \<open>Properties\<close>

text \<open>An example: process 7 (at 64) runs. Process 8 (at 192) waits in the run queue, with one message in its mailbox
  and one process, 9 (at 32), waiting in its queue of senders.\<close>

definition leaving_kernel :: "flat kernel_t" where
  "leaving_kernel = mail_kernel\<lparr>queue_nodes_of := (queue_nodes_of mail_kernel)(160 \<mapsto> \<lparr>qn_ptr = 32, qn_next = NULL\<rparr>),
     processes := [64 \<mapsto> fresh_process 7 1 0x1000 128,
       192 \<mapsto> (fresh_process 8 1 0x2000 256)\<lparr>p_message_queue := \<lparr>q_count = 1, q_first = 384, q_last = 384\<rparr>,
         p_sending_queue := \<lparr>q_count = 1, q_first = 160, q_last = 160\<rparr>\<rparr>,
       32 \<mapsto> (fresh_process 9 0 0x3000 96)\<lparr>p_state := PROCESS_SENDING\<rparr>],
     contexts := (contexts mail_kernel)(96 \<mapsto> fresh_context 0 0),
     priority_queue := (queue_of [(192, 1), (0, 0), (0, 0), (0, 0)])\<lparr>q_size := 1\<rparr>\<rparr>"

definition leaving_nodes :: "ptr \<Rightarrow> (ptr \<times> ptr) list" where
  "leaving_nodes p = (if p = 192 then [(384, 448)] else [])"

lemma leaving_heap:
  "kernel_heap_inv (\<lambda>m. {p. p < f_brk m}) (mail_typing(32 := KProcess, 160 := KLink)) leaving_kernel [8 \<mapsto> 192] Map.empty Map.empty"
proof -
  let ?h = "[320 \<mapsto> \<lparr>n_height = 1, n_key = 8, n_value = 192, n_left = NULL, n_right = NULL\<rparr>] :: avl_store"
  have "t_get (Nd 320 1 Tip 8 192 Tip) = [8 \<mapsto> 192]" by (auto simp: fun_eq_iff)
  then have "avl_table ?h 320 [8 \<mapsto> 192] {320}"
    unfolding avl_table_def by (intro exI [of _ "Nd 320 1 Tip 8 192 Tip"]) simp
  then have "forest ?h {p. p < 512 \<and> (mail_typing(32 := KProcess, 160 := KLink)) p = KNode} (320, [8 \<mapsto> 192]) (NULL, Map.empty) (NULL, Map.empty)"
    by (intro forestI [where X = "{320}" and Y = "{}" and Z = "{}"]) (simp_all add: table_empty mail_typing_def)
  then show ?thesis
    by (simp add: kernel_heap_inv_def tables_def leaving_kernel_def mail_kernel_def one_process_def objects_def typed_def mail_typing_def)
qed

lemma leaving_mail: "mail_inv (with_senders queue_construct 192 leaving_kernel) leaving_nodes"
  by (auto simp: mail_inv_def with_senders_def leaving_kernel_def mail_kernel_def leaving_nodes_def one_process_def queue_nodes_def
      fresh_process_def queue_construct_def ex_message_def message_wf_def)

lemma leaving_sched: "sched_inv leaving_kernel" "ready leaving_kernel = {192}"
proof -
  have r: "runnable leaving_kernel p \<longleftrightarrow> p = 64 \<or> p = 192" for p
    by (auto simp: runnable_def leaving_kernel_def fresh_process_def split: if_splits)
  have a: "active_process leaving_kernel = 64" by (simp add: leaving_kernel_def mail_kernel_def one_process_def)
  then show e: "ready leaving_kernel = {192}" by (auto simp: ready_def r)
  have "entries (priority_queue leaving_kernel) = {#(192, 1)#}" "pq_good (priority_queue leaving_kernel)" "prio_of leaving_kernel 192 = 1"
    by (simp_all add: leaving_kernel_def pq_eval entries_def contents_def entry_def prio_of_def fresh_process_def)
  then show "sched_inv leaving_kernel" using a e by (simp add: sched_inv_def ready_entries_def r)
qed



end
