(* ===== verification/Kernel_Handlers.thy ===== *)
theory Kernel_Handlers
  imports Kernel_Terminate
begin

text \<open>
  Interrupts that are handed to user processes: the functions of \<^verbatim>\<open>src/kernel.c\<close> that file handlers,
  make a process run one, and return from it.
\<close>

section \<open>The code\<close>

text \<open>The code does not set \<^verbatim>\<open>trampoline_ptr\<close>; \<open>junk\<close> is what the new block held in its place.\<close>

definition kernel_register_interrupt_handler ::
  "'m platform \<Rightarrow> ptr \<Rightarrow> 'm kernel_t \<Rightarrow> u32 \<Rightarrow> ptr \<Rightarrow> ptr \<Rightarrow> ('m kernel_t \<times> error_t) option" where
  "kernel_register_interrupt_handler P junk k interrupt handler userdata = do {
     old \<leftarrow> tree_get k (interrupt_handlers k) interrupt;
     if old \<noteq> NULL then Some (k, EEXISTS)
     else do {
       (k, action) \<leftarrow> kmalloc_k P k 16;
       a \<leftarrow> deref (processes k) (active_process k);
       if action = NULL then None
       else do {
         let k = k\<lparr>actions := (actions k)(action \<mapsto>
           \<lparr>sa_pid = p_pid a, sa_func_ptr = handler, sa_trampoline_ptr = junk, sa_userdata = userdata\<rparr>)\<rparr>;
         (k, r) \<leftarrow> tree_insert P k (interrupt_handlers k) interrupt action;
         Some (k\<lparr>interrupt_handlers := r\<rparr>, ENONE) } }
   }"

definition kernel_remove_interrupt_handler :: "'m platform \<Rightarrow> 'm kernel_t \<Rightarrow> u32 \<Rightarrow> ('m kernel_t \<times> error_t) option" where
  "kernel_remove_interrupt_handler P k interrupt = do {
     action \<leftarrow> tree_get k (interrupt_handlers k) interrupt;
     if action = NULL then Some (k, EDOESNTEXIST)
     else do {
       let k = (kfree_k P k action)\<lparr>actions := (actions k)(action := None)\<rparr>;
       (k, r) \<leftarrow> tree_remove P k (interrupt_handlers k) interrupt;
       Some (k\<lparr>interrupt_handlers := r\<rparr>, ENONE) }
   }"

text \<open>What is pushed for a handler: the signal information, the context (as it is after the stack pointer was
  moved), the state of the process, and the call of the handler.\<close>

definition push_signal ::
  "'m platform \<Rightarrow> 'm \<Rightarrow> process_context_t \<Rightarrow> u32 \<Rightarrow> u32 \<Rightarrow> signal_action_t \<Rightarrow> ('m \<times> process_context_t) option" where
  "push_signal P m c interrupt st action = do {
     (m, c, siginfo_ptr) \<leftarrow> context_stack_push_struct P m c (\<lambda>_. bytes_of interrupt) 4;
     (m, c, _) \<leftarrow> context_stack_push_struct P m c context_bytes 48;
     (m, c, _) \<leftarrow> context_stack_push P m c st;
     context_call_func P m c (sa_func_ptr action) (sa_trampoline_ptr action) [sa_userdata action, siginfo_ptr]
   }"

definition kernel_execute_interrupt_handler :: "'m platform \<Rightarrow> 'm kernel_t \<Rightarrow> u32 \<Rightarrow> ('m kernel_t \<times> error_t) option" where
  "kernel_execute_interrupt_handler P k interrupt = do {
     ap \<leftarrow> tree_get k (interrupt_handlers k) interrupt;
     if ap = NULL then Some (k, EDOESNTEXIST)
     else do {
       action \<leftarrow> deref (actions k) ap;
       process \<leftarrow> tree_get k (process_table k) (sa_pid action);
       if process = NULL then do {
         (k, r) \<leftarrow> tree_remove P k (interrupt_handlers k) interrupt;
         Some (k\<lparr>interrupt_handlers := r\<rparr>, EDOESNTEXIST) }
       else do {
         x \<leftarrow> deref (processes k) process;
         let k = load_space P k (p_page_table x);
         c \<leftarrow> deref (contexts k) (p_ctx x);
         (m, c) \<leftarrow> push_signal P (mach k) c interrupt (p_state x) action;
         let k = set_context (k\<lparr>mach := m\<rparr>) (p_ctx x) c;
         k \<leftarrow> (if p_state x \<noteq> PROCESS_ACTIVE
               then enqueue (set_process k process (x\<lparr>p_state := PROCESS_ACTIVE\<rparr>)) process (p_priority x)
               else Some k);
         a \<leftarrow> deref (processes k) (active_process k);
         Some (load_space P k (p_page_table a), ENONE) } }
   }"

definition kernel_signal_return :: "'m platform \<Rightarrow> 'm kernel_t \<Rightarrow> ('m kernel_t \<times> error_t outcome) option" where
  "kernel_signal_return P k = do {
     a \<leftarrow> deref (processes k) (active_process k);
     c \<leftarrow> deref (contexts k) (p_ctx a);
     let c = context_cleanup_func c 2;
     (c, st) \<leftarrow> context_stack_pop P (mach k) c;
     let k = set_process k (active_process k) (a\<lparr>p_state := st\<rparr>);
     (c, bs) \<leftarrow> context_stack_pop_struct P (mach k) c 48;
     let k = set_context k (p_ctx a) (context_of_bytes bs);
     if st = PROCESS_REQUESTING then do {
       (k, out) \<leftarrow> receive_message P k (p_message_buffer a) 0;
       case out of
         Enters ctx \<Rightarrow> Some (k, Enters ctx)
       | Returns _ \<Rightarrow> do { a \<leftarrow> deref (processes k) (active_process k); Some (k, Enters (p_ctx a)) } }
     else Some (k, Returns ENONE)
   }"

section \<open>The registry of handlers\<close>

definition actions_ok :: "'m kernel_t \<Rightarrow> (int \<rightharpoonup> ptr) \<Rightarrow> bool" where
  "actions_ok k it \<longleftrightarrow> inj_on it (dom it) \<and> (\<forall>i p. it i = Some p \<longrightarrow> p \<noteq> NULL \<and> p \<in> dom (actions k))"

text \<open>Which process handles an interrupt, with which function and argument.\<close>

definition handlers :: "'m kernel_t \<Rightarrow> (int \<rightharpoonup> ptr) \<Rightarrow> u32 \<rightharpoonup> signal_action_t" where
  "handlers k it i = Option.bind (it (key_of i)) (actions k)"

lemma handlers_None: "actions_ok k it \<Longrightarrow> handlers k it i = None \<longleftrightarrow> it (key_of i) = None"
  by (cases "it (key_of i)") (auto simp: handlers_def actions_ok_def)

lemma handlers_new:
  assumes "actions_ok k it" "p \<notin> dom (actions k)" "p \<noteq> NULL" "actions k' = (actions k)(p \<mapsto> x)" "it (key_of i) = None"
  shows "actions_ok k' (it(key_of i \<mapsto> p))" "handlers k' (it(key_of i \<mapsto> p)) = (handlers k it)(i \<mapsto> x)"
proof -
  have np: "it j \<noteq> Some p" for j using assms(1,2) by (auto simp: actions_ok_def)
  then have old: "actions k' q = actions k q" if "it j = Some q" for j q using assms(4) that by auto
  show "actions_ok k' (it(key_of i \<mapsto> p))"
    using assms np unfolding actions_ok_def by (auto simp: inj_on_def split: if_splits)
  show "handlers k' (it(key_of i \<mapsto> p)) = (handlers k it)(i \<mapsto> x)"
    using assms(4) np by (auto simp: handlers_def fun_eq_iff split: Option.bind_split)
qed

lemma handlers_drop:
  assumes "actions_ok k it" "it (key_of i) = Some p" "actions k' = (actions k)(p := None)"
  shows "actions_ok k' (it(key_of i := None))" "handlers k' (it(key_of i := None)) = (handlers k it)(i := None)"
proof -
  have np: "it j = Some q \<Longrightarrow> j \<noteq> key_of i \<Longrightarrow> q \<noteq> p" for j q
    using assms(1,2) unfolding actions_ok_def inj_on_def by (metis domI)
  show "actions_ok k' (it(key_of i := None))"
    using assms(1,3) np unfolding actions_ok_def by (auto simp: inj_on_def split: if_splits)
  show "handlers k' (it(key_of i := None)) = (handlers k it)(i := None)"
    using assms(3) np by (auto simp: handlers_def fun_eq_iff split: Option.bind_split)
qed

context kernel_platform
begin

lemma register_effect:
  assumes inv: "kernel_heap_inv live ty k pt qt it" "actions_ok k it"
    and a: "active_process k \<noteq> NULL" "processes k (active_process k) = Some a"
    and run: "kernel_register_interrupt_handler P junk k i f u = Some (k', e)"
  shows "if i \<in> dom (handlers k it) then k' = k \<and> e = EEXISTS
    else e = ENONE \<and> (\<exists>ty' it'. kernel_heap_inv live ty' k' pt qt it' \<and> actions_ok k' it' \<and> handlers k' it' =
      (handlers k it)(i \<mapsto> \<lparr>sa_pid = p_pid a, sa_func_ptr = f, sa_trampoline_ptr = junk, sa_userdata = u\<rparr>))"
proof -
  have get: "tree_get k (interrupt_handlers k) i = Some (case it (key_of i) of None \<Rightarrow> NULL | Some p \<Rightarrow> p)"
    using inv(1) tables_get by (auto simp: kernel_heap_inv_def)
  show ?thesis
  proof (cases "it (key_of i)")
    case (Some p)
    then have "p \<noteq> NULL" using inv(2) by (auto simp: actions_ok_def)
    then have "k' = k" "e = EEXISTS" using run get Some by (auto simp: kernel_register_interrupt_handler_def)
    then show ?thesis using handlers_None [OF inv(2), of i] Some by (auto simp: domIff)
  next
    case None
    let ?x = "\<lparr>sa_pid = p_pid a, sa_func_ptr = f, sa_trampoline_ptr = junk, sa_userdata = u\<rparr>"
    from run get None obtain k1 p where k1: "kmalloc_k P k 16 = Some (k1, p)"
      by (auto simp: kernel_register_interrupt_handler_def split: Option.bind_splits)
    then have act: "active_process k1 = active_process k" "processes k1 = processes k"
      by (auto simp: kmalloc_k_def split: Option.bind_splits)
    with run get None k1 a obtain k3 r where s: "p \<noteq> NULL"
      "tree_insert P (k1\<lparr>actions := (actions k1)(p \<mapsto> ?x)\<rparr>) (interrupt_handlers k1) i p = Some (k3, r)"
      "k' = k3\<lparr>interrupt_handlers := r\<rparr>" "e = ENONE"
      by (auto simp: kernel_register_interrupt_handler_def Let_def split: Option.bind_splits prod.splits if_splits)
    obtain m where f: "p \<notin> live (mach k)" "insert p (live (mach k)) \<subseteq> live m" "k1 = k\<lparr>mach := m\<rparr>"
      using k1 s(1) by (rule kmalloc_k_fresh)
    let ?k2 = "k\<lparr>mach := m, actions := (actions k)(p \<mapsto> ?x)\<rparr>"
    have ins: "tree_insert P ?k2 (interrupt_handlers ?k2) i p = Some (k3, r)" using s(2) f(3) by simp
    have "key_of i \<notin> dom it" using None by auto
    from insert_handler_inv [OF ins heap_inv_alloc(4) [OF inv(1) f(1,2)] this] obtain ty' where
      t: "kernel_heap_inv live ty' k' pt qt (it(key_of i \<mapsto> p))" "same_but_tree ?k2 k3" using s(3) by blast
    have "actions k' = (actions k)(p \<mapsto> ?x)" using same_but_treeD(8) [OF t(2)] s(3) by simp
    moreover have "p \<notin> dom (actions k)" using inv(1) f(1) by (auto simp: kernel_heap_inv_def objects_def typed_def)
    ultimately have "actions_ok k' (it(key_of i \<mapsto> p))" "handlers k' (it(key_of i \<mapsto> p)) = (handlers k it)(i \<mapsto> ?x)"
      using handlers_new [OF inv(2) _ s(1) _ None] by blast+
    moreover have "i \<notin> dom (handlers k it)" using handlers_None [OF inv(2), of i] None by (simp add: domIff)
    ultimately show ?thesis using t(1) s(4) by auto
  qed
qed

lemma unregister_effect:
  assumes inv: "kernel_heap_inv live ty k pt qt it" "actions_ok k it"
  shows "\<exists>k'. kernel_remove_interrupt_handler P k i = Some (k', if i \<in> dom (handlers k it) then ENONE else EDOESNTEXIST) \<and>
    (\<exists>it'. kernel_heap_inv live ty k' pt qt it' \<and> actions_ok k' it' \<and> handlers k' it' = (handlers k it)(i := None))"
proof -
  have get: "tree_get k (interrupt_handlers k) i = Some (case it (key_of i) of None \<Rightarrow> NULL | Some p \<Rightarrow> p)"
    using inv(1) tables_get by (auto simp: kernel_heap_inv_def)
  show ?thesis
  proof (cases "it (key_of i)")
    case None
    then have n: "handlers k it i = None" using handlers_None [OF inv(2)] by simp
    then have "(handlers k it)(i := None) = handlers k it" by (simp add: fun_upd_idem)
    moreover have "kernel_remove_interrupt_handler P k i = Some (k, EDOESNTEXIST)"
      using get None by (simp add: kernel_remove_interrupt_handler_def)
    ultimately show ?thesis using n inv by (intro exI [of _ k] conjI exI [of _ it]) (simp_all add: domIff)
  next
    case (Some p)
    then have p: "p \<noteq> NULL" "p \<in> dom (actions k)" using inv(2) by (auto simp: actions_ok_def)
    then have "ty p = KAction" using inv(1) by (auto simp: kernel_heap_inv_def objects_def typed_def)
    let ?k = "(kfree_k P k p)\<lparr>actions := (actions k)(p := None)\<rparr>"
    have "kernel_heap_inv live ty ?k pt qt it" using heap_inv_free(4) [OF inv(1)] \<open>ty p = KAction\<close> by simp
    from remove_handler_inv [OF this, of i] obtain k1 r where k1: "tree_remove P ?k (interrupt_handlers ?k) i = Some (k1, r)"
      "kernel_heap_inv live ty (k1\<lparr>interrupt_handlers := r\<rparr>) pt qt (it(key_of i := None))" "same_but_tree ?k k1" by (elim exE conjE)
    let ?k' = "k1\<lparr>interrupt_handlers := r\<rparr>"
    have "actions ?k' = (actions k)(p := None)" using same_but_treeD(8) [OF k1(3)] by simp
    note h = handlers_drop [OF inv(2) Some this]
    have "kernel_remove_interrupt_handler P k i = Some (?k', ENONE)"
      using get Some p(1) k1(1) by (simp add: kernel_remove_interrupt_handler_def Let_def kfree_k_def)
    moreover have "i \<in> dom (handlers k it)" using handlers_None [OF inv(2), of i] Some by (auto simp: domIff)
    ultimately show ?thesis using k1(2) h by (intro exI [of _ ?k'] conjI exI [of _ "it(key_of i := None)"]) simp_all
  qed
qed

end

section \<open>The stack of a handler\<close>

lemma stack_pointer [simp]:
  "context_wf c \<Longrightarrow> gp_registers (set_gp c 7 v) ! 7 = v"
  by (simp add: context_wf_def)

text \<open>The frame that \<^verbatim>\<open>kernel_execute_interrupt_handler\<close> builds, from the stack pointer \<open>sp\<close> downwards.\<close>

lemma push_signal_layout:
  assumes "context_wf c" "sp = gp_registers c ! 7"
  shows "push_signal P m c i st act = do {
     m \<leftarrow> write_bytes P m (sp - 4) (bytes_of i);
     m \<leftarrow> write_bytes P m (sp - 52) (context_bytes (set_gp c 7 (sp - 52)));
     m \<leftarrow> write_bytes P m (sp - 56) (bytes_of st);
     m \<leftarrow> write_bytes P m (sp - 60) (bytes_of (sa_userdata act));
     m \<leftarrow> write_bytes P m (sp - 64) (bytes_of (sp - 4));
     m \<leftarrow> write_bytes P m (sp - 68) (bytes_of (sa_trampoline_ptr act));
     Some (m, c\<lparr>c_eip := sa_func_ptr act, gp_registers := (gp_registers c)[7 := sp - 68]\<rparr>)
   }"
  using assms
  by (simp add: push_signal_def context_stack_push_struct_def context_stack_push_def context_call_func_def Let_def context_wf_def)

lemma push_signal_context:
  "context_wf c \<Longrightarrow> push_signal P m c i st act = Some (m', c') \<Longrightarrow>
   c' = c\<lparr>c_eip := sa_func_ptr act, gp_registers := (gp_registers c)[7 := gp_registers c ! 7 - 68]\<rparr>"
  by (auto simp: push_signal_layout [OF _ refl] split: Option.bind_splits)

lemma execute_effect:
  assumes tab: "tables L ty k pt qt it" and i: "it (key_of i) = Some ap" "ap \<noteq> NULL" "actions k ap = Some act"
    and p: "pt (key_of (sa_pid act)) = Some p" "p \<noteq> NULL" "processes k p = Some x" "contexts k (p_ctx x) = Some c" "context_wf c"
    and inv: "sched_inv k" "p_state x \<noteq> PROCESS_ACTIVE \<longrightarrow> card {q. runnable k q} < q_capacity (priority_queue k)"
    and run: "kernel_execute_interrupt_handler P k i = Some (k', e)"
  shows "e = ENONE \<and> (\<exists>m a. push_signal P (paging_load P (mach k) (p_page_table x)) c i (p_state x) act =
        Some (m, c\<lparr>c_eip := sa_func_ptr act, gp_registers := (gp_registers c)[7 := gp_registers c ! 7 - 68]\<rparr>) \<and>
      processes k' (active_process k) = Some a \<and> mach k' = paging_load P m (p_page_table a)) \<and>
    contexts k' = (contexts k)(p_ctx x \<mapsto> c\<lparr>c_eip := sa_func_ptr act, gp_registers := (gp_registers c)[7 := gp_registers c ! 7 - 68]\<rparr>) \<and>
    processes k' = (processes k)(p \<mapsto> x\<lparr>p_state := PROCESS_ACTIVE\<rparr>) \<and> sched_inv k' \<and> active_process k' = active_process k"
proof -
  have get: "tree_get k (interrupt_handlers k) i = Some ap" "tree_get k (process_table k) (sa_pid act) = Some p"
    using tables_get [OF tab] i p(1) by simp_all
  have cn: "p_ctx x \<noteq> NULL" using run get i p by (auto simp: kernel_execute_interrupt_handler_def load_space_def split: Option.bind_splits)
  from run get i p cn obtain m c' where ps: "push_signal P (paging_load P (mach k) (p_page_table x)) c i (p_state x) act = Some (m, c')"
    by (auto simp: kernel_execute_interrupt_handler_def load_space_def Let_def split: Option.bind_splits)
  note c' = push_signal_context [OF p(5) ps]
  let ?k1 = "k\<lparr>mach := m, contexts := (contexts k)(p_ctx x \<mapsto> c')\<rparr>"
  have run1: "do { k2 \<leftarrow> (if p_state x \<noteq> PROCESS_ACTIVE
               then enqueue (set_process ?k1 p (x\<lparr>p_state := PROCESS_ACTIVE\<rparr>)) p (p_priority x) else Some ?k1);
         a \<leftarrow> deref (processes k2) (active_process k2);
         Some (load_space P k2 (p_page_table a), ENONE) } = Some (k', e)"
    using run get i p cn ps
    by (cases "p_state x = PROCESS_ACTIVE") (simp_all add: kernel_execute_interrupt_handler_def load_space_def Let_def)
  show ?thesis
  proof (cases "p_state x = PROCESS_ACTIVE")
    case True
    from run1 True obtain a where a: "processes k (active_process k) = Some a" "k' = load_space P ?k1 (p_page_table a)" "e = ENONE"
      by (auto split: Option.bind_splits)
    have "processes k = (processes k)(p \<mapsto> x\<lparr>p_state := PROCESS_ACTIVE\<rparr>)"
      using p(3) True by (auto simp: fun_eq_iff)
    moreover have "sched_inv k'"
    proof -
      have "ready k' = ready k" "ready_entries k' S = ready_entries k S" for S
        using a(2) by (auto simp: ready_def runnable_def load_space_def prio_of_def intro!: ready_entries_cong)
      then show ?thesis using inv(1) a(2) by (simp add: sched_inv_def load_space_def runnable_def)
    qed
    ultimately show ?thesis using a ps c' by (auto simp: load_space_def)
  next
    case False
    let ?k2 = "set_process ?k1 p (x\<lparr>p_state := PROCESS_ACTIVE\<rparr>)"
    from enqueue_ok [of ?k2 p "p_priority x"] inv(1) sched_room [OF inv(1) mp [OF inv(2) False]] obtain q where
      q: "enqueue ?k2 p (p_priority x) = Some (?k2\<lparr>priority_queue := q\<rparr>)" "pq_good q"
        "entries q = add_mset (p, p_priority x) (entries (priority_queue k))" by (auto simp: sched_inv_def)
    from run1 False q(1) obtain a where a: "processes ?k2 (active_process k) = Some a"
      "k' = load_space P (?k2\<lparr>priority_queue := q\<rparr>) (p_page_table a)" "e = ENONE"
      by (auto split: Option.bind_splits if_splits)
    have "sched_inv k'"
      by (rule sched_wake [OF inv(1), where p = p and x = "x\<lparr>p_state := PROCESS_ACTIVE\<rparr>"])
        (use False p(2,3) a(2) q in \<open>auto simp: runnable_def load_space_def\<close>)
    then show ?thesis using a ps c' by (auto simp: load_space_def)
  qed
qed

lemma signal_return_reads:
  assumes a: "active_process k \<noteq> NULL" "processes k (active_process k) = Some a" "p_ctx a \<noteq> NULL" "contexts k (p_ctx a) = Some c" "context_wf c"
    and r: "read_bytes P (mach k) (gp_registers c ! 7 - 8) 4 = Some b" "read_bytes P (mach k) (gp_registers c ! 7 - 4) 48 = Some bs"
    and st: "word_of b \<noteq> PROCESS_REQUESTING"
  shows "kernel_signal_return P k =
    Some (set_context (set_process k (active_process k) (a\<lparr>p_state := word_of b\<rparr>)) (p_ctx a) (context_of_bytes bs), Returns ENONE)"
  using assms
  by (simp add: kernel_signal_return_def context_cleanup_func_def context_stack_pop_def context_stack_pop_struct_def Let_def context_wf_def)

section \<open>Memory that keeps what is written\<close>

text \<open>
  A stretch of plain memory: it can be read and written, every byte of it at one address only. Reading a part of it is reading that part of the
  bytes, and writing a part changes that part.
\<close>

locale stack_platform = kernel_platform P live
  for P :: "'m platform" and live :: "'m \<Rightarrow> ptr set" +
  fixes plain :: "'m \<Rightarrow> ptr \<Rightarrow> nat \<Rightarrow> bool"
  assumes plain_read: "plain m p n \<Longrightarrow> \<exists>xs. read_bytes P m p n = Some xs"
    and read_part: "read_bytes P m p n = Some xs \<Longrightarrow> i + j \<le> n \<Longrightarrow> read_bytes P m (p + of_nat i) j = Some (take j (drop i xs))"
    and write_part: "plain m p n \<Longrightarrow> read_bytes P m p n = Some xs \<Longrightarrow> i + length bs \<le> n \<Longrightarrow> write_bytes P m (p + of_nat i) bs = Some m' \<Longrightarrow>
      plain m' p n \<and> read_bytes P m' p n = Some (take i xs @ bs @ drop (i + length bs) xs)"
begin

text \<open>Pushing on a stack whose upper part, \<open>zs\<close>, has been pushed already.\<close>

lemma push_part:
  assumes "plain m p n" "read_bytes P m p n = Some (ys @ zs)" "length bs \<le> length ys" "a = p + of_nat (length ys - length bs)" "write_bytes P m a bs = Some m'"
  shows "plain m' p n \<and> read_bytes P m' p n = Some (take (length ys - length bs) ys @ bs @ zs)"
proof -
  have "n = length ys + length zs" using read_length [OF assms(2)] by simp
  then show ?thesis using write_part [OF assms(1,2) _ assms(5) [unfolded assms(4)]] assms(3) by simp
qed

lemma push_signal_writes:
  assumes "context_wf c" "sp = gp_registers c ! 7" "plain m (sp - 72) 72" "push_signal P m c i st act = Some (m', c')"
  shows "\<exists>xs. length xs = 4 \<and> read_bytes P m (sp - 72) 4 = Some xs \<and> read_bytes P m' (sp - 72) 72 =
    Some (xs @ bytes_of (sa_trampoline_ptr act) @ bytes_of (sp - 4) @ bytes_of (sa_userdata act) @ bytes_of st @ context_bytes (set_gp c 7 (sp - 52)) @ bytes_of i)"
proof -
  let ?p = "sp - 72" and ?c = "context_bytes (set_gp c 7 (sp - 52))"
  obtain ys where ys: "read_bytes P m ?p 72 = Some ys" using plain_read [OF assms(3)] by blast
  have len: "length ys = 72" "length ?c = 48" using read_length [OF ys] assms(1) by simp_all
  from assms(4) obtain m1 m2 m3 m4 m5 where w: "write_bytes P m (sp - 4) (bytes_of i) = Some m1" "write_bytes P m1 (sp - 52) ?c = Some m2"
    "write_bytes P m2 (sp - 56) (bytes_of st) = Some m3" "write_bytes P m3 (sp - 60) (bytes_of (sa_userdata act)) = Some m4"
    "write_bytes P m4 (sp - 64) (bytes_of (sp - 4)) = Some m5" "write_bytes P m5 (sp - 68) (bytes_of (sa_trampoline_ptr act)) = Some m'"
    unfolding push_signal_layout [OF assms(1,2)] by (auto split: Option.bind_splits)
  have 1: "plain m1 ?p 72 \<and> read_bytes P m1 ?p 72 = Some (take 68 ys @ bytes_of i)"
    using push_part [OF assms(3), of ys "[]" "bytes_of i" "sp - 4" m1] ys w(1) len by simp
  then have 2: "plain m2 ?p 72 \<and> read_bytes P m2 ?p 72 = Some (take 20 ys @ ?c @ bytes_of i)"
    using push_part [of m1 ?p 72 "take 68 ys" "bytes_of i" ?c "sp - 52" m2] w(2) len by simp
  then have 3: "plain m3 ?p 72 \<and> read_bytes P m3 ?p 72 = Some (take 16 ys @ bytes_of st @ ?c @ bytes_of i)"
    using push_part [of m2 ?p 72 "take 20 ys" "?c @ bytes_of i" "bytes_of st" "sp - 56" m3] w(3) len by simp
  then have 4: "plain m4 ?p 72 \<and> read_bytes P m4 ?p 72 = Some (take 12 ys @ bytes_of (sa_userdata act) @ bytes_of st @ ?c @ bytes_of i)"
    using push_part [of m3 ?p 72 "take 16 ys" "bytes_of st @ ?c @ bytes_of i" "bytes_of (sa_userdata act)" "sp - 60" m4] w(4) len by simp
  then have 5: "plain m5 ?p 72 \<and> read_bytes P m5 ?p 72 = Some (take 8 ys @ bytes_of (sp - 4) @ bytes_of (sa_userdata act) @ bytes_of st @ ?c @ bytes_of i)"
    using push_part [of m4 ?p 72 "take 12 ys" "bytes_of (sa_userdata act) @ bytes_of st @ ?c @ bytes_of i" "bytes_of (sp - 4)" "sp - 64" m5] w(5) len by simp
  then have "read_bytes P m' ?p 72 = Some (take 4 ys @ bytes_of (sa_trampoline_ptr act) @ bytes_of (sp - 4) @ bytes_of (sa_userdata act) @ bytes_of st @ ?c @ bytes_of i)"
    using push_part [of m5 ?p 72 "take 8 ys" "bytes_of (sp - 4) @ bytes_of (sa_userdata act) @ bytes_of st @ ?c @ bytes_of i" "bytes_of (sa_trampoline_ptr act)" "sp - 68" m']
      w(6) len by simp
  moreover have "read_bytes P m ?p 4 = Some (take 4 ys)" using read_part [OF ys, of 0 4] by simp
  ultimately show ?thesis using len(1) by (intro exI [of _ "take 4 ys"]) simp
qed

lemma shifted_context:
  assumes "context_wf c"
  shows "context_of_bytes (bytes_of w0 @ bytes_of w1 @ bytes_of w2 @ bytes_of w3 @ take 32 (context_bytes c)) =
    \<lparr>gp_registers = [w0, w1, w2, w3] @ take 4 (gp_registers c), c_ss = gp_registers c ! 4, c_cs = gp_registers c ! 5,
     c_eip = gp_registers c ! 6, c_flags = gp_registers c ! 7\<rparr>"
proof -
  have len: "length (gp_registers c) = 8" using assms by (simp add: context_wf_def)
  have "take 32 (context_bytes c) = concat (map bytes_of (gp_registers c))" using len by (simp add: context_bytes_def)
  then have "bytes_of w0 @ bytes_of w1 @ bytes_of w2 @ bytes_of w3 @ take 32 (context_bytes c) = concat (map bytes_of ([w0, w1, w2, w3] @ gp_registers c))" by simp
  then have w: "words_of (bytes_of w0 @ bytes_of w1 @ bytes_of w2 @ bytes_of w3 @ take 32 (context_bytes c)) = [w0, w1, w2, w3] @ gp_registers c"
    by (simp only: words_of_concat)
  show ?thesis unfolding context_of_bytes_def w Let_def using len by simp
qed

end

text \<open>In the flat platform every stretch of memory is plain.\<close>

lemma poke_at:
  "length bs \<le> 2 ^ 32 \<Longrightarrow> poke f q bs x = (if unat (x - q) < length bs then bs ! unat (x - q) else f x)"
proof (induction bs arbitrary: f q)
  case (Cons b bs)
  show ?case
  proof (cases "x = q")
    case True
    have "unat (- 1 :: u32) = 2 ^ 32 - 1" by (simp add: unsigned_minus_1_eq_mask mask_eq_exp_minus_1)
    then show ?thesis using Cons True by simp
  next
    case False
    then have "x - q \<noteq> 0" by simp
    then have "unat (x - q) = Suc (unat (x - (q + 1)))" using unat_minus_one [of "x - q"] unat_gt_0 [of "x - q"] by (simp add: diff_diff_eq)
    then show ?thesis using Cons False by simp
  qed
qed simp

lemma peek_poke:
  assumes "i + length bs \<le> n" "n < 2 ^ 32"
  shows "peek (poke f (p + of_nat i) bs) p n = take i (peek f p n) @ bs @ drop (i + length bs) (peek f p n)"
proof (rule nth_equalityI)
  show "length (peek (poke f (p + of_nat i) bs) p n) = length (take i (peek f p n) @ bs @ drop (i + length bs) (peek f p n))"
    using assms(1) by (simp add: peek_def)
  fix j assume "j < length (peek (poke f (p + of_nat i) bs) p n)"
  then have j: "j < n" by (simp add: peek_def)
  have "unat (p + of_nat j - (p + of_nat i)) = (if i \<le> j then j - i else 2 ^ 32 + j - i)"
  proof (cases "i \<le> j")
    case True
    then have "p + of_nat j - (p + of_nat i) = (of_nat (j - i) :: u32)" by (simp add: of_nat_diff)
    moreover have "unat (of_nat (j - i) :: u32) = j - i" using j assms(2) by (simp add: unat_of_nat del: of_nat_diff)
    ultimately show ?thesis using True by (simp only: if_True)
  next
    case False
    then have "p + of_nat j - (p + of_nat i) = - (of_nat (i - j) :: u32)" by (simp add: of_nat_diff)
    moreover have "unat (of_nat (i - j) :: u32) = i - j" "i - j \<noteq> 0" using False assms by (simp_all add: unat_of_nat del: of_nat_diff)
    moreover have "unat (- (of_nat (i - j) :: u32)) = (if unat (of_nat (i - j) :: u32) = 0 then 0 else 2 ^ 32 - unat (of_nat (i - j) :: u32))"
      using unat_sub_if_size [of 0 "of_nat (i - j) :: u32"] by (simp add: word_size del: of_nat_diff)
    ultimately show ?thesis using False by (simp del: of_nat_diff)
  qed
  then show "peek (poke f (p + of_nat i) bs) p n ! j = (take i (peek f p n) @ bs @ drop (i + length bs) (peek f p n)) ! j"
    using j assms poke_at [of bs f "p + of_nat i" "p + of_nat j"] by (auto simp: peek_def nth_append)
qed

interpretation flat_stack: stack_platform flat_platform "\<lambda>m. {p. p < f_brk m}" "\<lambda>m p n. n < 2 ^ 32"
proof (unfold_locales, goal_cases)
  case (2 m p n xs i j)
  then show ?case
    by (auto simp: flat_platform_def peek_def intro!: nth_equalityI) (simp add: add.assoc)
next
  case (3 m p n xs i bs m')
  then show ?case using peek_poke [OF 3(3,1)] by (auto simp: flat_platform_def)
qed (simp add: flat_platform_def)

section \<open>Properties\<close>

text \<open>\<^verbatim>\<open>kernel_register_interrupt_handler\<close>, when it returns: EEXISTS without a change if the interrupt has a
  handler, otherwise ENONE, and the interrupt is handled by the running process with the given function and
  argument. The trampoline address is whatever the allocated block held: the code never sets it.\<close>

theorem kernel_register_interrupt_handler_spec:
  assumes "kernel_platform P live" "kernel_heap_inv live ty k pt qt it" "actions_ok k it"
    and "active_process k \<noteq> NULL" "processes k (active_process k) = Some a"
    and "kernel_register_interrupt_handler P junk k i f u = Some (k', e)"
  shows "if i \<in> dom (handlers k it) then k' = k \<and> e = EEXISTS
    else e = ENONE \<and> (\<exists>ty' it'. kernel_heap_inv live ty' k' pt qt it' \<and> actions_ok k' it' \<and> handlers k' it' =
      (handlers k it)(i \<mapsto> \<lparr>sa_pid = p_pid a, sa_func_ptr = f, sa_trampoline_ptr = junk, sa_userdata = u\<rparr>))"
  using kernel_platform.register_effect [OF assms] .

theorem kernel_register_interrupt_handler_spec_witness:
  "\<exists>k' it'. kernel_register_interrupt_handler flat_platform 0xAA one_process 5 0x400 0x500 = Some (k', ENONE) \<and>
     handlers k' it' 5 = Some \<lparr>sa_pid = 7, sa_func_ptr = 0x400, sa_trampoline_ptr = 0xAA, sa_userdata = 0x500\<rparr>"
proof -
  obtain k' where r: "kernel_register_interrupt_handler flat_platform 0xAA one_process 5 0x400 0x500 = Some (k', ENONE)"
    by (simp add: kernel_register_interrupt_handler_def one_process_def tree_get_def kmalloc_k_def tree_insert_def flat_defs
        avl_get.simps avl_insert.simps avl_new_def)
  obtain a where a: "processes one_process (active_process one_process) = Some a" "p_pid a = 7" "active_process one_process \<noteq> NULL"
    by (simp add: one_process_def)
  have ok: "actions_ok one_process Map.empty" "5 \<notin> dom (handlers one_process Map.empty)"
    by (simp_all add: actions_ok_def handlers_def domIff)
  from kernel_register_interrupt_handler_spec [OF flat.kernel_platform_axioms one_process_heap ok(1) a(3,1) r] ok(2) a(2)
  obtain it' where "handlers k' it' = (handlers one_process Map.empty)(5 \<mapsto> \<lparr>sa_pid = 7, sa_func_ptr = 0x400, sa_trampoline_ptr = 0xAA, sa_userdata = 0x500\<rparr>)"
    by auto
  then have "handlers k' it' 5 = Some \<lparr>sa_pid = 7, sa_func_ptr = 0x400, sa_trampoline_ptr = 0xAA, sa_userdata = 0x500\<rparr>" by simp
  with r show ?thesis by blast
qed

text \<open>\<^verbatim>\<open>kernel_remove_interrupt_handler\<close> always returns: ENONE and the handler is gone and freed, or EDOESNTEXIST and
  nothing changed. (It asks neither who installed the handler nor who is running.)\<close>

theorem kernel_remove_interrupt_handler_spec:
  assumes "kernel_platform P live" "kernel_heap_inv live ty k pt qt it" "actions_ok k it"
  shows "\<exists>k'. kernel_remove_interrupt_handler P k i = Some (k', if i \<in> dom (handlers k it) then ENONE else EDOESNTEXIST) \<and>
    (\<exists>it'. kernel_heap_inv live ty k' pt qt it' \<and> actions_ok k' it' \<and> handlers k' it' = (handlers k it)(i := None))"
  using kernel_platform.unregister_effect [OF assms] .

theorem kernel_remove_interrupt_handler_spec_witness:
  "\<exists>k'. kernel_remove_interrupt_handler flat_platform one_process 5 = Some (k', EDOESNTEXIST)"
proof -
  have "actions_ok one_process Map.empty" "5 \<notin> dom (handlers one_process Map.empty)"
    by (simp_all add: actions_ok_def handlers_def domIff)
  from kernel_remove_interrupt_handler_spec [OF flat.kernel_platform_axioms one_process_heap this(1), of 5] this(2) show ?thesis by auto
qed

text \<open>C21. \<^verbatim>\<open>kernel_execute_interrupt_handler\<close> for a handled interrupt of an existing process, when it returns: the frame
  for the handler was pushed in the address space of that process, its context now starts at the handler with
  the stack pointer 68 bytes lower, it is runnable (woken up if it was waiting), the address space of the
  running process is loaded again, and the scheduler's invariant is kept.\<close>

theorem kernel_execute_interrupt_handler_spec:
  assumes "tables L ty k pt qt it" "it (key_of i) = Some ap" "ap \<noteq> NULL" "actions k ap = Some act"
    and "pt (key_of (sa_pid act)) = Some p" "p \<noteq> NULL" "processes k p = Some x" "contexts k (p_ctx x) = Some c" "context_wf c"
    and "sched_inv k" "card {q. runnable k q} < q_capacity (priority_queue k)"
    and "kernel_execute_interrupt_handler P k i = Some (k', e)"
  shows "e = ENONE \<and> (\<exists>m a. push_signal P (paging_load P (mach k) (p_page_table x)) c i (p_state x) act =
        Some (m, c\<lparr>c_eip := sa_func_ptr act, gp_registers := (gp_registers c)[7 := gp_registers c ! 7 - 68]\<rparr>) \<and>
      processes k' (active_process k) = Some a \<and> mach k' = paging_load P m (p_page_table a)) \<and>
    contexts k' = (contexts k)(p_ctx x \<mapsto> c\<lparr>c_eip := sa_func_ptr act, gp_registers := (gp_registers c)[7 := gp_registers c ! 7 - 68]\<rparr>) \<and>
    processes k' = (processes k)(p \<mapsto> x\<lparr>p_state := PROCESS_ACTIVE\<rparr>) \<and> sched_inv k' \<and> active_process k' = active_process k"
  by (rule execute_effect [OF assms(1-10) impI [OF assms(11)] assms(12)])

text \<open>Process 8 of the example handles interrupt 5.\<close>

definition signal_kernel :: "flat kernel_t" where
  "signal_kernel = mail_kernel\<lparr>avl_nodes := (avl_nodes mail_kernel)(576 \<mapsto> \<lparr>n_height = 1, n_key = 5, n_value = 512, n_left = NULL, n_right = NULL\<rparr>),
     interrupt_handlers := 576,
     actions := [512 \<mapsto> \<lparr>sa_pid = 8, sa_func_ptr = 0x400, sa_trampoline_ptr = 0xAA, sa_userdata = 0x500\<rparr>]\<rparr>"

lemma signal_kernel_tables: "tables UNIV (\<lambda>p. KNode) signal_kernel [8 \<mapsto> 192] Map.empty [5 \<mapsto> 512]"
proof -
  let ?h = "avl_nodes signal_kernel"
  have g: "t_get (Nd 320 1 Tip 8 192 Tip) = [8 \<mapsto> 192]" "t_get (Nd 576 1 Tip 5 512 Tip) = [5 \<mapsto> 512]" by (auto simp: fun_eq_iff)
  have "avl_table ?h 320 [8 \<mapsto> 192] {320}"
    unfolding avl_table_def by (intro exI [of _ "Nd 320 1 Tip 8 192 Tip"]) (simp add: g signal_kernel_def mail_kernel_def)
  moreover have "avl_table ?h 576 [5 \<mapsto> 512] {576}"
    unfolding avl_table_def by (intro exI [of _ "Nd 576 1 Tip 5 512 Tip"]) (simp add: g signal_kernel_def)
  ultimately have "forest ?h UNIV (320, [8 \<mapsto> 192]) (NULL, Map.empty) (576, [5 \<mapsto> 512])"
    by (intro forestI [where X = "{320}" and Y = "{}" and Z = "{576}"]) (simp_all add: table_empty)
  then show ?thesis by (simp add: tables_def signal_kernel_def mail_kernel_def one_process_def)
qed

lemma signal_kernel_sched: "sched_inv signal_kernel" "card {p. runnable signal_kernel p} < q_capacity (priority_queue signal_kernel)"
proof -
  have r: "runnable signal_kernel p = runnable mail_kernel p" "ready signal_kernel = ready mail_kernel"
    "ready_entries signal_kernel S = ready_entries mail_kernel S" "active_process signal_kernel = active_process mail_kernel"
    "priority_queue signal_kernel = priority_queue mail_kernel" for p S
    by (auto simp: runnable_def ready_def prio_of_def signal_kernel_def intro!: ready_entries_cong)
  show "sched_inv signal_kernel" using mail_kernel_sched(1) by (simp add: sched_inv_def r)
  show "card {p. runnable signal_kernel p} < q_capacity (priority_queue signal_kernel)"
    unfolding r mail_kernel_sched(2) by (simp add: mail_kernel_def one_process_def queue_of_def)
qed

theorem kernel_execute_interrupt_handler_spec_witness:
  "\<exists>k'. kernel_execute_interrupt_handler flat_platform signal_kernel 5 = Some (k', ENONE) \<and> sched_inv k' \<and>
     map_option p_state (processes k' 192) = Some PROCESS_ACTIVE \<and> map_option c_eip (contexts k' 256) = Some 0x400"
proof -
  let ?act = "\<lparr>sa_pid = 8, sa_func_ptr = 0x400, sa_trampoline_ptr = 0xAA, sa_userdata = 0x500\<rparr>"
  let ?x = "(fresh_process 8 1 0x2000 256)\<lparr>p_message_buffer := 0x500, p_state := PROCESS_REQUESTING\<rparr>"
  have f: "actions signal_kernel 512 = Some ?act" "processes signal_kernel 192 = Some ?x"
    "contexts signal_kernel (p_ctx ?x) = Some (fresh_context 0 0)" "context_wf (fresh_context 0 0)"
    by (simp_all add: signal_kernel_def mail_kernel_def fresh_process_def fresh_context_def) (simp add: context_wf_def)
  have w: "write_bytes flat_platform m p bs \<noteq> None" for m p bs by (simp add: flat_defs)
  have get: "tree_get signal_kernel (interrupt_handlers signal_kernel) 5 = Some 512" "tree_get signal_kernel (process_table signal_kernel) 8 = Some 192"
    using tables_get [OF signal_kernel_tables] by simp_all
  obtain k' where r: "kernel_execute_interrupt_handler flat_platform signal_kernel 5 = Some (k', ENONE)"
    unfolding kernel_execute_interrupt_handler_def
    by (simp add: get f load_space_def Let_def)
       (simp add: push_signal_layout [OF f(4) refl] fresh_process_def flat_defs enqueue_def signal_kernel_def mail_kernel_def one_process_def
        queue_of_def priorityqueue_insert_def shift_parents.simps)
  from kernel_execute_interrupt_handler_spec [OF signal_kernel_tables _ _ f(1) _ _ f(2,3,4) signal_kernel_sched r]
  have "sched_inv k'" "processes k' = (processes signal_kernel)(192 \<mapsto> ?x\<lparr>p_state := PROCESS_ACTIVE\<rparr>)"
    "contexts k' = (contexts signal_kernel)(p_ctx ?x \<mapsto> (fresh_context 0 0)\<lparr>c_eip := 0x400,
      gp_registers := (gp_registers (fresh_context 0 0))[7 := gp_registers (fresh_context 0 0) ! 7 - 68]\<rparr>)" by auto
  with r show ?thesis by (simp add: fresh_process_def)
qed

text \<open>The frame of a handler, from the stack pointer of the process downwards: the interrupt number at 4 bytes
  below, the saved context at 52, the saved state at 56, the two arguments at 60 and 64, the return address
  at 68. The saved context holds the stack pointer as it was moved to 52 below, not the one the process had.\<close>

theorem push_signal_frame:
  assumes "context_wf c" "sp = gp_registers c ! 7"
  shows "push_signal P m c i st act = do {
     m \<leftarrow> write_bytes P m (sp - 4) (bytes_of i);
     m \<leftarrow> write_bytes P m (sp - 52) (context_bytes (set_gp c 7 (sp - 52)));
     m \<leftarrow> write_bytes P m (sp - 56) (bytes_of st);
     m \<leftarrow> write_bytes P m (sp - 60) (bytes_of (sa_userdata act));
     m \<leftarrow> write_bytes P m (sp - 64) (bytes_of (sp - 4));
     m \<leftarrow> write_bytes P m (sp - 68) (bytes_of (sa_trampoline_ptr act));
     Some (m, c\<lparr>c_eip := sa_func_ptr act, gp_registers := (gp_registers c)[7 := sp - 68]\<rparr>)
   }"
  using push_signal_layout [OF assms] .

theorem push_signal_frame_witness:
  "\<exists>m'. push_signal flat_platform flat_init (fresh_context 0x1000 0) 5 1 \<lparr>sa_pid = 8, sa_func_ptr = 0x400, sa_trampoline_ptr = 0xAA, sa_userdata = 0x500\<rparr> =
     Some (m', (fresh_context 0x1000 0)\<lparr>c_eip := 0x400, gp_registers := (gp_registers (fresh_context 0x1000 0))[7 := 0xFBC]\<rparr>)"
proof -
  have c: "context_wf (fresh_context 0x1000 0)" "0x1000 = gp_registers (fresh_context 0x1000 0) ! 7"
    by (simp_all add: fresh_context_def) (simp_all add: context_wf_def set_context_stack_def set_context_flags_def set_context_pc_def)
  show ?thesis unfolding push_signal_frame [OF c] by (simp add: flat_defs)
qed

text \<open>C36. A process whose handler has returned through its return address asks for \<^verbatim>\<open>kernel_signal_return\<close>, with the frame that
  \<^verbatim>\<open>push_signal\<close> wrote on its stack still in place (the stack pointer \<open>sp\<close> that the process had is then 64 bytes above). The saved state and the saved context
  are in memory, at 56 and 52 bytes below \<open>sp\<close>, but they are not what is restored: \<^verbatim>\<open>context_cleanup_func\<close> moves the stack pointer
  down by the size of the arguments instead of up. The state comes from a word below the frame, which was not written for the
  handler at all. The context comes from the bottom of the frame: \<^verbatim>\<open>eax\<close> to \<^verbatim>\<open>edx\<close> get the trampoline address, the address of the signal information, the
  handler's argument and the saved state, and every saved register moves on by four places: the saved registers 4 to 7 end up as stack segment, code
  segment, program counter and flags. (If the word below happens to be the code of a waiting process, the process starts waiting for a message first.)\<close>

theorem kernel_signal_return_reads_below_stack:
  assumes "stack_platform P live plain" "context_wf c" "sp = gp_registers c ! 7" "plain m (sp - 72) 72"
    and "push_signal P m c i st act = Some (m', c')"
    and "active_process k \<noteq> NULL" "processes k (active_process k) = Some a" "p_ctx a \<noteq> NULL" "contexts k (p_ctx a) = Some returned"
    and "context_wf returned" "gp_registers returned ! 7 = gp_registers c' ! 7 + 4"
    and "read_bytes P (mach k) (sp - 72) 72 = read_bytes P m' (sp - 72) 72" "read_bytes P m (sp - 72) 4 = Some below" "word_of below \<noteq> PROCESS_REQUESTING"
  shows "read_bytes P (mach k) (sp - 56) 4 = Some (bytes_of st) \<and> read_bytes P (mach k) (sp - 52) 48 = Some (context_bytes (set_gp c 7 (sp - 52))) \<and>
    kernel_signal_return P k =
      Some (set_context (set_process k (active_process k) (a\<lparr>p_state := word_of below\<rparr>)) (p_ctx a)
        \<lparr>gp_registers = [sa_trampoline_ptr act, sp - 4, sa_userdata act, st] @ take 4 (gp_registers c), c_ss = gp_registers c ! 4,
         c_cs = gp_registers c ! 5, c_eip = gp_registers c ! 6, c_flags = sp - 52\<rparr>, Returns ENONE)"
proof -
  let ?c = "set_gp c 7 (sp - 52)"
  have len: "length (gp_registers c) = 8" using assms(2) by (simp add: context_wf_def)
  from stack_platform.push_signal_writes [OF assms(1-5)] obtain xs where xs: "length xs = 4" "read_bytes P m (sp - 72) 4 = Some xs"
    "read_bytes P m' (sp - 72) 72 = Some (xs @ bytes_of (sa_trampoline_ptr act) @ bytes_of (sp - 4) @ bytes_of (sa_userdata act) @ bytes_of st @ context_bytes ?c @ bytes_of i)"
    by blast
  note part = stack_platform.read_part [OF assms(1) assms(12) [unfolded xs(3)]]
  have wf: "context_wf ?c" "length (context_bytes ?c) = 48" using assms(2) by simp_all
  have r: "read_bytes P (mach k) (sp - 56) 4 = Some (bytes_of st)" "read_bytes P (mach k) (sp - 52) 48 = Some (context_bytes ?c)"
    "read_bytes P (mach k) (sp - 72) 4 = Some below"
    "read_bytes P (mach k) (sp - 68) 48 = Some (bytes_of (sa_trampoline_ptr act) @ bytes_of (sp - 4) @ bytes_of (sa_userdata act) @ bytes_of st @ take 32 (context_bytes ?c))"
    using part [of 16 4] part [of 20 48] part [of 0 4] part [of 4 48] xs(1,2) wf(2) assms(13) by simp_all
  have "gp_registers c' ! 7 = sp - 68" using push_signal_context [OF assms(2,5)] len assms(3) by simp
  then have sp: "gp_registers returned ! 7 - 8 = sp - 72" "gp_registers returned ! 7 - 4 = sp - 68" using assms(11) by simp_all
  have "kernel_signal_return P k = Some (set_context (set_process k (active_process k) (a\<lparr>p_state := word_of below\<rparr>)) (p_ctx a)
      (context_of_bytes (bytes_of (sa_trampoline_ptr act) @ bytes_of (sp - 4) @ bytes_of (sa_userdata act) @ bytes_of st @ take 32 (context_bytes ?c))), Returns ENONE)"
    by (rule signal_return_reads [OF assms(6-10) _ _ assms(14)]) (simp_all only: sp r)
  then show ?thesis using r(1,2) len by (simp add: stack_platform.shifted_context [OF assms(1) wf(1)])
qed

text \<open>Witness: registers with the numbers 1 to 7, a waiting process, and the number 9 below the frame.\<close>

definition signalled_context :: process_context_t where
  "signalled_context = \<lparr>gp_registers = [1, 2, 3, 4, 5, 6, 7, 0x1000], c_ss = 0x23, c_cs = 0x1B, c_eip = 0x400, c_flags = 0x3202\<rparr>"

definition signalled_action :: signal_action_t where
  "signalled_action = \<lparr>sa_pid = 7, sa_func_ptr = 0x800, sa_trampoline_ptr = 0xAA, sa_userdata = 0x500\<rparr>"

definition nine_below :: flat where
  "nine_below = flat_init\<lparr>f_mem := (\<lambda>_ q. if q = 0xFB8 then 9 else 0)\<rparr>"

theorem kernel_signal_return_reads_below_stack_witness:
  "\<exists>m' c' k'. push_signal flat_platform nine_below signalled_context 5 PROCESS_SENDING signalled_action = Some (m', c') \<and>
     kernel_signal_return flat_platform (one_process\<lparr>mach := m', contexts := [128 \<mapsto> set_gp c' 7 0xFC0]\<rparr>) = Some (k', Returns ENONE) \<and>
     map_option p_state (processes k' 64) = Some 9 \<and>
     contexts k' 128 = Some \<lparr>gp_registers = [0xAA, 0xFFC, 0x500, PROCESS_SENDING, 1, 2, 3, 4], c_ss = 5, c_cs = 6, c_eip = 7, c_flags = 0xFCC\<rparr>"
proof -
  have c: "context_wf signalled_context" "0x1000 = gp_registers signalled_context ! 7" by (simp_all add: context_wf_def signalled_context_def)
  obtain m' c' where p: "push_signal flat_platform nine_below signalled_context 5 PROCESS_SENDING signalled_action = Some (m', c')"
    unfolding push_signal_layout [OF c] by (simp add: flat_defs)
  let ?k = "one_process\<lparr>mach := m', contexts := [128 \<mapsto> set_gp c' 7 0xFC0]\<rparr>"
  obtain a where a: "active_process ?k = 64" "processes ?k (active_process ?k) = Some a" "p_ctx a = 128" by (simp add: one_process_def)
  note c' = push_signal_context [OF c(1) p]
  have r: "context_wf (set_gp c' 7 0xFC0)" "gp_registers (set_gp c' 7 0xFC0) ! 7 = gp_registers c' ! 7 + 4"
    by (simp_all add: c') (simp_all add: context_wf_def signalled_context_def)
  have b: "read_bytes flat_platform nine_below (0x1000 - 72) 4 = Some [9, 0, 0, 0]" by (simp add: nine_below_def flat_defs peek_def upt_rec)
  have w: "word_of [9, 0, 0, 0] = 9" "(9 :: u32) \<noteq> PROCESS_REQUESTING" by simp_all
  from kernel_signal_return_reads_below_stack [OF flat_stack.stack_platform_axioms c _ p _ a(2) _ _ r _ b, unfolded w] a(1,3) w(2)
  show ?thesis using p by (auto simp: signalled_context_def signalled_action_def)
qed

end
