(* ===== verification/Kernel_Steps.thy ===== *)
theory Kernel_Steps
  imports Kernel_Handlers Kernel_Syscalls
begin

text \<open>
  The kernel as a state machine. A step is one call of an operation by the running process, by an interrupt or while the kernel starts
  processes; the operations are those of the other theories. The invariant joins those of the components and holds in every state that
  can be reached. \<^verbatim>\<open>kernel_signal_return\<close> is not among the steps: it takes the state of the process from where it was
  not saved.
\<close>

section \<open>The invariant\<close>

text \<open>Every control block is filed under its identifier, which was given out before; it has a context of its own; there are at
  most as many as the run queue can hold.\<close>

definition filed :: "'m kernel_t \<Rightarrow> (int \<rightharpoonup> ptr) \<Rightarrow> bool" where
  "filed k pt \<longleftrightarrow> procs_ok k pt \<and>
     (\<forall>p x. processes k p = Some x \<longrightarrow> pt (key_of (p_pid x)) = Some p \<and> p_pid x < next_pid k \<and> (\<exists>c. contexts k (p_ctx x) = Some c \<and> context_wf c)) \<and>
     (\<forall>p q x y. processes k p = Some x \<longrightarrow> processes k q = Some y \<longrightarrow> p_ctx x = p_ctx y \<longrightarrow> p = q) \<and>
     0 < next_pid k \<and> card (dom (processes k)) \<le> q_capacity (priority_queue k)"

text \<open>The components' invariants together.\<close>

definition system_inv :: "('m \<Rightarrow> ptr set) \<Rightarrow> 'm kernel_t \<Rightarrow> bool" where
  "system_inv live k \<longleftrightarrow> (\<exists>ty pt qt it N. kernel_heap_inv live ty k pt qt it \<and> sched_inv k \<and> mail_inv k N \<and> filed k pt \<and>
     ports_ok k qt \<and> actions_ok k it) \<and> syscalls_ok (syscall_table k)"

lemma system_invI:
  "kernel_heap_inv live ty k pt qt it \<Longrightarrow> sched_inv k \<Longrightarrow> mail_inv k N \<Longrightarrow> filed k pt \<Longrightarrow> ports_ok k qt \<Longrightarrow> actions_ok k it \<Longrightarrow>
   syscalls_ok (syscall_table k) \<Longrightarrow> system_inv live k"
  unfolding system_inv_def by blast

lemma system_invE:
  assumes "system_inv live k"
  obtains ty pt qt it N where "kernel_heap_inv live ty k pt qt it" "sched_inv k" "mail_inv k N" "filed k pt" "ports_ok k qt" "actions_ok k it"
    "syscalls_ok (syscall_table k)"
  using assms unfolding system_inv_def by blast

lemma filedD:
  assumes "filed k pt"
  shows "procs_ok k pt" "processes k p = Some x \<Longrightarrow> pt (key_of (p_pid x)) = Some p"
    "processes k p = Some x \<Longrightarrow> p_pid x < next_pid k" "processes k p = Some x \<Longrightarrow> \<exists>c. contexts k (p_ctx x) = Some c \<and> context_wf c"
    "processes k p = Some x \<Longrightarrow> processes k q = Some y \<Longrightarrow> p_ctx x = p_ctx y \<Longrightarrow> p = q"
    "0 < next_pid k" "card (dom (processes k)) \<le> q_capacity (priority_queue k)"
  using assms unfolding filed_def by blast+

text \<open>Operations that keep identifiers and contexts keep the files.\<close>

abbreviation identity :: "process_t \<Rightarrow> u32 \<times> ptr" where "identity x \<equiv> (p_pid x, p_ctx x)"

lemma same_identity:
  assumes "\<forall>p. map_option identity (processes k' p) = map_option identity (processes k p)" "processes k' p = Some x'"
  obtains x where "processes k p = Some x" "p_pid x' = p_pid x" "p_ctx x' = p_ctx x"
  using spec [OF assms(1), of p] assms(2) by (cases "processes k p") auto

lemma filed_same:
  assumes inv: "filed k pt" and ident: "\<forall>p. map_option identity (processes k' p) = map_option identity (processes k p)"
    and ctx: "\<forall>c v. contexts k c = Some v \<longrightarrow> context_wf v \<longrightarrow> (\<exists>v'. contexts k' c = Some v' \<and> context_wf v')"
    and rest: "next_pid k' = next_pid k" "q_capacity (priority_queue k') = q_capacity (priority_queue k)"
  shows "filed k' pt"
proof -
  note f = filedD [OF inv]
  have d: "dom (processes k') = dom (processes k)"
  proof (rule set_eqI)
    fix p
    show "(p \<in> dom (processes k')) = (p \<in> dom (processes k))"
      using spec [OF ident, of p] by (cases "processes k p"; cases "processes k' p") auto
  qed
  have old: "\<exists>x'. processes k' p = Some x' \<and> p_pid x' = p_pid x" if "processes k p = Some x" for p x
    using spec [OF ident, of p] that by auto
  have "procs_ok k' pt" unfolding procs_ok_def
  proof (intro allI impI)
    fix i p
    assume "pt i = Some p"
    from procs_okE [OF f(1) this] obtain x where "p \<noteq> NULL" "processes k p = Some x" "key_of (p_pid x) = i" .
    with old [of p x] show "p \<noteq> NULL \<and> (\<exists>x. processes k' p = Some x \<and> key_of (p_pid x) = i)" by auto
  qed
  moreover have "pt (key_of (p_pid x')) = Some p \<and> p_pid x' < next_pid k' \<and> (\<exists>c. contexts k' (p_ctx x') = Some c \<and> context_wf c)"
    if "processes k' p = Some x'" for p x'
    using same_identity [OF ident that] f(2-4) ctx rest(1) by metis
  moreover have "p = q" if "processes k' p = Some x'" "processes k' q = Some y'" "p_ctx x' = p_ctx y'" for p q x' y'
    using same_identity [OF ident that(1)] same_identity [OF ident that(2)] that(3) f(5) by metis
  ultimately show ?thesis unfolding filed_def using d rest f(6,7) by auto
qed

text \<open>Operations that keep states and priorities keep the run queue.\<close>

lemma sched_same:
  assumes inv: "sched_inv k" and same: "active_process k' = active_process k" "priority_queue k' = priority_queue k"
    and st: "\<forall>p. map_option (\<lambda>x. (p_state x, p_priority x)) (processes k' p) = map_option (\<lambda>x. (p_state x, p_priority x)) (processes k p)"
  shows "sched_inv k'"
proof -
  have r: "runnable k' p = runnable k p" for p using spec [OF st, of p] by (cases "processes k p"; cases "processes k' p") (simp_all add: runnable_def)
  have "prio_of k' p = prio_of k p" if "runnable k p" for p
    using spec [OF st, of p] that by (cases "processes k p"; cases "processes k' p") (simp_all add: prio_of_def runnable_def)
  then have "ready_entries k' (ready k) = ready_entries k (ready k)" by (intro ready_entries_cong) (simp add: ready_def)
  moreover have "ready k' = ready k" by (simp add: ready_def r same)
  ultimately show ?thesis using inv by (simp add: sched_inv_def same r)
qed

text \<open>Room in the run queue for a process that is not runnable.\<close>

lemma room_to_wake:
  assumes "filed k pt" "processes k p = Some x" "\<not> runnable k p"
  shows "card {q. runnable k q} < q_capacity (priority_queue k)"
proof -
  have "{q. runnable k q} \<subseteq> dom (processes k) - {p}" using assms(3) by (auto simp: runnable_def)
  then have "{q. runnable k q} \<subset> dom (processes k)" using assms(2) by blast
  then have "card {q. runnable k q} < card (dom (processes k))" by (intro psubset_card_mono) simp_all
  then show ?thesis using filedD(7) [OF assms(1)] by simp
qed

lemma room_for_all: "filed k pt \<Longrightarrow> card {q. runnable k q} \<le> q_capacity (priority_queue k)"
  using card_mono [of "dom (processes k)" "{q. runnable k q}"] filedD(7) [of k pt] by (force simp: runnable_def)

section \<open>Each operation keeps the invariant\<close>

text \<open>What operations on ports and handlers do not touch.\<close>

definition processes_kept :: "'m kernel_t \<Rightarrow> 'm kernel_t \<Rightarrow> bool" where
  "processes_kept k k' \<longleftrightarrow> processes k' = processes k \<and> contexts k' = contexts k \<and> queue_nodes_of k' = queue_nodes_of k \<and> messages k' = messages k \<and>
     syscall_table k' = syscall_table k \<and> priority_queue k' = priority_queue k \<and> active_process k' = active_process k \<and> next_pid k' = next_pid k"

lemma processes_kept_inv:
  assumes "processes_kept k k'" "sched_inv k" "mail_inv k N" "filed k pt" "syscalls_ok (syscall_table k)"
  shows "sched_inv k'" "mail_inv k' N" "filed k' pt" "syscalls_ok (syscall_table k')"
proof -
  note s = assms(1) [unfolded processes_kept_def]
  show "sched_inv k'" by (rule sched_same [OF assms(2)]) (use s in simp_all)
  show "mail_inv k' N" by (rule mail_inv_same(1) [OF assms(3)]) (use s in simp_all)
  show "filed k' pt" by (rule filed_same [OF assms(4)]) (use s in auto)
  show "syscalls_ok (syscall_table k')" using s assms(5) by simp
qed

lemma system_inv_kept:
  assumes "processes_kept k k'" "sched_inv k" "mail_inv k N" "filed k pt" "syscalls_ok (syscall_table k)"
    and "kernel_heap_inv live ty k' pt qt it" "ports_ok k' qt" "actions_ok k' it"
  shows "system_inv live k'"
  by (rule system_invI [OF assms(6) processes_kept_inv(1-3) [OF assms(1-5)] assms(7,8) processes_kept_inv(4) [OF assms(1-5)]])

lemma create_port_frame:
  assumes "kernel_create_port P k i = Some (k', e)"
  shows "processes_kept k k' \<and> actions k' = actions k"
  using assms
  by (auto simp: processes_kept_def kernel_create_port_def kmalloc_k_def tree_insert_def Let_def split: Option.bind_splits if_splits)

lemma remove_port_frame:
  assumes "kernel_remove_port P k i = Some (k', e)"
  shows "processes_kept k k' \<and> actions k' = actions k"
  using assms
  by (auto simp: processes_kept_def kernel_remove_port_def kfree_k_def tree_remove_def Let_def split: Option.bind_splits if_splits)

lemma register_frame:
  assumes "kernel_register_interrupt_handler P junk k i f u = Some (k', e)"
  shows "processes_kept k k' \<and> ports k' = ports k"
  using assms
  by (auto simp: processes_kept_def kernel_register_interrupt_handler_def kmalloc_k_def tree_insert_def Let_def split: Option.bind_splits if_splits)

lemma unregister_frame:
  assumes "kernel_remove_interrupt_handler P k i = Some (k', e)"
  shows "processes_kept k k' \<and> ports k' = ports k"
  using assms
  by (auto simp: processes_kept_def kernel_remove_interrupt_handler_def kfree_k_def tree_remove_def Let_def split: Option.bind_splits if_splits)

lemma actions_ok_same: "actions_ok k it \<Longrightarrow> actions k' = actions k \<Longrightarrow> actions_ok k' it"
  by (simp add: actions_ok_def)

lemma ports_ok_same: "ports_ok k qt \<Longrightarrow> ports k' = ports k \<Longrightarrow> ports_ok k' qt"
  by (simp add: ports_ok_def)

lemma running_process: "sched_inv k \<Longrightarrow> active_process k \<noteq> NULL \<Longrightarrow> \<exists>a. processes k (active_process k) = Some a"
  by (auto simp: sched_inv_def runnable_def)

context kernel_platform
begin

lemma create_port_inv:
  assumes inv: "system_inv live k" and a: "active_process k \<noteq> NULL" and run: "kernel_create_port P k i = Some (k', e)"
  shows "system_inv live k'"
  using inv
proof (rule system_invE)
  fix ty pt qt it N
  assume i: "kernel_heap_inv live ty k pt qt it" "sched_inv k" "mail_inv k N" "filed k pt" "ports_ok k qt" "actions_ok k it" "syscalls_ok (syscall_table k)"
  have fr: "processes_kept k k'" "actions k' = actions k" using create_port_frame [OF run] by auto
  from running_process [OF i(2) a] obtain x where x: "processes k (active_process k) = Some x" by blast
  have "port_inv live k pt qt it" using i(1,5) by (auto simp: port_inv_def)
  from create_port_refines [OF this x a run] obtain qt' ty' where "kernel_heap_inv live ty' k' pt qt' it" "ports_ok k' qt'"
    by (auto simp: port_inv_def)
  then show ?thesis using system_inv_kept [OF fr(1) i(2-4,7)] actions_ok_same [OF i(6) fr(2)] by blast
qed

lemma remove_port_inv:
  assumes inv: "system_inv live k" and a: "active_process k \<noteq> NULL" and run: "kernel_remove_port P k i = Some (k', e)"
  shows "system_inv live k'"
  using inv
proof (rule system_invE)
  fix ty pt qt it N
  assume i: "kernel_heap_inv live ty k pt qt it" "sched_inv k" "mail_inv k N" "filed k pt" "ports_ok k qt" "actions_ok k it" "syscalls_ok (syscall_table k)"
  have fr: "processes_kept k k'" "actions k' = actions k" using remove_port_frame [OF run] by auto
  from running_process [OF i(2) a] obtain x where "processes k (active_process k) = Some x" by blast
  moreover have "port_inv live k pt qt it" using i(1,5) by (auto simp: port_inv_def)
  ultimately obtain qt' ty' where "kernel_heap_inv live ty' k' pt qt' it" "ports_ok k' qt'"
    using remove_port_refines [OF _ _ a, of pt qt it x i] run by (auto simp: port_inv_def)
  then show ?thesis using system_inv_kept [OF fr(1) i(2-4,7)] actions_ok_same [OF i(6) fr(2)] by blast
qed

lemma register_inv:
  assumes inv: "system_inv live k" and a: "active_process k \<noteq> NULL" and run: "kernel_register_interrupt_handler P junk k i f u = Some (k', e)"
  shows "system_inv live k'"
  using inv
proof (rule system_invE)
  fix ty pt qt it N
  assume i: "kernel_heap_inv live ty k pt qt it" "sched_inv k" "mail_inv k N" "filed k pt" "ports_ok k qt" "actions_ok k it" "syscalls_ok (syscall_table k)"
  have fr: "processes_kept k k'" "ports k' = ports k" using register_frame [OF run] by auto
  from running_process [OF i(2) a] obtain x where "processes k (active_process k) = Some x" by blast
  from register_effect [OF i(1,6) a this run] i(1,6) obtain ty' it' where "kernel_heap_inv live ty' k' pt qt it'" "actions_ok k' it'"
    by (auto split: if_splits)
  then show ?thesis using system_inv_kept [OF fr(1) i(2-4,7)] ports_ok_same [OF i(5) fr(2)] by blast
qed

lemma unregister_inv:
  assumes inv: "system_inv live k" and run: "kernel_remove_interrupt_handler P k i = Some (k', e)"
  shows "system_inv live k'"
  using inv
proof (rule system_invE)
  fix ty pt qt it N
  assume i: "kernel_heap_inv live ty k pt qt it" "sched_inv k" "mail_inv k N" "filed k pt" "ports_ok k qt" "actions_ok k it" "syscalls_ok (syscall_table k)"
  have fr: "processes_kept k k'" "ports k' = ports k" using unregister_frame [OF run] by auto
  from unregister_effect [OF i(1,6), of i] run obtain it' where "kernel_heap_inv live ty k' pt qt it'" "actions_ok k' it'" by auto
  then show ?thesis using system_inv_kept [OF fr(1) i(2-4,7)] ports_ok_same [OF i(5) fr(2)] by blast
qed

end

text \<open>Processes come and go.\<close>

lemma insert_capacity: "priorityqueue_insert q v p = Some (q', e) \<Longrightarrow> q_capacity q' = q_capacity q"
  by (auto simp: priorityqueue_insert_def Let_def split: Option.bind_splits if_splits)

lemma spawn_capacity:
  assumes "kernel_spawn_process P ks k pc pr space = Some (k', pid)"
  shows "q_capacity (priority_queue k') = q_capacity (priority_queue k)"
  using assms
  by (auto simp: kernel_spawn_process_def kmalloc_k_def tree_insert_def enqueue_def Let_def insert_capacity split: Option.bind_splits if_splits)

lemma spawned_filed:
  assumes inv: "filed k pt" and s: "spawned k k' p c x ctx" and x: "p_pid x = next_pid k" "p_ctx x = c" and c: "context_wf ctx"
    and room: "card (dom (processes k)) < q_capacity (priority_queue k)" "q_capacity (priority_queue k') = q_capacity (priority_queue k)"
    and nw: "next_pid k \<noteq> - 1"
  shows "filed k' (pt(key_of (next_pid k) \<mapsto> p))"
proof -
  note f = filedD [OF inv]
  have k': "p \<noteq> NULL" "processes k p = None" "contexts k c = None" "processes k' = (processes k)(p \<mapsto> x)" "contexts k' = (contexts k)(c \<mapsto> ctx)"
    "next_pid k' = next_pid k + 1" using s by (auto simp: spawned_def)
  have n: "unat (next_pid k + 1) = unat (next_pid k) + 1"
    using nw by (metis Suc_eq_plus1 add.commute add_eq_0_iff2 unatSuc)
  have lt: "p_pid y < next_pid k'" if "processes k' q = Some y" for q y
    using that f(3) [of q y] n k'(4,6) x(1) by (auto simp: word_less_nat_alt split: if_splits)
  have own: "p_ctx y \<noteq> c" if "processes k q = Some y" for q y using f(4) [OF that] k'(3) by auto
  have key: "p_pid y \<noteq> next_pid k" if "processes k q = Some y" for q y using f(3) [OF that] by auto
  have "procs_ok k' (pt(key_of (next_pid k) \<mapsto> p))"
    using f(1) k'(1,2,4) x(1) unfolding procs_ok_def by (auto split: if_splits) (metis option.distinct(1))+
  moreover have "(pt(key_of (next_pid k) \<mapsto> p)) (key_of (p_pid y)) = Some q \<and> (\<exists>v. contexts k' (p_ctx y) = Some v \<and> context_wf v)"
    if "processes k' q = Some y" for q y
  proof (cases "q = p")
    case True
    then show ?thesis using that k'(4,5) x c by auto
  next
    case False
    then have y: "processes k q = Some y" using that k'(4) by simp
    show ?thesis using f(2,4) [OF y] own [OF y] key [OF y] k'(5) by auto
  qed
  moreover have "q = r" if "processes k' q = Some y" "processes k' r = Some z" "p_ctx y = p_ctx z" for q r y z
    using that f(5) own x(2) k'(4) by (auto split: if_splits)
  moreover have "0 < next_pid k'" using n k'(6) by (simp add: word_less_nat_alt)
  moreover have "card (dom (processes k')) \<le> q_capacity (priority_queue k')" using room k'(2,4) by (simp add: domIff)
  ultimately show ?thesis using lt unfolding filed_def by blast
qed

context kernel_platform
begin

lemma spawn_inv:
  assumes inv: "system_inv live k" and run: "kernel_spawn_process P ks k pc pr space = Some (k', pid)"
    and room: "card (dom (processes k)) < q_capacity (priority_queue k)" and nw: "next_pid k \<noteq> - 1"
  shows "system_inv live k'"
  using inv
proof (rule system_invE)
  fix ty pt qt it N
  assume i: "kernel_heap_inv live ty k pt qt it" "sched_inv k" "mail_inv k N" "filed k pt" "ports_ok k qt" "actions_ok k it" "syscalls_ok (syscall_table k)"
  note f = filedD [OF i(4)]
  show ?thesis
  proof (cases "pid = 0")
    case True
    with run f(6) obtain m where m: "k' = k\<lparr>mach := m\<rparr>" "live (mach k) \<subseteq> live m" by (auto elim: spawn_failed)
    then have "processes_kept k k'" by (simp add: processes_kept_def)
    moreover have "kernel_heap_inv live ty k' pt qt it" using heap_inv_mach [OF i(1) m(2)] m(1) by simp
    moreover have "ports_ok k' qt" "actions_ok k' it" using i(5,6) m(1) by (simp_all add: ports_ok_def actions_ok_def)
    ultimately show ?thesis using system_inv_kept i(2-4,7) by blast
  next
    case False
    have "key_of (next_pid k) \<notin> dom pt"
      using f(1,3) unfolding procs_ok_def by (metis domD key_of_inject order_less_irrefl)
    moreover have "card {p. runnable k p} < q_capacity (priority_queue k)"
      using card_mono [of "dom (processes k)" "{p. runnable k p}"] room by (force simp: runnable_def)
    ultimately obtain p c ty' where s: "spawned k k' p c (fresh_process (next_pid k) pr space c) (fresh_context ks pc)" "pid = next_pid k"
      "sched_inv k'" "kernel_heap_inv live ty' k' (pt(key_of pid \<mapsto> p)) qt it"
      using spawn_ok [OF i(1,2) _ _ run False] by blast
    have k': "processes k p = None" "processes k' = (processes k)(p \<mapsto> fresh_process (next_pid k) pr space c)"
      "queue_nodes_of k' = queue_nodes_of k" "messages k' = messages k" "ports k' = ports k" "actions k' = actions k" "syscall_table k' = syscall_table k"
      using s(1) by (auto simp: spawned_def)
    have "filed k' (pt(key_of pid \<mapsto> p))" unfolding s(2)
      by (rule spawned_filed [OF i(4) s(1) _ _ _ room spawn_capacity [OF run] nw])
        (simp_all add: fresh_process_def fresh_context_def, simp add: context_wf_def)
    moreover have "mail_inv k' N" using i(3) k' unfolding mail_inv_def
      by (auto simp: fresh_process_def queue_construct_def queue_nodes_def)
    moreover have "ports_ok k' qt" "actions_ok k' it" "syscalls_ok (syscall_table k')" using i(5-7) k' by (simp_all add: ports_ok_def actions_ok_def)
    ultimately show ?thesis using s(3,4) by (rule_tac system_invI)
  qed
qed

text \<open>The scheduler.\<close>

lemma advance_runnable:
  assumes "sched_inv k" "card {p. runnable k p} \<le> q_capacity (priority_queue k)" "kernel_advance_scheduler P k = Some r"
  shows "\<exists>p. runnable k p"
proof (rule ccontr)
  assume n: "\<not> (\<exists>p. runnable k p)"
  then have "active_process k = NULL" using assms(1) by (auto simp: sched_inv_def)
  moreover have "q_size (priority_queue k) = 0"
    using n assms(1) by (auto simp: sched_inv_def ready_def ready_entries_def entries_def contents_def pq_good_def pq_inv_def)
  ultimately show False using assms(3) by (simp add: kernel_advance_scheduler_def priorityqueue_extract_min_def)
qed

lemma advance_inv:
  assumes inv: "system_inv live k" and run: "kernel_advance_scheduler P k = Some (k', ctx)"
  shows "system_inv live k'"
  using inv
proof (rule system_invE)
  fix ty pt qt it N
  assume i: "kernel_heap_inv live ty k pt qt it" "sched_inv k" "mail_inv k N" "filed k pt" "ports_ok k qt" "actions_ok k it" "syscalls_ok (syscall_table k)"
  note cap = room_for_all [OF i(4)]
  from advance_runnable [OF i(2) cap run] obtain p0 where "runnable k p0" by blast
  from advance_chooses [OF i(2) cap this, of P] obtain k1 p and x :: process_t where r: "kernel_advance_scheduler P k = Some (k1, p_ctx x)" "sched_inv k1"
    "q_capacity (priority_queue k1) = q_capacity (priority_queue k)"
    "k1 = k\<lparr>mach := paging_load P (mach k) (p_page_table x), active_process := p, priority_queue := priority_queue k1\<rparr>" by blast
  have "k1 = k'" using r(1) run by simp
  with r obtain q where k': "sched_inv k'" "q_capacity q = q_capacity (priority_queue k)"
    "k' = k\<lparr>mach := paging_load P (mach k) (p_page_table x), active_process := p, priority_queue := q\<rparr>" by blast
  have "filed k' pt" by (rule filed_same [OF i(4)]) (use k' in auto)
  moreover have "mail_inv k' N" by (rule mail_inv_same(1) [OF i(3)]) (use k' in simp_all)
  moreover have "kernel_heap_inv live ty k' pt qt it"
    using heap_inv_mach [OF i(1), of "paging_load P (mach k) (p_page_table x)"] load_live k'(3) by (simp add: kernel_heap_inv_def objects_def tables_def)
  moreover have "ports_ok k' qt" "actions_ok k' it" "syscalls_ok (syscall_table k')" using i(5-7) k'(3) by (simp_all add: ports_ok_def actions_ok_def)
  ultimately show ?thesis using k'(1) by (rule_tac system_invI)
qed

text \<open>Messages.\<close>

lemma queue_message_frame:
  assumes "kernel_queue_message P k r message = Some (k', e)"
  shows "contexts k' = contexts k \<and> ports k' = ports k \<and> actions k' = actions k \<and> syscall_table k' = syscall_table k \<and>
    priority_queue k' = priority_queue k \<and> active_process k' = active_process k \<and> next_pid k' = next_pid k \<and>
    (\<forall>p. map_option (\<lambda>x. (p_state x, p_priority x)) (processes k' p) = map_option (\<lambda>x. (p_state x, p_priority x)) (processes k p)) \<and>
    (\<forall>p. map_option identity (processes k' p) = map_option identity (processes k p))"
  using assms
  by (auto simp: kernel_queue_message_def kmalloc_k_def put_queue_def deref_def Let_def split: Option.bind_splits if_splits)

lemma queue_message_inv:
  assumes inv: "system_inv live k" and run: "kernel_queue_message P k r message = Some (k', e)"
  shows "system_inv live k'"
  using inv
proof (rule system_invE)
  fix ty pt qt it N
  assume i: "kernel_heap_inv live ty k pt qt it" "sched_inv k" "mail_inv k N" "filed k pt" "ports_ok k qt" "actions_ok k it" "syscalls_ok (syscall_table k)"
  note fr = queue_message_frame [OF run]
  note f = filedD [OF i(4)]
  show ?thesis
  proof (cases "pt (key_of r)")
    case None
    then have "tree_get k (process_table k) r = Some NULL" using tables_get(1) i(1) by (fastforce simp: kernel_heap_inv_def)
    then show ?thesis using run inv by (simp add: kernel_queue_message_def)
  next
    case (Some dest)
    from queue_message_effect [OF i(1,3) f(1) Some run] obtain N' ty' where 1: "mail_inv k' N'" "kernel_heap_inv live ty' k' pt qt it" by blast
    have same: "\<forall>p. map_option (\<lambda>x. (p_state x, p_priority x)) (processes k' p) = map_option (\<lambda>x. (p_state x, p_priority x)) (processes k p)"
      "\<forall>p. map_option identity (processes k' p) = map_option identity (processes k p)" using fr by simp_all
    have "sched_inv k'" by (rule sched_same [OF i(2) _ _ same(1)]) (use fr in simp_all)
    moreover have "filed k' pt" by (rule filed_same [OF i(4) same(2)]) (use fr in auto)
    moreover have "ports_ok k' qt" "actions_ok k' it" "syscalls_ok (syscall_table k')" using i(5-7) fr by (simp_all add: ports_ok_def actions_ok_def)
    ultimately show ?thesis using 1 by (rule_tac system_invI)
  qed
qed

lemma send_message_frame:
  assumes "kernel_send_message P k r message = Some (k', e)"
  shows "k' = k \<or> ports k' = ports k \<and> actions k' = actions k \<and> syscall_table k' = syscall_table k \<and> next_pid k' = next_pid k \<and>
    q_capacity (priority_queue k') = q_capacity (priority_queue k)"
  using assms
  by (auto simp: kernel_send_message_def enqueue_def load_space_def insert_capacity deref_def Let_def split: Option.bind_splits if_splits)

lemma send_message_inv:
  assumes inv: "system_inv live k" and run: "kernel_send_message P k r message = Some (k', e)"
  shows "system_inv live k'"
  using inv
proof (rule system_invE)
  fix ty pt qt it N
  assume i: "kernel_heap_inv live ty k pt qt it" "sched_inv k" "mail_inv k N" "filed k pt" "ports_ok k qt" "actions_ok k it" "syscalls_ok (syscall_table k)"
  note f = filedD [OF i(4)]
  have get: "tree_get k (process_table k) r = Some (case pt (key_of r) of None \<Rightarrow> NULL | Some p \<Rightarrow> p)"
    using tables_get(1) i(1) by (fastforce simp: kernel_heap_inv_def)
  show ?thesis
  proof (cases "pt (key_of r)")
    case None
    then show ?thesis using get run inv by (simp add: kernel_send_message_def)
  next
    case (Some dest)
    from procs_okE [OF f(1) Some] obtain d where d: "dest \<noteq> NULL" "processes k dest = Some d" "key_of (p_pid d) = key_of r" .
    show ?thesis
    proof (cases "p_message_buffer d \<noteq> NULL \<and> p_state d = PROCESS_REQUESTING")
      case False
      then have "k' = k" using get Some run d by (auto simp: kernel_send_message_def deref_def)
      then show ?thesis using inv by simp
    next
      case True
      then have "card {q. runnable k q} < q_capacity (priority_queue k)" using room_to_wake [OF i(4) d(2)] d(2) by (simp add: runnable_def)
      from send_direct [OF i(1,2,3) f(1) this Some d(2) _ _ run] True obtain c where
        s: "processes k' = (processes k)(dest \<mapsto> d\<lparr>p_message_buffer := NULL, p_state := PROCESS_ACTIVE\<rparr>)"
          "contexts k (p_ctx d) = Some c" "contexts k' = (contexts k)(p_ctx d \<mapsto> set_context_return c 0)"
          "sched_inv k'" "kernel_heap_inv live ty k' pt qt it" "mail_inv k' N" by blast
      have "p_message_buffer (the (processes k' dest)) \<noteq> p_message_buffer (the (processes k dest))" using s(1) d(2) True by simp
      then have "k' \<noteq> k" by blast
      then have fr: "ports k' = ports k" "actions k' = actions k" "syscall_table k' = syscall_table k" "next_pid k' = next_pid k"
        "q_capacity (priority_queue k') = q_capacity (priority_queue k)" using send_message_frame [OF run] by auto
      have "filed k' pt" by (rule filed_same [OF i(4)]) (use s fr d(2) in auto)
      moreover have "ports_ok k' qt" "actions_ok k' it" "syscalls_ok (syscall_table k')" using i(5-7) fr by (simp_all add: ports_ok_def actions_ok_def)
      ultimately show ?thesis using s(4-6) by (rule_tac system_invI)
    qed
  qed
qed

lemma send_inv:
  assumes inv: "system_inv live k" and run: "send P k r message flags = Some (k', e)"
  shows "system_inv live k'"
  using run inv unfolding send_def Let_def
  by (auto split: Option.bind_splits if_splits intro: send_message_inv [OF inv] queue_message_inv [OF send_message_inv [OF inv]])

lemma blocked_inv:
  assumes inv: "system_inv live k" and a: "processes k (active_process k) = Some a"
  shows "system_inv live (blocked k a b)"
  using inv
proof (rule system_invE)
  fix ty pt qt it N
  assume i: "kernel_heap_inv live ty k pt qt it" "sched_inv k" "mail_inv k N" "filed k pt" "ports_ok k qt" "actions_ok k it" "syscalls_ok (syscall_table k)"
  have "filed (blocked k a b) pt" by (rule filed_same [OF i(4)]) (use a in auto)
  moreover have "mail_inv (blocked k a b) N" by (rule mail_inv_process [OF i(3) a, where x' = "a\<lparr>p_message_buffer := b, p_state := PROCESS_REQUESTING\<rparr>"]) simp_all
  moreover have "kernel_heap_inv live ty (blocked k a b) pt qt it"
    using i(1) a by (simp add: kernel_heap_inv_def objects_def tables_def insert_absorb domI)
  ultimately show ?thesis using block_sched(1) [OF i(2)] i(5-7) by (rule_tac system_invI) (simp_all add: ports_ok_def actions_ok_def)
qed

lemma receive_queued_frame:
  assumes "receive_message P k buffer flags = Some (k', Returns ENONE)"
  shows "contexts k' = contexts k \<and> ports k' = ports k \<and> actions k' = actions k \<and> syscall_table k' = syscall_table k \<and>
    priority_queue k' = priority_queue k \<and> active_process k' = active_process k \<and> next_pid k' = next_pid k \<and>
    (\<forall>p. map_option (\<lambda>x. (p_state x, p_priority x)) (processes k' p) = map_option (\<lambda>x. (p_state x, p_priority x)) (processes k p)) \<and>
    (\<forall>p. map_option identity (processes k' p) = map_option identity (processes k p))"
  using assms
  by (auto simp: receive_message_def get_queue_def kfree_k_def deref_def Let_def split: Option.bind_splits if_splits)

lemma receive_inv:
  assumes inv: "system_inv live k" and act: "active_process k \<noteq> NULL" and run: "receive_message P k buffer flags = Some (k', r)"
  shows "system_inv live k'"
  using inv
proof (rule system_invE)
  fix ty pt qt it N
  assume i: "kernel_heap_inv live ty k pt qt it" "sched_inv k" "mail_inv k N" "filed k pt" "ports_ok k qt" "actions_ok k it" "syscalls_ok (syscall_table k)"
  from running_process [OF i(2) act] obtain a where a: "processes k (active_process k) = Some a" by blast
  show ?thesis
  proof (cases "N (active_process k)")
    case Nil
    note e = receive_empty [OF i(3) act a Nil, of buffer flags]
    show ?thesis
    proof (cases "flags AND 1 = 1")
      case True
      then show ?thesis using e run inv by simp
    next
      case False
      then obtain ctx where "kernel_advance_scheduler P (blocked k a buffer) = Some (k', ctx)"
        using e run by (auto split: Option.bind_splits)
      then show ?thesis by (rule advance_inv [OF blocked_inv [OF inv a]])
    qed
  next
    case (Cons h ns)
    obtain n qm where h: "h = (n, qm)" by (cases h)
    have m: "mailbox k N (active_process k) = the (messages k qm) # map (\<lambda>e. the (messages k (snd e))) ns" by (simp add: mailbox_def Cons h)
    from receive_queued [OF i(1,3) act a Cons [unfolded h] m, of buffer flags] run have
      r: "r = Returns ENONE" "kernel_heap_inv live ty k' pt qt it" "mail_inv k' (N(active_process k := ns))" by auto
    note fr = receive_queued_frame [OF run [unfolded r(1)]]
    have same: "\<forall>p. map_option (\<lambda>x. (p_state x, p_priority x)) (processes k' p) = map_option (\<lambda>x. (p_state x, p_priority x)) (processes k p)"
      "\<forall>p. map_option identity (processes k' p) = map_option identity (processes k p)" using fr by simp_all
    have "sched_inv k'" by (rule sched_same [OF i(2) _ _ same(1)]) (use fr in simp_all)
    moreover have "filed k' pt" by (rule filed_same [OF i(4) same(2)]) (use fr in auto)
    moreover have "ports_ok k' qt" "actions_ok k' it" "syscalls_ok (syscall_table k')" using i(5-7) fr by (simp_all add: ports_ok_def actions_ok_def)
    ultimately show ?thesis using r(2,3) by (rule_tac system_invI)
  qed
qed

text \<open>Handlers and saved contexts.\<close>

lemma context_inv:
  assumes inv: "system_inv live k" and c: "contexts k p = Some c" "context_wf c'"
  shows "system_inv live (set_context k p c')"
  using inv
proof (rule system_invE)
  fix ty pt qt it N
  assume i: "kernel_heap_inv live ty k pt qt it" "sched_inv k" "mail_inv k N" "filed k pt" "ports_ok k qt" "actions_ok k it" "syscalls_ok (syscall_table k)"
  let ?k = "set_context k p c'"
  have "filed ?k pt" by (rule filed_same [OF i(4)]) (use c in auto)
  moreover have "mail_inv ?k N" by (rule mail_inv_same(1) [OF i(3)]) simp_all
  moreover have "kernel_heap_inv live ty ?k pt qt it"
    using i(1) c(1) by (simp add: kernel_heap_inv_def objects_def tables_def insert_absorb domI)
  moreover have "sched_inv ?k" by (rule sched_same [OF i(2)]) simp_all
  ultimately show ?thesis using i(5-7) by (rule_tac system_invI) (simp_all add: ports_ok_def actions_ok_def)
qed

lemma save_registers_inv:
  assumes inv: "system_inv live k" and run: "save_registers k pc stack flags = Some k'"
  shows "system_inv live k'"
proof -
  from run obtain a c where a: "processes k (active_process k) = Some a" "contexts k (p_ctx a) = Some c"
    "k' = set_context k (p_ctx a) (set_context_flags (set_context_stack (set_context_pc c pc) stack) flags)"
    by (auto simp: save_registers_def deref_def Let_def split: Option.bind_splits if_splits)
  have "context_wf c" using inv
  proof (rule system_invE)
    show "context_wf c" if "filed k pt" for pt using filedD(4) [OF that a(1)] a(2) by simp
  qed
  then show ?thesis unfolding a(3) by (intro context_inv [OF inv a(2)]) simp
qed

lemma store_context_inv:
  assumes inv: "system_inv live k" and wf: "context_wf c" and run: "kernel_store_active_context k c = Some (k', e)"
  shows "system_inv live k'"
  using inv run context_inv [OF inv _ wf]
  by (auto simp: kernel_store_active_context_def deref_def split: Option.bind_splits if_splits)

lemma set_syscall_inv:
  assumes inv: "system_inv live k" and run: "set_syscall k j n pid f = Some (k', e)"
  shows "system_inv live k'"
  using inv
proof (rule system_invE)
  fix ty pt qt it N
  assume i: "kernel_heap_inv live ty k pt qt it" "sched_inv k" "mail_inv k N" "filed k pt" "ports_ok k qt" "actions_ok k it" "syscalls_ok (syscall_table k)"
  have j: "j \<noteq> 256"
  proof
    assume "j = 256"
    then show False using run set_syscall_256 [of k n pid f] i(7) by (simp add: syscalls_ok_def)
  qed
  have nz: "pt q = Some p \<Longrightarrow> p \<noteq> NULL" for q p using filedD(1) [OF i(4)] by (auto simp: procs_ok_def)
  have "tables (live (mach k)) ty k pt qt it" using i(1) by (simp add: kernel_heap_inv_def)
  then have "set_syscall k j n pid f = Some (
      if j < 0 \<or> j \<ge> 256 then (k, EOUTOFBOUNDS)
      else if sys_defined (syscall_table k ! nat j) \<or> n \<notin> {0..3} then (k, EINVALIDARG)
      else if pid \<noteq> 0 \<and> pid \<notin> dom pt then (k, EDOESNTEXIST)
      else if f = NULL then (k, ENULLPTR)
      else (k\<lparr>syscall_table := (syscall_table k)[nat j := \<lparr>sys_defined = True, sys_arg_count = n, sys_process_id = pid, sys_func_ptr = f\<rparr>]\<rparr>, ENONE))"
    by (rule set_syscall_cases [OF i(7) j]) (rule nz)
  note r = this [unfolded run]
  show ?thesis
  proof (cases "k' = k")
    case True
    then show ?thesis using inv by simp
  next
    case False
    let ?s = "\<lparr>sys_defined = True, sys_arg_count = n, sys_process_id = pid, sys_func_ptr = f\<rparr>"
    have k': "k' = k\<lparr>syscall_table := (syscall_table k)[nat j := ?s]\<rparr>" "0 \<le> n \<and> n \<le> 3 \<and> f \<noteq> NULL"
      using r False by (auto split: if_splits)
    have "syscalls_ok ((syscall_table k)[nat j := ?s])" by (rule syscalls_upd [OF i(7)]) (use k'(2) in simp)
    moreover have "filed k' pt" by (rule filed_same [OF i(4)]) (use k'(1) in auto)
    moreover have "mail_inv k' N" by (rule mail_inv_same(1) [OF i(3)]) (use k'(1) in simp_all)
    moreover have "sched_inv k'" by (rule sched_same [OF i(2)]) (use k'(1) in simp_all)
    ultimately show ?thesis using k'(1) i(1,5,6)
      by (rule_tac system_invI) (simp_all add: ports_ok_def actions_ok_def kernel_heap_inv_def objects_def tables_def)
  qed
qed

lemma push_signal_live: "push_signal P m c i st act = Some (m', c') \<Longrightarrow> live m' = live m"
  by (auto simp: push_signal_def context_stack_push_struct_def context_stack_push_def context_call_func_def Let_def
      split: Option.bind_splits dest!: write_live)

lemma execute_frame:
  assumes "kernel_execute_interrupt_handler P k i = Some (k', e)"
  shows "ports k' = ports k \<and> actions k' = actions k \<and> syscall_table k' = syscall_table k \<and> next_pid k' = next_pid k \<and>
    q_capacity (priority_queue k') = q_capacity (priority_queue k) \<and> queue_nodes_of k' = queue_nodes_of k \<and> messages k' = messages k"
  using assms
  by (auto simp: kernel_execute_interrupt_handler_def enqueue_def load_space_def tree_remove_def insert_capacity Let_def
      split: Option.bind_splits if_splits)

lemma execute_tables:
  assumes "kernel_execute_interrupt_handler P k i = Some (k', e)" "tree_get k (interrupt_handlers k) i = Some ap"
    "deref (actions k) ap = Some act" "tree_get k (process_table k) (sa_pid act) = Some p" "p \<noteq> NULL"
  shows "avl_nodes k' = avl_nodes k \<and> process_table k' = process_table k \<and> port_table k' = port_table k \<and> interrupt_handlers k' = interrupt_handlers k \<and>
    live (mach k') = live (mach k)"
  using assms push_signal_live load_live
  by (auto simp: kernel_execute_interrupt_handler_def enqueue_def load_space_def Let_def split: Option.bind_splits if_splits)

lemma execute_inv:
  assumes inv: "system_inv live k" and run: "kernel_execute_interrupt_handler P k i = Some (k', e)"
  shows "system_inv live k'"
  using inv
proof (rule system_invE)
  fix ty pt qt it N
  assume i: "kernel_heap_inv live ty k pt qt it" "sched_inv k" "mail_inv k N" "filed k pt" "ports_ok k qt" "actions_ok k it" "syscalls_ok (syscall_table k)"
  note f = filedD [OF i(4)]
  note fr = execute_frame [OF run]
  have tab: "tables (live (mach k)) ty k pt qt it" using i(1) by (simp add: kernel_heap_inv_def)
  note get = tables_get(3) [OF tab, of i]
  show ?thesis
  proof (cases "it (key_of i)")
    case None
    then show ?thesis using get run inv by (simp add: kernel_execute_interrupt_handler_def)
  next
    case (Some ap)
    then obtain act where ap: "ap \<noteq> NULL" "actions k ap = Some act" using i(6) by (auto simp: actions_ok_def)
    note getp = tables_get(1) [OF tab, of "sa_pid act"]
    show ?thesis
    proof (cases "pt (key_of (sa_pid act))")
      case None
      from remove_handler_inv [OF i(1), of i] obtain k1 r where k1: "tree_remove P k (interrupt_handlers k) i = Some (k1, r)"
        "kernel_heap_inv live ty (k1\<lparr>interrupt_handlers := r\<rparr>) pt qt (it(key_of i := None))" "same_but_tree k k1" by (elim exE conjE)
      have k': "k' = k1\<lparr>interrupt_handlers := r\<rparr>"
        using run get Some ap getp None k1(1) by (simp add: kernel_execute_interrupt_handler_def)
      have "processes_kept k k'" using same_but_treeD [OF k1(3)] k' by (simp add: processes_kept_def)
      moreover have "actions_ok k' (it(key_of i := None))" using i(6) fr by (auto simp: actions_ok_def inj_on_def)
      ultimately show ?thesis using system_inv_kept [OF _ i(2-4,7)] k1(2) ports_ok_same [OF i(5)] fr k' by metis
    next
      case p: (Some p)
      from procs_okE [OF f(1) p] obtain x where x: "p \<noteq> NULL" "processes k p = Some x" .
      from f(4) [OF x(2)] obtain c where c: "contexts k (p_ctx x) = Some c" "context_wf c" by blast
      have "p_state x \<noteq> PROCESS_ACTIVE \<longrightarrow> card {q. runnable k q} < q_capacity (priority_queue k)"
        using room_to_wake [OF i(4) x(2)] x(2) by (auto simp: runnable_def)
      from execute_effect [OF tab Some ap p x c i(2) this run] have k':
        "contexts k' = (contexts k)(p_ctx x \<mapsto> c\<lparr>c_eip := sa_func_ptr act, gp_registers := (gp_registers c)[7 := gp_registers c ! 7 - 68]\<rparr>)"
        "processes k' = (processes k)(p \<mapsto> x\<lparr>p_state := PROCESS_ACTIVE\<rparr>)" "sched_inv k'" by blast+
      note t = execute_tables [OF run, of ap act p]
      have tabs: "avl_nodes k' = avl_nodes k \<and> process_table k' = process_table k \<and> port_table k' = port_table k \<and>
        interrupt_handlers k' = interrupt_handlers k \<and> live (mach k') = live (mach k)"
        using t get Some ap getp p x(1) by simp
      have "filed k' pt" by (rule filed_same [OF i(4)]) (use k' fr x(2) c in \<open>auto simp: context_wf_def\<close>)
      moreover have "mail_inv k' N" by (rule mail_inv_process [OF i(3) x(2) k'(2)]) (use fr in simp_all)
      moreover have "kernel_heap_inv live ty k' pt qt it"
        using i(1) tabs fr k'(1,2) x(2) c(1) by (simp add: kernel_heap_inv_def objects_def tables_def insert_absorb domI)
      moreover have "ports_ok k' qt" "actions_ok k' it" "syscalls_ok (syscall_table k')" using i(5-7) fr by (simp_all add: ports_ok_def actions_ok_def)
      ultimately show ?thesis using k'(3) by (rule_tac system_invI)
    qed
  qed
qed

lemma terminated_filed:
  assumes inv: "filed k pt" and p: "pt (key_of pid) = Some p" "processes k p = Some x"
    and k': "processes k' = (processes k)(p := None)" "contexts k' = (contexts k)(p_ctx x := None)"
      "next_pid k' = next_pid k" "q_capacity (priority_queue k') = q_capacity (priority_queue k)"
  shows "filed k' (pt(key_of pid := None))"
proof -
  note f = filedD [OF inv]
  have pid: "p_pid x = pid" using procs_okE [OF f(1) p(1)] p(2) by (metis key_of_inject option.inject)
  have other: "processes k q = Some y \<and> q \<noteq> p" if "processes k' q = Some y" for q y using that k'(1) by (auto split: if_splits)
  have "procs_ok k' (pt(key_of pid := None))" unfolding procs_ok_def
  proof (intro allI impI)
    fix j q
    assume j: "(pt(key_of pid := None)) j = Some q"
    then have "pt j = Some q" "j \<noteq> key_of pid" by (auto split: if_splits)
    from procs_okE [OF f(1) this(1)] obtain y where y: "q \<noteq> NULL" "processes k q = Some y" "key_of (p_pid y) = j" .
    moreover have "q \<noteq> p" using y(2,3) p(2) pid \<open>j \<noteq> key_of pid\<close> by auto
    ultimately show "q \<noteq> NULL \<and> (\<exists>x. processes k' q = Some x \<and> key_of (p_pid x) = j)" using k'(1) by auto
  qed
  moreover have "(pt(key_of pid := None)) (key_of (p_pid y)) = Some q \<and> p_pid y < next_pid k' \<and> (\<exists>c. contexts k' (p_ctx y) = Some c \<and> context_wf c)"
    if "processes k' q = Some y" for q y
  proof -
    have q: "processes k q = Some y" "q \<noteq> p" using other [OF that] by auto
    have "p_ctx y \<noteq> p_ctx x" using f(5) [OF q(1) p(2)] q(2) by blast
    moreover have "p_pid y \<noteq> pid" using f(2) [OF q(1)] f(2) [OF p(2)] pid q(2) by auto
    ultimately show ?thesis using f(2,3,4) [OF q(1)] k'(2,3) by auto
  qed
  moreover have "q = r" if "processes k' q = Some y" "processes k' r = Some z" "p_ctx y = p_ctx z" for q r y z
    using other [OF that(1)] other [OF that(2)] that(3) f(5) by blast
  moreover have "card (dom (processes k')) \<le> q_capacity (priority_queue k')"
  proof -
    have "card (dom (processes k')) \<le> card (dom (processes k))" by (rule card_mono) (auto simp: k'(1))
    then show ?thesis using f(7) k'(4) by simp
  qed
  ultimately show ?thesis using f(6) k'(3) unfolding filed_def by simp
qed

lemma terminate_self_inv:
  assumes inv: "system_inv live k" and act: "active_process k \<noteq> NULL" and run: "terminate_self P k = Some (k', e)"
  shows "system_inv live k'"
  using inv
proof (rule system_invE)
  fix ty pt qt it N
  assume i: "kernel_heap_inv live ty k pt qt it" "sched_inv k" "mail_inv k N" "filed k pt" "ports_ok k qt" "actions_ok k it" "syscalls_ok (syscall_table k)"
  note f = filedD [OF i(4)]
  from running_process [OF i(2) act] obtain a where a: "processes k (active_process k) = Some a" by blast
  from f(4) [OF a] have c: "p_ctx a \<in> dom (contexts k)" by blast
  have "kernel_current_pid k = Some (p_pid a)" using a act by (simp add: kernel_current_pid_def)
  then have run: "kernel_terminate_process P k (p_pid a) = Some (k', e)" using run by (simp add: terminate_self_def)
  have "active_process k \<notin> ready k" by (simp add: ready_def)
  from terminate_effect [OF i(1,3) f(1) i(2) f(2) [OF a] a c this] run have
    t: "processes k' = (processes k)(active_process k := None)" "contexts k' = (contexts k)(p_ctx a := None)" "ports k' = ports k" "sched_inv k'"
      "kernel_heap_inv live ty k' (pt(key_of (p_pid a) := None)) qt it" "mail_inv k' (N(active_process k := []))"
      "actions k' = actions k" "next_pid k' = next_pid k" "syscall_table k' = syscall_table k"
      "q_capacity (priority_queue k') = q_capacity (priority_queue k)" by auto
  have "filed k' (pt(key_of (p_pid a) := None))" by (rule terminated_filed [OF i(4) f(2) [OF a] a t(1,2,8)]) (simp add: t(10))
  moreover have "ports_ok k' qt" "actions_ok k' it" "syscalls_ok (syscall_table k')" using i(5-7) t(3,7,9) by (simp_all add: ports_ok_def actions_ok_def)
  ultimately show ?thesis using t(4-6) by (rule_tac system_invI)
qed

end

section \<open>Steps\<close>

text \<open>\<open>program\<close> is any computation of processes, and what \<^verbatim>\<open>mmap\<close> and \<^verbatim>\<open>munmap\<close> do for them: memory changes, but the blocks
  in use on the kernel's heap stay in use. System calls need a running process. New processes are started only while there is
  room in the run queue, whose capacity is fixed, and an identifier left.\<close>

inductive kernel_step :: "'m platform \<Rightarrow> ('m \<Rightarrow> ptr set) \<Rightarrow> ptr \<Rightarrow> 'm kernel_t \<Rightarrow> 'm kernel_t \<Rightarrow> bool" for P live start where
  spawn: "kernel_spawn_process P start k pc pr space = Some (k', pid) \<Longrightarrow> card (dom (processes k)) < q_capacity (priority_queue k) \<Longrightarrow>
    next_pid k \<noteq> - 1 \<Longrightarrow> kernel_step P live start k k'"
| program: "live (mach k) \<subseteq> live m \<Longrightarrow> kernel_step P live start k (k\<lparr>mach := m\<rparr>)"
| enter: "save_registers k pc stack flags = Some k' \<Longrightarrow> kernel_step P live start k k'"
| preempt: "context_wf c \<Longrightarrow> kernel_store_active_context k c = Some (k', e) \<Longrightarrow> kernel_step P live start k k'"
| advance: "kernel_advance_scheduler P k = Some (k', ctx) \<Longrightarrow> kernel_step P live start k k'"
| open_port: "active_process k \<noteq> NULL \<Longrightarrow> open_port P k i = Some (k', e) \<Longrightarrow> kernel_step P live start k k'"
| close_port: "active_process k \<noteq> NULL \<Longrightarrow> close_port P k i = Some (k', e) \<Longrightarrow> kernel_step P live start k k'"
| send: "send P k recipient message flags = Some (k', e) \<Longrightarrow> kernel_step P live start k k'"
| receive: "active_process k \<noteq> NULL \<Longrightarrow> receive P k buffer flags = Some (k', r) \<Longrightarrow> kernel_step P live start k k'"
| exit: "active_process k \<noteq> NULL \<Longrightarrow> terminate_self P k = Some (k', e) \<Longrightarrow> kernel_step P live start k k'"
| register: "active_process k \<noteq> NULL \<Longrightarrow> kernel_register_interrupt_handler P junk k i handler userdata = Some (k', e) \<Longrightarrow>
    kernel_step P live start k k'"
| unregister: "kernel_remove_interrupt_handler P k i = Some (k', e) \<Longrightarrow> kernel_step P live start k k'"
| interrupt: "kernel_execute_interrupt_handler P k i = Some (k', e) \<Longrightarrow> kernel_step P live start k k'"
| install: "set_syscall k j arg_count pid func_ptr = Some (k', e) \<Longrightarrow> kernel_step P live start k k'"

inductive reachable :: "'m platform \<Rightarrow> ('m \<Rightarrow> ptr set) \<Rightarrow> ptr \<Rightarrow> 'm kernel_t \<Rightarrow> 'm kernel_t \<Rightarrow> bool" for P live start k0 where
  initial: "reachable P live start k0 k0"
| later: "reachable P live start k0 k \<Longrightarrow> kernel_step P live start k k' \<Longrightarrow> reachable P live start k0 k'"

context kernel_platform
begin

lemma program_inv:
  assumes "system_inv live k" "live (mach k) \<subseteq> live m"
  shows "system_inv live (k\<lparr>mach := m\<rparr>)"
  using assms(1)
proof (rule system_invE)
  fix ty pt qt it N
  assume i: "kernel_heap_inv live ty k pt qt it" "sched_inv k" "mail_inv k N" "filed k pt" "ports_ok k qt" "actions_ok k it" "syscalls_ok (syscall_table k)"
  have "processes_kept k (k\<lparr>mach := m\<rparr>)" by (simp add: processes_kept_def)
  from system_inv_kept [OF this i(2-4,7) heap_inv_mach [OF i(1) assms(2)]] i(5,6) show ?thesis by (simp add: ports_ok_def actions_ok_def)
qed

lemma step_inv:
  assumes "kernel_step P live start k k'" "system_inv live k"
  shows "system_inv live k'"
  using assms(1)
proof (cases rule: kernel_step.cases)
  case (open_port i e)
  then show ?thesis using create_port_inv [OF assms(2)] by (simp add: open_port_def)
next
  case (close_port i e)
  then show ?thesis using remove_port_inv [OF assms(2)] by (simp add: close_port_def)
next
  case (receive buffer flags r)
  then show ?thesis using receive_inv [OF assms(2)] by (simp add: receive_def)
next
  case spawn
  then show ?thesis by (rule spawn_inv [OF assms(2)])
next
  case program
  then show ?thesis using program_inv [OF assms(2)] by simp
next
  case enter
  then show ?thesis by (rule save_registers_inv [OF assms(2)])
next
  case preempt
  then show ?thesis by (rule store_context_inv [OF assms(2)])
next
  case advance
  then show ?thesis by (rule advance_inv [OF assms(2)])
next
  case send
  then show ?thesis by (rule send_inv [OF assms(2)])
next
  case exit
  then show ?thesis by (rule terminate_self_inv [OF assms(2)])
next
  case register
  then show ?thesis by (rule register_inv [OF assms(2)])
next
  case unregister
  then show ?thesis by (rule unregister_inv [OF assms(2)])
next
  case interrupt
  then show ?thesis by (rule execute_inv [OF assms(2)])
next
  case install
  then show ?thesis by (rule set_syscall_inv [OF assms(2)])
qed

lemma reachable_inv: "reachable P live start k0 k \<Longrightarrow> system_inv live k0 \<Longrightarrow> system_inv live k"
  by (induction rule: reachable.induct) (auto intro: step_inv)

lemma inv_consequences:
  assumes "system_inv live k"
  shows "processes k p = Some x \<Longrightarrow> tree_get k (process_table k) (p_pid x) = Some p"
    "\<exists>q. tree_get k (port_table k) i = Some q \<and> (q \<noteq> NULL \<longrightarrow> (\<exists>y. ports k q = Some y \<and> port_id y = i))"
    "entries (priority_queue k) = ready_entries k (ready k)"
    "processes k p = Some x \<Longrightarrow> q_count (p_message_queue x) > 0 \<Longrightarrow> \<exists>n. queue_nodes_of k (q_first (p_message_queue x)) = Some n \<and> (\<exists>m. messages k (qn_ptr n) = Some m)"
proof -
  from assms obtain ty pt qt it N where i: "kernel_heap_inv live ty k pt qt it" "sched_inv k" "mail_inv k N" "filed k pt" "ports_ok k qt"
    by (rule system_invE)
  then have tab: "tables (live (mach k)) ty k pt qt it" by (simp add: kernel_heap_inv_def)
  show "processes k p = Some x \<Longrightarrow> tree_get k (process_table k) (p_pid x) = Some p"
    using tables_get(1) [OF tab] filedD(2) [OF i(4)] by simp
  show "\<exists>q. tree_get k (port_table k) i = Some q \<and> (q \<noteq> NULL \<longrightarrow> (\<exists>y. ports k q = Some y \<and> port_id y = i))"
  proof (cases "qt (key_of i)")
    case None
    then show ?thesis using tables_get(2) [OF tab, of i] by simp
  next
    case (Some q)
    then have "\<exists>y. ports k q = Some y \<and> key_of (port_id y) = key_of i" using i(5) unfolding ports_ok_def by blast
    then show ?thesis using tables_get(2) [OF tab, of i] Some by simp
  qed
  show "entries (priority_queue k) = ready_entries k (ready k)" using i(2) by (simp add: sched_inv_def)
  assume x: "processes k p = Some x" and c: "q_count (p_message_queue x) > 0"
  note q = mail_queue [OF i(3) x]
  then have n: "N p \<noteq> []" using c by (auto simp: queue_nodes_def)
  note conjunct1 [OF conjunct2 [OF conjunct2 [OF i(3) [unfolded mail_inv_def]]]]
  from spec [OF this, of p] have "\<forall>m \<in> snd ` set (N p). \<exists>x. messages k m = Some x" by metis
  moreover obtain e es where e: "N p = e # es" using n by (meson list.exhaust)
  moreover have "links (queue_nodes_of k) (q_first (p_message_queue x)) (e # es)" using q e by (simp add: queue_nodes_def)
  ultimately show "\<exists>n. queue_nodes_of k (q_first (p_message_queue x)) = Some n \<and> (\<exists>m. messages k (qn_ptr n) = Some m)"
    by (cases e) (auto split: option.splits)
qed

end

section \<open>Properties\<close>

text \<open>C1. The invariants of all components hold in every state that the kernel reaches from one in which they hold, whatever the order
  of its operations. So in such a state every process is found in the table under its identifier and every port that is found has the identifier
  looked up; the run queue holds exactly the runnable processes other than the running one; and a mailbox that
  counts messages leads to one.\<close>

theorem kernel_reachable_inv:
  assumes "kernel_platform P live" "system_inv live k0" "reachable P live start k0 k"
  shows "system_inv live k \<and>
    (\<forall>p x. processes k p = Some x \<longrightarrow> tree_get k (process_table k) (p_pid x) = Some p) \<and>
    (\<forall>i. \<exists>q. tree_get k (port_table k) i = Some q \<and> (q \<noteq> NULL \<longrightarrow> (\<exists>y. ports k q = Some y \<and> port_id y = i))) \<and>
    entries (priority_queue k) = ready_entries k (ready k) \<and>
    (\<forall>p x. processes k p = Some x \<longrightarrow> q_count (p_message_queue x) > 0 \<longrightarrow>
      (\<exists>n. queue_nodes_of k (q_first (p_message_queue x)) = Some n \<and> (\<exists>m. messages k (qn_ptr n) = Some m)))"
proof -
  note inv = kernel_platform.reachable_inv [OF assms(1,3,2)]
  show ?thesis using inv kernel_platform.inv_consequences [OF assms(1) inv] by simp
qed

text \<open>The kernel before its first process.\<close>

definition idle_kernel :: "flat kernel_t" where
  "idle_kernel = one_process\<lparr>mach := flat_init, processes := Map.empty, contexts := Map.empty, syscall_table := replicate MAX_SYSCALL_ID empty_syscall,
     active_process := NULL, next_pid := 1\<rparr>"

lemma idle_kernel_inv: "system_inv (\<lambda>m. {p. p < f_brk m}) idle_kernel"
proof (rule system_invI)
  show "kernel_heap_inv (\<lambda>m. {p. p < f_brk m}) (\<lambda>p. KNode) idle_kernel Map.empty Map.empty Map.empty"
    by (simp add: idle_kernel_def one_process_def kernel_heap_inv_def objects_def typed_def tables_def forest_empty)
  have r: "ready idle_kernel = {}" by (simp add: ready_def runnable_def idle_kernel_def)
  have "entries (priority_queue idle_kernel) = {#}" "pq_good (priority_queue idle_kernel)"
    by (simp_all add: idle_kernel_def one_process_def pq_eval entries_def contents_def)
  then show "sched_inv idle_kernel" using r by (simp add: sched_inv_def ready_entries_def idle_kernel_def)
  show "mail_inv idle_kernel (\<lambda>_. [])" by (simp add: mail_inv_def idle_kernel_def)
  show "filed idle_kernel Map.empty" by (simp add: filed_def procs_ok_def idle_kernel_def)
  show "ports_ok idle_kernel Map.empty" "actions_ok idle_kernel Map.empty" by (simp_all add: ports_ok_def actions_ok_def)
  show "syscalls_ok (syscall_table idle_kernel)" by (simp add: syscalls_ok_def idle_kernel_def empty_syscall_def)
qed

text \<open>Witness: a first process is started.\<close>

theorem kernel_reachable_inv_witness:
  "\<exists>k'. kernel_spawn_process flat_platform 0xC0000000 idle_kernel 0x400000 1 0x2000 = Some (k', 1) \<and> system_inv (\<lambda>m. {p. p < f_brk m}) k' \<and>
     (\<forall>p x. processes k' p = Some x \<longrightarrow> tree_get k' (process_table k') (p_pid x) = Some p)"
proof -
  obtain k' where r: "kernel_spawn_process flat_platform 0xC0000000 idle_kernel 0x400000 1 0x2000 = Some (k', 1)"
    by (simp add: kernel_spawn_process_def idle_kernel_def one_process_def kmalloc_k_def tree_insert_def flat_defs Let_def
        avl_insert.simps avl_new_def enqueue_def priorityqueue_insert_def shift_parents.simps queue_of_def)
  have "kernel_step flat_platform (\<lambda>m. {p. p < f_brk m}) 0xC0000000 idle_kernel k'"
    by (rule kernel_step.spawn [OF r]) (simp_all add: idle_kernel_def one_process_def queue_of_def)
  from kernel_reachable_inv [OF flat.kernel_platform_axioms idle_kernel_inv reachable.later [OF reachable.initial this]] r show ?thesis by blast
qed

end
