(* ===== verification/Boot.thy ===== *)
theory Boot
  imports Load_Module Exceptions Descriptors Kernel_Steps
begin

text \<open>
  Starting the kernel: \<^verbatim>\<open>kernel_initialize\<close> of \<^verbatim>\<open>src/kernel.c\<close> and the C entry \<^verbatim>\<open>x86_startup\<close> of \<^verbatim>\<open>src/x86/quark_x86.c\<close>, from the screen and
  the descriptor tables to the first process. As in \<^verbatim>\<open>kernel_load_module\<close>, a panic is its message.
\<close>

section \<open>Data\<close>

text \<open>What the code finds and does not define: the functions of libmalloc, the configured name of the package, the numbers of
  libmalloc's region types, the addresses of the linker script and of the functions that system calls enter, the contents
  of the block that becomes the run queue, the addresses of the buffers on the stack, and the memory maps without regions that
  \<^verbatim>\<open>kminit\<close> and \<^verbatim>\<open>x86_startup\<close> set up.\<close>

datatype syscall_id_t = SYSCALL_TEST | SYSCALL_MMAP | SYSCALL_MUNMAP | SYSCALL_YIELD | SYSCALL_EXIT | SYSCALL_SEND | SYSCALL_RECEIVE
  | SYSCALL_OPEN_PORT | SYSCALL_CLOSE_PORT

fun syscall_code :: "syscall_id_t \<Rightarrow> int" where
  "syscall_code SYSCALL_TEST = 1"
| "syscall_code SYSCALL_MMAP = 2"
| "syscall_code SYSCALL_MUNMAP = 3"
| "syscall_code SYSCALL_YIELD = 4"
| "syscall_code SYSCALL_EXIT = 5"
| "syscall_code SYSCALL_SEND = 6"
| "syscall_code SYSCALL_RECEIVE = 7"
| "syscall_code SYSCALL_OPEN_PORT = 8"
| "syscall_code SYSCALL_CLOSE_PORT = 9"

record link_symbols =
  kernel_pstart :: u32
  kernel_pend :: u32
  kernel_start :: u32
  kernel_tend :: u32
  kernel_end :: u32

record ('h, 'map) boot_env =
  e_malloc :: "'h libmalloc"
  e_memmap :: "'map memmap"
  e_initialize_heap :: "('h, 'map) heap_init"
  e_empty_map :: 'map
  e_boot_map :: 'map
  e_package :: "u8 list"
  e_region_code :: "region_type \<Rightarrow> u32"
  e_symbols :: link_symbols
  e_screen :: ptr
  e_apic_registers :: ptr
  e_function :: "syscall_id_t \<Rightarrow> ptr"
  e_queue_cells :: "priority_queue_node_t list"
  e_bootloader_name :: ptr
  e_kernel_parameters :: ptr
  e_boot_modules :: ptr

section \<open>The code\<close>

text \<open>\<^verbatim>\<open>panic\<close> prints its message, turns interrupts off and halts.\<close>

definition panic :: "console_t \<Rightarrow> 'h board \<Rightarrow> string \<Rightarrow> (console_t \<times> 'h board \<times> hlt_end) option" where
  "panic con b message = do {
     con \<leftarrow> printf con (ascii ''panic: %s'' @ [0]) [Text (ascii message @ [0])];
     let b = irq_disable b;
     Some (con, b, hlt b) }"

text \<open>What is printed first: the memory and the regions of its map, up to the first one of size 0.\<close>

fun print_regions :: "(region_type \<Rightarrow> u32) \<Rightarrow> console_t \<Rightarrow> region_t list \<Rightarrow> console_t option" where
  "print_regions code con [] = Some con"
| "print_regions code con (r # rs) =
     (if r_size r > 0 then do {
        con \<leftarrow> printf con (ascii ''%i'' @ [9, 9, 9] @ ascii ''%08x'' @ [9, 9] @ ascii ''%u'' @ [10, 0]) [Word (code (r_type r)), Word (r_location r), Word (r_size r)];
        print_regions code con rs }
      else Some con)"

definition print_boot_info :: "('h, 'map) boot_env \<Rightarrow> 'map boot_info_t \<Rightarrow> console_t \<Rightarrow> console_t option" where
  "print_boot_info E bi con = do {
     con \<leftarrow> printf con (ascii ''***%s***'' @ [10, 0]) [Text (e_package E)];
     con \<leftarrow> printf con (ascii ''Total memory: %08x'' @ [10, 0]) [Word (memory_size bi)];
     con \<leftarrow> printf con (ascii ''kernel: %08x ... %08x'' @ [10, 0]) [Word (kernel_pstart (e_symbols E)), Word (kernel_pend (e_symbols E))];
     con \<leftarrow> printf con (ascii ''Type'' @ [9, 9] @ ascii ''Location'' @ [9, 9] @ ascii ''Size'' @ [10, 0]) [];
     print_regions (e_region_code E) con (region_array (e_memmap E) (memory_map bi)) }"

text \<open>The pages of the program text become read-only.\<close>

partial_function (option) protect_text :: "mmu \<Rightarrow> ptr \<Rightarrow> ptr \<Rightarrow> mmu option" where
  "protect_text m p text_end =
     (if p < text_end then do {
        (m, _) \<leftarrow> set_pte_type m p (page_table_levels - 1) PAGE_PRESENT;
        protect_text m (p + page_size) text_end }
      else Some m)"

text \<open>The kernel's tables. The results of \<^verbatim>\<open>set_syscall\<close> are ignored.\<close>

fun set_syscalls :: "'m kernel_t \<Rightarrow> (int \<times> int \<times> ptr) list \<Rightarrow> 'm kernel_t option" where
  "set_syscalls k [] = Some k"
| "set_syscalls k ((i, arg_count, func_ptr) # calls) = do {
     (k, _) \<leftarrow> set_syscall k i arg_count 0 func_ptr;
     set_syscalls k calls }"

definition initialize_tables :: "('h, 'map) boot_env \<Rightarrow> 'h machine kernel_t \<Rightarrow> (string + 'h machine kernel_t) option" where
  "initialize_tables E k = do {
     let k = k\<lparr>active_process := NULL\<rparr>;
     let k = k\<lparr>next_pid := 1\<rparr>;
     let k = k\<lparr>process_table := NULL\<rparr>;
     let k = k\<lparr>port_table := NULL\<rparr>;
     (s, queue, status) \<leftarrow> construct_priority_queue (heap_of (quark_platform (e_malloc E))) (mach k) (e_queue_cells E) 512;
     let k = k\<lparr>mach := s\<rparr>;
     case queue of
       None \<Rightarrow> Some (Inl ''Failed to construct priority queue.'')
     | Some queue \<Rightarrow>
         if status \<noteq> ENONE then Some (Inl ''Failed to construct priority queue.'')
         else do {
           let k = k\<lparr>priority_queue := queue\<rparr>;
           let k = k\<lparr>syscall_table := replicate MAX_SYSCALL_ID empty_syscall\<rparr>;
           k \<leftarrow> set_syscalls k (map (\<lambda>(call, arg_count). (syscall_code call, arg_count, e_function E call))
             [(SYSCALL_TEST, 1), (SYSCALL_MMAP, 3), (SYSCALL_MUNMAP, 2), (SYSCALL_SEND, 3), (SYSCALL_RECEIVE, 2),
              (SYSCALL_OPEN_PORT, 1), (SYSCALL_CLOSE_PORT, 1)]);
           Some (Inr k) } }"

text \<open>The loop over the modules counts up from \<open>i\<close>; \<open>left\<close> are still to come.\<close>

fun load_modules :: "'h libmalloc \<Rightarrow> ptr \<Rightarrow> 'h machine kernel_t \<Rightarrow> module_t list \<Rightarrow> nat \<Rightarrow> nat \<Rightarrow> (string + 'h machine kernel_t) option" where
  "load_modules L start k ms i 0 = Some (Inr k)"
| "load_modules L start k ms i (Suc left) = do {
     x \<leftarrow> arr_get ms i;
     r \<leftarrow> kernel_load_module L start k x;
     case r of
       Inl message \<Rightarrow> Some (Inl message)
     | Inr (k, status) \<Rightarrow>
         if status \<noteq> error_code ENONE then Some (Inl ''Failed to load modules.'')
         else load_modules L start k ms (i + 1) left }"

text \<open>The board's view of the machine is brought up to date before interrupts are set up, and the kernel's after. The last result is the
  context that \<^verbatim>\<open>load_context\<close> enters.\<close>

definition start_processes :: "('h, 'map) boot_env \<Rightarrow> 'h machine kernel_t \<Rightarrow> 'h board \<Rightarrow> (string + 'h machine kernel_t \<times> 'h board \<times> ptr) option" where
  "start_processes E k b = do {
     (b, status) \<leftarrow> initialize_interrupts (e_malloc E) (e_apic_registers E) (b\<lparr>core := mach k\<rparr>);
     if status \<noteq> error_code ENONE then Some (Inl ''Failed to initialize interrupts.'')
     else do {
       let b = irq_enable b;
       (k, context) \<leftarrow> kernel_advance_scheduler (quark_platform (e_malloc E)) (k\<lparr>mach := core b\<rparr>);
       Some (Inr (k, b\<lparr>core := mach k\<rparr>, context)) } }"

definition kernel_initialize ::
  "('h, 'map) boot_env \<Rightarrow> 'map boot_info_t \<Rightarrow> 'h machine kernel_t \<Rightarrow> 'h board \<Rightarrow> console_t \<Rightarrow> uart \<Rightarrow>
   (console_t \<times> uart \<times> (string + 'h machine kernel_t \<times> 'h board \<times> ptr)) option" where
  "kernel_initialize E bi k b con u =
     (let L = e_malloc E; sym = e_symbols E; M = e_memmap E in do {
        (s, u, status) \<leftarrow> initialize_screen L (e_screen E) (mach k) u;
        if status \<noteq> error_code ENONE \<and> hlt b = Stops then None
        else do {
          con \<leftarrow> print_boot_info E bi con;
          m \<leftarrow> protect_text (mm s) (kernel_start sym) (kernel_tend sym);
          let s = s\<lparr>mm := m\<rparr>;
          let regions = insert_region M (memory_map bi) (kernel_pstart sym) (kernel_pend sym - kernel_pstart sym) M_UNAVAILABLE;
          (s, regions, status) \<leftarrow> initialize_page_map M (e_initialize_heap E) regions s (kernel_end sym) page_size;
          if status \<noteq> ENONE then Some (con, u, Inl ''Failed to initialize page allocator.'')
          else do {
            (s, status) \<leftarrow> kminit L (insert_region M) (e_initialize_heap E) (e_empty_map E) s (kernel_start sym) (page_map_end L s)
              (0xFFC00000 - kernel_start sym) 64;
            if status \<noteq> 0 then Some (con, u, Inl ''Failed to initialize heap.'')
            else do {
              r \<leftarrow> initialize_tables E (k\<lparr>mach := s\<rparr>);
              case r of Inl message \<Rightarrow> Some (con, u, Inl message) | Inr k \<Rightarrow> do {
                r \<leftarrow> load_modules L (kernel_start sym) k (modules bi) 0 (unat (module_count bi));
                case r of Inl message \<Rightarrow> Some (con, u, Inl message) | Inr k \<Rightarrow> do {
                  r \<leftarrow> start_processes E k b;
                  Some (con, u, r) } } } } } })"

text \<open>The pages behind the kernel that the entry code mapped are unmapped up to the end of the multiboot table.\<close>

partial_function (option) unmap_behind :: "'h machine \<Rightarrow> ptr \<Rightarrow> ptr \<Rightarrow> 'h machine option" where
  "unmap_behind s p multiboot_end =
     (if p < multiboot_end then do {
        (s, _) \<leftarrow> unmap_page s p;
        unmap_behind s (p + page_size) multiboot_end }
      else Some s)"

text \<open>The multiboot table is read through the page tables. The strings in it are copied to buffers on the stack, which nothing reads
  again: \<open>buffers\<close> is the byte memory with them. \<^verbatim>\<open>struct module_t\<close> has 64 bytes, its string begins at the ninth.\<close>

definition empty_boot_info :: "('h, 'map) boot_env \<Rightarrow> 'map boot_info_t" where
  "empty_boot_info E = \<lparr>bootloader = e_bootloader_name E, parameters = e_kernel_parameters E, memory_size = 0, memory_map = e_boot_map E,
     module_count = 0, modules = map (\<lambda>i. \<lparr>m_start = 0, m_end = 0, m_str = e_boot_modules E + 64 * of_nat i + 8\<rparr>) [0..<unat module_limit]\<rparr>"

definition x86_startup ::
  "('h, 'map) boot_env \<Rightarrow> linkage \<Rightarrow> tables \<Rightarrow> 'h machine kernel_t \<Rightarrow> 'h board \<Rightarrow> console_t \<Rightarrow> uart \<Rightarrow> ptr \<Rightarrow>
   (tables \<times> mem \<times> console_t \<times> uart \<times> (string + 'h machine kernel_t \<times> 'h board \<times> ptr)) option" where
  "x86_startup E l t k b con u multiboot_info =
     (let t = initialize_gdt l t;
          t = initialize_idt l t
      in do {
        (bi, buffers, multiboot_end) \<leftarrow> read_multiboot_table (e_memmap E) (empty_boot_info E) (load8 (mm (mach k))) multiboot_info;
        s \<leftarrow> unmap_behind (mach k) (kernel_end (e_symbols E)) multiboot_end;
        (con, u, r) \<leftarrow> kernel_initialize E bi (k\<lparr>mach := s\<rparr>) b con u;
        Some (t, buffers, con, u, r) })"

section \<open>The tables of the kernel\<close>

text \<open>Entering functions of the kernel one after the other.\<close>

lemma set_syscall_new:
  assumes "length (syscall_table k) = MAX_SYSCALL_ID" "0 \<le> i" "i < 256" "\<not> sys_defined (syscall_table k ! nat i)" "0 \<le> n" "n \<le> 3" "f \<noteq> NULL"
  shows "set_syscall k i n 0 f = Some (k\<lparr>syscall_table := (syscall_table k)[nat i :=
    \<lparr>sys_defined = True, sys_arg_count = n, sys_process_id = 0, sys_func_ptr = f\<rparr>]\<rparr>, ENONE)"
  using assms by (simp add: set_syscall_def MAX_SYSCALL_ID_def)

lemma set_syscalls_new:
  assumes "length (syscall_table k) = MAX_SYSCALL_ID" "distinct (map fst calls)"
    and "\<forall>(i, n, f)\<in>set calls. 0 \<le> i \<and> i < 256 \<and> 0 \<le> n \<and> n \<le> 3 \<and> f \<noteq> NULL \<and> \<not> sys_defined (syscall_table k ! nat i)"
  shows "\<exists>t. set_syscalls k calls = Some (k\<lparr>syscall_table := t\<rparr>) \<and> length t = MAX_SYSCALL_ID \<and>
    (\<forall>(i, n, f)\<in>set calls. t ! nat i = \<lparr>sys_defined = True, sys_arg_count = n, sys_process_id = 0, sys_func_ptr = f\<rparr>) \<and>
    (\<forall>j. int j \<notin> fst ` set calls \<longrightarrow> t ! j = syscall_table k ! j)"
  using assms
proof (induction calls arbitrary: k)
  case Nil
  then show ?case by (intro exI [of _ "syscall_table k"]) simp
next
  case (Cons c calls)
  obtain i n f where c: "c = (i, n, f)" by (cases c)
  let ?s = "\<lparr>sys_defined = True, sys_arg_count = n, sys_process_id = 0, sys_func_ptr = f\<rparr>"
  let ?k = "k\<lparr>syscall_table := (syscall_table k)[nat i := ?s]\<rparr>"
  have i: "0 \<le> i" "i < 256" "0 \<le> n" "n \<le> 3" "f \<noteq> NULL" "\<not> sys_defined (syscall_table k ! nat i)" using Cons.prems(3) c by auto
  have other: "syscall_table ?k ! nat j = syscall_table k ! nat j" if "(j, m, g) \<in> set calls" for j m g
  proof -
    have "j \<noteq> i" using that Cons.prems(2) c by force
    moreover have "0 \<le> j" using that Cons.prems(3) by auto
    ultimately have "nat j \<noteq> nat i" using i(1) by simp
    then show ?thesis by simp
  qed
  have "\<forall>(j, m, g)\<in>set calls. 0 \<le> j \<and> j < 256 \<and> 0 \<le> m \<and> m \<le> 3 \<and> g \<noteq> NULL \<and> \<not> sys_defined (syscall_table ?k ! nat j)"
  proof clarify
    fix j m g
    assume j: "(j, m, g) \<in> set calls"
    then show "0 \<le> j \<and> j < 256 \<and> 0 \<le> m \<and> m \<le> 3 \<and> g \<noteq> NULL \<and> \<not> sys_defined (syscall_table ?k ! nat j)"
      using Cons.prems(3) unfolding other [OF j] by auto
  qed
  from Cons.IH [OF _ _ this] Cons.prems(1,2) c obtain t where t: "set_syscalls ?k calls = Some (?k\<lparr>syscall_table := t\<rparr>)" "length t = MAX_SYSCALL_ID"
    "\<forall>(i, n, f)\<in>set calls. t ! nat i = \<lparr>sys_defined = True, sys_arg_count = n, sys_process_id = 0, sys_func_ptr = f\<rparr>"
    "\<forall>j. int j \<notin> fst ` set calls \<longrightarrow> t ! j = syscall_table ?k ! j" by auto
  have "set_syscalls k (c # calls) = Some (k\<lparr>syscall_table := t\<rparr>)"
    using t(1) set_syscall_new [OF Cons.prems(1) i(1,2,6,3-5)] by (simp add: c)
  moreover have "t ! nat i = ?s"
  proof -
    have "i \<notin> fst ` set calls" using Cons.prems(2) c by simp
    then show ?thesis using t(4) i(1,2) Cons.prems(1) by (auto simp: MAX_SYSCALL_ID_def dest: spec [of _ "nat i"])
  qed
  moreover have "t ! j = syscall_table k ! j" if "int j \<notin> fst ` set (c # calls)" for j
  proof -
    have "nat i \<noteq> j" using that c i(1) by auto
    then show ?thesis using t(4) that by simp
  qed
  ultimately show ?case using t(2,3) c by auto
qed

lemma tables_built:
  assumes mem: "kmalloc (e_malloc E) (mach k) 4096 = Some (s, p)" "p \<noteq> NULL"
    and cells: "length (e_queue_cells E) = 512" and entered: "\<forall>call. e_function E call \<noteq> NULL"
    and stores: "processes k = Map.empty" "contexts k = Map.empty" "queue_nodes_of k = Map.empty" "messages k = Map.empty" "ports k = Map.empty"
      "actions k = Map.empty" "interrupt_handlers k = NULL"
  shows "\<exists>k'. initialize_tables E k = Some (Inr k') \<and> system_inv live k' \<and> mach k' = s \<and> processes k' = Map.empty \<and> active_process k' = NULL \<and>
    next_pid k' = 1 \<and> q_capacity (priority_queue k') = 512 \<and>
    (\<forall>(call, n)\<in>{(SYSCALL_TEST, 1), (SYSCALL_MMAP, 3), (SYSCALL_MUNMAP, 2), (SYSCALL_SEND, 3), (SYSCALL_RECEIVE, 2), (SYSCALL_OPEN_PORT, 1), (SYSCALL_CLOSE_PORT, 1)}.
      syscall_table k' ! nat (syscall_code call) = \<lparr>sys_defined = True, sys_arg_count = n, sys_process_id = 0, sys_func_ptr = e_function E call\<rparr>) \<and>
    (\<forall>j < 256. sys_defined (syscall_table k' ! j) \<longrightarrow> j \<in> {1, 2, 3, 6, 7, 8, 9})"
proof -
  let ?calls = "map (\<lambda>(call, arg_count :: int). (syscall_code call, arg_count, e_function E call))
     [(SYSCALL_TEST, 1), (SYSCALL_MMAP, 3), (SYSCALL_MUNMAP, 2), (SYSCALL_SEND, 3), (SYSCALL_RECEIVE, 2), (SYSCALL_OPEN_PORT, 1), (SYSCALL_CLOSE_PORT, 1)]"
  let ?q = "\<lparr>q_heap = e_queue_cells E, q_size = 0, q_capacity = 512\<rparr>"
  let ?k0 = "k\<lparr>active_process := NULL, next_pid := 1, process_table := NULL, port_table := NULL\<rparr>"
  let ?k = "?k0\<lparr>mach := s, priority_queue := ?q, syscall_table := replicate MAX_SYSCALL_ID empty_syscall\<rparr>"
  have len: "length (syscall_table ?k) = MAX_SYSCALL_ID" by simp
  have new: "\<forall>(i, n, f)\<in>set ?calls. 0 \<le> i \<and> i < 256 \<and> 0 \<le> n \<and> n \<le> 3 \<and> f \<noteq> NULL \<and> \<not> sys_defined (syscall_table ?k ! nat i)"
    using entered by (auto simp: empty_syscall_def MAX_SYSCALL_ID_def)
  have "distinct (map fst ?calls)" by simp
  from set_syscalls_new [OF len this new] obtain t where t: "set_syscalls ?k ?calls = Some (?k\<lparr>syscall_table := t\<rparr>)" "length t = MAX_SYSCALL_ID"
    "\<forall>(i, n, f)\<in>set ?calls. t ! nat i = \<lparr>sys_defined = True, sys_arg_count = n, sys_process_id = 0, sys_func_ptr = f\<rparr>"
    "\<forall>j. int j \<notin> fst ` set ?calls \<longrightarrow> t ! j = syscall_table ?k ! j" by (elim exE conjE)
  let ?k' = "?k\<lparr>syscall_table := t\<rparr>"
  have run: "initialize_tables E k = Some (Inr ?k')"
    using mem t(1) by (simp add: initialize_tables_def construct_priority_queue_def quark_platform_def Let_def del: set_syscalls.simps)
  have others: "\<not> sys_defined (t ! j)" if "j < 256" "j \<notin> {1, 2, 3, 6, 7, 8, 9}" for j
  proof -
    have "int j \<notin> fst ` set ?calls" using that(2) by auto
    then show ?thesis using t(4) that(1) by (simp add: empty_syscall_def MAX_SYSCALL_ID_def)
  qed
  have entry: "sys_defined x \<longrightarrow> 0 \<le> sys_arg_count x \<and> sys_arg_count x \<le> 3 \<and> sys_func_ptr x \<noteq> NULL" if "x \<in> set t" for x
  proof
    obtain j where j: "j < 256" "x = t ! j" using \<open>x \<in> set t\<close> t(2) by (auto simp: in_set_conv_nth MAX_SYSCALL_ID_def)
    assume "sys_defined x"
    then have "j \<in> {1, 2, 3, 6, 7, 8, 9}" using others j by blast
    then show "0 \<le> sys_arg_count x \<and> sys_arg_count x \<le> 3 \<and> sys_func_ptr x \<noteq> NULL" using t(3) entered unfolding j(2) by auto
  qed
  then have kept_calls: "syscalls_ok t" using t(2) by (simp add: syscalls_ok_def)
  have "system_inv live ?k'"
  proof (rule system_invI)
    show "kernel_heap_inv live (\<lambda>p. KNode) ?k' Map.empty Map.empty Map.empty"
      using stores by (simp add: kernel_heap_inv_def objects_def typed_def tables_def forest_empty)
    have "ready ?k' = {}" using stores(1) by (simp add: ready_def runnable_def)
    moreover have "pq_good ?q" "entries ?q = {#}" using cells by (simp_all add: pq_eval entries_def contents_def)
    ultimately show "sched_inv ?k'" by (simp add: sched_inv_def ready_entries_def)
    show "mail_inv ?k' (\<lambda>_. [])" using stores(1) by (simp add: mail_inv_def)
    show "filed ?k' Map.empty" using stores(1) by (simp add: filed_def procs_ok_def)
    show "ports_ok ?k' Map.empty" "actions_ok ?k' Map.empty" by (simp_all add: ports_ok_def actions_ok_def)
    show "syscalls_ok (syscall_table ?k')" using kept_calls by simp
  qed
  then show ?thesis using run t(3) others stores(1) by (intro exI [of _ ?k']) auto
qed

text \<open>C18. \<^verbatim>\<open>kernel_initialize\<close> builds its tables, in a well-formed address space and with an empty object store, or panics because there is no memory for
  the run queue. Afterwards the invariant of the kernel holds, so that it holds in every state reached from there:
  there is no process, identifiers start at 1, the run queue has room for 512 processes, and exactly
  seven functions can be called by processes, under their numbers and with their numbers of arguments; \<^verbatim>\<open>SYSCALL_YIELD\<close> and
  \<^verbatim>\<open>SYSCALL_EXIT\<close> are not among them.\<close>

theorem initialize_tables_spec:
  assumes "libmalloc (e_malloc E) used block_size" "frames_ok used block_size (mach k)" "length (e_queue_cells E) = 512"
    and "\<forall>h a n. reserve_region (e_malloc E) (system_heap (mach k)) 4096 = (h, a) \<and> a \<noteq> nomem (e_malloc E) \<and> n < 4096 \<longrightarrow> dir_of (a + n) \<noteq> - 1"
    and "\<forall>call. e_function E call \<noteq> NULL"
    and "processes k = Map.empty" "contexts k = Map.empty" "queue_nodes_of k = Map.empty" "messages k = Map.empty" "ports k = Map.empty"
      "actions k = Map.empty" "interrupt_handlers k = NULL"
  shows "initialize_tables E k = Some (Inl ''Failed to construct priority queue.'') \<and> (\<exists>s. kmalloc (e_malloc E) (mach k) 4096 = Some (s, NULL)) \<or>
    (\<exists>k'. initialize_tables E k = Some (Inr k') \<and> system_inv (\<lambda>s. used (system_heap s)) k' \<and> frames_ok used block_size (mach k') \<and>
      processes k' = Map.empty \<and> active_process k' = NULL \<and> next_pid k' = 1 \<and> q_capacity (priority_queue k') = 512 \<and>
      (\<forall>(call, n)\<in>{(SYSCALL_TEST, 1), (SYSCALL_MMAP, 3), (SYSCALL_MUNMAP, 2), (SYSCALL_SEND, 3), (SYSCALL_RECEIVE, 2), (SYSCALL_OPEN_PORT, 1), (SYSCALL_CLOSE_PORT, 1)}.
        syscall_table k' ! nat (syscall_code call) = \<lparr>sys_defined = True, sys_arg_count = n, sys_process_id = 0, sys_func_ptr = e_function E call\<rparr>) \<and>
      (\<forall>j < 256. sys_defined (syscall_table k' ! j) \<longrightarrow> j \<in> {1, 2, 3, 6, 7, 8, 9}))"
proof -
  have sz: "unat (4096 :: u32) \<le> 0xFFFFF000" "(8 * of_nat 512 :: u32) = 4096" by simp_all
  from kmalloc_returns [OF assms(1,2) sz(1)] assms(4) obtain s p where s: "kmalloc (e_malloc E) (mach k) 4096 = Some (s, p)" "frames_ok used block_size s" by blast
  show ?thesis
  proof (cases "p = NULL")
    case True
    then show ?thesis using s(1) by (simp add: initialize_tables_def construct_priority_queue_def quark_platform_def Let_def)
  next
    case False
    from tables_built [OF s(1) False assms(3,5-12)] s(2) show ?thesis by blast
  qed
qed

section \<open>The program text\<close>

text \<open>The entry of a page of the program text after the loop.\<close>

definition protected :: "page_table_entry_t \<Rightarrow> page_table_entry_t" where
  "protected e = put_bit 2 False (put_bit 1 False (put_bit 0 True e))"

lemma protected_fields [simp]:
  "present (protected e)" "\<not> rw (protected e)" "\<not> usermode (protected e)" "physical_address (protected e) = physical_address e"
  by (simp_all add: protected_def)

lemma set_pte_type_protects:
  assumes "space_ok m" "dir_of p \<noteq> - 1" "leaf m p = Some e"
  shows "set_pte_type m p (page_table_levels - 1) PAGE_PRESENT = Some (set_pte_entry m p (protected (pte m p)), True)"
proof -
  have pr: "present (pde m p)" using assms(3) by (auto simp: leaf_def split: if_splits)
  note ok = space_okD(1) [OF assms(1)] space_okD(2) [OF assms(1,2) pr] pr
  have "PAGE_PRESENT AND PAGE_PRESENT \<noteq> 0" "PAGE_PRESENT AND PAGE_RW = 0" "PAGE_PRESENT AND PAGE_USERMODE = 0" by simp_all
  then show ?thesis using ok
    by (simp add: set_pte_type_def get_pte_pointer_window window_not_null window_update protected_def)
qed

lemma protect_text_protects:
  assumes "space_ok m" "d mod page_size = 0" "n mod page_size = 0" "unat d + unat sz \<le> 0xFFFFF000" "unat n < unat sz + 4096"
    and "\<forall>k. n \<le> k \<longrightarrow> k < sz \<longrightarrow> dir_of (d + k) \<noteq> - 1 \<and> leaf m (d + k) \<noteq> None"
  shows "\<exists>m'. protect_text m (d + n) (d + sz) = Some m' \<and> space_ok m' \<and>
    (\<forall>q. dir_of q \<noteq> - 1 \<longrightarrow> leaf m' q = (if q \<in> pages_from d sz n then map_option protected (leaf m q) else leaf m q))"
  using assms(1,3,5,6)
proof (induction "unat sz + 4096 - unat n" arbitrary: m n rule: less_induct)
  case less
  note ok = less.prems(1) and al = less.prems(2) and lim = less.prems(3) and map = less.prems(4)
  have c: "(d + n < d + sz) = (n < sz)" by (rule below_end [OF assms(4) lim])
  have szl: "unat sz \<le> 0xFFFFF000" using assms(4) by simp
  show ?case
  proof (cases "n < sz")
    case False
    then have "pages_from d sz n = {}" by (auto simp: pages_from_def)
    moreover have "protect_text m (d + n) (d + sz) = Some m" using c False by (simp add: protect_text.simps)
    ultimately show ?thesis using ok by simp
  next
    case True
    note nx = next_page [OF True szl]
    note fp = first_page [OF assms(2) al True szl]
    have d: "dir_of (d + n) \<noteq> - 1" "leaf m (d + n) \<noteq> None" using map True by auto
    then obtain e where e: "leaf m (d + n) = Some e" by blast
    have pr: "present (pde m (d + n))" "pte m (d + n) = e" using e by (auto simp: leaf_def split: if_splits)
    let ?m = "set_pte_entry m (d + n) (protected e)"
    note se = set_entry_space [OF ok d(1) pr(1), where e = "protected e"]
    have lf: "leaf ?m q = (if on_page (d + n) q then Some (protected e) else leaf m q)" if "dir_of q \<noteq> - 1" for q
      using se(4) [OF that] by (auto simp: on_page_def)
    have run: "protect_text m (d + n) (d + sz) = protect_text ?m (d + (n + page_size)) (d + sz)"
      using c True set_pte_type_protects [OF ok d(1) e] pr(2) by (subst protect_text.simps) (simp add: add.assoc)
    have lt: "unat sz + 4096 - unat (n + page_size) < unat sz + 4096 - unat n" "unat (n + page_size) < unat sz + 4096"
      using nx lim True by (auto simp: word_less_nat_alt)
    have al2: "(n + page_size) mod page_size = 0" by (rule aligned_add [OF al]) simp
    have le: "n \<le> n + page_size" using nx by (simp add: word_le_nat_alt)
    have "\<forall>k. n + page_size \<le> k \<longrightarrow> k < sz \<longrightarrow> dir_of (d + k) \<noteq> - 1 \<and> leaf ?m (d + k) \<noteq> None"
      using map lf order_trans [OF le] by auto
    from less.hyps [OF lt(1) se(1) al2 lt(2) this] obtain m' where m': "protect_text ?m (d + (n + page_size)) (d + sz) = Some m'" "space_ok m'"
      "\<forall>q. dir_of q \<noteq> - 1 \<longrightarrow> leaf m' q = (if q \<in> pages_from d sz (n + page_size) then map_option protected (leaf ?m q) else leaf ?m q)" by blast
    have "leaf m' q = (if q \<in> pages_from d sz n then map_option protected (leaf m q) else leaf m q)" if q: "dir_of q \<noteq> - 1" for q
    proof -
      have split: "q \<in> pages_from d sz n \<longleftrightarrow> on_page (d + n) q \<or> q \<in> pages_from d sz (n + page_size)"
      proof
        assume "q \<in> pages_from d sz n"
        then obtain k where k: "n \<le> k" "k < sz" "on_page (d + k) q" by (auto simp: pages_from_def)
        show "on_page (d + n) q \<or> q \<in> pages_from d sz (n + page_size)"
        proof (rule split_range [OF True szl k(1,2) refl])
          fix j assume j: "j < (if n + page_size < sz then page_size else sz - n)" "k = n + j"
          have "sz - n \<le> page_size" if "\<not> n + page_size < sz"
            using that nx True by (simp add: word_less_nat_alt word_le_nat_alt unat_sub page_size_def)
          then have "j < page_size" using j(1) by (auto split: if_splits)
          then have "on_page (d + n) (d + k)" using page_offset [OF aligned_add [OF assms(2) al]] j(2) by (simp add: add.assoc)
          then show ?thesis using on_page_trans k(3) by blast
        qed (use k in \<open>auto simp: pages_from_def\<close>)
      qed (use fp(1,2) in blast)
      show ?thesis
      proof (cases "on_page (d + n) q")
        case True
        then have "leaf m' q = Some (protected e)" "leaf m q = Some e" using m'(3) q lf [OF q] fp(3) [OF True] on_page_same(1) [OF True, of m] e by simp_all
        then show ?thesis using True split by simp
      next
        case False
        then show ?thesis using m'(3) q lf split by simp
      qed
    qed
    then show ?thesis using m'(1,2) run by auto
  qed
qed

text \<open>C19. The loop of \<^verbatim>\<open>kernel_initialize\<close> over the program text returns, when the text is mapped, and makes exactly its pages read-only and
  inaccessible to user mode: no write to them is translated any more, reads go to the same frames as before, and every
  other page is mapped as before.\<close>

theorem protect_text_spec:
  assumes "space_ok m" "start mod page_size = 0" "unat start + unat sz \<le> 0xFFFFF000"
    and "\<forall>k < sz. dir_of (start + k) \<noteq> - 1 \<and> translate m (start + k) False \<noteq> None"
  shows "\<exists>m'. protect_text m start (start + sz) = Some m' \<and> space_ok m' \<and>
    (\<forall>k < sz. translate m' (start + k) True = None \<and> translate m' (start + k) False = translate m (start + k) False \<and>
      (\<forall>e. leaf m' (start + k) = Some e \<longrightarrow> \<not> usermode e)) \<and>
    (\<forall>q w. dir_of q \<noteq> - 1 \<longrightarrow> (\<forall>k < sz. \<not> on_page (start + k) q) \<longrightarrow> translate m' q w = translate m q w)"
proof -
  have "\<forall>k. 0 \<le> k \<longrightarrow> k < sz \<longrightarrow> dir_of (start + k) \<noteq> - 1 \<and> leaf m (start + k) \<noteq> None" using assms(4) by (auto simp: translate_leaf)
  from protect_text_protects [OF assms(1,2) _ assms(3) _ this] obtain m' where m': "protect_text m start (start + sz) = Some m'" "space_ok m'"
    "\<forall>q. dir_of q \<noteq> - 1 \<longrightarrow> leaf m' q = (if q \<in> pages_from start sz 0 then map_option protected (leaf m q) else leaf m q)" by auto
  have "translate m' (start + k) True = None \<and> translate m' (start + k) False = translate m (start + k) False \<and>
    (\<forall>e. leaf m' (start + k) = Some e \<longrightarrow> \<not> usermode e)" if "k < sz" for k
  proof -
    have d: "dir_of (start + k) \<noteq> - 1" using assms(4) that by blast
    moreover have "start + k \<in> pages_from start sz 0" using that by (auto simp: pages_from_def on_page_def)
    ultimately have "leaf m' (start + k) = map_option protected (leaf m (start + k))" using m'(3) by simp
    then show ?thesis using translate_leaf(2) [OF m'(2) d]
      by (cases "leaf m (start + k)") (auto simp: translate_leaf(1))
  qed
  moreover have "translate m' q w = translate m q w" if q: "dir_of q \<noteq> - 1" "\<forall>k < sz. \<not> on_page (start + k) q" for q w
  proof -
    have "q \<notin> pages_from start sz 0" using q(2) by (auto simp: pages_from_def)
    then have "leaf m' q = leaf m q" using m'(3) q(1) by simp
    then show ?thesis using translate_leaf(1) [of m' q] translate_leaf(1) [of m q] translate_leaf(2) [OF m'(2) q(1)] translate_leaf(2) [OF assms(1) q(1)]
      by (cases w) simp_all
  qed
  ultimately show ?thesis using m'(1,2) by blast
qed

text \<open>Witness: a machine of the examples with free memory; libmalloc's other functions are replaced by constants.\<close>

definition sample_env :: "(nat, region_t list) boot_env" where
  "sample_env = \<lparr>e_malloc = count_frames, e_memmap = list_memmap, e_initialize_heap = (\<lambda>_ _ _ s. Some (s, 0, 0)), e_empty_map = [], e_boot_map = [],
     e_package = [81, 0], e_region_code = (\<lambda>_. 1),
     e_symbols = \<lparr>kernel_pstart = 0x100000, kernel_pend = 0x120000, kernel_start = 0xFF400000, kernel_tend = 0xFF410000, kernel_end = 0xFF420000\<rparr>,
     e_screen = 0xFF7FF000, e_apic_registers = 0xFF7FE000, e_function = (\<lambda>_. 0xFF400400), e_queue_cells = replicate 512 \<lparr>pq_value = 0, pq_priority = 0\<rparr>,
     e_bootloader_name = 0x8000, e_kernel_parameters = 0x8100, e_boot_modules = 0x8200\<rparr>"

definition boot_kernel :: "nat machine kernel_t" where
  "boot_kernel = machine_kernel\<lparr>processes := Map.empty, contexts := Map.empty\<rparr>"

lemma flat_machine_ok: "frames_ok (\<lambda>h. {a. unat a < h * 4096}) (\<lambda>h. page_size) (flat_machine h)"
proof -
  have f: "addr_of f \<in> {a. unat a < 1024 * 4096}" if "f \<in> table_frames flat_mmu" for f
  proof -
    have "physical_address (0x1003 :: u32) = 1" "physical_address (0x2003 :: u32) = 2" "\<not> present (0 :: u32)"
      by (simp_all add: small_entries)
    then have "f = 1 \<or> f = 2" using that by (auto simp: table_frames_def flat_mmu_entries split: if_splits)
    then show ?thesis by (auto simp: addr_of_def)
  qed
  show ?thesis using flat_mmu_ok f by (auto simp: frames_ok_def flat_machine_def)
qed

theorem initialize_tables_spec_witness:
  "\<exists>k'. initialize_tables sample_env boot_kernel = Some (Inr k') \<and> system_inv (\<lambda>s. {a. unat a < system_heap s * 4096}) k' \<and>
     sys_arg_count (syscall_table k' ! 6) = 3 \<and> \<not> sys_defined (syscall_table k' ! 5)"
proof -
  have E: "e_malloc sample_env = count_frames" "length (e_queue_cells sample_env) = 512" "\<forall>call. e_function sample_env call \<noteq> NULL"
    by (simp_all add: sample_env_def)
  have k: "mach boot_kernel = flat_machine 16" "processes boot_kernel = Map.empty" "contexts boot_kernel = Map.empty" "queue_nodes_of boot_kernel = Map.empty"
    "messages boot_kernel = Map.empty" "ports boot_kernel = Map.empty" "actions boot_kernel = Map.empty" "interrupt_handlers boot_kernel = NULL"
    by (simp_all add: boot_kernel_def machine_kernel_def)
  have d: "\<forall>h a n. reserve_region count_frames (system_heap (flat_machine 16)) 4096 = (h, a) \<and> a \<noteq> nomem count_frames \<and> n < 4096 \<longrightarrow> dir_of (a + n) \<noteq> - 1"
  proof (intro allI impI, elim conjE)
    fix h a and n :: u32
    assume "reserve_region count_frames (system_heap (flat_machine 16)) 4096 = (h, a)" and n: "n < 4096"
    then have a: "a = 0x10000" by (simp add: count_frames_def flat_machine_def)
    have "unat (a + n) < 0x11000" using n unat_add_le [of a n] a by (simp add: word_less_nat_alt)
    then have "unat (drop_bit 22 (a + n)) < 1" by (simp add: drop_bit_eq_div unat_div_distrib)
    then show "dir_of (a + n) \<noteq> - 1" using last_index [of "dir_of (a + n)"] by (simp add: unat_dir)
  qed
  have "kmalloc count_frames (flat_machine 16) 4096 \<noteq> Some (s, NULL)" for s using flat_kmalloc [of 16 4096] by simp
  with initialize_tables_spec [of sample_env _ _ boot_kernel, unfolded E(1) k(1), OF count.libmalloc_axioms flat_machine_ok E(2) d E(3) k(2-8)]
  obtain k' where k': "initialize_tables sample_env boot_kernel = Some (Inr k')" "system_inv (\<lambda>s. {a. unat a < system_heap s * 4096}) k'"
    "\<forall>(call, n)\<in>{(SYSCALL_TEST, 1), (SYSCALL_MMAP, 3), (SYSCALL_MUNMAP, 2), (SYSCALL_SEND, 3), (SYSCALL_RECEIVE, 2), (SYSCALL_OPEN_PORT, 1), (SYSCALL_CLOSE_PORT, 1)}.
      syscall_table k' ! nat (syscall_code call) = \<lparr>sys_defined = True, sys_arg_count = n, sys_process_id = 0, sys_func_ptr = e_function sample_env call\<rparr>"
    "\<forall>j < 256. sys_defined (syscall_table k' ! j) \<longrightarrow> j \<in> {1, 2, 3, 6, 7, 8, 9}" by blast
  have "\<not> sys_defined (syscall_table k' ! 5)" using spec [OF k'(4), of 5] by simp
  moreover have "sys_arg_count (syscall_table k' ! 6) = 3" using k'(3) by simp
  ultimately show ?thesis using k'(1,2) by blast
qed

text \<open>Witness: the page at 0x1000 of the example with the first 4 MB mapped.\<close>

theorem protect_text_spec_witness:
  "\<exists>m'. protect_text flat_mmu 0x1000 0x2000 = Some m' \<and> translate m' 0x1004 True = None \<and> translate m' 0x1004 False = Some 1 \<and>
     translate m' 0x2000 True = Some 2"
proof -
  have d: "dir_of (0x1000 + k) = 0" if "k < 0x1000" for k
  proof -
    have "unat (0x1000 + k) < 0x2000" using that unat_add_le [of "0x1000" k] by (simp add: word_less_nat_alt)
    then have "unat (drop_bit 22 (0x1000 + k)) = 0" by (simp add: drop_bit_eq_div unat_div_distrib)
    then show ?thesis unfolding unat_dir by (simp add: word_unat_eq_iff)
  qed
  have "\<forall>k < 0x1000. dir_of (0x1000 + k) \<noteq> - 1 \<and> translate flat_mmu (0x1000 + k) False \<noteq> None"
    using d flat_readable by (simp add: readable_def)
  note t = protect_text_spec [OF flat_mmu_ok _ _ this]
  then obtain m' where m': "protect_text flat_mmu 0x1000 0x2000 = Some m'" 
    "\<forall>k < 0x1000. translate m' (0x1000 + k) True = None \<and> translate m' (0x1000 + k) False = translate flat_mmu (0x1000 + k) False \<and>
      (\<forall>e. leaf m' (0x1000 + k) = Some e \<longrightarrow> \<not> usermode e)"
    "\<forall>q w. dir_of q \<noteq> - 1 \<longrightarrow> (\<forall>k < 0x1000. \<not> on_page (0x1000 + k) q) \<longrightarrow> translate m' q w = translate flat_mmu q w" by (auto simp: page_size_def)
  have "tab_of (0x1000 + k) = 1" if "k < 0x1000" for k
    using page_offset [of "0x1000" k] that by (simp add: on_page_def page_size_def tab_of_def)
  moreover have "tab_of 0x2000 = 2" "dir_of 0x2000 = 0" by (simp_all add: tab_of_def dir_of_def)
  ultimately have "translate m' 0x2000 True = translate flat_mmu 0x2000 True" using m'(3) by (auto simp: on_page_def)
  moreover have "translate flat_mmu 0x2000 True = Some 2" "translate flat_mmu 0x1004 False = Some 1" by code_simp+
  moreover have "translate m' 0x1004 True = None \<and> translate m' 0x1004 False = translate flat_mmu 0x1004 False" using spec [OF m'(2), of 4] by simp
  ultimately show ?thesis using m'(1) by simp
qed

section \<open>No modules\<close>

lemma set_syscalls_frame: "set_syscalls k calls = Some k' \<Longrightarrow> active_process k' = active_process k \<and> priority_queue k' = priority_queue k"
  by (induction k calls rule: set_syscalls.induct) (auto simp: set_syscall_def split: Option.bind_splits if_splits)

lemma initialize_tables_idle:
  assumes "initialize_tables E k = Some (Inr k')"
  shows "active_process k' = NULL \<and> q_size (priority_queue k') = 0"
  using assms
  by (auto simp: initialize_tables_def construct_priority_queue_def Let_def simp del: set_syscalls.simps
      split: Option.bind_splits if_splits option.splits dest!: set_syscalls_frame)

lemma advance_idle: "active_process k = NULL \<Longrightarrow> q_size (priority_queue k) = 0 \<Longrightarrow> kernel_advance_scheduler P k = None"
  by (simp add: kernel_advance_scheduler_def priorityqueue_extract_min_def)

text \<open>Without a module there is no process to enter: \<^verbatim>\<open>kernel_initialize\<close> never gets as far as a context, whatever memory, libmalloc and the
  console do. It panics, in the scheduler if not before.\<close>

theorem kernel_initialize_no_modules:
  "kernel_initialize E (bi\<lparr>module_count := 0\<rparr>) k b con u \<noteq> Some (con', u', Inr r)"
proof
  assume "kernel_initialize E (bi\<lparr>module_count := 0\<rparr>) k b con u = Some (con', u', Inr r)"
  then obtain k1 k2 b' where t: "initialize_tables E k1 = Some (Inr k2)" "start_processes E k2 b' = Some (Inr r)"
    by (auto simp: kernel_initialize_def Let_def split: Option.bind_splits if_splits sum.splits)
  show False using t(2) initialize_tables_idle [OF t(1)]
    by (auto simp: start_processes_def advance_idle Let_def split: Option.bind_splits if_splits)
qed

end
