(* ===== verification/Boot_Processes.thy ===== *)
theory Boot_Processes
  imports Boot
begin

text \<open>
  From the start of the kernel to its first process: loading modules and starting the scheduler are steps of the kernel
  (\<open>Kernel_Steps\<close>), so the invariant of the kernel holds when \<^verbatim>\<open>kernel_initialize\<close> enters a process, and ever after.
\<close>

section \<open>Modules\<close>

text \<open>A module that is loaded changes the memory outside of the kernel heap and is spawned.\<close>

lemma load_module_spawns:
  assumes "kernel_load_module L start k x = Some (Inr (k', status))"
  obtains s pc space pid where "system_heap s = system_heap (mach k)"
    "kernel_spawn_process (quark_platform L) start (k\<lparr>mach := s\<rparr>) pc 1 space = Some (k', pid)" "status = (if pid > 0 then error_code ENONE else - 1)"
proof -
  from assms obtain s1 table s2 s3 e s4 pc space pid where c: "create_address_space L start (mach k) = Some (s1, table)"
    and m: "map_module L (s1\<lparr>mm := paging_load_address_space (mm s1) table\<rparr>) 0 (m_start x AND NOT (page_size - 1)) (m_end x) = Some (s2, None)"
    and l: "load_program L s2 load_base = Some (s3, e)"
    and u: "unmap_module s3 0 (m_start x AND NOT (page_size - 1)) (m_end x) = Some (s4, None)"
    and p: "kernel_spawn_process (quark_platform L) start (k\<lparr>mach := s4\<rparr>) pc 1 space = Some (k', pid)" "status = (if pid > 0 then error_code ENONE else - 1)"
    by (auto simp: kernel_load_module_def Let_def split: Option.bind_splits if_splits option.splits)
  have "system_heap s1 = system_heap (mach k)"
    using c by (auto simp: create_address_space_def split: Option.bind_splits if_splits prod.splits dest!: reserve_page_heap)
  then have "system_heap s4 = system_heap (mach k)"
    using map_module_heap [OF m] load_program_heap [OF l] unmap_module_heap [OF u] by simp
  then show thesis using that p by blast
qed

context kernel_platform
begin

lemma spawn_counts:
  assumes inv: "system_inv live k" and run: "kernel_spawn_process P ks k pc pr space = Some (k', pid)" "pid \<noteq> 0"
    and room: "card (dom (processes k)) < q_capacity (priority_queue k)"
  shows "card (dom (processes k')) = card (dom (processes k)) + 1" "next_pid k' = next_pid k + 1"
    "q_capacity (priority_queue k') = q_capacity (priority_queue k)"
proof -
  show "q_capacity (priority_queue k') = q_capacity (priority_queue k)" by (rule spawn_capacity [OF run(1)])
  obtain ty pt qt it N where i: "kernel_heap_inv live ty k pt qt it" "sched_inv k" "filed k pt" by (rule system_invE [OF inv])
  note f = filedD [OF i(3)]
  have "key_of (next_pid k) \<notin> dom pt"
    using f(1,3) unfolding procs_ok_def by (metis domD key_of_inject order_less_irrefl)
  moreover have "card {p. runnable k p} < q_capacity (priority_queue k)"
    using card_mono [of "dom (processes k)" "{p. runnable k p}"] room by (force simp: runnable_def)
  ultimately obtain p c where "spawned k k' p c (fresh_process (next_pid k) pr space c) (fresh_context ks pc)"
    using spawn_ok [OF i(1,2) _ _ run] by blast
  then show "card (dom (processes k')) = card (dom (processes k)) + 1" "next_pid k' = next_pid k + 1"
    by (auto simp: spawned_def domIff)
qed

lemma advance_enters:
  assumes inv: "system_inv live k" and run: "kernel_advance_scheduler P k = Some (k', ctx)"
  shows "processes k' = processes k \<and> (\<exists>x. processes k' (active_process k') = Some x \<and> p_state x = PROCESS_ACTIVE \<and> p_ctx x = ctx)"
proof -
  obtain ty pt qt it N where i: "kernel_heap_inv live ty k pt qt it" "sched_inv k" "filed k pt" by (rule system_invE [OF inv])
  note cap = room_for_all [OF i(3)]
  from advance_runnable [OF i(2) cap run] obtain p0 where "runnable k p0" by blast
  from advance_chooses [OF i(2) cap this, of P] obtain k1 p and x :: process_t where
    r: "kernel_advance_scheduler P k = Some (k1, p_ctx x)" "runnable k p" "processes k p = Some x"
    "k1 = k\<lparr>mach := paging_load P (mach k) (p_page_table x), active_process := p, priority_queue := priority_queue k1\<rparr>" by blast
  obtain q where k': "k' = k\<lparr>mach := paging_load P (mach k) (p_page_table x), active_process := p, priority_queue := q\<rparr>" "ctx = p_ctx x"
    using r(1,4) run by auto
  moreover have "p_state x = PROCESS_ACTIVE" using r(2,3) by (simp add: runnable_def)
  ultimately show ?thesis using r(3) by simp
qed

end

lemma reachable_trans: "reachable P live start k k' \<Longrightarrow> reachable P live start k' k'' \<Longrightarrow> reachable P live start k k''"
  by (rotate_tac, induction rule: reachable.induct) (auto intro: reachable.later)

context libmalloc
begin

abbreviation heap_in_use :: "'h machine \<Rightarrow> ptr set" where "heap_in_use s \<equiv> used (system_heap s)"

text \<open>The loop over the modules: one step of computation and one that spawns for each.\<close>

lemma load_modules_steps:
  assumes "load_modules L start k ms i n = Some (Inr k')" "system_inv heap_in_use k"
    and "card (dom (processes k)) + n \<le> q_capacity (priority_queue k)" "unat (next_pid k) + n < 2 ^ 32"
  shows "reachable (quark_platform L) heap_in_use start k k' \<and> system_inv heap_in_use k' \<and> card (dom (processes k')) = card (dom (processes k)) + n"
  using assms
proof (induction n arbitrary: k i)
  case 0
  then show ?case by (auto intro: reachable.initial)
next
  case (Suc n)
  then obtain x k1 where x: "kernel_load_module L start k x = Some (Inr (k1, error_code ENONE))" "load_modules L start k1 ms (i + 1) n = Some (Inr k')"
    by (auto split: Option.bind_splits sum.splits prod.splits if_splits)
  obtain s pc space pid where s: "system_heap s = system_heap (mach k)"
    "kernel_spawn_process (quark_platform L) start (k\<lparr>mach := s\<rparr>) pc 1 space = Some (k1, pid)" "error_code ENONE = (if pid > 0 then error_code ENONE else - 1)"
    by (rule load_module_spawns [OF x(1)])
  let ?P = "quark_platform L" and ?k = "k\<lparr>mach := s\<rparr>"
  have last_pid: "unat (- 1 :: u32) = 4294967295" by (simp add: unsigned_minus_1_eq_mask mask_eq_exp_minus_1)
  have pid: "pid \<noteq> 0" using s(3) by (auto split: if_splits)
  have inv: "system_inv heap_in_use ?k" by (rule quark.program_inv [OF Suc.prems(2)]) (simp add: s(1))
  have room: "card (dom (processes ?k)) < q_capacity (priority_queue ?k)" and nw: "next_pid ?k \<noteq> - 1"
    using Suc.prems(3,4) last_pid by auto
  note c = quark.spawn_counts [OF inv s(2) pid room]
  have "kernel_step ?P heap_in_use start k ?k" by (rule kernel_step.program) (simp add: s(1))
  moreover have st: "kernel_step ?P heap_in_use start ?k k1" by (rule kernel_step.spawn [OF s(2) room nw])
  ultimately have first: "reachable ?P heap_in_use start k k1" by (blast intro: reachable.intros)
  have "unat (next_pid k1) + n < 2 ^ 32" using c(2) Suc.prems(4) unat_plus_if_size [of "next_pid k" 1] by (simp add: word_size)
  with Suc.IH [OF x(2) quark.step_inv [OF st inv]] c Suc.prems(3)
  have "reachable ?P heap_in_use start k1 k'" "system_inv heap_in_use k'" "card (dom (processes k')) = card (dom (processes k)) + Suc n" by auto
  then show ?case using reachable_trans [OF first] by blast
qed

text \<open>Setting up interrupts maps the registers of the APIC; then the scheduler runs.\<close>

lemma initialize_interrupts_heap: "initialize_interrupts L apic b = Some (b', e) \<Longrightarrow> system_heap (core b') = system_heap (core b)"
  by (auto simp: initialize_interrupts_def apic_enable_def apic_write_def mask_pics_def outb_pic_def Let_def
      split: Option.bind_splits if_splits dest!: map_page_heap)

lemma start_processes_steps:
  assumes "start_processes E k b = Some (Inr (k', b', context))" "L = e_malloc E" "system_inv heap_in_use k"
  shows "reachable (quark_platform L) heap_in_use start k k' \<and> system_inv heap_in_use k' \<and> core b' = mach k' \<and> processes k' = processes k \<and>
    (\<exists>x. processes k' (active_process k') = Some x \<and> p_state x = PROCESS_ACTIVE \<and> p_ctx x = context)"
proof -
  let ?P = "quark_platform L"
  from assms(1,2) obtain b1 e where b: "initialize_interrupts L (e_apic_registers E) (b\<lparr>core := mach k\<rparr>) = Some (b1, e)"
    and a: "kernel_advance_scheduler ?P (k\<lparr>mach := core b1\<rparr>) = Some (k', context)" and b': "core b' = mach k'"
    by (auto simp: start_processes_def irq_enable_def Let_def split: Option.bind_splits if_splits)
  have heap: "system_heap (mach k) = system_heap (core b1)" using initialize_interrupts_heap [OF b] by simp
  have inv: "system_inv heap_in_use (k\<lparr>mach := core b1\<rparr>)" by (rule quark.program_inv [OF assms(3)]) (simp add: heap)
  have "kernel_step ?P heap_in_use start k (k\<lparr>mach := core b1\<rparr>)" by (rule kernel_step.program) (simp add: heap)
  moreover have st: "kernel_step ?P heap_in_use start (k\<lparr>mach := core b1\<rparr>) k'" by (rule kernel_step.advance [OF a])
  ultimately have "reachable ?P heap_in_use start k k'" by (blast intro: reachable.intros)
  moreover have "processes (k\<lparr>mach := core b1\<rparr>) = processes k" by simp
  ultimately show ?thesis using quark.step_inv [OF st inv] quark.advance_enters [OF inv a] b' by metis
qed

lemmas quark_reachable_inv = quark.reachable_inv

end

section \<open>The whole start\<close>

lemma initialize_tables_memory:
  assumes "initialize_tables E k = Some (Inr k')" "length (e_queue_cells E) = 512"
  obtains s p where "kmalloc (e_malloc E) (mach k) 4096 = Some (s, p)" "p \<noteq> NULL"
  using assms by (auto simp: initialize_tables_def construct_priority_queue_def quark_platform_def Let_def split: Option.bind_splits if_splits)

text \<open>If \<^verbatim>\<open>kernel_initialize\<close> reaches the point where it enters a process, then whatever is in memory, in the boot information and in the
  modules: there is one process for each module, the kernel enters one of them, which is recorded as running, the invariant of
  the kernel holds, and it holds in every state that the kernel reaches from there.\<close>

theorem kernel_initialize_inv:
  assumes "libmalloc (e_malloc E) used block_size" "length (e_queue_cells E) = 512" "\<forall>call. e_function E call \<noteq> NULL"
    and "processes k = Map.empty" "contexts k = Map.empty" "queue_nodes_of k = Map.empty" "messages k = Map.empty" "ports k = Map.empty"
      "actions k = Map.empty" "interrupt_handlers k = NULL"
    and "unat (module_count bi) \<le> 512"
    and "kernel_initialize E bi k b con u = Some (con', u', Inr (k', b', context))"
  shows "card (dom (processes k')) = unat (module_count bi) \<and>
    (\<exists>x. processes k' (active_process k') = Some x \<and> p_state x = PROCESS_ACTIVE \<and> p_ctx x = context) \<and>
    (\<forall>start k''. reachable (quark_platform (e_malloc E)) (\<lambda>s. used (system_heap s)) start k' k'' \<longrightarrow> system_inv (\<lambda>s. used (system_heap s)) k'')"
proof -
  let ?live = "\<lambda>s :: 'a machine. used (system_heap s)"
  from assms(12) obtain s k1 k2 b1 where t: "initialize_tables E (k\<lparr>mach := s\<rparr>) = Some (Inr k1)"
    and l: "load_modules (e_malloc E) (kernel_start (e_symbols E)) k1 (modules bi) 0 (unat (module_count bi)) = Some (Inr k2)"
    and p: "start_processes E k2 b1 = Some (Inr (k', b', context))"
    by (auto simp: kernel_initialize_def Let_def split: Option.bind_splits if_splits sum.splits)
  obtain s1 q where q: "kmalloc (e_malloc E) (mach (k\<lparr>mach := s\<rparr>)) 4096 = Some (s1, q)" "q \<noteq> NULL"
    by (rule initialize_tables_memory [OF t assms(2)])
  have tables: "system_inv ?live k1" "processes k1 = Map.empty" "next_pid k1 = 1" "q_capacity (priority_queue k1) = 512"
    using tables_built [OF q assms(2,3), of ?live] assms(4-10) t by auto
  have "reachable (quark_platform (e_malloc E)) ?live (kernel_start (e_symbols E)) k1 k2 \<and> system_inv ?live k2 \<and>
    card (dom (processes k2)) = card (dom (processes k1)) + unat (module_count bi)"
    by (rule libmalloc.load_modules_steps [OF assms(1) l tables(1)]) (use tables assms(11) in simp_all)
  then have modules: "system_inv ?live k2" "card (dom (processes k2)) = unat (module_count bi)" using tables(2) by simp_all
  note f = libmalloc.start_processes_steps [OF assms(1) p refl modules(1)]
  have "processes k' = processes k2" using f by blast
  then have "card (dom (processes k')) = unat (module_count bi)" using modules(2) by simp
  moreover have "system_inv ?live k'" using f by blast
  ultimately show ?thesis using f libmalloc.quark_reachable_inv [OF assms(1)] by blast
qed

end
