(* ===== verification/Assembly.thy ===== *)
theory Assembly
  imports Kernel_Steps Startup Processor
begin

text \<open>
  The assembly of \<^verbatim>\<open>src/x86/preempt.S\<close>, \<^verbatim>\<open>src/x86/load_context.S\<close> and \<^verbatim>\<open>src/x86/entry.S\<close>: the routines as lists of instructions
  of \<open>Processor\<close> around their calls of C functions. Instructions keep the AT&T order of operands: source first. Addresses of instructions are not modelled, only those in the frames.
\<close>

unbundle bit_operations_syntax

section \<open>Calls\<close>

text \<open>A C function with \<open>n\<close> words of arguments returns its result in \<^verbatim>\<open>eax\<close>. It keeps the other registers but \<^verbatim>\<open>ecx\<close>, \<^verbatim>\<open>edx\<close> and the
  flags, and the stack above its arguments (System V ABI for i386).\<close>

record clobber =
  cl_ecx :: u32
  cl_edx :: u32
  cl_eflags :: u32
  cl_words :: "ptr \<Rightarrow> u32"

definition c_returns :: "clobber \<Rightarrow> nat \<Rightarrow> u32 \<Rightarrow> cpu \<Rightarrow> cpu" where
  "c_returns x n result c = c\<lparr>regs := (regs c)(EAX := result, ECX := cl_ecx x, EDX := cl_edx x), eflags := cl_eflags x,
     words := (\<lambda>a. if regs c ESP + 4 * of_nat n \<le> a then words c a else cl_words x a)\<rparr>"

section \<open>Switching processes\<close>

text \<open>A context in memory (\<^verbatim>\<open>struct process_context_t\<close>), on the stack and as an object of the kernel heap.\<close>

definition context_at :: "cpu \<Rightarrow> ptr \<Rightarrow> process_context_t" where
  "context_at c p = \<lparr>gp_registers = map (\<lambda>i. words c (p + 4 * of_nat i)) [0..<8], c_ss = words c (p + 0x20), c_cs = words c (p + 0x24),
     c_eip = words c (p + 0x28), c_flags = words c (p + 0x2C)\<rparr>"

definition context_words :: "process_context_t \<Rightarrow> u32 list" where
  "context_words y = gp_registers y @ [c_ss y, c_cs y, c_eip y, c_flags y]"

definition context_view :: "ptr \<Rightarrow> process_context_t \<Rightarrow> view" where
  "context_view p y = map_of (zip (map (\<lambda>i. p + 4 * of_nat i) [0..<12]) (context_words y))"

text \<open>\<^verbatim>\<open>load_context\<close>, whose argument points to \<open>y\<close>.\<close>

definition load_context_code :: "instr list" where
  "load_context_code =
    [Mov_load 4 ESP EAX,
     Push_load 0x20 EAX,
     Push_load 0x1C EAX,
     Push_load 0x2C EAX,
     Push_load 0x24 EAX,
     Push_load 0x28 EAX,
     Push_load 0x00 EAX,
     Mov_load 0x04 EAX EBX,
     Mov_load 0x08 EAX ECX,
     Mov_load 0x0C EAX EDX,
     Mov_load 0x10 EAX EDI,
     Mov_load 0x14 EAX ESI,
     Mov_load 0x18 EAX EBP,
     Mov_half_load 0x20 EAX AX,
     Mov_segment AX DS,
     Mov_segment AX ES,
     Mov_segment AX FS,
     Mov_segment AX GS,
     Pop EAX]"

definition load_context :: "ptr \<Rightarrow> process_context_t \<Rightarrow> cpu \<Rightarrow> cpu option" where
  "load_context p y c = do { c \<leftarrow> exec_all (context_view p y) load_context_code c; iret c }"

text \<open>\<^verbatim>\<open>isr_preempt\<close> up to the call of \<^verbatim>\<open>kernel_store_active_context\<close>.\<close>

definition preempt_save :: "instr list" where
  "preempt_save =
    [Cli,
     Push EBP,
     Mov ESP EBP,
     Add_imm 4 EBP,
     Push EAX,
     Mov_load 8 EBP EAX, Push EAX,
     Mov_load 0 EBP EAX, Push EAX,
     Mov_load 4 EBP EAX, Push EAX,
     Mov_load 16 EBP EAX, Push EAX,
     Mov_load 12 EBP EAX, Push EAX,
     Mov_load (- 4) EBP EAX, Push EAX,
     Push ESI,
     Push EDI,
     Push EDX,
     Push ECX,
     Push EBX,
     Mov_load (- 8) EBP EAX, Push EAX,
     Push ESP]"

text \<open>\<open>x1\<close> and \<open>x2\<close> are what the two C functions leave in registers and stack, \<open>ret\<close> the return address of the last call.\<close>

definition isr_preempt :: "'m platform \<Rightarrow> clobber \<Rightarrow> clobber \<Rightarrow> ptr \<Rightarrow> 'm kernel_t \<Rightarrow> cpu \<Rightarrow> ('m kernel_t \<times> cpu) option" where
  "isr_preempt P x1 x2 ret k c = do {
     c \<leftarrow> exec_all Map.empty preempt_save c;
     saved \<leftarrow> load Map.empty c (regs c ESP);
     (k, status) \<leftarrow> kernel_store_active_context k (context_at c saved);
     let c = c_returns x1 1 (error_code status) c;
     c \<leftarrow> exec Map.empty (Mov EBP ESP) c;
     (k, context) \<leftarrow> kernel_advance_scheduler P k;
     let c = c_returns x2 0 context c;
     c \<leftarrow> exec Map.empty (Push EAX) c;
     c \<leftarrow> push_word (\<lambda>_. None) ret c;
     y \<leftarrow> deref (contexts k) context;
     c \<leftarrow> load_context context y c;
     Some (k, c) }"

section \<open>System calls\<close>

definition syscall_enter :: "instr list" where
  "syscall_enter =
    [Cli,
     Mov ESP EBP,
     Mov_load 8 EBP ESI, Push ESI,
     Mov_load 12 EBP ESI, Push ESI,
     Mov_load 0 EBP ESI, Push ESI,
     Push EDX,
     Push ECX,
     Push EBX,
     Push EAX,
     Mov_half_imm 0x10 AX,
     Mov_segment AX DS,
     Mov_segment AX ES,
     Mov_segment AX FS,
     Mov_segment AX GS]"

definition syscall_leave :: "instr list" where
  "syscall_leave =
    [Mov EBP ESP,
     Mov_half_imm 0x23 CX,
     Mov_segment CX DS,
     Mov_segment CX ES,
     Mov_segment CX FS,
     Mov_segment CX GS]"

text \<open>The seven words on the stack are the arguments of \<^verbatim>\<open>do_syscall\<close>. If it does not return, it enters a context with \<^verbatim>\<open>load_context\<close>, from
  a stack pointer \<open>deep\<close> below.\<close>

definition isr_syscall :: "'m platform \<Rightarrow> 'm dispatch \<Rightarrow> clobber \<Rightarrow> ptr \<Rightarrow> 'm kernel_t \<Rightarrow> cpu \<Rightarrow> ('m kernel_t \<times> cpu) option" where
  "isr_syscall P F x deep k c = do {
     c \<leftarrow> exec_all Map.empty syscall_enter c;
     let arg = (\<lambda>i. words c (regs c ESP + 4 * i));
     (k, out) \<leftarrow> do_syscall P F k (arg 0) (arg 1) (arg 2) (arg 3) (arg 4) (arg 5) (arg 6);
     case out of
       Returns result \<Rightarrow> do {
         c \<leftarrow> exec_all Map.empty syscall_leave (c_returns x 7 result c);
         c \<leftarrow> iret c;
         Some (k, c) }
     | Enters context \<Rightarrow> do {
         y \<leftarrow> deref (contexts k) context;
         c \<leftarrow> load_context context y (set_reg ESP deep (c_returns x 7 0 c)\<lparr>words := (cl_words x)(deep + 4 := context)\<rparr>);
         Some (k, c) } }"

section \<open>Running the code\<close>

text \<open>The state of the user program that a context describes.\<close>

definition user_state :: "process_context_t \<Rightarrow> (ptr \<Rightarrow> u32) \<Rightarrow> cpu" where
  "user_state y w = \<lparr>regs = (\<lambda>r. gp_registers y ! (case r of EAX \<Rightarrow> 0 | EBX \<Rightarrow> 1 | ECX \<Rightarrow> 2 | EDX \<Rightarrow> 3 | EDI \<Rightarrow> 4 | ESI \<Rightarrow> 5 | EBP \<Rightarrow> 6 | ESP \<Rightarrow> 7)),
     segs = (\<lambda>r. if r = CS then ucast (c_cs y) else ucast (c_ss y)), eip = c_eip y, eflags = c_flags y, words = w\<rparr>"

definition user_context :: "cpu \<Rightarrow> process_context_t" where
  "user_context u = \<lparr>gp_registers = map (regs u) [EAX, EBX, ECX, EDX, EDI, ESI, EBP, ESP], c_ss = ucast (segs u SS), c_cs = ucast (segs u CS),
     c_eip = eip u, c_flags = eflags u\<rparr>"

text \<open>The object at \<open>p\<close> is apart from the words around the stack pointer \<open>s\<close> that \<^verbatim>\<open>load_context\<close> uses.\<close>

definition apart :: "ptr \<Rightarrow> ptr \<Rightarrow> bool" where
  "apart p s \<longleftrightarrow> (\<forall>i<12. \<forall>j<8. p + 4 * of_nat i \<noteq> s + 4 - 4 * of_nat j)"

lemma apart_view:
  assumes "apart p s" "length (gp_registers y) = 8" "j < 8" shows "context_view p y (s + 4 - 4 * of_nat j) = None"
  using assms by (force simp: context_view_def apart_def map_of_eq_None_iff context_words_def set_zip)

lemma context_view_nth:
  assumes "length (gp_registers y) = 8" "i < 12"
  shows "context_view p y (p + 4 * of_nat i) = Some (context_words y ! i)"
proof -
  have "inj_on (\<lambda>i. p + 4 * of_nat i) {0..<12 :: nat}"
  proof (rule inj_onI)
    fix i j :: nat assume i: "i \<in> {0..<12}" "j \<in> {0..<12}" "p + 4 * of_nat i = p + 4 * of_nat j"
    then have "(4 * of_nat i :: u32) = 4 * of_nat j" by simp
    then have "unat (4 * of_nat i :: u32) = unat (4 * of_nat j :: u32)" by simp
    then show "i = j" using i(1,2) by (simp add: unat_word_ariths unsigned_of_nat take_bit_eq_mod)
  qed
  then have "distinct (map (\<lambda>i. p + 4 * of_nat i) [0..<12])" by (simp add: distinct_map)
  then have "map_of (zip (map (\<lambda>i. p + 4 * of_nat i) [0..<12]) (context_words y)) (map (\<lambda>i. p + 4 * of_nat i) [0..<12] ! i) = Some (context_words y ! i)"
    by (rule map_of_zip_nth [rotated]) (use assms in \<open>simp_all add: context_words_def\<close>)
  then show ?thesis using assms by (simp add: context_view_def)
qed

lemma load_context_enters:
  assumes "aligned (regs c ESP)" "context_wf y" "words c (regs c ESP + 4) = p" "apart p (regs c ESP)"
    and "segs c CS AND 3 = 0" "c_cs y AND 3 = 3"
  shows "\<exists>w. load_context p y c = Some (user_state y w)"
proof -
  have len: "length (gp_registers y) = 8" using assms(2) by (simp add: context_wf_def)
  note v = apart_view [OF assms(4) len] context_view_nth [OF len, of _ p]
  have stack: "context_view p y (regs c ESP + 4) = None" "context_view p y (regs c ESP - 4) = None" "context_view p y (regs c ESP - 8) = None"
    "context_view p y (regs c ESP - 12) = None" "context_view p y (regs c ESP - 16) = None" "context_view p y (regs c ESP - 20) = None"
    "context_view p y (regs c ESP - 24) = None"
    using v(1) [of 0] v(1) [of 2] v(1) [of 3] v(1) [of 4] v(1) [of 5] v(1) [of 6] v(1) [of 7] by simp_all
  have obj: "context_view p y p = Some (gp_registers y ! 0)" "context_view p y (p + 4) = Some (gp_registers y ! 1)"
    "context_view p y (p + 8) = Some (gp_registers y ! 2)" "context_view p y (p + 12) = Some (gp_registers y ! 3)"
    "context_view p y (p + 16) = Some (gp_registers y ! 4)" "context_view p y (p + 20) = Some (gp_registers y ! 5)"
    "context_view p y (p + 24) = Some (gp_registers y ! 6)" "context_view p y (p + 28) = Some (gp_registers y ! 7)"
    "context_view p y (p + 32) = Some (c_ss y)" "context_view p y (p + 36) = Some (c_cs y)" "context_view p y (p + 40) = Some (c_eip y)"
    "context_view p y (p + 44) = Some (c_flags y)"
    using v(2) [of 0] v(2) [of 1] v(2) [of 2] v(2) [of 3] v(2) [of 4] v(2) [of 5] v(2) [of 6] v(2) [of 7] v(2) [of 8] v(2) [of 9] v(2) [of 10] v(2) [of 11]
    by (simp_all add: context_words_def nth_append len)
  have "\<exists>r g w. load_context p y c = Some \<lparr>regs = r, segs = g, eip = c_eip y, eflags = c_flags y, words = w\<rparr> \<and>
    r = regs (user_state y w) \<and> g = segs (user_state y w)"
    using assms(1,3,5,6) stack obj
    by (cases c) (simp add: load_context_def load_context_code_def instr_simps iret_def user_state_def,
        simp add: fun_eq_iff split: reg.split, metis segment_reg.exhaust)
  then show ?thesis by (auto simp: user_state_def)
qed

text \<open>What \<^verbatim>\<open>isr_preempt\<close> puts on the stack.\<close>

lemma preempt_saves:
  assumes "aligned s"
  shows "\<exists>c. exec_all Map.empty preempt_save (handler_state s ss0 handler u) = Some c \<and> regs c ESP = s - 80 \<and> regs c EBP = s - 20 \<and>
    words c (s - 80) = s - 76 \<and> context_at c (s - 76) = user_context u \<and> segs c CS = 0x08"
  using assms
  by (simp add: handler_state_def preempt_save_def instr_simps context_at_def user_context_def upt_rec [of _ 8])

text \<open>Storing a context changes nothing that the scheduler looks at.\<close>

lemma store_context_stores:
  assumes "active_process k \<noteq> NULL" "processes k (active_process k) = Some a" "p_ctx a \<noteq> NULL" "\<exists>v. contexts k (p_ctx a) = Some v"
  shows "kernel_store_active_context k c = Some (set_context k (p_ctx a) c, ENONE)"
  using assms by (auto simp: kernel_store_active_context_def deref_def)

text \<open>The user program goes on as it was; only the data segments are those of its stack segment.\<close>

definition resumes :: "cpu \<Rightarrow> cpu \<Rightarrow> bool" where
  "resumes u c \<longleftrightarrow> regs c = regs u \<and> eip c = eip u \<and> eflags c = eflags u \<and> segs c CS = segs u CS \<and> segs c SS = segs u SS \<and>
     (\<forall>d\<in>{DS, ES, FS, GS}. segs c d = segs u SS)"

lemma user_context_resumes: "resumes u (user_state (user_context u) w)"
  by (auto simp: resumes_def user_state_def user_context_def fun_eq_iff split: reg.split)

lemma user_context_wf: "context_wf (user_context u)"
  by (simp add: user_context_def context_wf_def)

lemma user_context_cs: "segs u CS AND 3 = 3 \<Longrightarrow> c_cs (user_context u) AND 3 = 3"
proof -
  assume a: "segs u CS AND 3 = 3"
  have "c_cs (user_context u) AND 3 = ucast (segs u CS AND 3)" unfolding unsigned_and_eq by (simp add: user_context_def)
  then show ?thesis using a by simp
qed

section \<open>Properties\<close>

text \<open>C15. A process is interrupted to let others run: \<^verbatim>\<open>isr_preempt\<close> stores all its registers, as they were, in its context and enters a runnable process
  of the best priority, in exactly the state that the context of that process holds. So a process that is interrupted
  goes on as if nothing had happened, at once if it is chosen itself or when its context is entered later.\<close>

theorem isr_preempt_spec:
  assumes "aligned s" "segs u CS AND 3 = 3"
    and "sched_inv k" "card {p. runnable k p} \<le> q_capacity (priority_queue k)"
    and "active_process k \<noteq> NULL" "processes k (active_process k) = Some a"
    and "\<forall>p x. runnable k p \<longrightarrow> processes k p = Some x \<longrightarrow> p_ctx x \<noteq> NULL \<and> apart (p_ctx x) (s - 28) \<and>
      (\<exists>y. contexts k (p_ctx x) = Some y \<and> (p \<noteq> active_process k \<longrightarrow> context_wf y \<and> c_cs y AND 3 = 3))"
  shows "\<exists>k' x y w. do { c \<leftarrow> interrupt_enter s ss0 handler u; isr_preempt P x1 x2 ret k c } = Some (k', user_state y w) \<and>
    contexts k' = (contexts k)(p_ctx a \<mapsto> user_context u) \<and>
    runnable k (active_process k') \<and> (\<forall>q. runnable k q \<longrightarrow> prio_of k (active_process k') \<le> prio_of k q) \<and>
    processes k (active_process k') = Some x \<and> contexts k' (p_ctx x) = Some y \<and>
    (active_process k' = active_process k \<longrightarrow> resumes u (user_state y w))"
proof -
  let ?k = "set_context k (p_ctx a) (user_context u)"
  obtain c where c: "exec_all Map.empty preempt_save (handler_state s ss0 handler u) = Some c" "regs c ESP = s - 80" "regs c EBP = s - 20"
    "words c (s - 80) = s - 76" "context_at c (s - 76) = user_context u" "segs c CS = 0x08" using preempt_saves [OF assms(1)] by blast
  have same: "runnable ?k p = runnable k p" "prio_of ?k p = prio_of k p" for p by (simp_all add: runnable_def prio_of_def)
  have inv: "sched_inv ?k" by (rule sched_same [OF assms(3)]) simp_all
  have some: "runnable ?k (active_process k)" using assms(3,5) same by (simp add: sched_inv_def)
  then have a: "p_ctx a \<noteq> NULL" "\<exists>v. contexts k (p_ctx a) = Some v" using assms(6,7) unfolding same by blast+
  have cap: "card {p. runnable ?k p} \<le> q_capacity (priority_queue ?k)" using assms(4) same by simp
  from advance_chooses [OF inv cap some, of P] obtain k' p and x :: process_t where k': "kernel_advance_scheduler P ?k = Some (k', p_ctx x)"
    "runnable k p" "processes k p = Some x" "\<forall>q. runnable k q \<longrightarrow> prio_of k p \<le> prio_of k q"
    "k' = ?k\<lparr>mach := paging_load P (mach ?k) (p_page_table x), active_process := p, priority_queue := priority_queue k'\<rparr>"
    unfolding same by auto
  have ctx: "contexts k' = (contexts k)(p_ctx a \<mapsto> user_context u)" "active_process k' = p" by (subst k'(5); simp)+
  obtain y where y: "contexts k' (p_ctx x) = Some y" "context_wf y" "c_cs y AND 3 = 3" "p = active_process k \<longrightarrow> y = user_context u"
  proof (cases "p_ctx x = p_ctx a")
    case True
    then show thesis using that ctx(1) user_context_wf user_context_cs [OF assms(2)] by simp
  next
    case False
    then have "p \<noteq> active_process k" using assms(6) k'(3) by auto
    then show thesis using that False ctx(1) assms(7) k'(2,3) by auto
  qed
  let ?c = "(c_returns x2 0 (p_ctx x) (set_reg ESP (s - 20) (c_returns x1 1 (error_code ENONE) c)))"
  let ?d = "?c\<lparr>regs := (regs ?c)(ESP := s - 28), words := (words ?c)(s - 24 := p_ctx x, s - 28 := ret)\<rparr>"
  have "\<exists>w. load_context (p_ctx x) y ?d = Some (user_state y w)"
    by (rule load_context_enters) (use assms(1,7) k'(2,3) y c(6) in \<open>simp_all add: c_returns_def set_reg_def\<close>)
  then obtain w where w: "load_context (p_ctx x) y ?d = Some (user_state y w)" by blast
  have nz: "p_ctx x \<noteq> NULL" using assms(7) k'(2,3) by blast
  have "do { c \<leftarrow> interrupt_enter s ss0 handler u; isr_preempt P x1 x2 ret k c } = Some (k', user_state y w)"
    using c(1-5) k'(1) y(1) w assms(1) store_context_stores [OF assms(5,6) a] nz
    by (simp add: interrupt_enters isr_preempt_def deref_def Let_def) (simp add: instr_simps c_returns_def)
  then show ?thesis using ctx k'(2-4) y(1,4) user_context_resumes by (intro exI [of _ k'] exI [of _ x] exI [of _ y] exI [of _ w]) auto
qed

text \<open>Witness: of two processes the one that is interrupted has to give way to the other, which is new.\<close>

definition switched_kernel :: "flat kernel_t" where
  "switched_kernel = two_processes\<lparr>contexts := (contexts two_processes)(256 \<mapsto> fresh_context 0xC0000000 0x400000)\<rparr>"

definition interrupted :: cpu where
  "interrupted = \<lparr>regs = (\<lambda>r. if r = ESP then 0xBFFFF000 else if r = EAX then 42 else 7), segs = (\<lambda>r. if r = CS then 0x1B else 0x23),
     eip = 0x401000, eflags = 0x202, words = (\<lambda>a. 0)\<rparr>"

definition quiet :: clobber where "quiet = \<lparr>cl_ecx = 1, cl_edx = 2, cl_eflags = 0, cl_words = (\<lambda>a. 0)\<rparr>"

lemma switched_kernel_facts:
  "sched_inv switched_kernel" "card {p. runnable switched_kernel p} \<le> q_capacity (priority_queue switched_kernel)"
  "active_process switched_kernel = 64" "runnable switched_kernel p \<longleftrightarrow> p = 64 \<or> p = 192"
proof -
  show "sched_inv switched_kernel" by (rule sched_same [OF two_processes_sched]) (simp_all add: switched_kernel_def)
  show r: "runnable switched_kernel p \<longleftrightarrow> p = 64 \<or> p = 192" for p
    using two_processes_runnable [of p] by (simp add: switched_kernel_def runnable_def)
  have "{p. runnable switched_kernel p} = {64, 192}" unfolding r by auto
  then show "card {p. runnable switched_kernel p} \<le> q_capacity (priority_queue switched_kernel)"
    by (simp add: switched_kernel_def two_processes_def queue_of_def)
  show "active_process switched_kernel = 64" by (simp add: switched_kernel_def two_processes_def one_process_def)
qed

lemma fresh_context_fields:
  "context_wf (fresh_context stack pc)" "c_cs (fresh_context stack pc) = 0x1B" "c_eip (fresh_context stack pc) = pc"
  "gp_registers (fresh_context stack pc) ! 7 = stack"
  by (simp_all add: fresh_context_def context_wf_def set_context_stack_def set_context_flags_def set_context_pc_def)

lemma apart_below:
  assumes "unat p + 48 \<le> unat s - 24" "unat s < 2 ^ 32 - 4"
  shows "apart p s"
  unfolding apart_def
proof (intro allI impI)
  fix i j :: nat assume i: "i < 12" and j: "j < 8"
  have n: "unat (4 * of_nat i :: u32) = 4 * i" "unat (4 * of_nat j :: u32) = 4 * j"
    using i j by (simp_all add: unat_word_ariths unsigned_of_nat take_bit_eq_mod)
  have "unat (s + 4) = unat s + 4" using assms(2) by (subst unat_add_le) simp_all
  then have "unat (s + 4 - 4 * of_nat j) = unat s + 4 - 4 * j" using n(2) j assms(1)
    by (subst unat_sub) (simp_all add: word_le_nat_alt)
  moreover have "unat (p + 4 * of_nat i) = unat p + 4 * i" using n(1) i assms by (subst unat_add_le) simp_all
  ultimately show "p + 4 * of_nat i \<noteq> s + 4 - 4 * of_nat j" using i j assms(1) by auto
qed

lemma apart_example: "apart 128 0x1FE4" "apart 256 0x1FE4"
  by (rule apart_below; simp)+

theorem isr_preempt_spec_witness:
  "\<exists>k' c'. do { c \<leftarrow> interrupt_enter 0x2000 0x10 0xFF400400 interrupted; isr_preempt flat_platform quiet quiet 0xFF400500 switched_kernel c } = Some (k', c') \<and>
     active_process k' = 192 \<and> eip c' = 0x400000 \<and> regs c' ESP = 0xC0000000 \<and> contexts k' 128 = Some (user_context interrupted)"
proof -
  have p: "processes switched_kernel 64 = Some x \<Longrightarrow> p_ctx x = 128 \<and> p_priority x = 1" "processes switched_kernel 192 = Some x \<Longrightarrow> p_ctx x = 256 \<and> p_priority x = 0"
    "contexts switched_kernel 256 = Some (fresh_context 0xC0000000 0x400000)" "\<exists>v. contexts switched_kernel 128 = Some v" for x
    by (auto simp: switched_kernel_def two_processes_def one_process_def fresh_process_def)
  have "\<exists>a. processes switched_kernel 64 = Some a" by (simp add: switched_kernel_def two_processes_def one_process_def)
  then obtain a where a: "processes switched_kernel (active_process switched_kernel) = Some a" "p_ctx a = 128"
    using p(1) switched_kernel_facts(3) by auto
  have ctx: "\<forall>p x. runnable switched_kernel p \<longrightarrow> processes switched_kernel p = Some x \<longrightarrow> p_ctx x \<noteq> NULL \<and> apart (p_ctx x) (0x2000 - 28) \<and>
      (\<exists>y. contexts switched_kernel (p_ctx x) = Some y \<and> (p \<noteq> active_process switched_kernel \<longrightarrow> context_wf y \<and> c_cs y AND 3 = 3))"
    using p apart_example switched_kernel_facts(3)
    by (auto simp: switched_kernel_facts(4) fresh_context_fields)
  have al: "aligned 0x2000" "segs interrupted CS AND 3 = 3" "active_process switched_kernel \<noteq> NULL"
    by (simp_all add: aligned_def interrupted_def switched_kernel_facts(3))
  from isr_preempt_spec [OF al(1,2) switched_kernel_facts(1,2) al(3) a(1) ctx, of "0x10" "0xFF400400" flat_platform quiet quiet "0xFF400500"]
  obtain k' x y w where r: "do { c \<leftarrow> interrupt_enter 0x2000 0x10 0xFF400400 interrupted; isr_preempt flat_platform quiet quiet 0xFF400500 switched_kernel c } =
      Some (k', user_state y w)" "contexts k' = (contexts switched_kernel)(p_ctx a \<mapsto> user_context interrupted)"
    "runnable switched_kernel (active_process k')" "\<forall>q. runnable switched_kernel q \<longrightarrow> prio_of switched_kernel (active_process k') \<le> prio_of switched_kernel q"
    "processes switched_kernel (active_process k') = Some x" "contexts k' (p_ctx x) = Some y" by (elim exE conjE)
  have "prio_of switched_kernel (active_process k') \<le> prio_of switched_kernel 192" using r(4) switched_kernel_facts(4) by blast
  moreover have "prio_of switched_kernel 64 = 1" "prio_of switched_kernel 192 = 0"
    by (simp_all add: prio_of_def switched_kernel_def two_processes_def one_process_def fresh_process_def)
  ultimately have n: "active_process k' = 192" using r(3) switched_kernel_facts(4) by auto
  then have "y = fresh_context 0xC0000000 0x400000" using r(2,5,6) p(2,3) a(2) by auto
  then show ?thesis using r(1,2) a(2) n by (auto simp: user_state_def fresh_context_fields)
qed

section \<open>System calls\<close>

lemma syscall_passes:
  assumes "aligned s"
  shows "\<exists>c. exec_all Map.empty syscall_enter (handler_state s ss0 handler u) = Some c \<and> regs c ESP = s - 48 \<and> regs c EBP = s - 20 \<and>
    regs c EBX = regs u EBX \<and> regs c EDI = regs u EDI \<and> regs c ESI = eip u \<and> segs c CS = 0x08 \<and> segs c SS = ss0 \<and>
    map (\<lambda>i. words c (s - 48 + 4 * of_nat i)) [0..<12] = [regs u EAX, regs u EBX, regs u ECX, regs u EDX, eip u, regs u ESP, eflags u,
      eip u, ucast (segs u CS), eflags u, regs u ESP, ucast (segs u SS)]"
  using assms by (simp add: handler_state_def syscall_enter_def instr_simps upt_rec [of _ 12])

text \<open>C16. A system call that returns. \<^verbatim>\<open>do_syscall\<close> gets the number and the arguments that the process passed in its registers, and
  its program counter, stack pointer and flags; the process goes on behind the call, with the same stack and flags, and with the result in
  \<^verbatim>\<open>eax\<close>. It gets back \<^verbatim>\<open>ebx\<close> and \<^verbatim>\<open>edi\<close>, but \<^verbatim>\<open>ebp\<close> now is an address in the kernel's stack and \<^verbatim>\<open>esi\<close> the program counter: the code
  uses both and does not save them.\<close>

theorem isr_syscall_returns:
  assumes "aligned s" "48 \<le> s" "segs u CS AND 3 = 3"
    and "do_syscall P F k (regs u EAX) (regs u EBX) (regs u ECX) (regs u EDX) (eip u) (regs u ESP) (eflags u) = Some (k', Returns result)"
  shows "\<exists>c'. do { c \<leftarrow> interrupt_enter s ss0 handler u; isr_syscall P F x deep k c } = Some (k', c') \<and>
    eip c' = eip u \<and> regs c' ESP = regs u ESP \<and> eflags c' = eflags u \<and> segs c' CS = segs u CS \<and> segs c' SS = segs u SS \<and>
    regs c' EAX = result \<and> regs c' EBX = regs u EBX \<and> regs c' EDI = regs u EDI \<and>
    regs c' EBP = s - 20 \<and> regs c' ESI = eip u \<and> (\<forall>d\<in>{DS, ES, FS, GS}. segs c' d = 0x23)"
proof -
  obtain c where c: "exec_all Map.empty syscall_enter (handler_state s ss0 handler u) = Some c" "regs c ESP = s - 48" "regs c EBP = s - 20"
    "regs c EBX = regs u EBX" "regs c EDI = regs u EDI" "regs c ESI = eip u" "segs c CS = 0x08"
    "map (\<lambda>i. words c (s - 48 + 4 * of_nat i)) [0..<12] = [regs u EAX, regs u EBX, regs u ECX, regs u EDX, eip u, regs u ESP, eflags u,
      eip u, ucast (segs u CS), eflags u, regs u ESP, ucast (segs u SS)]" using syscall_passes [OF assms(1), of ss0 handler u] by (elim exE conjE)
  have w: "words c (s - 48) = regs u EAX" "words c (s - 44) = regs u EBX" "words c (s - 40) = regs u ECX" "words c (s - 36) = regs u EDX"
    "words c (s - 32) = eip u" "words c (s - 28) = regs u ESP" "words c (s - 24) = eflags u" "words c (s - 20) = eip u"
    "words c (s - 16) = ucast (segs u CS)" "words c (s - 12) = eflags u" "words c (s - 8) = regs u ESP" "words c (s - 4) = ucast (segs u SS)"
    using c(8) by (simp_all add: upt_rec [of _ 12])
  have le: "s - 20 \<le> s - 16" "s - 20 \<le> s - 12" "s - 20 \<le> s - 8" "s - 20 \<le> s - 4"
    using assms(2) by (simp_all add: word_le_nat_alt unat_sub)
  have cs: "(ucast (segs u CS) :: u32) AND 3 = 3" using user_context_cs [OF assms(3)] by (simp add: user_context_def)
  show ?thesis using c(1-7) w le cs assms(1,4)
    by (simp add: interrupt_enters isr_syscall_def Let_def) (simp add: syscall_leave_def instr_simps c_returns_def iret_def half_selector)
qed

text \<open>Witness: a call with one argument, which the function returns.\<close>

theorem isr_syscall_returns_witness:
  "\<exists>k' c'. do { c \<leftarrow> interrupt_enter 0x2000 0x10 0xFF400400 interrupted;
       isr_syscall flat_platform (\<lambda>f args k. Some (k, Returns (hd args + 1))) quiet 0x1000
         (switched_kernel\<lparr>syscall_table := (replicate MAX_SYSCALL_ID empty_syscall)[42 :=
            \<lparr>sys_defined = True, sys_arg_count = 1, sys_process_id = 0, sys_func_ptr = 0xFF400600\<rparr>]\<rparr>) c } = Some (k', c') \<and>
     eip c' = 0x401000 \<and> regs c' ESP = 0xBFFFF000 \<and> regs c' EAX = 8 \<and> regs c' EBP = 0x1FEC"
proof -
  let ?F = "\<lambda>f args (k :: flat kernel_t). Some (k, Returns (hd args + 1 :: u32))"
  let ?k = "switched_kernel\<lparr>syscall_table := (replicate MAX_SYSCALL_ID empty_syscall)[42 :=
    \<lparr>sys_defined = True, sys_arg_count = 1, sys_process_id = 0, sys_func_ptr = 0xFF400600\<rparr>]\<rparr>"
  have "\<exists>k'. do_syscall flat_platform ?F ?k 42 7 7 7 0x401000 0xBFFFF000 0x202 = Some (k', Returns 8)"
    by (simp add: do_syscall_def save_registers_def deref_def arr_get_def MAX_SYSCALL_ID_def switched_kernel_def two_processes_def one_process_def
        fresh_process_def)
  then obtain k' where r: "do_syscall flat_platform ?F ?k 42 7 7 7 0x401000 0xBFFFF000 0x202 = Some (k', Returns 8)" by blast
  have u: "regs interrupted EAX = 42" "regs interrupted EBX = 7" "regs interrupted ECX = 7" "regs interrupted EDX = 7" "eip interrupted = 0x401000"
    "regs interrupted ESP = 0xBFFFF000" "eflags interrupted = 0x202" "segs interrupted CS AND 3 = 3" "aligned 0x2000"
    by (simp_all add: interrupted_def aligned_def)
  have le: "48 \<le> (0x2000 :: u32)" by simp
  from isr_syscall_returns [OF u(9) le u(8), unfolded u(1-7), OF r, of "0x10" "0xFF400400" quiet "0x1000"] show ?thesis by auto
qed

text \<open>A system call that enters a process instead, as after a message that was not there: that process goes on as its context says.\<close>

theorem isr_syscall_enters:
  assumes "aligned s" "aligned deep" "apart p deep" "p \<noteq> NULL"
    and "do_syscall P F k (regs u EAX) (regs u EBX) (regs u ECX) (regs u EDX) (eip u) (regs u ESP) (eflags u) = Some (k', Enters p)"
    and "contexts k' p = Some y" "context_wf y" "c_cs y AND 3 = 3"
  shows "\<exists>w. do { c \<leftarrow> interrupt_enter s ss0 handler u; isr_syscall P F x deep k c } = Some (k', user_state y w)"
proof -
  obtain c where c: "exec_all Map.empty syscall_enter (handler_state s ss0 handler u) = Some c" "regs c ESP = s - 48" "segs c CS = 0x08"
    "map (\<lambda>i. words c (s - 48 + 4 * of_nat i)) [0..<12] = [regs u EAX, regs u EBX, regs u ECX, regs u EDX, eip u, regs u ESP, eflags u,
      eip u, ucast (segs u CS), eflags u, regs u ESP, ucast (segs u SS)]" using syscall_passes [OF assms(1), of ss0 handler u] by (elim exE conjE)
  have w: "words c (s - 48) = regs u EAX" "words c (s - 44) = regs u EBX" "words c (s - 40) = regs u ECX" "words c (s - 36) = regs u EDX"
    "words c (s - 32) = eip u" "words c (s - 28) = regs u ESP" "words c (s - 24) = eflags u"
    using c(4) by (simp_all add: upt_rec [of _ 12])
  have "\<exists>w. load_context p y (set_reg ESP deep (c_returns x 7 0 c)\<lparr>words := (cl_words x)(deep + 4 := p)\<rparr>) = Some (user_state y w)"
    by (rule load_context_enters) (use assms(2,3,7,8) c(3) in \<open>simp_all add: set_reg_def c_returns_def\<close>)
  then obtain m where "load_context p y (set_reg ESP deep (c_returns x 7 0 c)\<lparr>words := (cl_words x)(deep + 4 := p)\<rparr>) = Some (user_state y m)" by blast
  then show ?thesis using c(1,2) w assms(1,4,5,6)
    by (intro exI [of _ m]) (simp add: interrupt_enters isr_syscall_def deref_def Let_def)
qed

text \<open>What \<^verbatim>\<open>do_syscall\<close> saves before the call is the program counter, the stack pointer and the flags. A process that blocks in it later
  goes on with the other registers of its last interruption, not with those it had at the call.\<close>

theorem save_registers_leaves_others:
  assumes "save_registers k pc stack flags = Some k'" "processes k (active_process k) = Some a" "contexts k (p_ctx a) = Some y" "r < 7"
  shows "\<exists>y'. contexts k' (p_ctx a) = Some y' \<and> gp_registers y' ! r = gp_registers y ! r"
  using assms by (auto simp: save_registers_def deref_def set_context_flags_def set_context_stack_def set_context_pc_def
      split: if_splits)

section \<open>Entry\<close>

text \<open>\<^verbatim>\<open>_start\<close> runs with paging off. The values of \<^verbatim>\<open>linker.ld\<close>, and the symbols that the linker places.\<close>

definition VIRTUAL_BASE :: u32 where "VIRTUAL_BASE = 0xFF400000"
definition PHYSICAL_BASE :: u32 where "PHYSICAL_BASE = 0x100000"
definition BASE_DIFF :: u32 where "BASE_DIFF = VIRTUAL_BASE - PHYSICAL_BASE"

record entry_symbols =
  entry_stack :: ptr
  default_page_dir :: ptr
  default_page_table :: ptr
  identity_map :: ptr

text \<open>The arguments of \<^verbatim>\<open>start_paging\<close>, the last one first. Between the two lists the code reads the size of the boot loader's information, its
  first word; all other accesses go to the stack.\<close>

definition push_tables :: "entry_symbols \<Rightarrow> instr list" where
  "push_tables y =
    [Mov_imm (entry_stack y) ESP,
     Sub_imm BASE_DIFF ESP,
     Mov_imm (identity_map y) EAX, Sub_imm BASE_DIFF EAX, Push EAX,
     Mov_imm (default_page_table y) EAX, Sub_imm BASE_DIFF EAX, Push EAX,
     Mov_imm (default_page_dir y) EAX, Sub_imm BASE_DIFF EAX, Push EAX]"

definition push_addresses :: "instr list" where
  "push_addresses =
    [Add EBX EAX, Push EAX,
     Mov_imm PHYSICAL_BASE EAX, Push EAX,
     Mov_imm VIRTUAL_BASE EAX, Push EAX]"

text \<open>It ends in \<^verbatim>\<open>.err\<close>, where the processor is halted with interrupts off, or calls \<^verbatim>\<open>x86_startup\<close>. The comparisons are signed.\<close>

datatype entry_end = Halts | Calls_startup ptr

definition start :: "entry_symbols \<Rightarrow> clobber \<Rightarrow> mmu \<Rightarrow> cpu \<Rightarrow> (mmu \<times> entry_end) option" where
  "start y x m c = do {
     c \<leftarrow> exec Map.empty Cli c;
     if regs c EAX \<noteq> 0x36d76289 then Some (m, Halts)
     else do {
       c \<leftarrow> exec_all Map.empty (push_tables y) c;
       c \<leftarrow> exec (\<lambda>a. Some (mem m (frame_of a) (word_at a))) (Mov_load 0 EBX EAX) c;
       c \<leftarrow> exec_all Map.empty push_addresses c;
       let arg = (\<lambda>i. words c (regs c ESP + 4 * i));
       (m, n) \<leftarrow> start_paging m (arg 0) (arg 1) (arg 2) (arg 3) (arg 4) (arg 5);
       c \<leftarrow> exec_all Map.empty [Mov_imm (entry_stack y) ESP, Add_imm BASE_DIFF EBX] (c_returns x 6 n c);
       if regs c EBX <s VIRTUAL_BASE then Some (m, Halts)
       else if \<not> regs c EBX <s 0xFFC00000 then Some (m, Halts)
       else Some (m, Calls_startup (regs c EBX)) } }"

lemma sint_high: "0x80000000 \<le> x \<Longrightarrow> sint (x :: u32) = uint x - 2 ^ 32" "x < 0x80000000 \<Longrightarrow> sint x = uint x"
proof -
  have b: "0 \<le> uint x \<and> uint x < 2 ^ 32" using uint_bounded [of x] by simp
  have s: "sint x = signed_take_bit 31 (uint x)" by (simp add: sint_uint)
  show "0x80000000 \<le> x \<Longrightarrow> sint x = uint x - 2 ^ 32" "x < 0x80000000 \<Longrightarrow> sint x = uint x"
    using b mod_pos_geq [of "2 ^ 32" "uint x + 2 ^ 31"] unfolding s signed_take_bit_eq_take_bit_shift take_bit_eq_mod
    by (simp_all add: word_le_def word_less_def)
qed

lemma signed_window: "\<not> x <s VIRTUAL_BASE \<and> x <s 0xFFC00000 \<longleftrightarrow> VIRTUAL_BASE \<le> x \<and> x < 0xFFC00000"
proof -
  have v: "sint VIRTUAL_BASE = 0xFF400000 - 2 ^ 32" "sint (0xFFC00000 :: u32) = 0xFFC00000 - 2 ^ 32"
    by (simp_all add: VIRTUAL_BASE_def sint_high(1))
  show ?thesis
  proof (cases "0x80000000 \<le> x")
    case True
    then show ?thesis using sint_high(1) [OF True] v by (auto simp: word_sless_alt word_le_def word_less_def VIRTUAL_BASE_def)
  next
    case False
    then have "x < 0x80000000" by simp
    from sint_high(2) [OF this] show ?thesis using v False
      by (auto simp: word_sless_alt word_le_def word_less_def VIRTUAL_BASE_def) (use uint_nonnegative [of x] in linarith)+
  qed
qed

lemma start_passes:
  assumes "s = entry_stack y - BASE_DIFF" "aligned s"
  shows "\<exists>c1 c2. exec_all Map.empty (push_tables y) c = Some c1 \<and> regs c1 EBX = regs c EBX \<and>
    exec_all Map.empty push_addresses (set_reg EAX len c1) = Some c2 \<and> regs c2 EBX = regs c EBX \<and> regs c2 ESP = s - 24 \<and>
    map (\<lambda>i. words c2 (s - 24 + 4 * of_nat i)) [0..<6] = [VIRTUAL_BASE, PHYSICAL_BASE, len + regs c EBX,
      default_page_dir y - BASE_DIFF, default_page_table y - BASE_DIFF, identity_map y - BASE_DIFF]"
  using assms(2)
  by (simp add: push_tables_def push_addresses_def instr_simps assms(1) [symmetric] upt_rec [of _ 6])

text \<open>With the right magic number and a word-aligned stack, \<^verbatim>\<open>_start\<close> calls \<^verbatim>\<open>start_paging\<close> with the linear base of the kernel, the range of physical
  memory from its base to the end of the boot loader's information, and the physical addresses of the three tables; and then
  \<^verbatim>\<open>x86_startup\<close> with the linear address of the information, exactly if that lies in the 8 MB that the kernel can map there.\<close>

theorem start_spec:
  assumes "regs c EAX = 0x36d76289" "aligned (entry_stack y - BASE_DIFF)"
    and "start_paging m VIRTUAL_BASE PHYSICAL_BASE (regs c EBX + mem m (frame_of (regs c EBX)) (word_at (regs c EBX)))
      (default_page_dir y - BASE_DIFF) (default_page_table y - BASE_DIFF) (identity_map y - BASE_DIFF) = Some (m', n)"
  shows "start y x m c = Some (m', if VIRTUAL_BASE \<le> regs c EBX + BASE_DIFF \<and> regs c EBX + BASE_DIFF < 0xFFC00000
    then Calls_startup (regs c EBX + BASE_DIFF) else Halts)"
proof -
  let ?size = "mem m (frame_of (regs c EBX)) (word_at (regs c EBX))" and ?s = "entry_stack y - BASE_DIFF"
  let ?c = "c\<lparr>eflags := eflags c AND NOT 0x200\<rparr>"
  obtain c1 c2 where c: "exec_all Map.empty (push_tables y) ?c = Some c1" "regs c1 EBX = regs c EBX"
    "exec_all Map.empty push_addresses (set_reg EAX ?size c1) = Some c2" "regs c2 EBX = regs c EBX" "regs c2 ESP = ?s - 24"
    "map (\<lambda>i. words c2 (?s - 24 + 4 * of_nat i)) [0..<6] = [VIRTUAL_BASE, PHYSICAL_BASE, ?size + regs c EBX,
      default_page_dir y - BASE_DIFF, default_page_table y - BASE_DIFF, identity_map y - BASE_DIFF]"
    using start_passes [OF refl assms(2), of ?c ?size] by auto
  have w: "words c2 (?s - 24) = VIRTUAL_BASE" "words c2 (?s - 24 + 4) = PHYSICAL_BASE" "words c2 (?s - 24 + 8) = regs c EBX + ?size"
    "words c2 (?s - 24 + 12) = default_page_dir y - BASE_DIFF" "words c2 (?s - 24 + 16) = default_page_table y - BASE_DIFF"
    "words c2 (?s - 24 + 20) = identity_map y - BASE_DIFF"
    using c(6) by (simp_all add: upt_rec [of _ 6] add.commute)
  have r: "start_paging m (words c2 (?s - 24)) (words c2 (?s - 24 + 4)) (words c2 (?s - 24 + 8)) (words c2 (?s - 24 + 12))
      (words c2 (?s - 24 + 16)) (words c2 (?s - 24 + 20)) = Some (m', n)" unfolding w by (rule assms(3))
  show ?thesis using assms(1) c(1-5) r signed_window [of "regs c EBX + BASE_DIFF"]
    by (simp add: start_def load_def Let_def) (auto simp: set_reg_def c_returns_def)
qed

end
