(* ===== verification/Machine_Stack.thy ===== *)
theory Machine_Stack
  imports Kernel_Handlers Byte_Memory
begin

text \<open>
  The stacks that the kernel writes for user processes, on the machine: memory behind page tables is plain where every page of
  it is mapped for writing to a frame of its own that holds no table.
\<close>

section \<open>Plain memory\<close>

definition plain_at :: "mmu \<Rightarrow> ptr \<Rightarrow> nat \<Rightarrow> bool" where
  "plain_at m p n \<longleftrightarrow> space_ok m \<and> n < 2 ^ 32 \<and>
     (\<forall>i<n. \<exists>f. translate m (p + of_nat i) True = Some f \<and> f \<notin> table_frames m) \<and>
     (\<forall>i<n. \<forall>j<n. translate m (p + of_nat i) True = translate m (p + of_nat j) True \<longrightarrow> on_page (p + of_nat i) (p + of_nat j))"

definition plain_memory :: "'h machine \<Rightarrow> ptr \<Rightarrow> nat \<Rightarrow> bool" where
  "plain_memory s p n \<longleftrightarrow> plain_at (mm s) p n"

lemma translate_read: "translate m q True = Some f \<Longrightarrow> translate m q False = Some f"
  by (auto simp: translate_space split: if_splits)

lemma plain_same: "plain_at m p n \<Longrightarrow> same_space m m' \<Longrightarrow> plain_at m' p n"
  using same_spaceD [of m m'] by (auto simp: plain_at_def)

lemma those_some: "those ys = Some xs \<longleftrightarrow> ys = map Some xs"
  by (induction ys arbitrary: xs) (auto split: option.splits)

lemma read_mem_bytes: "read_mem m p n = Some xs \<longleftrightarrow> length xs = n \<and> (\<forall>j<n. load8 m (p + of_nat j) = Some (xs ! j))"
  unfolding read_mem_def those_some by (auto simp: list_eq_iff_nth_eq)

lemma read_mem_part:
  assumes "read_mem m p n = Some xs" "i + j \<le> n"
  shows "read_mem m (p + of_nat i) j = Some (take j (drop i xs))"
  unfolding read_mem_bytes
proof (intro conjI allI impI)
  show "length (take j (drop i xs)) = j" using assms by (simp add: read_mem_bytes)
  fix l assume l: "l < j"
  have "\<forall>k<n. load8 m (p + of_nat k) = Some (xs ! k)" using assms(1) by (simp add: read_mem_bytes)
  from this [rule_format, of "i + l"] have "load8 m (p + of_nat (i + l)) = Some (xs ! (i + l))" using l assms(2) by simp
  then show "load8 m (p + of_nat i + of_nat l) = Some (take j (drop i xs) ! l)"
    using l assms by (simp add: read_mem_bytes add.assoc)
qed

lemma plain_reads:
  assumes "plain_at m p n"
  shows "\<exists>xs. read_mem m p n = Some xs"
proof -
  have "load8 m (p + of_nat j) = Some (the (load8 m (p + of_nat j)))" if "j < n" for j
    using assms that translate_read by (fastforce simp: plain_at_def load8_byte)
  then have "read_mem m p n = Some (map (\<lambda>j. the (load8 m (p + of_nat j))) [0..<n])" by (simp add: read_mem_bytes)
  then show ?thesis ..
qed

text \<open>Writing a byte of plain memory.\<close>

lemma store8_plain:
  assumes "plain_at m p n" "i < n"
  obtains m' where "store8 m (p + of_nat i) b = Some m'" "plain_at m' p n"
    "\<And>j. j < n \<Longrightarrow> load8 m' (p + of_nat j) = (if j = i then Some b else load8 m (p + of_nat j))"
proof -
  from assms obtain f where f: "space_ok m" "translate m (p + of_nat i) True = Some f" "f \<notin> table_frames m" by (auto simp: plain_at_def)
  obtain m' where m': "store8 m (p + of_nat i) b = Some m'" "same_space m m'"
    "\<And>q. load8 m' q = (if translate m q False = Some f \<and> word_at q = word_at (p + of_nat i) \<and> byte_shift q = byte_shift (p + of_nat i) then Some b else load8 m q)"
    by (rule store8_data [OF f]) blast
  have at: "load8 m' (p + of_nat j) = (if j = i then Some b else load8 m (p + of_nat j))" if j: "j < n" for j
  proof (cases "j = i")
    case True
    then show ?thesis using m'(3) translate_read [OF f(2)] by simp
  next
    case False
    have n: "n < 2 ^ 32" using assms(1) by (simp add: plain_at_def)
    have ne: "p + of_nat j \<noteq> p + of_nat i"
    proof
      assume "p + of_nat j = p + of_nat i"
      then have "(of_nat j :: u32) = of_nat i" by simp
      then have "unat (of_nat j :: u32) = unat (of_nat i :: u32)" by simp
      then show False using False j assms(2) n by (simp add: unat_of_nat)
    qed
    obtain g where g: "translate m (p + of_nat j) True = Some g" using assms(1) j by (auto simp: plain_at_def)
    have "on_page (p + of_nat j) (p + of_nat i)" if "g = f"
      using assms j g f(2) that by (simp add: plain_at_def)
    then have "\<not> (translate m (p + of_nat j) False = Some f \<and> word_at (p + of_nat j) = word_at (p + of_nat i) \<and> byte_shift (p + of_nat j) = byte_shift (p + of_nat i))"
      using translate_read [OF g] address_parts [of "p + of_nat j" "p + of_nat i"] ne by (auto simp: on_page_def)
    then show ?thesis using m'(3) [of "p + of_nat j"] False by (auto simp del: not_imp)
  qed
  from that [OF m'(1) plain_same [OF assms(1) m'(2)] at] show thesis .
qed

lemma write_mem_plain:
  assumes "plain_at m p n" "i + length bs \<le> n" "write_mem m (p + of_nat i) bs = Some m'"
  shows "plain_at m' p n \<and> (\<forall>j<n. load8 m' (p + of_nat j) = (if i \<le> j \<and> j < i + length bs then Some (bs ! (j - i)) else load8 m (p + of_nat j)))"
  using assms
proof (induction bs arbitrary: m i)
  case (Cons b bs)
  then have "i < n" by simp
  then obtain m1 where m1: "store8 m (p + of_nat i) b = Some m1" "plain_at m1 p n"
    "\<And>j. j < n \<Longrightarrow> load8 m1 (p + of_nat j) = (if j = i then Some b else load8 m (p + of_nat j))"
    by (rule store8_plain [OF Cons.prems(1)]) blast
  have "write_mem m1 (p + of_nat (Suc i)) bs = Some m'" using Cons.prems(3) m1(1) by (simp add: algebra_simps)
  from Cons.IH [OF m1(2) _ this] Cons.prems(2) m1(3) show ?case
    by (auto simp: nth_Cons' not_less_eq_eq Suc_diff_le le_less_Suc_eq)
qed auto

section \<open>The machine keeps what is written\<close>

sublocale libmalloc < quark_stack: stack_platform "quark_platform L" "\<lambda>s. used (system_heap s)" plain_memory
proof (unfold_locales, goal_cases)
  case (1 s p n)
  then show ?case using plain_reads by (simp add: quark_platform_def plain_memory_def)
next
  case (2 s p n xs i j)
  then show ?case using read_mem_part by (simp add: quark_platform_def)
next
  case (3 s p n xs i bs s')
  then obtain m' where m': "write_mem (mm s) (p + of_nat i) bs = Some m'" "s' = s\<lparr>mm := m'\<rparr>" by (auto simp: quark_platform_def)
  have r: "length xs = n" "\<forall>j<n. load8 (mm s) (p + of_nat j) = Some (xs ! j)" using 3(2) by (simp_all add: quark_platform_def read_mem_bytes)
  note w = write_mem_plain [OF 3(1) [unfolded plain_memory_def] 3(3) m'(1)]
  have "read_mem m' p n = Some (take i xs @ bs @ drop (i + length bs) xs)"
    unfolding read_mem_bytes using w r 3(3) by (auto simp: nth_append)
  then show ?case using w m'(2) by (simp add: quark_platform_def plain_memory_def)
qed

end
