(* ===== verification/Quark_Math.thy ===== *)
theory Quark_Math
  imports Prelude
begin

text \<open>
  The logarithms of \<^verbatim>\<open>src/math.c\<close>: the branches for compilers with \<^verbatim>\<open>__builtin_clz\<close> and those with a table, for \<^verbatim>\<open>int\<close> of 32 bits and
  \<^verbatim>\<open>long\<close> of 32 (the i386 target) or 64 bits.
\<close>

unbundle bit_operations_syntax

section \<open>The code\<close>

text \<open>\<^verbatim>\<open>__builtin_clz\<close>: the number of leading zero bits. It is undefined for 0, where the code never uses it.\<close>

definition builtin_clz :: "u32 \<Rightarrow> nat" where
  "builtin_clz x = length (takeWhile (\<lambda>i. \<not> bit x i) (rev [0..<32]))"

definition ilog2 :: "u32 \<Rightarrow> int" where
  "ilog2 x = (if x \<le> 1 then 0 else 32 - int (builtin_clz (x - 1)))"

definition llog2 :: "u32 \<Rightarrow> int" where
  "llog2 x = (if x \<le> 1 then 0 else 32 - int (builtin_clz (x - 1)))"

definition log_table :: "int list" where
  "log_table =
    [0, 9, 1, 10, 13, 21, 2, 29,
     11, 14, 16, 18, 22, 25, 3, 30,
     8, 12, 20, 28, 15, 17, 24, 7,
     19, 27, 23, 6, 26, 5, 4, 31]"

text \<open>The five statements \<^verbatim>\<open>x |= x >> n\<close>.\<close>

definition smear :: "u32 \<Rightarrow> u32" where
  "smear x = (let x = x OR drop_bit 1 x; x = x OR drop_bit 2 x; x = x OR drop_bit 4 x; x = x OR drop_bit 8 x in x OR drop_bit 16 x)"

definition ilog2_table :: "u32 \<Rightarrow> int option" where
  "ilog2_table x = arr_get log_table (unat (drop_bit 27 (smear x * 0x07C4ACDD)))"

definition llog2_table :: "u32 \<Rightarrow> int option" where
  "llog2_table x = arr_get log_table (unat (drop_bit 27 (smear x * 0x07C4ACDD)))"

text \<open>The branches of \<^verbatim>\<open>llog2\<close> for longs of 64 bits.\<close>

definition builtin_clzl :: "64 word \<Rightarrow> nat" where
  "builtin_clzl x = length (takeWhile (\<lambda>i. \<not> bit x i) (rev [0..<64]))"

definition llog2_64 :: "64 word \<Rightarrow> int" where
  "llog2_64 x = (if x \<le> 1 then 0 else 64 - int (builtin_clzl (x - 1)))"

definition log_table_64 :: "int list" where
  "log_table_64 =
    [0, 58, 1, 59, 47, 53, 2, 60, 39, 48, 27, 54, 33, 42, 3, 61,
     51, 37, 40, 49, 18, 28, 20, 55, 30, 34, 11, 43, 14, 22, 4, 62,
     57, 46, 52, 38, 26, 32, 41, 50, 36, 17, 19, 29, 10, 13, 21, 56,
     45, 25, 31, 35, 16, 9, 12, 44, 24, 15, 8, 23, 7, 6, 5, 63]"

definition smear_64 :: "64 word \<Rightarrow> 64 word" where
  "smear_64 x = (let x = x OR drop_bit 1 x; x = x OR drop_bit 2 x; x = x OR drop_bit 4 x; x = x OR drop_bit 8 x; x = x OR drop_bit 16 x
     in x OR drop_bit 32 x)"

definition llog2_table_64 :: "64 word \<Rightarrow> int option" where
  "llog2_table_64 x = arr_get log_table_64 (unat (drop_bit 58 (smear_64 x * 0x03f6eaf2cd271461)))"

section \<open>The most significant bit\<close>

definition msb_at :: "'a :: len word \<Rightarrow> nat \<Rightarrow> bool" where
  "msb_at (x :: 'a word) n \<longleftrightarrow> n < LENGTH('a) \<and> bit x n \<and> (\<forall>i>n. \<not> bit x i)"

lemma msb_exists: assumes "(x :: 'a :: len word) \<noteq> 0" shows "\<exists>n. msb_at x n"
proof -
  from assms obtain i where i: "bit x i" using bit_eq_iff [of x 0] by auto
  have "\<forall>j. bit x j \<longrightarrow> j \<le> LENGTH('a)" using bit_imp_le_length [of x] by fastforce
  with i have "bit x (Greatest (bit x))" "\<forall>j. bit x j \<longrightarrow> j \<le> Greatest (bit x)"
    by (blast intro: GreatestI_nat Greatest_le_nat)+
  then show ?thesis using bit_imp_le_length [of x] by (fastforce simp: msb_at_def not_le [symmetric])
qed

lemma msb_range: assumes "msb_at x n" shows "2 ^ n \<le> unat x" "unat x < 2 ^ (n + 1)"
proof -
  have "take_bit (n + 1) x = x"
    using assms by (intro bit_eqI) (auto simp: msb_at_def bit_simps not_less less_Suc_eq_le [symmetric] Suc_le_eq)
  then have "take_bit (n + 1) (unat x) = unat x" by (metis unsigned_take_bit_eq)
  then show "unat x < 2 ^ (n + 1)" by (metis take_bit_nat_less_exp)
  have "bit (unat x) n" using assms by (simp add: msb_at_def bit_unsigned_iff)
  then have "odd (unat x div 2 ^ n)" by (simp add: bit_iff_odd)
  then show "2 ^ n \<le> unat x" by (metis div_less even_zero not_le)
qed

lemma upt_split: "n < N \<Longrightarrow> [0..<N] = [0..<n] @ n # [Suc n..<N]"
  using upt_add_eq_append [of 0 n "N - n"] by (simp add: upt_conv_Cons)

lemma leading_zeros: assumes "msb_at x n" "n < N" shows "length (takeWhile (\<lambda>i. \<not> bit x i) (rev [0..<N])) = N - Suc n"
proof -
  have n: "bit x n" "\<forall>i>n. \<not> bit x i" using assms(1) by (auto simp: msb_at_def)
  have "takeWhile (\<lambda>i. \<not> bit x i) (rev [Suc n..<N] @ n # rev [0..<n]) = rev [Suc n..<N]"
    using n by (subst takeWhile_append2) auto
  then show ?thesis using upt_split [OF assms(2)] by simp
qed

lemma clz_msb: "msb_at x n \<Longrightarrow> builtin_clz x = 31 - n" "msb_at y n \<Longrightarrow> builtin_clzl y = 63 - n"
  using leading_zeros [of x n 32] leading_zeros [of y n 64] by (simp_all add: builtin_clz_def builtin_clzl_def msb_at_def)

lemma builtin_clz_log: "x \<noteq> 0 \<Longrightarrow> msb_at x n \<Longrightarrow> 32 - int (builtin_clz x) = int n + 1"
  by (simp add: clz_msb of_nat_diff msb_at_def)

text \<open>\<^verbatim>\<open>32 - __builtin_clz(x - 1)\<close> is the logarithm rounded up.\<close>

lemma ceil_from_msb:
  assumes "x > 1" "msb_at (x - 1) n"
  shows "2 ^ n < unat x \<and> unat x \<le> 2 ^ Suc n"
proof -
  have u: "unat (x - 1) = unat x - 1" "unat x > 1" using assms(1) by (simp_all add: word_less_nat_alt unat_sub word_le_nat_alt)
  have "2 ^ n \<le> unat x - 1" "unat x - 1 < 2 ^ Suc n" using msb_range [OF assms(2)] unfolding u(1) Suc_eq_plus1 by blast+
  then show ?thesis using u(2) by linarith
qed

lemma msb_below: "x > 1 \<Longrightarrow> \<exists>n. msb_at (x - 1) n"
  by (rule msb_exists) auto

lemma clz_ceil:
  "x > 1 \<Longrightarrow> \<exists>n. 32 - int (builtin_clz (x - 1)) = int (Suc n) \<and> n < 32 \<and> 2 ^ n < unat x \<and> unat x \<le> 2 ^ Suc n"
  "y > 1 \<Longrightarrow> \<exists>n. 64 - int (builtin_clzl (y - 1)) = int (Suc n) \<and> n < 64 \<and> 2 ^ n < unat y \<and> unat y \<le> 2 ^ Suc n"
proof -
  show "\<exists>n. 32 - int (builtin_clz (x - 1)) = int (Suc n) \<and> n < 32 \<and> 2 ^ n < unat x \<and> unat x \<le> 2 ^ Suc n" if x: "x > 1"
  proof -
    obtain n where n: "msb_at (x - 1) n" using msb_below [OF x] by blast
    then show ?thesis using clz_msb(1) [OF n] ceil_from_msb [OF x n] by (intro exI [of _ n]) (auto simp: msb_at_def of_nat_diff)
  qed
  show "\<exists>n. 64 - int (builtin_clzl (y - 1)) = int (Suc n) \<and> n < 64 \<and> 2 ^ n < unat y \<and> unat y \<le> 2 ^ Suc n" if y: "y > 1"
  proof -
    obtain n where n: "msb_at (y - 1) n" using msb_below [OF y] by blast
    then show ?thesis using clz_msb(2) [OF n] ceil_from_msb [OF y n] by (intro exI [of _ n]) (auto simp: msb_at_def of_nat_diff)
  qed
qed

section \<open>The table\<close>

text \<open>\<open>window x k y\<close>: bit \<open>n\<close> of \<open>y\<close> tells whether one of the \<open>k\<close> bits of \<open>x\<close> from \<open>n\<close> upwards is set.\<close>

definition window :: "'a :: len word \<Rightarrow> nat \<Rightarrow> 'a word \<Rightarrow> bool" where
  "window x k y \<longleftrightarrow> (\<forall>n. bit y n \<longleftrightarrow> (\<exists>m. n \<le> m \<and> m < n + k \<and> bit x m))"

lemma window_start: "window x 1 x"
  by (auto simp: window_def le_less_Suc_eq [symmetric] dest: le_antisym) 

lemma window_double: assumes "window x k y" shows "window x (2 * k) (y OR drop_bit k y)"
  unfolding window_def
proof (intro allI)
  fix n
  have y: "bit y i \<longleftrightarrow> (\<exists>m. i \<le> m \<and> m < i + k \<and> bit x m)" for i using assms by (simp add: window_def)
  have "bit (y OR drop_bit k y) n \<longleftrightarrow> (\<exists>m. n \<le> m \<and> m < n + k \<and> bit x m) \<or> (\<exists>m. k + n \<le> m \<and> m < k + n + k \<and> bit x m)"
    by (simp add: bit_or_iff bit_drop_bit_eq y)
  also have "\<dots> \<longleftrightarrow> (\<exists>m. (n \<le> m \<and> m < n + k \<or> k + n \<le> m \<and> m < k + n + k) \<and> bit x m)" by blast
  also have "\<dots> \<longleftrightarrow> (\<exists>m. n \<le> m \<and> m < n + 2 * k \<and> bit x m)" by (intro ex_cong1) auto
  finally show "bit (y OR drop_bit k y) n \<longleftrightarrow> (\<exists>m. n \<le> m \<and> m < n + 2 * k \<and> bit x m)" .
qed

lemma window_all:
  assumes "window x (LENGTH('a)) y" "msb_at x n"
  shows "y = (mask (n + 1) :: 'a :: len word)"
proof -
  have "n < LENGTH('a)" "bit x n" "bit x m \<Longrightarrow> m \<le> n" for m using assms(2) by (auto simp: msb_at_def not_less [symmetric])
  then have "bit y i \<longleftrightarrow> i \<le> n" for i using assms(1) unfolding window_def by (auto intro: exI [of _ n] le_trans)
  then show ?thesis using assms(2) by (intro bit_eqI) (auto simp: bit_mask_iff msb_at_def)
qed

lemmas window_32 = window_double [OF window_double [OF window_double [OF window_double [OF window_double [OF window_start]]]]]

lemma smear_msb: "msb_at x n \<Longrightarrow> smear x = mask (n + 1)" "msb_at y n \<Longrightarrow> smear_64 y = mask (n + 1)"
proof -
  have "window x 32 (smear x)" using window_32 [of x] by (simp add: smear_def Let_def)
  then show "msb_at x n \<Longrightarrow> smear x = mask (n + 1)" by (intro window_all) simp_all
  have "window y 64 (smear_64 y)" using window_double [OF window_32 [of y]] by (simp add: smear_64_def Let_def)
  then show "msb_at y n \<Longrightarrow> smear_64 y = mask (n + 1)" by (intro window_all) simp_all
qed

lemma table_mask:
  assumes "n < 32"
  shows "arr_get log_table (unat (drop_bit 27 (mask (n + 1) * 0x07C4ACDD :: u32))) = Some (int n)"
proof -
  have "\<forall>n\<in>set [0..<32]. arr_get log_table (unat (drop_bit 27 (mask (n + 1) * 0x07C4ACDD :: u32))) = Some (int n)"
    by code_simp
  then show ?thesis using assms by (metis atLeast0LessThan lessThan_iff set_upt)
qed

lemma table_mask_64:
  assumes "n < 64"
  shows "arr_get log_table_64 (unat (drop_bit 58 (mask (n + 1) * 0x03f6eaf2cd271461 :: 64 word))) = Some (int n)"
proof -
  have "\<forall>n\<in>set [0..<64]. arr_get log_table_64 (unat (drop_bit 58 (mask (n + 1) * 0x03f6eaf2cd271461 :: 64 word))) = Some (int n)"
    by code_simp
  then show ?thesis using assms by (metis atLeast0LessThan lessThan_iff set_upt)
qed

lemma table_floor:
  "msb_at x n \<Longrightarrow> ilog2_table x = Some (int n) \<and> llog2_table x = Some (int n)"
  "msb_at y n \<Longrightarrow> llog2_table_64 y = Some (int n)"
  using table_mask [of n] table_mask_64 [of n]
  by (simp_all add: ilog2_table_def llog2_table_def llog2_table_64_def smear_msb) (simp_all add: msb_at_def)

lemma power_between: "2 ^ n < (m :: nat) \<Longrightarrow> m \<le> 2 ^ Suc n \<Longrightarrow> 2 ^ j \<le> m \<Longrightarrow> m < 2 ^ (j + 1) \<Longrightarrow> j = (if m = 2 ^ Suc n then Suc n else n)"
proof -
  assume a: "2 ^ n < m" "m \<le> 2 ^ Suc n" "2 ^ j \<le> m" "m < 2 ^ (j + 1)"
  have "n < j + 1" using less_trans [OF a(1,4)] by (rule power_less_imp_less_exp [rotated]) simp
  moreover have "j \<le> Suc n" using le_trans [OF a(3,2)] by (rule power_le_imp_le_exp [rotated]) simp
  ultimately have "j = n \<or> j = Suc n" by linarith
  then show ?thesis using a by auto
qed

text \<open>Rounding up and down agree on the powers of two.\<close>

lemma floor_is_ceil:
  assumes "2 ^ n < (m :: nat)" "m \<le> 2 ^ Suc n" "2 ^ j \<le> m" "m < 2 ^ (j + 1)"
  shows "j = Suc n \<longleftrightarrow> (\<exists>i. m = 2 ^ i)"
proof -
  note p = power_between [OF assms]
  moreover have "m = 2 ^ Suc n" if "m = 2 ^ i" for i
  proof -
    have "n < i" using assms(1) that by (metis one_less_numeral_iff power_less_imp_less_exp semiring_norm(76))
    moreover have "i \<le> Suc n" using assms(2) that by (metis one_less_numeral_iff power_le_imp_le_exp semiring_norm(76))
    ultimately have "i = Suc n" by linarith
    then show ?thesis using that by simp
  qed
  ultimately show ?thesis by (metis n_not_Suc_n)
qed

section \<open>Properties\<close>

text \<open>\<^verbatim>\<open>ilog2\<close> (as compiled by GCC) is the logarithm to base 2 rounded up, between 0 and 32: the least \<open>n\<close> with
  \<open>x \<le> 2 ^ n\<close>.\<close>

theorem ilog2_ceil:
  "0 \<le> ilog2 x \<and> ilog2 x \<le> 32 \<and> unat x \<le> 2 ^ nat (ilog2 x) \<and> (\<forall>n. 2 ^ n < unat x \<longleftrightarrow> n < nat (ilog2 x) \<and> unat x \<noteq> 0)"
proof (cases "x \<le> 1")
  case True
  then have "unat x \<le> 1" by (simp add: word_le_nat_alt)
  then show ?thesis using True by (auto simp: ilog2_def not_less intro: le_trans [OF _ one_le_power])
next
  case False
  then obtain n where n: "ilog2 x = int (Suc n)" "n < 32" "2 ^ n < unat x" "unat x \<le> 2 ^ Suc n"
    using clz_ceil(1) [of x] by (auto simp: ilog2_def not_le)
  have "2 ^ m < unat x \<longleftrightarrow> m < Suc n" for m
  proof
    assume "2 ^ m < unat x"
    then show "m < Suc n" using n(4) power_less_imp_less_exp [of "2 :: nat" m "Suc n"] by (metis less_le_trans one_less_numeral_iff semiring_norm(76))
  next
    assume "m < Suc n"
    then have "(2 :: nat) ^ m \<le> 2 ^ n" by simp
    then show "2 ^ m < unat x" using n(3) by (rule le_less_trans)
  qed
  moreover have "nat (ilog2 x) = Suc n" "unat x \<noteq> 0" using n(1,3) by linarith+
  ultimately show ?thesis using n(1,2,4) by (simp del: power_Suc unat_eq_zero)
qed

text \<open>The two branches of \<^verbatim>\<open>src/math.c\<close> do not compute the same function: for other compilers the result is the
  logarithm rounded down, so they agree exactly on the powers of two. (The table gives 0 for 0, as the other branch does.)\<close>

theorem log2_branches:
  "ilog2_table x = Some (ilog2 x) \<longleftrightarrow> x = 0 \<or> (\<exists>n. unat x = 2 ^ n)"
proof -
  consider "x = 0" | "x = 1" | "x > 1"
    using less_one [of "unat x"] by (cases "unat x" "1 :: nat" rule: linorder_cases) (auto simp: word_less_nat_alt word_unat_eq_iff)
  then show ?thesis
  proof cases
    case 1
    have "ilog2_table 0 = Some 0" by code_simp
    then show ?thesis using 1 by (simp add: ilog2_def)
  next
    case 2
    have "ilog2_table 1 = Some 0" by code_simp
    then show ?thesis using 2 by (auto simp: ilog2_def intro: exI [of _ 0])
  next
    case 3
    then have "\<not> x \<le> 1" by simp
    then obtain n where n: "ilog2 x = int (Suc n)" "2 ^ n < unat x" "unat x \<le> 2 ^ Suc n"
      using clz_ceil(1) [OF 3] by (auto simp: ilog2_def)
    have nz: "x \<noteq> 0" using n(2) by auto
    then obtain j where j: "msb_at x j" using msb_exists by blast
    have "(int j = int (Suc n)) = (j = Suc n)" by (rule of_nat_eq_iff)
    then show ?thesis using table_floor(1) [OF j] floor_is_ceil [OF n(2,3) msb_range [OF j]] n(1) nz by simp
  qed
qed

text \<open>The same holds of the branches of \<^verbatim>\<open>llog2\<close> for longs of 64 bits, for every number: the table of 64 entries and its multiplier are right.\<close>

theorem llog2_branches_64:
  "llog2_table_64 x = Some (llog2_64 x) \<longleftrightarrow> x = 0 \<or> (\<exists>n. unat x = 2 ^ n)"
proof -
  consider "x = 0" | "x = 1" | "x > 1"
    using less_one [of "unat x"] by (cases "unat x" "1 :: nat" rule: linorder_cases) (auto simp: word_less_nat_alt word_unat_eq_iff)
  then show ?thesis
  proof cases
    case 1
    have "llog2_table_64 0 = Some 0" by code_simp
    then show ?thesis using 1 by (simp add: llog2_64_def)
  next
    case 2
    have "llog2_table_64 1 = Some 0" by code_simp
    then show ?thesis using 2 by (auto simp: llog2_64_def intro: exI [of _ 0])
  next
    case 3
    then have "\<not> x \<le> 1" by simp
    then obtain n where n: "llog2_64 x = int (Suc n)" "2 ^ n < unat x" "unat x \<le> 2 ^ Suc n"
      using clz_ceil(2) [OF 3] by (auto simp: llog2_64_def)
    have nz: "x \<noteq> 0" using n(2) by auto
    then obtain j where j: "msb_at x j" using msb_exists by blast
    have "(int j = int (Suc n)) = (j = Suc n)" by (rule of_nat_eq_iff)
    then show ?thesis using table_floor(2) [OF j] floor_is_ceil [OF n(2,3) msb_range [OF j]] n(1) nz by simp
  qed
qed

end
