(* ===== verification/Spec2Isabelle.thy ===== *)
theory Spec2Isabelle
  imports Boot_Processes Assembly Machine_Stack Quark_Math User_Memory
begin

text \<open>
  A verification development for the Quark microkernel (C, i386).

  \<^bold>\<open>The program.\<close> \<^verbatim>\<open>src/kernel.c\<close> keeps processes, ports, messages, handlers of interrupts and the table of system calls in one
  global structure. It rests on the search trees of \<^verbatim>\<open>avltree.c\<close>, the run queue of \<^verbatim>\<open>priorityqueue.c\<close> and the
  mailboxes of \<^verbatim>\<open>queue.c\<close>; saves and edits processor contexts (\<^verbatim>\<open>x86/context.c\<close>); and uses the kernel heap (\<^verbatim>\<open>heap.c\<close>) on top of
  the page allocator and the mapping functions (\<^verbatim>\<open>mmgr.c\<close>), which edit the page tables (\<^verbatim>\<open>x86/paging.c\<close>). Processes enter through
  \<^verbatim>\<open>do_syscall\<close> and the functions of \<^verbatim>\<open>syscalls.c\<close>. The machine is set up by \<^verbatim>\<open>x86/idt.c\<close> (segments, interrupt gates, the task state),
  \<^verbatim>\<open>x86/apic.c\<close>, \<^verbatim>\<open>x86/msr.c\<close> and \<^verbatim>\<open>x86/interrupts.c\<close>; \<^verbatim>\<open>x86/isr.c\<close> handles exceptions. The boot loader's information is read by
  \<^verbatim>\<open>x86/multiboot2.c\<close>; \<^verbatim>\<open>x86/quark_x86.c\<close> calls \<^verbatim>\<open>kernel_initialize\<close>, which makes processes of the modules that it finds there, with the
  program loader \<^verbatim>\<open>elf.c\<close>. \<^verbatim>\<open>string.c\<close>, \<^verbatim>\<open>math.c\<close>, \<^verbatim>\<open>stdio.c\<close> and \<^verbatim>\<open>x86/putc.c\<close> are the small library.

  \<^bold>\<open>How it is modelled.\<close> Each C function is a HOL function of the same name on explicit state. Its result is an option:
  \<^term>\<open>None\<close> is a run that does not return normally (a fault, an endless loop, in the scheduler also a panic), so an equation with
  \<^term>\<open>Some\<close> says that the code returns. In \<open>Load_Module\<close> and \<open>Boot\<close> a panic is its message (\<open>Inl\<close>). Words have 32 bits and wrap; the
  \<^verbatim>\<open>int\<close>s that cannot leave their range in the theorems are integers. Objects on the kernel heap are in one store per C type.
  Functions that end in \<^verbatim>\<open>load_context\<close> have the outcome \<open>Enters\<close>, or return the context. What the kernel prints while it runs is not part of
  its state, only the pointers that the arguments follow are; what it prints at its start and in exception handlers is.

  \<^bold>\<open>The theories.\<close>
  \<^item> \<open>Prelude\<close>, \<open>Word_Lemmas\<close>: machine types, status codes (\<^verbatim>\<open>types/status.h\<close>), typed stores, arrays, the interface
    \<open>kernel_heap\<close> of \<^verbatim>\<open>kmalloc\<close> and \<^verbatim>\<open>kfree\<close> as a locale, arithmetic for loops.
  \<^item> \<open>Avl_Tree\<close>, \<open>Avl_Table\<close> (\<^verbatim>\<open>avltree.c\<close>): the code on a store of nodes refines operations on trees and these refine finite
    maps; what the rotations do to the recorded heights, including the run in which \<^verbatim>\<open>avl_insert\<close> dereferences NULL.
  \<^item> \<open>Priority_Queue\<close> (\<^verbatim>\<open>priorityqueue.c\<close>): heap order, multiset of entries, sorted extraction; the defects of removal.
  \<^item> \<open>Fifo_Queue\<close> (\<^verbatim>\<open>queue.c\<close>): linked nodes refine lists.
  \<^item> \<open>Platform\<close>, \<open>Context\<close>: what the kernel needs from the layers below, as the locale \<open>kernel_platform\<close>, and
    \<^verbatim>\<open>x86/context.c\<close> on it.
  \<^item> \<open>Kernel_State\<close>, \<open>Kernel_Ports\<close>, \<open>Kernel_Scheduler\<close>, \<open>Kernel_Messages\<close>, \<open>Kernel_Terminate\<close>, \<open>Kernel_Handlers\<close>,
    \<open>Kernel_Syscalls\<close> (\<^verbatim>\<open>kernel.c\<close>, \<^verbatim>\<open>syscalls.c\<close>): the structures and the invariants of heap and tables; ports and handlers
    refine abstract registries; the run queue holds exactly the runnable processes other than the running
    one, also after a process has ended and the senders that waited for it are woken; mailboxes deliver in order; dispatch through the
    table of system calls; what a handler's process gets back when it asks for its state (\<open>stack_platform\<close>, below).
  \<^item> \<open>Kernel_Steps\<close>: the kernel as a state machine whose steps are these operations; the invariants of the components together
    hold in every reachable state. \<^verbatim>\<open>kernel_signal_return\<close> is not a step: it restores a process from where nothing was
    saved (\<open>Kernel_Handlers\<close>), so it keeps no invariant.
  \<^item> \<open>Paging\<close> (\<^verbatim>\<open>x86/paging.c\<close>): physical memory, the walk of the processor through the two-level tables, and the code, which
    reaches the tables through the recursive mapping. The lemmas say which entries the code reads and writes. \<open>Startup\<close>: \<^verbatim>\<open>start_paging\<close>,
    which builds the first tables before there is a mapping.
  \<^item> \<open>Mmgr\<close> (\<^verbatim>\<open>mmgr.c\<close>): what mapping, unmapping and creating address spaces do to the translation of addresses. \<open>Page_Map\<close>:
    \<^verbatim>\<open>initialize_page_map\<close>, which sets up the page allocator.
  \<^item> \<open>Heap\<close> (\<^verbatim>\<open>heap.c\<close>): \<^verbatim>\<open>kmalloc\<close> and the machine as an instance of \<open>kernel_platform\<close>.
  \<^item> \<open>User_Memory\<close> (\<^verbatim>\<open>mmap\<close> and \<^verbatim>\<open>munmap\<close> of \<^verbatim>\<open>syscalls.c\<close>), \<open>Kernel_Machine\<close>: system calls on that machine. A page is a process's (\<open>user_page\<close>)
    when the walk in user mode translates its writes, for which both levels of the tables must be open to user mode.
  \<^item> \<open>Byte_Memory\<close>, \<open>Elf\<close> (\<^verbatim>\<open>elf.c\<close>), \<open>Load_Module\<close> (\<^verbatim>\<open>kernel_load_module\<close>): bytes behind the page tables, the loader on them, and
    how a module becomes a process.
  \<^item> \<open>Descriptors\<close> (\<^verbatim>\<open>idt.c\<close>): descriptors as the bit fields that the processor reads; the tables and the registers that point to
    them. \<open>Apic\<close> (\<^verbatim>\<open>apic.c\<close>, \<^verbatim>\<open>msr.c\<close>, \<^verbatim>\<open>interrupts.c\<close>): the interrupt controllers. \<open>Processor\<close>: registers, a stack,
    instructions, the frames that the processor pushes for interrupts and exceptions, and \<^verbatim>\<open>iret\<close>. \<open>Exceptions\<close> (\<^verbatim>\<open>isr.c\<close>, \<^verbatim>\<open>initialize_screen\<close>): from the
    frame through the gate and the handler back to the program, to a wrong address, or to a stop.
  \<^item> \<open>Multiboot\<close> (\<^verbatim>\<open>multiboot2.c\<close>): reading the tags; the code refines a fold over the list of tags.
  \<^item> \<open>Boot\<close> (\<^verbatim>\<open>kernel_initialize\<close>, \<^verbatim>\<open>quark_x86.c\<close>), \<open>Boot_Processes\<close>: the tables with which the kernel starts satisfy its invariant;
    loading modules and starting the scheduler are steps; so the invariant holds when the first process is entered and after.
  \<^item> \<open>Assembly\<close> (\<^verbatim>\<open>preempt.S\<close>, \<^verbatim>\<open>load_context.S\<close>, \<^verbatim>\<open>entry.S\<close>): the routines as lists of instructions of \<open>Processor\<close>. A
    switch stores and restores every register; what a system call gets and gives back; the arguments with which paging is started.
  \<^item> \<open>Quark_String\<close>, \<open>Quark_Math\<close>, \<open>Console\<close> (\<^verbatim>\<open>string.c\<close>, \<^verbatim>\<open>math.c\<close>, \<^verbatim>\<open>stdio.c\<close>, \<^verbatim>\<open>x86/putc.c\<close>): copying and comparing on a partial byte
    memory, logarithms, formatting and the screen.

  \<^bold>\<open>Interfaces.\<close> \<open>kernel_heap\<close> is extended by \<open>kernel_platform\<close>; the kernel's lemmas are proved in these. libmalloc is a
  library outside of the repository: its functions are the parameter \<open>L\<close>, its documented behaviour the locale \<open>libmalloc\<close>
  (a reserved region was not in use, starts on a block boundary and stays in use until freed), extended by
  \<open>libmalloc_count\<close> where termination needs free memory. A sublocale makes every libmalloc, with the code of \<^verbatim>\<open>heap.c\<close>,
  \<^verbatim>\<open>mmgr.c\<close> and \<^verbatim>\<open>paging.c\<close>, a \<open>kernel_platform\<close>. \<open>stack_platform\<close> adds plain memory, where bytes stay as they are written; \<open>Machine_Stack\<close> shows that
  pages mapped for writing to frames of their own, which hold no page table, are plain on this machine.

  \<^bold>\<open>Bounds and assumptions.\<close> Loops that may not end are \<open>partial_function\<close>s without fuel. The memory unit has no
  translation cache and keeps no accessed and dirty bits. The objects of the kernel heap are kept apart from the bytes of
  memory: the pointers that processes pass are taken to point into memory of the process, which the kernel does not check.
  Interrupts do not occur inside kernel functions (the kernel runs with them disabled). Steps of \<open>Kernel_Steps\<close> that start processes assume room in
  the run queue and an identifier left. Device registers are modelled as far as the code drives them, and
  the serial port is always ready to send. C functions called from assembly keep to the System V calling convention; what else they leave in registers and
  below the stack pointer is arbitrary. The bytes that \<^verbatim>\<open>x86_startup\<close> reads, the boot
  loader's information and the buffers on its stack, are a memory of their own, as \<^verbatim>\<open>multiboot2.c\<close> runs before any of it is reused.

  \<^bold>\<open>Not modelled.\<close> libmalloc, and what the linker and \<^verbatim>\<open>configure\<close> define (parameters); the multiboot header in \<^verbatim>\<open>entry.S\<close>, which is
  constant data; \<^verbatim>\<open>sprintf\<close>, whose body is empty; the parts of the headers that no code uses (the timer and local vector table of
  \<^verbatim>\<open>apic.h\<close>, the section headers of \<^verbatim>\<open>elf.h\<close>, the colours of the screen), prototypes and documentation comments.
\<close>

end
